(* ===== verification/Prelude.thy ===== *)
theory Prelude
  imports Main "HOL-Library.AList" "HOL-Library.Word"
begin

text \<open>
  Shared vocabulary of the development: the machine types of the engine, the model of
  \<open>std::unordered_map\<close> as an association list with distinct keys (the list order is the
  container's iteration order, which C++ leaves unspecified), and the generic facts about
  association lists and lists that several components use.
\<close>

section \<open>Collections\<close>

named_theorems invar_intros \<open>operations that keep a component's invariant\<close>
named_theorems frame_simps \<open>what an operation leaves unchanged\<close>
named_theorems size_simps \<open>sizes of containers after an operation\<close>

section \<open>Machine types\<close>

text \<open>\<open>using Id = std::uint64_t\<close> (vector_index.h, line 10).\<close>

type_synonym Id = "64 word"
type_synonym u64 = "64 word"

text \<open>
  A C \<open>int\<close> compared with a \<open>std::size_t\<close> is converted to 64 unsigned bits first, so a
  negative dimensionality equals no real size.
\<close>

definition size_of_int :: "int \<Rightarrow> nat" where
  "size_of_int d = nat (d mod 2 ^ 64)"

lemma size_of_int_nonneg [simp]: "0 \<le> d \<Longrightarrow> d < 2 ^ 64 \<Longrightarrow> size_of_int d = nat d"
  by (simp add: size_of_int_def)

lemma size_of_int_numeral: "size_of_int (numeral n) = nat (numeral n mod 2 ^ 64)"
  by (simp add: size_of_int_def)

section \<open>Unordered maps\<close>

text \<open>
  \<open>contains\<close>, \<open>operator[] =\<close> and \<open>erase\<close> of \<open>std::unordered_map\<close>. Lookup is \<open>map_of\<close>:
  \<open>None\<close> is the \<open>end()\<close> iterator, or the exception of \<open>at\<close>.
\<close>

type_synonym ('k, 'v) umap = "('k \<times> 'v) list"

abbreviation keys :: "('k, 'v) umap \<Rightarrow> 'k list" where
  "keys m \<equiv> map fst m"

definition contains :: "('k, 'v) umap \<Rightarrow> 'k \<Rightarrow> bool" where
  "contains m k = (map_of m k \<noteq> None)"

abbreviation mput :: "'k \<Rightarrow> 'v \<Rightarrow> ('k, 'v) umap \<Rightarrow> ('k, 'v) umap" where
  "mput \<equiv> AList.update"

abbreviation merase :: "'k \<Rightarrow> ('k, 'v) umap \<Rightarrow> ('k, 'v) umap" where
  "merase \<equiv> AList.delete"

lemma contains_iff: "contains m k \<longleftrightarrow> k \<in> set (keys m)"
  by (auto simp: contains_def map_of_eq_None_iff)

lemma contains_map_of: "contains m k \<longleftrightarrow> (\<exists>v. map_of m k = Some v)"
  by (auto simp: contains_def)

lemma map_of_mput [simp]: "map_of (mput k v m) j = (if j = k then Some v else map_of m j)"
  by (simp add: AList.update_conv')

lemma map_of_merase [simp]: "map_of (merase k m) j = (if j = k then None else map_of m j)"
  by (simp add: AList.delete_conv')

lemma contains_mput [simp]: "contains (mput k v m) j \<longleftrightarrow> j = k \<or> contains m j"
  by (simp add: contains_def)

lemma contains_merase [simp]: "contains (merase k m) j \<longleftrightarrow> j \<noteq> k \<and> contains m j"
  by (simp add: contains_def)

lemma contains_Nil [simp]: "\<not> contains [] k"
  by (simp add: contains_def)

lemma distinct_keys_mput [simp]: "distinct (keys (mput k v m)) = distinct (keys m)"
  by (induction m) (auto simp: AList.update_keys)

lemma distinct_keys_merase [simp]: "distinct (keys m) \<Longrightarrow> distinct (keys (merase k m))"
  by (rule AList.distinct_delete)

lemma set_keys_mput [simp]: "set (keys (mput k v m)) = insert k (set (keys m))"
  by (auto simp: AList.update_keys)

lemma set_keys_merase [simp]: "set (keys (merase k m)) = set (keys m) - {k}"
  by (simp add: AList.delete_keys)

lemma image_fst_mput [simp]: "fst ` set (mput k v m) = insert k (fst ` set m)"
  using set_keys_mput [of k v m] by simp

lemma image_fst_merase [simp]: "fst ` set (merase k m) = fst ` set m - {k}"
  using set_keys_merase [of k m] by simp

lemma contains_in_set: "(k, v) \<in> set m \<Longrightarrow> contains m k"
  by (force simp: contains_iff)

lemma mput_new: "\<not> contains m k \<Longrightarrow> mput k v m = m @ [(k, v)]"
  by (induction m) (auto simp: contains_iff)

lemma keys_mput_old: "contains m k \<Longrightarrow> keys (mput k v m) = keys m"
  by (simp add: AList.update_keys contains_iff)

lemma length_mput: "length (mput k v m) = (if contains m k then length m else Suc (length m))"
proof (cases "contains m k")
  case True
  then have "length (keys (mput k v m)) = length (keys m)"
    by (simp only: keys_mput_old)
  with True show ?thesis by simp
qed (simp add: mput_new)

lemma merase_filter: "merase k m = filter (\<lambda>p. fst p \<noteq> k) m"
  by (auto simp: AList.delete_eq case_prod_beta' intro: filter_cong)

lemma length_merase:
  assumes "distinct (keys m)" and "contains m k"
  shows "Suc (length (merase k m)) = length m"
proof -
  have "length (keys (merase k m)) = card (set (keys m) - {k})"
    using assms(1) by (metis distinct_card distinct_keys_merase set_keys_merase)
  also have "Suc \<dots> = card (set (keys m))"
    using assms(2) by (intro card_Suc_Diff1) (auto simp: contains_iff)
  also have "\<dots> = length m"
    using assms(1) distinct_card by fastforce
  finally show ?thesis by simp
qed

lemma map_of_in_keys: "map_of m k = Some v \<Longrightarrow> k \<in> set (keys m)"
  by (metis image_set map_of_SomeD fst_conv image_eqI)

lemma in_keys_map_of: "k \<in> set (keys m) \<Longrightarrow> \<exists>v. map_of m k = Some v"
  using contains_iff contains_map_of by metis

lemma map_of_filter_keys:
  "distinct (keys m) \<Longrightarrow>
   map_of (filter P m) k = (case map_of m k of None \<Rightarrow> None
     | Some v \<Rightarrow> if P (k, v) then Some v else None)"
  by (induction m) (auto simp: map_of_eq_None_iff split: option.splits)

lemma distinct_keys_filter: "distinct (keys m) \<Longrightarrow> distinct (keys (filter P m))"
  by (induction m) auto

section \<open>Lists\<close>

lemma distinct_length_le_card: "distinct xs \<Longrightarrow> set xs \<subseteq> A \<Longrightarrow> finite A \<Longrightarrow> length xs \<le> card A"
  by (metis card_mono distinct_card)

lemma take_map_comm: "take k (map f xs) = map f (take k xs)"
  by (rule take_map)

lemma set_take_D: "x \<in> set (take n xs) \<Longrightarrow> x \<in> set xs"
  by (rule in_set_takeD)

section \<open>Fallible traversals\<close>

text \<open>
  A loop whose body can throw (\<open>None\<close>) or go on with a new state (\<open>Some\<close>).
\<close>

fun for_each :: "('a \<Rightarrow> 's \<Rightarrow> 's option) \<Rightarrow> 'a list \<Rightarrow> 's \<Rightarrow> 's option" where
  "for_each f [] s = Some s"
| "for_each f (x # xs) s = (case f x s of None \<Rightarrow> None | Some s' \<Rightarrow> for_each f xs s')"

lemma for_each_invar:
  assumes "P s" and "\<And>x s. x \<in> set xs \<Longrightarrow> P s \<Longrightarrow> \<exists>s'. f x s = Some s' \<and> P s'"
  shows "\<exists>s'. for_each f xs s = Some s' \<and> P s'"
  using assms
proof (induction xs arbitrary: s)
  case (Cons x xs)
  from Cons.prems obtain s1 where s1: "f x s = Some s1" "P s1" by force
  obtain s' where "for_each f xs s1 = Some s' \<and> P s'"
    using Cons.IH [OF s1(2)] Cons.prems(2) by auto
  with s1 show ?case by simp
qed simp

lemma for_each_append:
  "for_each f (xs @ ys) s = (case for_each f xs s of None \<Rightarrow> None | Some s' \<Rightarrow> for_each f ys s')"
  by (induction xs arbitrary: s) (auto split: option.splits)

section \<open>Lists updated in one place\<close>

lemma sum_list_moved:
  fixes f :: "'b \<Rightarrow> 'c :: comm_monoid_add"
  assumes "i < length xs"
  shows "sum_list (map f (xs[i := x])) + f (xs ! i) = sum_list (map f xs) + f x"
  using assms
proof (induction xs arbitrary: i)
  case (Cons y ys)
  show ?case
  proof (cases i)
    case (Suc j)
    with Cons.IH [of j] Cons.prems show ?thesis by (simp add: add.assoc)
  qed (simp add: ac_simps)
qed simp

lemma in_update: "x \<in> set (xs[i := y]) \<Longrightarrow> x = y \<or> x \<in> set xs"
  using set_update_subset_insert [of xs i y] by auto

lemma sum_list_nothing:
  fixes f :: "'b \<Rightarrow> 'c :: comm_monoid_add"
  shows "(\<And>x. x \<in> set xs \<Longrightarrow> f x = 0) \<Longrightarrow> sum_list (map f xs) = 0"
  by (induction xs) simp_all

end
