(* ===== verification/Float32.thy ===== *)
theory Float32
  imports Prelude
begin

text \<open>
  The C++ \<open>float\<close> of the engine: IEEE 754 binary32 with round-to-nearest-even, each
  operation rounded on its own (the build turns language extensions off, so no fused
  multiply-add). Every finite binary32 number is an integer multiple of \<open>2 ^ -149\<close>, so a
  finite value is a sign and a magnitude counted in that unit; the two infinities and one
  NaN complete the type (the engine never looks at a NaN payload).

  The theory holds the arithmetic the engine uses, that its results are always
  representable (\<open>f32_ok\<close>), that rounding is exact on representable values and at most
  half a unit in the last place away otherwise, and that the comparison is a strict weak
  order once NaN is left out.
\<close>

section \<open>Values\<close>

datatype f32 = NaN | Inf bool | Fin bool nat

text \<open>The sign flag is true for negative values.\<close>

definition sval :: "bool \<Rightarrow> nat \<Rightarrow> int" where
  "sval s n = (if s then - int n else int n)"

fun nbits :: "nat \<Rightarrow> nat" where
  "nbits n = (if n = 0 then 0 else Suc (nbits (n div 2)))"

declare nbits.simps [simp del]

text \<open>24 significant bits, least exponent \<open>-149\<close>, magnitude below \<open>2 ^ 128\<close>.\<close>

definition f32_repr :: "nat \<Rightarrow> bool" where
  "f32_repr n \<longleftrightarrow> n < 2 ^ 277 \<and> n mod 2 ^ (nbits n - 24) = 0"

fun f32_ok :: "f32 \<Rightarrow> bool" where
  "f32_ok NaN = True"
| "f32_ok (Inf s) = True"
| "f32_ok (Fin s n) = f32_repr n"

fun is_nan :: "f32 \<Rightarrow> bool" where
  "is_nan NaN = True"
| "is_nan _ = False"

fun is_finite :: "f32 \<Rightarrow> bool" where
  "is_finite (Fin s n) = True"
| "is_finite _ = False"

section \<open>Rounding\<close>

definition round_div_even :: "nat \<Rightarrow> nat \<Rightarrow> nat" where
  "round_div_even p d =
     (let q = p div d; r = p mod d
      in if 2 * r < d \<or> (2 * r = d \<and> even q) then q else Suc q)"

text \<open>The rational \<open>p / q\<close>, counted in units of \<open>2 ^ -149\<close>, to 24 significant bits.\<close>

definition rnd :: "nat \<Rightarrow> nat \<Rightarrow> nat" where
  "rnd p q = (let k = nbits (p div q) - 24 in round_div_even p (q * 2 ^ k) * 2 ^ k)"

definition fin :: "bool \<Rightarrow> nat \<Rightarrow> f32" where
  "fin s n = (if n < 2 ^ 277 then Fin s n else Inf s)"

section \<open>Arithmetic\<close>

definition f32_of_nat :: "nat \<Rightarrow> f32" where
  "f32_of_nat n = fin False (rnd (n * 2 ^ 149) 1)"

abbreviation f32_zero :: f32 where "f32_zero \<equiv> Fin False 0"

definition f32_one :: f32 where "f32_one = Fin False (2 ^ 149)"

fun fneg :: "f32 \<Rightarrow> f32" where
  "fneg NaN = NaN"
| "fneg (Inf s) = Inf (\<not> s)"
| "fneg (Fin s n) = Fin (\<not> s) n"

fun fadd :: "f32 \<Rightarrow> f32 \<Rightarrow> f32" where
  "fadd NaN _ = NaN"
| "fadd _ NaN = NaN"
| "fadd (Inf s) (Inf t) = (if s = t then Inf s else NaN)"
| "fadd (Inf s) (Fin _ _) = Inf s"
| "fadd (Fin _ _) (Inf t) = Inf t"
| "fadd (Fin s m) (Fin t n) =
     (let z = sval s m + sval t n
      in if z = 0 then Fin (s \<and> t) 0 else fin (z < 0) (rnd (nat \<bar>z\<bar>) 1))"

definition fsub :: "f32 \<Rightarrow> f32 \<Rightarrow> f32" where
  "fsub a b = fadd a (fneg b)"

fun fmul :: "f32 \<Rightarrow> f32 \<Rightarrow> f32" where
  "fmul NaN _ = NaN"
| "fmul _ NaN = NaN"
| "fmul (Inf s) (Inf t) = Inf (s \<noteq> t)"
| "fmul (Inf s) (Fin t n) = (if n = 0 then NaN else Inf (s \<noteq> t))"
| "fmul (Fin s m) (Inf t) = (if m = 0 then NaN else Inf (s \<noteq> t))"
| "fmul (Fin s m) (Fin t n) = fin (s \<noteq> t) (rnd (m * n) (2 ^ 149))"

fun fdiv :: "f32 \<Rightarrow> f32 \<Rightarrow> f32" where
  "fdiv NaN _ = NaN"
| "fdiv _ NaN = NaN"
| "fdiv (Inf s) (Inf t) = NaN"
| "fdiv (Inf s) (Fin t n) = Inf (s \<noteq> t)"
| "fdiv (Fin s m) (Inf t) = Fin (s \<noteq> t) 0"
| "fdiv (Fin s m) (Fin t n) =
     (if n = 0 then (if m = 0 then NaN else Inf (s \<noteq> t))
      else fin (s \<noteq> t) (rnd (m * 2 ^ 149) n))"

text \<open>Integer square root, two bits at a time; a remainder becomes a sticky half unit.\<close>

fun isqrt :: "nat \<Rightarrow> nat" where
  "isqrt n = (if n = 0 then 0
     else let r = 2 * isqrt (n div 4) in if (r + 1) * (r + 1) \<le> n then r + 1 else r)"

declare isqrt.simps [simp del]

fun fsqrt :: "f32 \<Rightarrow> f32" where
  "fsqrt NaN = NaN"
| "fsqrt (Inf s) = (if s then NaN else Inf False)"
| "fsqrt (Fin s n) =
     (if n = 0 then Fin s 0 else if s then NaN
      else let N = n * 2 ^ 149; r = isqrt N
           in fin False (rnd (2 * r + (if r * r = N then 0 else 1)) 2))"

text \<open>The operators \<open><\<close> and \<open>==\<close>: anything with a NaN is false.\<close>

fun flt :: "f32 \<Rightarrow> f32 \<Rightarrow> bool" where
  "flt NaN _ = False"
| "flt _ NaN = False"
| "flt (Inf s) (Inf t) = (s \<and> \<not> t)"
| "flt (Inf s) (Fin _ _) = s"
| "flt (Fin _ _) (Inf t) = (\<not> t)"
| "flt (Fin s m) (Fin t n) = (sval s m < sval t n)"

fun feq :: "f32 \<Rightarrow> f32 \<Rightarrow> bool" where
  "feq NaN _ = False"
| "feq _ NaN = False"
| "feq (Inf s) (Inf t) = (s = t)"
| "feq (Inf s) (Fin _ _) = False"
| "feq (Fin _ _) (Inf t) = False"
| "feq (Fin s m) (Fin t n) = (sval s m = sval t n)"

text \<open>\<open>std::max (a, b)\<close> is \<open>a < b ? b : a\<close>, \<open>std::min (a, b)\<close> is \<open>b < a ? b : a\<close>.\<close>

definition fmax :: "f32 \<Rightarrow> f32 \<Rightarrow> f32" where
  "fmax a b = (if flt a b then b else a)"

definition fmin :: "f32 \<Rightarrow> f32 \<Rightarrow> f32" where
  "fmin a b = (if flt b a then b else a)"

text \<open>\<open>std::numeric_limits<float>::max ()\<close>: \<open>(2 ^ 24 - 1) * 2 ^ 104\<close>.\<close>

definition f32_max :: f32 where
  "f32_max = Fin False ((2 ^ 24 - 1) * 2 ^ 253)"

section \<open>The comparison as an order\<close>

text \<open>A linear key: infinities outside the finite values, signed zeros together.\<close>

fun f32_key :: "f32 \<Rightarrow> int \<times> int" where
  "f32_key NaN = (2, 0)"
| "f32_key (Inf s) = (if s then -1 else 1, 0)"
| "f32_key (Fin s n) = (0, sval s n)"

definition klt :: "int \<times> int \<Rightarrow> int \<times> int \<Rightarrow> bool" where
  "klt a b \<longleftrightarrow> fst a < fst b \<or> (fst a = fst b \<and> snd a < snd b)"

lemma flt_key: "\<not> is_nan a \<Longrightarrow> \<not> is_nan b \<Longrightarrow> flt a b \<longleftrightarrow> klt (f32_key a) (f32_key b)"
  by (cases a; cases b) (auto simp: klt_def)

lemma feq_key: "\<not> is_nan a \<Longrightarrow> \<not> is_nan b \<Longrightarrow> feq a b \<longleftrightarrow> f32_key a = f32_key b"
  by (cases a; cases b) auto

lemma flt_nan [simp]: "is_nan a \<Longrightarrow> \<not> flt a b" "is_nan b \<Longrightarrow> \<not> flt a b"
  by (cases a; cases b; simp)+

lemma flt_irrefl [simp]: "\<not> flt a a"
  by (cases a) auto

lemma flt_trans: "flt a b \<Longrightarrow> flt b c \<Longrightarrow> flt a c"
  by (cases a; cases b; cases c) auto

lemma flt_asym: "flt a b \<Longrightarrow> \<not> flt b a"
  using flt_trans flt_irrefl by blast

lemma flt_trichotomy:
  "\<not> is_nan a \<Longrightarrow> \<not> is_nan b \<Longrightarrow> flt a b \<or> feq a b \<or> flt b a"
  by (cases a; cases b) auto

section \<open>Rounding: facts\<close>

lemma nbits_0 [simp]: "nbits 0 = 0"
  by (simp add: nbits.simps)

lemma nbits_lt: "n < 2 ^ nbits n"
proof (induction n rule: nbits.induct)
  case (1 n)
  show ?case
  proof (cases "n = 0")
    case False
    with 1 have "n div 2 < 2 ^ nbits (n div 2)" by simp
    then have "n < 2 * 2 ^ nbits (n div 2)" by linarith
    with False show ?thesis by (subst nbits.simps) simp
  qed simp
qed

lemma nbits_le: "n < 2 ^ k \<Longrightarrow> nbits n \<le> k"
proof (induction n arbitrary: k rule: nbits.induct)
  case (1 n)
  show ?case
  proof (cases "n = 0")
    case False
    with 1(2) obtain j where k: "k = Suc j" by (cases k) auto
    with 1(2) have "n div 2 < 2 ^ j" by auto
    with 1(1) False have "nbits (n div 2) \<le> j" by blast
    with False k show ?thesis by (subst nbits.simps) simp
  qed simp
qed

lemma round_div_even_le: "0 < d \<Longrightarrow> p < t * d \<Longrightarrow> round_div_even p d \<le> t"
proof -
  assume "0 < d" "p < t * d"
  then have "p div d < t" by (simp add: less_mult_imp_div_less)
  then show ?thesis by (auto simp: round_div_even_def Let_def)
qed

lemma round_div_even_err:
  assumes "0 < d"
  shows "2 * \<bar>int (round_div_even p d * d) - int p\<bar> \<le> int d"
proof -
  have p: "int p = int (p div d) * int d + int (p mod d)"
    by (metis div_mult_mod_eq of_nat_add of_nat_mult)
  have r: "p mod d < d" using assms by simp
  show ?thesis
  proof (cases "2 * (p mod d) < d \<or> (2 * (p mod d) = d \<and> even (p div d))")
    case True
    then have "round_div_even p d = p div d" by (simp add: round_div_even_def Let_def)
    with True p show ?thesis by auto
  next
    case False
    then have "round_div_even p d = Suc (p div d)" and "d \<le> 2 * (p mod d)"
      by (auto simp: round_div_even_def Let_def)
    with r p show ?thesis by (simp add: algebra_simps abs_if)
  qed
qed

lemma round_div_even_exact: "0 < d \<Longrightarrow> round_div_even (t * d) d = t"
  by (simp add: round_div_even_def)

lemma nbits_shift: "0 < t \<Longrightarrow> nbits (t * 2 ^ k) = nbits t + k"
proof (induction k)
  case (Suc k)
  have "nbits (t * 2 ^ Suc k) = Suc (nbits ((t * 2 ^ Suc k) div 2))"
    using Suc.prems by (subst nbits.simps) simp
  also have "(t * 2 ^ Suc k) div 2 = t * 2 ^ k" by simp
  finally show ?case using Suc by simp
qed simp

lemma shift_mod_nbits:
  assumes "t \<le> 2 ^ 24"
  shows "(t * 2 ^ k) mod 2 ^ (nbits (t * 2 ^ k) - 24) = 0"
proof (cases "t = 0 \<or> t = 2 ^ 24")
  case True
  have n25: "nbits (2 ^ 24) = (25::nat)"
    by (simp add: nbits.simps)
  show ?thesis
  proof (cases "t = 0")
    case False
    with True have t: "t = 2 ^ 24" by blast
    have "nbits (t * 2 ^ k) = 25 + k"
      unfolding t using nbits_shift [of "2 ^ 24" k] n25 by simp
    moreover have "t * 2 ^ k = 2 ^ 23 * 2 ^ Suc k" unfolding t by simp
    ultimately show ?thesis by simp
  qed simp
next
  case False
  with assms have t: "0 < t" "t < 2 ^ 24" by auto
  then have "nbits t \<le> 24" by (intro nbits_le)
  then have "nbits (t * 2 ^ k) - 24 \<le> k" using t nbits_shift [of t k] by simp
  then have "2 ^ (nbits (t * 2 ^ k) - 24) dvd (2 ^ k :: nat)" by (rule le_imp_power_dvd)
  then show ?thesis by (simp add: mod_eq_0_iff_dvd)
qed

text \<open>The rounded magnitude has at most 24 significant bits.\<close>

lemma rnd_mod:
  assumes "0 < q"
  shows "rnd p q mod 2 ^ (nbits (rnd p q) - 24) = 0"
proof -
  define k where "k = nbits (p div q) - 24"
  have "p div q < 2 ^ (24 + k)"
    by (rule less_le_trans [OF nbits_lt power_increasing]) (auto simp: k_def)
  then have "p < 2 ^ (24 + k) * q" using assms by (simp add: div_less_iff_less_mult)
  then have "p < 2 ^ 24 * (q * 2 ^ k)" by (simp add: power_add ac_simps)
  then have "round_div_even p (q * 2 ^ k) \<le> 2 ^ 24"
    using assms by (intro round_div_even_le) auto
  then show ?thesis by (simp add: rnd_def Let_def k_def [symmetric] shift_mod_nbits)
qed

lemma fin_ok: "0 < q \<Longrightarrow> f32_ok (fin s (rnd p q))"
  by (simp add: fin_def f32_repr_def rnd_mod)

lemma f32_repr_0 [simp]: "f32_repr 0"
  by (simp add: f32_repr_def)

text \<open>Half a unit in the last place.\<close>

lemma rnd_err:
  assumes "0 < q"
  shows "2 * \<bar>int (rnd p q * q) - int p\<bar> \<le> int (q * 2 ^ (nbits (p div q) - 24))"
  using round_div_even_err [of "q * 2 ^ (nbits (p div q) - 24)" p] assms
  by (simp add: rnd_def Let_def ac_simps)

lemma rnd_exact:
  assumes "0 < q" and "n mod 2 ^ (nbits n - 24) = 0"
  shows "rnd (n * q) q = n"
proof -
  define k where "k = nbits n - 24"
  obtain t where n: "n = t * 2 ^ k" using assms(2) by (auto simp: k_def [symmetric] mult.commute)
  have "n * q = t * (q * 2 ^ k)" by (simp add: n ac_simps)
  then have "round_div_even (n * q) (q * 2 ^ k) = t"
    using assms(1) by (metis nat_0_less_mult_iff round_div_even_exact zero_less_numeral zero_less_power)
  moreover have "rnd (n * q) q = round_div_even (n * q) (q * 2 ^ k) * 2 ^ k"
    using assms(1) by (simp add: rnd_def Let_def k_def)
  ultimately show ?thesis by (simp only: n)
qed

lemma rnd_repr: "f32_repr n \<Longrightarrow> fin s (rnd n 1) = Fin s n"
  using rnd_exact [of 1 n] by (simp add: f32_repr_def fin_def)

lemma rnd_0 [simp]: "rnd 0 q = 0"
  by (cases "q = 0") (simp_all add: rnd_def round_div_even_def)

lemma fin_cases: "fin s n = Fin s n \<or> fin s n = Inf s"
  by (simp add: fin_def)

lemma is_nan_fin [simp]: "\<not> is_nan (fin s n)"
  by (simp add: fin_def)

section \<open>Representable results\<close>

lemma f32_ok_fneg: "f32_ok a \<Longrightarrow> f32_ok (fneg a)"
  by (cases a) auto

lemma f32_ok_fadd: "f32_ok (fadd a b)" if "f32_ok a" "f32_ok b"
  using that by (cases a; cases b) (auto simp: Let_def fin_ok)

lemma f32_ok_fsub: "f32_ok a \<Longrightarrow> f32_ok b \<Longrightarrow> f32_ok (fsub a b)"
  by (simp add: fsub_def f32_ok_fadd f32_ok_fneg)

lemma f32_ok_fmul: "f32_ok (fmul a b)"
  by (cases a; cases b) (auto simp: fin_ok)

lemma f32_ok_fdiv: "f32_ok (fdiv a b)"
  by (cases a; cases b) (auto simp: fin_ok)

lemma f32_ok_fsqrt: "f32_ok (fsqrt a)"
  by (cases a) (auto simp: Let_def fin_ok)

lemma f32_ok_of_nat: "f32_ok (f32_of_nat n)"
  by (simp add: f32_of_nat_def fin_ok)

lemmas f32_ok_ops = f32_ok_fneg f32_ok_fadd f32_ok_fsub f32_ok_fmul f32_ok_fdiv
  f32_ok_fsqrt f32_ok_of_nat

section \<open>Non-negative values\<close>

text \<open>Results that are neither negative nor NaN: sums of squares and their roots.\<close>

fun nonneg :: "f32 \<Rightarrow> bool" where
  "nonneg NaN = False"
| "nonneg (Inf s) = (\<not> s)"
| "nonneg (Fin s n) = (\<not> s)"

lemma nonneg_not_nan: "nonneg a \<Longrightarrow> \<not> is_nan a"
  by (cases a) auto

lemma nonneg_fin [simp]: "nonneg (fin s n) = (\<not> s)"
  by (simp add: fin_def)

lemma nonneg_fadd: "nonneg a \<Longrightarrow> nonneg b \<Longrightarrow> nonneg (fadd a b)"
  by (cases a; cases b) (auto simp: sval_def Let_def)

lemma nonneg_square: "\<not> is_nan a \<Longrightarrow> nonneg (fmul a a)"
  by (cases a) auto

lemma nonneg_fsqrt: "nonneg a \<Longrightarrow> nonneg (fsqrt a)"
  by (cases a) (auto simp: Let_def)

lemma fsub_finite_not_nan: "is_finite a \<Longrightarrow> is_finite b \<Longrightarrow> \<not> is_nan (fsub a b)"
  by (cases a; cases b) (auto simp: fsub_def Let_def)

section \<open>Commutativity\<close>

lemma fmul_commute: "fmul a b = fmul b a"
proof (cases a; cases b)
  fix s m t n assume "a = Fin s m" "b = Fin t n"
  then show ?thesis by (cases s; cases t) (simp_all add: mult.commute)
qed auto

lemma fadd_commute: "fadd a b = fadd b a"
  by (cases a; cases b) (auto simp: Let_def add.commute)

lemma fsub_swap_square: "fmul (fsub a b) (fsub a b) = fmul (fsub b a) (fsub b a)"
proof (cases "(\<exists>s m. a = Fin s m) \<and> (\<exists>t n. b = Fin t n)")
  case True
  then obtain s m t n where ab: "a = Fin s m" "b = Fin t n" by blast
  define z where "z = sval s m + sval (\<not> t) n"
  have z': "sval t n + sval (\<not> s) m = - z"
    by (auto simp: z_def sval_def)
  show ?thesis
  proof (cases "z = 0")
    case False
    have "fsub a b = fin (z < 0) (rnd (nat \<bar>z\<bar>) 1)"
      using False ab by (simp add: fsub_def z_def Let_def)
    moreover have "fsub b a = fin (- z < 0) (rnd (nat \<bar>z\<bar>) 1)"
      using False ab z' by (simp add: fsub_def Let_def)
    ultimately show ?thesis by (auto simp: fin_def)
  qed (use ab z' in \<open>auto simp: fsub_def z_def\<close>)
qed (cases a; cases b; auto simp: fsub_def)

lemma fsub_self: "is_finite a \<Longrightarrow> fsub a a = f32_zero"
  by (cases a) (auto simp: fsub_def sval_def)

section \<open>Evaluation by rewriting\<close>

lemma isqrt_bounds: "isqrt n * isqrt n \<le> n \<and> n < (isqrt n + 1) * (isqrt n + 1)"
proof (induction n rule: isqrt.induct)
  case (1 n)
  show ?case
  proof (cases "n = 0")
    case False
    define r where "r = isqrt (n div 4)"
    have r: "r * r \<le> n div 4" "n div 4 < (r + 1) * (r + 1)" using 1 False by (simp_all add: r_def)
    have "4 * (r * r) \<le> n" using r(1) by linarith
    moreover have "n < 4 * ((r + 1) * (r + 1))" using r(2) by linarith
    moreover have "isqrt n = (if (2 * r + 1) * (2 * r + 1) \<le> n then 2 * r + 1 else 2 * r)"
      using False by (simp add: isqrt.simps [of n] r_def Let_def)
    ultimately show ?thesis by (simp add: algebra_simps)
  qed (simp add: isqrt.simps)
qed

lemma isqrt_square: "isqrt (r * r) = r"
proof (rule antisym)
  show "isqrt (r * r) \<le> r"
  proof (rule ccontr)
    assume "\<not> isqrt (r * r) \<le> r"
    then have "r * r < isqrt (r * r) * isqrt (r * r)" by (intro mult_strict_mono) auto
    then show False using isqrt_bounds [of "r * r"] by simp
  qed
  show "r \<le> isqrt (r * r)"
  proof (rule ccontr)
    assume "\<not> r \<le> isqrt (r * r)"
    then have "(isqrt (r * r) + 1) * (isqrt (r * r) + 1) \<le> r * r" by (intro mult_mono) auto
    then show False using isqrt_bounds [of "r * r"] by simp
  qed
qed

lemma fsqrt_square:
  assumes "n * 2 ^ 149 = r * r" and "0 < n"
  shows "fsqrt (Fin False n) = fin False (rnd (r * 2) 2)"
  using assms by (simp add: isqrt_square mult.commute)

lemma fsqrt_one: "fsqrt f32_one = f32_one"
proof -
  have "f32_repr (2 ^ 149)" using shift_mod_nbits [of 1 149] by (simp add: f32_repr_def)
  then have "rnd (2 ^ 149 * 2) 2 = 2 ^ 149" by (intro rnd_exact) (simp_all add: f32_repr_def)
  then show ?thesis
    using fsqrt_square [of "2 ^ 149" "2 ^ 149"] by (simp only: f32_one_def fin_def) simp
qed

lemma nbits_eval: "nbits (numeral (num.Bit0 k)) = Suc (nbits (numeral k))"
  "nbits (numeral (num.Bit1 k)) = Suc (nbits (numeral k))" "nbits (Suc 0) = 1"
  by (simp_all add: nbits.simps [of "numeral (num.Bit0 k)"] nbits.simps [of "numeral (num.Bit1 k)"] nbits.simps [of "Suc 0"])

lemmas float_eval = fsub_def sval_def fin_def rnd_def nbits_eval round_div_even_def f32_one_def

end
