(* ===== verification/StreamText.thy ===== *)
theory StreamText
  imports Prelude Float32
begin

text \<open>
  What the write-ahead log uses of the C++ streams: \<open><<\<close> of unsigned integers, integers and
  floats in the default format (\<open>%g\<close>, six significant digits), and \<open>>>\<close> of words, integers and
  floats. A stream is its failure flag and the characters left. An extraction into a variable
  that leaves it unset is \<open>None\<close>. Shown: integers survive the round trip, and a float does
  exactly when its six digits denote it (\<open>wal_stable\<close>).
\<close>

section \<open>Characters and digits\<close>

definition is_space :: "char \<Rightarrow> bool" where
  "is_space c \<longleftrightarrow> c \<in> set [CHR '' '', CHR 0x09, CHR 0x0A, CHR 0x0B, CHR 0x0C, CHR 0x0D]"

definition is_digit :: "char \<Rightarrow> bool" where
  "is_digit c \<longleftrightarrow> c \<in> set ''0123456789''"

definition digit_char :: "nat \<Rightarrow> char" where
  "digit_char d = ''0123456789'' ! d"

definition digit_val :: "char \<Rightarrow> nat" where
  "digit_val c = of_char c - 48"

fun show_nat :: "nat \<Rightarrow> string" where
  "show_nat n = (if n < 10 then [digit_char n] else show_nat (n div 10) @ [digit_char (n mod 10)])"

declare show_nat.simps [simp del]

definition read_digits :: "string \<Rightarrow> nat" where
  "read_digits s = foldl (\<lambda>n c. 10 * n + digit_val c) 0 s"

definition show_int :: "int \<Rightarrow> string" where
  "show_int i = (if i < 0 then CHR ''-'' # show_nat (nat (- i)) else show_nat (nat i))"

lemma digit_char_ok: "d < 10 \<Longrightarrow> is_digit (digit_char d) \<and> digit_val (digit_char d) = d"
proof -
  assume "d < 10"
  then have "d \<in> set [0, 1, 2, 3, 4, 5, 6, 7, 8, 9]" by simp arith
  then show ?thesis by (auto simp: digit_char_def is_digit_def digit_val_def)
qed

lemma show_nat_digits: "list_all is_digit (show_nat n) \<and> show_nat n \<noteq> []"
proof (induction n rule: show_nat.induct)
  case (1 n)
  then show ?case
    using digit_char_ok [of n] digit_char_ok [of "n mod 10"] by (simp add: show_nat.simps [of n])
qed

lemma read_show_nat [simp]: "read_digits (show_nat n) = n"
proof (induction n rule: show_nat.induct)
  case (1 n)
  then show ?case
    using digit_char_ok [of n] digit_char_ok [of "n mod 10"]
    by (auto simp: show_nat.simps [of n] read_digits_def)
qed

lemma show_nat_all: "c \<in> set (show_nat n) \<Longrightarrow> is_digit c"
  using show_nat_digits [of n] by (simp add: list_all_iff)

lemma is_digit_not: "is_digit c \<Longrightarrow> c \<noteq> CHR ''-'' \<and> c \<noteq> CHR ''+'' \<and> c \<noteq> CHR ''.'' \<and> \<not> is_space c"
  by (auto simp: is_digit_def is_space_def)

lemma takeWhile_digits:
  assumes "list_all is_digit ds" and "case rest of [] \<Rightarrow> True | c # _ \<Rightarrow> \<not> is_digit c"
  shows "takeWhile is_digit (ds @ rest) = ds" "dropWhile is_digit (ds @ rest) = rest"
  using assms by (induction ds) (auto split: list.splits)

section \<open>Floats, written\<close>

definition pow10_le :: "int \<Rightarrow> nat \<Rightarrow> bool" where
  "pow10_le e n = (if 0 \<le> e then 10 ^ nat e * 2 ^ 149 \<le> n else 2 ^ 149 \<le> n * 10 ^ nat (- e))"

text \<open>The decimal exponent of \<open>n / 2 ^ 149\<close>, and its six digits, rounded to even.\<close>

fun exp_below :: "nat \<Rightarrow> nat \<Rightarrow> int" where
  "exp_below 0 n = -45"
| "exp_below (Suc k) n = (if pow10_le (int (Suc k) - 45) n then int (Suc k) - 45 else exp_below k n)"

definition dec_exp :: "nat \<Rightarrow> int" where
  "dec_exp n = exp_below 83 n"

definition six_digits :: "int \<Rightarrow> nat \<Rightarrow> nat" where
  "six_digits e n = (if 5 \<le> e then round_div_even n (10 ^ nat (e - 5) * 2 ^ 149)
     else round_div_even (n * 10 ^ nat (5 - e)) (2 ^ 149))"

definition strip_zeros :: "string \<Rightarrow> string" where
  "strip_zeros s = rev (dropWhile (\<lambda>c. c = CHR ''0'') (rev s))"

definition show_frac :: "string \<Rightarrow> string" where
  "show_frac s = (let t = strip_zeros s in if t = [] then [] else CHR ''.'' # t)"

definition show_exp :: "int \<Rightarrow> string" where
  "show_exp x = CHR ''e'' # (if x < 0 then CHR ''-'' else CHR ''+'') #
     (if \<bar>x\<bar> < 10 then CHR ''0'' # show_nat (nat \<bar>x\<bar>) else show_nat (nat \<bar>x\<bar>))"

definition show_digits :: "string \<Rightarrow> int \<Rightarrow> string" where
  "show_digits ds x =
     (if x < -4 \<or> 6 \<le> x then take 1 ds @ show_frac (drop 1 ds) @ show_exp x
      else if 0 \<le> x then take (nat x + 1) ds @ show_frac (drop (nat x + 1) ds)
      else CHR ''0'' # show_frac (replicate (nat (- x - 1)) (CHR ''0'') @ ds))"

definition show_magnitude :: "nat \<Rightarrow> string" where
  "show_magnitude n =
     (if n = 0 then ''0''
      else
        let e = dec_exp n; d = six_digits e n
        in if d = 10 ^ 6 then show_digits (show_nat (10 ^ 5)) (e + 1)
           else show_digits (show_nat d) e)"

fun show_f32 :: "f32 \<Rightarrow> string" where
  "show_f32 NaN = ''nan''"
| "show_f32 (Inf s) = (if s then ''-inf'' else ''inf'')"
| "show_f32 (Fin s n) = (if s then CHR ''-'' # show_magnitude n else show_magnitude n)"

section \<open>Streams, read\<close>

type_synonym stream = "bool \<times> string"

definition skip_ws :: "string \<Rightarrow> string" where
  "skip_ws s = dropWhile is_space s"

text \<open>\<open>stream >> word\<close>, with \<open>word\<close> empty before.\<close>

definition get_word :: "stream \<Rightarrow> string \<times> stream" where
  "get_word st =
     (if fst st then ([], st)
      else
        let s = skip_ws (snd st); w = takeWhile (\<lambda>c. \<not> is_space c) s
        in (w, (w = [], dropWhile (\<lambda>c. \<not> is_space c) s)))"

text \<open>An optional sign.\<close>

fun get_sign :: "string \<Rightarrow> bool \<times> string" where
  "get_sign (c # s) =
     (if c = CHR ''-'' then (True, s) else if c = CHR ''+'' then (False, s) else (False, c # s))"
| "get_sign [] = (False, [])"

text \<open>The digits of an integer, if there are any.\<close>

definition get_number :: "string \<Rightarrow> (bool \<times> nat) option \<times> string" where
  "get_number s =
     (let (neg, s') = get_sign s; ds = takeWhile is_digit s'
      in (if ds = [] then None else Some (neg, read_digits ds), dropWhile is_digit s'))"

text \<open>\<open>stream >> x\<close> for a 64-bit unsigned \<open>x\<close>: too large is the maximum and a failure.\<close>

definition get_u64 :: "stream \<Rightarrow> u64 option \<times> stream" where
  "get_u64 st =
     (let s = skip_ws (snd st)
      in if fst st \<or> s = [] then (None, (True, s))
         else case get_number s of
             (None, rest) \<Rightarrow> (Some 0, (True, rest))
           | (Some (neg, n), rest) \<Rightarrow>
               if n \<ge> 2 ^ 64 then (Some (- 1), (True, rest))
               else (Some (if neg then - of_nat n else of_nat n), (False, rest)))"

text \<open>\<open>stream >> x\<close> for an \<open>int\<close>: out of range is the nearest value and a failure.\<close>

definition get_int :: "stream \<Rightarrow> int option \<times> stream" where
  "get_int st =
     (let s = skip_ws (snd st)
      in if fst st \<or> s = [] then (None, (True, s))
         else case get_number s of
             (None, rest) \<Rightarrow> (Some 0, (True, rest))
           | (Some (neg, n), rest) \<Rightarrow>
               let i = (if neg then - int n else int n)
               in if i < - (2 ^ 31) then (Some (- (2 ^ 31)), (True, rest))
                  else if i \<ge> 2 ^ 31 then (Some (2 ^ 31 - 1), (True, rest))
                  else (Some i, (False, rest)))"

text \<open>The characters \<open>num_get\<close> takes for a float: one point, one exponent after a digit.\<close>

fun accum :: "bool \<Rightarrow> bool \<Rightarrow> bool \<Rightarrow> string \<Rightarrow> string \<times> string" where
  "accum point expo mant [] = ([], [])"
| "accum point expo mant (c # s) =
     (if is_digit c then (let (a, r) = accum point expo True s in (c # a, r))
      else if c = CHR ''.'' \<and> \<not> point \<and> \<not> expo then (let (a, r) = accum True expo mant s in (c # a, r))
      else if (c = CHR ''e'' \<or> c = CHR ''E'') \<and> \<not> expo \<and> mant then
        (case s of
           d # s' \<Rightarrow>
             if d = CHR ''+'' \<or> d = CHR ''-''
             then (let (a, r) = accum point True mant s' in (c # d # a, r))
             else (let (a, r) = accum point True mant (d # s') in (c # a, r))
         | [] \<Rightarrow> ([c], []))
      else ([], c # s))"

text \<open>\<open>strtof\<close> of all of these characters.\<close>

definition to_f32 :: "bool \<Rightarrow> nat \<Rightarrow> int \<Rightarrow> f32" where
  "to_f32 neg m k = (if 0 \<le> k then fin neg (rnd (m * 10 ^ nat k * 2 ^ 149) 1)
     else fin neg (rnd (m * 2 ^ 149) (10 ^ nat (- k))))"

fun get_exponent :: "string \<Rightarrow> int option" where
  "get_exponent [] = Some 0"
| "get_exponent (c # s) =
     (if c = CHR ''e'' \<or> c = CHR ''E'' then
        (case get_number s of
           (Some (neg, n), []) \<Rightarrow> Some (if neg then - int n else int n)
         | _ \<Rightarrow> None)
      else None)"

definition strtof :: "bool \<Rightarrow> string \<Rightarrow> f32 option" where
  "strtof neg s =
     (let ip = takeWhile is_digit s; s1 = dropWhile is_digit s;
          (fp, s2) = (case s1 of
              c # r \<Rightarrow> if c = CHR ''.'' then (takeWhile is_digit r, dropWhile is_digit r) else ([], s1)
            | [] \<Rightarrow> ([], []))
      in if ip @ fp = [] then None
         else map_option (\<lambda>e. to_f32 neg (read_digits (ip @ fp)) (e - int (length fp))) (get_exponent s2))"

definition get_f32 :: "stream \<Rightarrow> f32 option \<times> stream" where
  "get_f32 st =
     (let s = skip_ws (snd st)
      in if fst st \<or> s = [] then (None, (True, s))
         else
           let (neg, s') = get_sign s; (a, rest) = accum False False False s'
           in case strtof neg a of
                None \<Rightarrow> (Some f32_zero, (True, rest))
              | Some (Inf b) \<Rightarrow> (Some (if b then fneg f32_max else f32_max), (True, rest))
              | Some x \<Rightarrow> (Some x, (False, rest)))"

text \<open>\<open>while (stream >> value)\<close>\<close>

lemma accum_length: "length (fst (accum p e m s)) + length (snd (accum p e m s)) = length s"
proof (induction p e m s rule: accum.induct)
  case (2 p e m c s)
  show ?case
  proof (cases s)
    case Nil
    then show ?thesis by (simp add: case_prod_beta)
  next
    case (Cons d s')
    then show ?thesis using 2 by (simp add: case_prod_beta)
  qed
qed simp

lemma get_sign_length: "length (snd (get_sign s)) \<le> length s"
  by (cases s) simp_all

lemma get_f32_length:
  assumes "get_f32 st = (v, (False, rest))"
  shows "length rest < length (snd st)"
proof -
  let ?s = "skip_ws (snd st)"
  obtain neg s' where s': "get_sign ?s = (neg, s')" by fastforce
  obtain a r where a: "accum False False False s' = (a, r)" by fastforce
  have ne: "?s \<noteq> []" "\<not> fst st" using assms by (auto simp: get_f32_def Let_def split: if_splits)
  with assms s' a have r: "rest = r" "strtof neg a \<noteq> None"
    by (auto simp: get_f32_def Let_def split: option.splits f32.splits)
  have "a \<noteq> []" using r(2) by (auto simp: strtof_def Let_def)
  then have "length r < length s'" using accum_length [of False False False s'] a by (cases a) auto
  moreover have "length s' \<le> length ?s" using get_sign_length [of ?s] s' by simp
  moreover have "length ?s \<le> length (snd st)" by (simp add: skip_ws_def length_dropWhile_le)
  ultimately show ?thesis using r(1) by simp
qed

function get_floats :: "stream \<Rightarrow> f32 list \<times> stream" where
  "get_floats st =
     (case get_f32 st of
        (Some v, (False, rest)) \<Rightarrow> (let (vs, st') = get_floats (False, rest) in (v # vs, st'))
      | (_, st') \<Rightarrow> ([], st'))"
  by pat_completeness auto
termination
  by (relation "measure (\<lambda>st. length (snd st))") (auto dest: get_f32_length [OF sym])

declare get_floats.simps [simp del]

section \<open>Round trips\<close>

lemma skip_ws_simps [simp]:
  "skip_ws [] = []" "skip_ws (CHR '' '' # s) = skip_ws s" "is_digit c \<Longrightarrow> skip_ws (c # s) = c # s"
  by (simp_all add: skip_ws_def is_digit_not) (simp add: is_space_def)

lemma get_sign_known [simp]:
  "is_digit c \<Longrightarrow> get_sign (c # s) = (False, c # s)" "get_sign (CHR ''-'' # s) = (True, s)"
  "get_sign (CHR ''|'' # s) = (False, CHR ''|'' # s)"
  by (auto dest: is_digit_not)

declare get_sign.simps [simp del]

lemma digits_Cons:
  assumes "list_all is_digit ds" and "ds \<noteq> []"
  obtains c cs where "ds = c # cs" "is_digit c" "list_all is_digit cs"
  using assms by (cases ds) auto

definition stops_number :: "string \<Rightarrow> bool" where
  "stops_number rest \<longleftrightarrow> (case rest of [] \<Rightarrow> True | c # _ \<Rightarrow> \<not> is_digit c)"

lemma get_number_nat [simp]:
  assumes "stops_number rest"
  shows "get_number (show_nat n @ rest) = (Some (False, n), rest)"
proof -
  obtain c cs where c: "show_nat n = c # cs" "is_digit c"
    using show_nat_digits digits_Cons by metis
  then have "get_sign (show_nat n @ rest) = (False, show_nat n @ rest)" by simp
  moreover have "takeWhile is_digit (show_nat n @ rest) = show_nat n" "dropWhile is_digit (show_nat n @ rest) = rest"
    using takeWhile_digits [of "show_nat n" rest] show_nat_digits assms by (simp_all add: stops_number_def)
  ultimately show ?thesis using show_nat_digits [of n] by (simp add: get_number_def)
qed

lemma skip_ws_show_nat [simp]: "skip_ws (show_nat n @ rest) = show_nat n @ rest"
proof -
  obtain c cs where "show_nat n = c # cs" "is_digit c" using show_nat_digits digits_Cons by metis
  then show ?thesis by simp
qed

lemma show_nat_append_Nil [simp]: "show_nat n @ rest \<noteq> []" "show_nat n \<noteq> []"
  using show_nat_digits [of n] by simp_all

lemma get_u64_show:
  assumes "stops_number rest"
  shows "get_u64 (False, CHR '' '' # show_nat (unat i) @ rest) = (Some i, (False, rest))"
  using assms by (simp add: get_u64_def Let_def) (use unsigned_less [where 'a = nat, of i] in simp)

lemma get_int_show:
  assumes "stops_number rest" and "- (2 ^ 31) \<le> i" and "i < 2 ^ 31"
  shows "get_int (False, CHR '' '' # show_int i @ rest) = (Some i, (False, rest))"
proof (cases "i < 0")
  case True
  have minus: "skip_ws (CHR ''-'' # s) = CHR ''-'' # s" for s by (simp add: skip_ws_def is_space_def)
  have "get_number (CHR ''-'' # show_nat n @ rest) = (Some (True, n), rest)" for n
    using takeWhile_digits [of "show_nat n" rest] show_nat_digits [of n] assms(1)
    by (simp add: get_number_def stops_number_def)
  with True assms show ?thesis by (simp add: get_int_def show_int_def minus Let_def)
next
  case False
  with assms show ?thesis by (simp add: get_int_def show_int_def Let_def)
qed

text \<open>The shape of a written float.\<close>

definition float_form :: "string \<Rightarrow> bool" where
  "float_form a \<longleftrightarrow> (\<exists>ip fp ep. a = ip @ fp @ ep \<and> list_all is_digit ip \<and> ip \<noteq> [] \<and>
     (fp = [] \<or> (\<exists>ds. fp = CHR ''.'' # ds \<and> list_all is_digit ds)) \<and>
     (ep = [] \<or> (\<exists>c ds. ep = CHR ''e'' # c # ds \<and> (c = CHR ''+'' \<or> c = CHR ''-'') \<and> list_all is_digit ds)))"

lemma strip_zeros_set: "set (strip_zeros s) \<subseteq> set s"
  by (auto simp: strip_zeros_def dest: set_dropWhileD)

lemma show_frac_form:
  "list_all is_digit s \<Longrightarrow> show_frac s = [] \<or> (\<exists>ds. show_frac s = CHR ''.'' # ds \<and> list_all is_digit ds)"
  using strip_zeros_set [of s] by (auto simp: show_frac_def Let_def list_all_iff)

lemma zero_digit [simp]: "is_digit (CHR ''0'')"
  by (simp add: is_digit_def)

lemma show_exp_form: "\<exists>c ds. show_exp x = CHR ''e'' # c # ds \<and> (c = CHR ''+'' \<or> c = CHR ''-'') \<and> list_all is_digit ds"
  using show_nat_digits by (auto simp: show_exp_def)

lemma show_digits_form:
  assumes "list_all is_digit ds" and "ds \<noteq> []"
  shows "float_form (show_digits ds x)"
proof -
  have td: "list_all is_digit (take k ds)" "list_all is_digit (drop k ds)" for k
    using assms(1) by (auto simp: list_all_iff dest: in_set_takeD in_set_dropD)
  have ne: "take (Suc k) ds \<noteq> []" for k using assms(2) by (cases ds) auto
  consider "x < -4 \<or> 6 \<le> x" | "0 \<le> x" "x < 6" | "-4 \<le> x" "x < 0" by linarith
  then show ?thesis
  proof cases
    case 1
    then have "show_digits ds x = take 1 ds @ show_frac (drop 1 ds) @ show_exp x" by (auto simp: show_digits_def)
    then show ?thesis
      unfolding float_form_def using td [of 1] ne [of 0] show_frac_form [OF td(2)] show_exp_form [of x]
      by (intro exI [of _ "take 1 ds"] exI [of _ "show_frac (drop 1 ds)"] exI [of _ "show_exp x"]) simp
  next
    case 2
    then have "show_digits ds x = take (Suc (nat x)) ds @ show_frac (drop (Suc (nat x)) ds) @ []"
      by (simp add: show_digits_def)
    then show ?thesis
      unfolding float_form_def using td [of "Suc (nat x)"] ne [of "nat x"] show_frac_form [OF td(2)]
      by (intro exI [of _ "take (Suc (nat x)) ds"] exI [of _ "show_frac (drop (Suc (nat x)) ds)"] exI [of _ "[]"]) simp
  next
    case 3
    let ?f = "show_frac (replicate (nat (- x - 1)) (CHR ''0'') @ ds)"
    have "show_digits ds x = ''0'' @ ?f @ []" using 3 by (simp add: show_digits_def)
    moreover have "list_all is_digit (replicate (nat (- x - 1)) (CHR ''0'') @ ds)"
      using assms(1) by (auto simp: list_all_iff)
    ultimately show ?thesis
      unfolding float_form_def using show_frac_form
      by (intro exI [of _ "''0''"] exI [of _ ?f] exI [of _ "[]"]) simp
  qed
qed

lemma show_magnitude_form: "float_form (show_magnitude n)"
proof (cases "n = 0")
  case True
  then show ?thesis
    unfolding float_form_def show_magnitude_def
    by (intro exI [of _ "''0''"] exI [of _ "[]"]) simp
next
  case False
  then show ?thesis
    by (simp add: show_magnitude_def Let_def show_digits_form show_nat_digits)
qed

text \<open>\<open>num_get\<close> takes all of it and stops at a blank.\<close>

lemma accum_digits:
  "list_all is_digit ds \<Longrightarrow> accum p e m (ds @ s) =
    (ds @ fst (accum p e (m \<or> ds \<noteq> []) s), snd (accum p e (m \<or> ds \<noteq> []) s))"
  by (induction ds arbitrary: m) (simp_all add: case_prod_beta)

lemma not_digit [simp]: "\<not> is_digit (CHR ''.'')" "\<not> is_digit (CHR ''e'')" "\<not> is_digit (CHR '' '')"
  by (simp_all add: is_digit_def)

lemma accum_form:
  assumes "float_form a"
  shows "accum False False False (a @ CHR '' '' # rest) = (a, CHR '' '' # rest)"
proof -
  obtain ip fp ep where a: "a = ip @ fp @ ep" "list_all is_digit ip" "ip \<noteq> []"
    and fp: "fp = [] \<or> (\<exists>ds. fp = CHR ''.'' # ds \<and> list_all is_digit ds)"
    and ep: "ep = [] \<or> (\<exists>c ds. ep = CHR ''e'' # c # ds \<and> (c = CHR ''+'' \<or> c = CHR ''-'') \<and> list_all is_digit ds)"
    using assms unfolding float_form_def by blast
  have e: "accum p False True (ep @ CHR '' '' # rest) = (ep, CHR '' '' # rest)" for p
    using ep by (auto simp: accum_digits)
  have "accum False False True (fp @ ep @ CHR '' '' # rest) = (fp @ ep, CHR '' '' # rest)"
    using fp e by (auto simp: accum_digits)
  then show ?thesis using a by (simp add: accum_digits)
qed

lemma float_form_head:
  assumes "float_form a"
  obtains c s where "a = c # s" "is_digit c"
  using assms unfolding float_form_def by (metis append_Cons digits_Cons)

text \<open>The floats that their six digits denote.\<close>

fun wal_stable :: "f32 \<Rightarrow> bool" where
  "wal_stable (Fin s n) = (strtof s (show_magnitude n) = Some (Fin s n))"
| "wal_stable _ = False"

lemma get_f32_show:
  assumes "wal_stable v"
  shows "get_f32 (False, CHR '' '' # show_f32 v @ CHR '' '' # rest) = (Some v, (False, CHR '' '' # rest))"
proof -
  obtain sg n where v: "v = Fin sg n" "strtof sg (show_magnitude n) = Some (Fin sg n)"
    using assms by (cases v) auto
  obtain c t where c: "show_magnitude n = c # t" "is_digit c"
    using show_magnitude_form float_form_head by metis
  note acc = accum_form [OF show_magnitude_form, of n rest]
  have minus: "skip_ws (CHR ''-'' # u) = CHR ''-'' # u" for u by (simp add: skip_ws_def is_space_def)
  show ?thesis
    using v c acc by (cases sg) (simp_all add: get_f32_def Let_def minus del: accum.simps)
qed

lemma get_f32_bar: "get_f32 (False, CHR '' '' # CHR ''|'' # rest) = (Some f32_zero, (True, CHR ''|'' # rest))"
proof -
  have "skip_ws (CHR ''|'' # rest) = CHR ''|'' # rest" by (simp add: skip_ws_def is_space_def)
  moreover have "accum False False False (CHR ''|'' # rest) = ([], CHR ''|'' # rest)" by (simp add: is_digit_def)
  ultimately show ?thesis by (simp add: get_f32_def strtof_def)
qed

definition show_floats :: "f32 list \<Rightarrow> string" where
  "show_floats vs = concat (map (\<lambda>v. CHR '' '' # show_f32 v) vs)"

lemma get_floats_show:
  assumes "list_all wal_stable vs"
  shows "get_floats (False, show_floats vs @ CHR '' '' # CHR ''|'' # rest) = (vs, (True, CHR ''|'' # rest))"
  using assms
proof (induction vs)
  case Nil
  then show ?case by (simp add: get_floats.simps [of "(False, _)"] show_floats_def get_f32_bar)
next
  case (Cons v vs)
  have "\<exists>u. show_floats vs @ CHR '' '' # CHR ''|'' # rest = CHR '' '' # u"
    by (cases vs) (simp_all add: show_floats_def)
  then obtain u where u: "show_floats vs @ CHR '' '' # CHR ''|'' # rest = CHR '' '' # u" by blast
  then have "show_floats (v # vs) @ CHR '' '' # CHR ''|'' # rest = CHR '' '' # show_f32 v @ CHR '' '' # u"
    by (simp add: show_floats_def)
  moreover have "get_f32 (False, CHR '' '' # show_f32 v @ CHR '' '' # u) = (Some v, (False, CHR '' '' # u))"
    using Cons.prems by (intro get_f32_show) simp
  ultimately show ?case
    using Cons u by (simp add: get_floats.simps [of "(False, CHR '' '' # show_f32 v @ CHR '' '' # u)"])
qed

section \<open>Evaluation\<close>

text \<open>Equations on numerals, with which the simplifier computes the text of a number.\<close>

lemma show_nat_eval: "show_nat (numeral k) = (if (numeral k :: nat) < 10 then [digit_char (numeral k)]
    else show_nat (numeral k div 10) @ [digit_char (numeral k mod 10)])"
  "show_nat 0 = ''0''" "show_nat (Suc 0) = ''1''"
  by (simp_all add: show_nat.simps [of "numeral k"] show_nat.simps [of 0] show_nat.simps [of "Suc 0"] digit_char_def)

lemma is_digit_eval: "is_digit (CHR ''1'')" "is_digit (CHR ''2'')" "is_digit (CHR ''3'')" "is_digit (CHR ''4'')"
  "is_digit (CHR ''5'')" "is_digit (CHR ''6'')" "is_digit (CHR ''7'')" "is_digit (CHR ''8'')" "is_digit (CHR ''9'')"
  by (simp_all add: is_digit_def)

lemma digit_val_eval: "digit_val (CHR ''0'') = 0" "digit_val (CHR ''1'') = 1" "digit_val (CHR ''2'') = 2"
  "digit_val (CHR ''3'') = 3" "digit_val (CHR ''4'') = 4" "digit_val (CHR ''5'') = 5" "digit_val (CHR ''6'') = 6"
  "digit_val (CHR ''7'') = 7" "digit_val (CHR ''8'') = 8" "digit_val (CHR ''9'') = 9"
  by (simp_all add: digit_val_def)

lemma digit_char_eval: "digit_char 0 = CHR ''0''" "digit_char (Suc 0) = CHR ''1''" "digit_char 2 = CHR ''2''"
  "digit_char 3 = CHR ''3''" "digit_char 4 = CHR ''4''" "digit_char 5 = CHR ''5''" "digit_char 6 = CHR ''6''"
  "digit_char 7 = CHR ''7''" "digit_char 8 = CHR ''8''" "digit_char 9 = CHR ''9''"
  by (simp_all add: digit_char_def)

lemma exp_below_eval: "exp_below (numeral k) n =
    (if pow10_le (int (numeral k) - 45) n then int (numeral k) - 45 else exp_below (pred_numeral k) n)"
  by (simp only: numeral_eq_Suc exp_below.simps)

lemma to_f32_eval:
  "to_f32 neg m (numeral k) = fin neg (rnd (m * 10 ^ numeral k * 2 ^ 149) 1)"
  "to_f32 neg m 0 = fin neg (rnd (m * 2 ^ 149) 1)" "to_f32 neg m 1 = fin neg (rnd (m * 10 * 2 ^ 149) 1)"
  "to_f32 neg m (- numeral k) = fin neg (rnd (m * 2 ^ 149) (10 ^ numeral k))"
  "to_f32 neg m (- 1) = fin neg (rnd (m * 2 ^ 149) 10)"
  by (simp_all add: to_f32_def)

lemma get_number_eval: "get_number (CHR ''+'' # s) =
    (if takeWhile is_digit s = [] then None else Some (False, read_digits (takeWhile is_digit s)), dropWhile is_digit s)"
  "get_number (CHR ''-'' # s) =
    (if takeWhile is_digit s = [] then None else Some (True, read_digits (takeWhile is_digit s)), dropWhile is_digit s)"
  by (simp_all add: get_number_def get_sign.simps)

lemmas text_eval = to_f32_eval get_number_eval nbits_eval show_nat_eval is_digit_eval digit_val_eval digit_char_eval exp_below_eval
  show_magnitude_def Let_def show_digits_def dec_exp_def six_digits_def pow10_le_def round_div_even_def
  show_frac_def strip_zeros_def show_exp_def strtof_def rnd_def fin_def read_digits_def f32_of_nat_def

end
