(* ===== verification/VectorIndex.thy ===== *)
theory VectorIndex
  imports Distance
begin

text \<open>
  The abstract class \<open>VectorIndex\<close> (vector_index.h) as an interface: the operations the
  vector store calls, and what it may rely on. \<open>vec\<close> is what an index can return (the ids,
  with their vectors), \<open>dim\<close> the size of the vectors it takes, \<open>fresh\<close> the ids it can take.
  An operation that is \<open>None\<close> has thrown or left the contract of the library; \<open>good\<close>
  restricts the vectors for which the promises are made.
\<close>

locale vector_index =
  fixes inv :: "'i \<Rightarrow> bool"
    and good :: "vector \<Rightarrow> bool"
    and dim :: "'i \<Rightarrow> nat"
    and vec :: "'i \<Rightarrow> Id \<rightharpoonup> vector"
    and fresh :: "'i \<Rightarrow> Id \<Rightarrow> bool"
    and insert_op :: "'i \<Rightarrow> Id \<Rightarrow> vector \<Rightarrow> 'i option"
    and remove_op :: "'i \<Rightarrow> Id \<Rightarrow> 'i option"
    and search_op :: "'i \<Rightarrow> vector \<Rightarrow> nat \<Rightarrow> nat \<Rightarrow> Id list option"
    and cleanup_op :: "'i \<Rightarrow> bool \<Rightarrow> 'i option"
  assumes insert_law: "inv ix \<Longrightarrow> good v \<Longrightarrow>
      \<exists>ix'. insert_op ix i v = Some ix' \<and> inv ix' \<and> dim ix' = dim ix \<and>
        vec ix' = (if fresh ix i \<and> length v = dim ix then (vec ix)(i \<mapsto> v) else vec ix)"
    and remove_law: "inv ix \<Longrightarrow>
      \<exists>ix'. remove_op ix i = Some ix' \<and> inv ix' \<and> dim ix' = dim ix \<and> vec ix' = (vec ix)(i := None)"
    and search_law: "inv ix \<Longrightarrow> good v \<Longrightarrow>
      \<exists>r. search_op ix v k p = Some r \<and> distinct r \<and> set r \<subseteq> dom (vec ix) \<and> length r \<le> k"
    and cleanup_law: "inv ix \<Longrightarrow>
      \<exists>ix'. cleanup_op ix reindex = Some ix' \<and> inv ix' \<and> dim ix' = dim ix \<and> vec ix' = vec ix"
    and fresh_law: "inv ix \<Longrightarrow> fresh ix i \<Longrightarrow> vec ix i = None"
begin

text \<open>What a search returns after a removal: never the removed id, until it is inserted again.\<close>

lemma search_after_remove:
  assumes "inv ix" and "good v" and "remove_op ix i = Some ix'" and "search_op ix' v k p = Some r"
  shows "i \<notin> set r"
proof -
  obtain ix'' where ix'': "remove_op ix i = Some ix''" "inv ix''" "vec ix'' = (vec ix)(i := None)"
    using remove_law assms(1) by blast
  with assms(3) have ix': "inv ix'" "vec ix' = (vec ix)(i := None)" by auto
  obtain r' where "search_op ix' v k p = Some r'" "set r' \<subseteq> dom (vec ix')"
    using search_law [OF ix'(1) assms(2), of k p] by blast
  with assms(4) ix'(2) show ?thesis by auto
qed

text \<open>
  The client holds a map \<open>m\<close> of the vectors it has stored. An index that returns only what
  the map holds keeps doing so under the operations of the client; one that returns all of
  it does too, as long as every inserted id is fresh.
\<close>

lemma insert_agrees:
  assumes "inv ix" and "good v" and "vec ix \<subseteq>\<^sub>m m" and "m i = None" and "length v = dim ix"
  shows "\<exists>ix'. insert_op ix i v = Some ix' \<and> inv ix' \<and> dim ix' = dim ix \<and> vec ix' \<subseteq>\<^sub>m m(i \<mapsto> v) \<and>
    (vec ix = m \<and> fresh ix i \<longrightarrow> vec ix' = m(i \<mapsto> v))"
proof -
  obtain ix' where "insert_op ix i v = Some ix'" "inv ix'" "dim ix' = dim ix"
    and v: "vec ix' = (if fresh ix i \<and> length v = dim ix then (vec ix)(i \<mapsto> v) else vec ix)"
    using insert_law assms(1,2) by blast
  moreover have "vec ix \<subseteq>\<^sub>m m(i \<mapsto> v)"
    using assms(3,4) unfolding map_le_def by (metis domI domIff fun_upd_other)
  ultimately show ?thesis using assms(3,5) by (auto simp: map_le_upd)
qed

lemma remove_agrees:
  assumes "inv ix" and "vec ix \<subseteq>\<^sub>m m"
  shows "\<exists>ix'. remove_op ix i = Some ix' \<and> inv ix' \<and> dim ix' = dim ix \<and> vec ix' \<subseteq>\<^sub>m m(i := None) \<and>
    (vec ix = m \<longrightarrow> vec ix' = m(i := None))"
  using remove_law [OF assms(1), of i] assms(2) by (fastforce simp: map_le_def)

lemma search_agrees:
  assumes "inv ix" and "good v" and "vec ix \<subseteq>\<^sub>m m"
  shows "\<exists>r. search_op ix v k p = Some r \<and> distinct r \<and> set r \<subseteq> dom m \<and> length r \<le> k"
  using search_law [OF assms(1,2), of k p] map_le_implies_dom_le [OF assms(3)] by blast

end

end
