(* ===== verification/PriorityQueue.thy ===== *)
theory PriorityQueue
  imports Distance "HOL-Library.Product_Lexorder" "HOL-Library.Multiset"
begin

text \<open>
  \<open>std::priority_queue\<close> over pairs of a distance and an id. The container is the list of its
  elements with the top first; \<open>emplace\<close> inserts in order, \<open>pop\<close> drops the head. The
  interface locale \<open>heap_order\<close> asks for the strict weak order that the C++ container
  requires of its comparison and gives what the indexes rely on: the elements kept, the top
  greatest. \<open>keyed_heap\<close> adds a linear key, and with it the queue is a reversed sorted list.
\<close>

section \<open>The container\<close>

fun pq_push :: "('a \<Rightarrow> 'a \<Rightarrow> bool) \<Rightarrow> 'a \<Rightarrow> 'a list \<Rightarrow> 'a list" where
  "pq_push lt x [] = [x]"
| "pq_push lt x (y # ys) = (if lt x y then y # pq_push lt x ys else x # y # ys)"

text \<open>Drain the queue from the top, collecting the ids, as the loops at the end of a search do.\<close>

fun pq_drain :: "(f32 \<times> Id) list \<Rightarrow> Id list" where
  "pq_drain [] = []"
| "pq_drain (t # rest) = snd t # pq_drain rest"

lemma pq_drain_map: "pq_drain q = map snd q"
  by (induction q) auto

lemma mset_pq_push [simp]: "mset (pq_push lt x q) = add_mset x (mset q)"
  by (induction q) auto

lemma set_pq_push [simp]: "set (pq_push lt x q) = insert x (set q)"
  by (induction q) auto

lemma length_pq_push [simp]: "length (pq_push lt x q) = Suc (length q)"
  by (induction q) auto

lemma pq_push_not_Nil [simp]: "pq_push lt x q \<noteq> []"
  by (cases q) auto

section \<open>The comparison of pairs\<close>

text \<open>
  \<open>std::pair<float, Id>\<close> in C++20: \<open><\<close> comes from \<open><=>\<close>, which compares the distances first
  and is unordered, hence false, when one of them is NaN.
\<close>

fun pair_lt :: "f32 \<times> Id \<Rightarrow> f32 \<times> Id \<Rightarrow> bool" where
  "pair_lt (d, i) (e, j) = (flt d e \<or> (feq d e \<and> i < j))"

text \<open>\<open>std::greater<>\<close> on the same pairs.\<close>

definition pair_gt :: "f32 \<times> Id \<Rightarrow> f32 \<times> Id \<Rightarrow> bool" where
  "pair_gt x y = pair_lt y x"

definition pair_ok :: "f32 \<times> Id \<Rightarrow> bool" where
  "pair_ok x = (\<not> is_nan (fst x))"

definition dkey :: "f32 \<times> Id \<Rightarrow> (int \<times> int) \<times> Id" where
  "dkey x = (f32_key (fst x), snd x)"

lemma pair_lt_key: "pair_ok x \<Longrightarrow> pair_ok y \<Longrightarrow> pair_lt x y \<longleftrightarrow> dkey x < dkey y"
proof (cases x; cases y)
  fix d i e j assume "pair_ok x" "pair_ok y" "x = (d, i)" "y = (e, j)"
  then show ?thesis
    by (cases "f32_key d"; cases "f32_key e")
      (auto simp: pair_ok_def dkey_def flt_key feq_key klt_def less_prod_simp)
qed

text \<open>
  The heap algorithms behind \<open>emplace\<close> and \<open>pop\<close> compare only when two elements meet, and
  then the comparison must be a strict weak order on the elements present, which a NaN
  distance breaks: from there on the container is outside its contract (\<open>None\<close>).
\<close>

definition comparable :: "(f32 \<times> Id) list \<Rightarrow> bool" where
  "comparable q \<longleftrightarrow> length q \<le> 1 \<or> list_all pair_ok q"

definition emplace ::
  "(f32 \<times> Id \<Rightarrow> f32 \<times> Id \<Rightarrow> bool) \<Rightarrow> f32 \<times> Id \<Rightarrow> (f32 \<times> Id) list \<Rightarrow> (f32 \<times> Id) list option" where
  "emplace lt x q = (if comparable (x # q) then Some (pq_push lt x q) else None)"

lemma emplace_ok:
  "pair_ok x \<Longrightarrow> \<forall>y \<in> set q. pair_ok y \<Longrightarrow> emplace lt x q = Some (pq_push lt x q)"
  by (simp add: emplace_def comparable_def list_all_iff)

lemma emplace_SomeD: "emplace lt x q = Some q' \<Longrightarrow> q' = pq_push lt x q"
  by (simp add: emplace_def split: if_splits)

lemma insort_key_snoc: "f x < f y \<Longrightarrow> insort_key f x (xs @ [y]) = insort_key f x xs @ [y]"
  by (induction xs) (auto simp: less_imp_le)

lemma insort_key_last: "\<forall>y \<in> set xs. f y < f x \<Longrightarrow> insort_key f x xs = xs @ [x]"
  by (induction xs) auto

text \<open>A list sorted by distinct keys is determined by its elements.\<close>

lemma sort_key_eqI:
  assumes "sorted (map f ys)" and "mset ys = mset xs" and "distinct (map f xs)"
  shows "ys = sort_key f xs"
proof (rule map_sorted_distinct_set_unique [of f])
  have xs: "distinct (map f ys)"
    using assms(2,3) by (metis mset_map mset_eq_imp_distinct_iff)
  have set_eq: "set ys = set xs" using assms(2) by (metis set_mset_mset)
  show "inj_on f (set ys \<union> set (sort_key f xs))"
    using assms(3) set_eq by (simp add: distinct_map)
  show "distinct (map f (sort_key f xs))" "distinct (map f ys)"
    using assms(3) xs by (metis mset_map mset_eq_imp_distinct_iff mset_sort) fact
qed (use assms in \<open>auto dest: mset_eq_setD\<close>)

section \<open>The interface\<close>

locale heap_order =
  fixes lt :: "'a \<Rightarrow> 'a \<Rightarrow> bool" and ok :: "'a \<Rightarrow> bool"
  assumes lt_irrefl: "ok x \<Longrightarrow> \<not> lt x x"
    and lt_trans: "ok x \<Longrightarrow> ok y \<Longrightarrow> ok z \<Longrightarrow> lt x y \<Longrightarrow> lt y z \<Longrightarrow> lt x z"
    and nlt_trans: "ok x \<Longrightarrow> ok y \<Longrightarrow> ok z \<Longrightarrow> \<not> lt x y \<Longrightarrow> \<not> lt y z \<Longrightarrow> \<not> lt x z"
begin

lemma lt_asym: "ok x \<Longrightarrow> ok y \<Longrightarrow> lt x y \<Longrightarrow> \<not> lt y x"
  using lt_irrefl lt_trans by blast

text \<open>Every element stands before the ones it is not below: the head is greatest.\<close>

lemma push_ordered:
  assumes "sorted_wrt (\<lambda>x y. \<not> lt x y) q" and "ok x" and "\<forall>y \<in> set q. ok y"
  shows "sorted_wrt (\<lambda>x y. \<not> lt x y) (pq_push lt x q)"
  using assms
proof (induction q)
  case (Cons y q)
  show ?case
  proof (cases "lt x y")
    case True
    with Cons have "\<not> lt y x" by (simp add: lt_asym)
    with True Cons show ?thesis by simp
  next
    case False
    have "\<not> lt x z" if "z \<in> set q" for z
    proof (rule nlt_trans [of x y z])
      show "\<not> lt y z" using Cons.prems(1) that by simp
    qed (use Cons.prems that False in auto)
    with False Cons show ?thesis by simp
  qed
qed simp

lemma top_greatest:
  "sorted_wrt (\<lambda>x y. \<not> lt x y) (t # q) \<Longrightarrow> ok t \<Longrightarrow> y \<in> set (t # q) \<Longrightarrow> \<not> lt t y"
  using lt_irrefl by auto

end

locale keyed_heap =
  fixes lt :: "'a \<Rightarrow> 'a \<Rightarrow> bool" and ok :: "'a \<Rightarrow> bool" and key :: "'a \<Rightarrow> 'k::linorder"
  assumes lt_key: "ok x \<Longrightarrow> ok y \<Longrightarrow> lt x y \<longleftrightarrow> key x < key y"

sublocale keyed_heap \<subseteq> heap_order lt ok
  by unfold_locales (auto simp: lt_key)

context keyed_heap
begin

lemma push_insort:
  assumes "ok x" and "\<forall>y \<in> set q. ok y" and "key x \<notin> key ` set q"
    and "sorted (map key (rev q))"
  shows "pq_push lt x q = rev (insort_key key x (rev q))"
  using assms
proof (induction q)
  case (Cons y q)
  have srt: "sorted (map key (rev q))" and le: "\<forall>z \<in> set q. key z \<le> key y"
    using Cons.prems(4) by (auto simp: sorted_append)
  show ?case
  proof (cases "lt x y")
    case True
    then have "key x < key y" using Cons.prems by (simp add: lt_key)
    then have "insort_key key x (rev q @ [y]) = insort_key key x (rev q) @ [y]"
      by (rule insort_key_snoc)
    with True Cons srt show ?thesis by simp
  next
    case False
    then have lt: "key y < key x" using Cons.prems by (force simp: lt_key)
    have "insort_key key x (rev (y # q)) = rev (y # q) @ [x]"
      by (rule insort_key_last) (use lt le in auto)
    with False show ?thesis by simp
  qed
qed simp

end

section \<open>The two queues of the indexes\<close>

text \<open>
  The default queue keeps the farthest pair on top (\<open>top_k\<close>, \<open>top_ef\<close>); with
  \<open>std::greater\<close> the nearest one is on top (\<open>candidates\<close>).
\<close>

interpretation max_queue: keyed_heap pair_lt pair_ok dkey
  by unfold_locales (rule pair_lt_key)

interpretation min_queue: heap_order pair_gt pair_ok
  by unfold_locales (auto simp: pair_gt_def pair_lt_key)

lemma inj_dkey_ids: "distinct (map snd q) \<Longrightarrow> distinct (map dkey q)"
  by (induction q) (auto simp: dkey_def)

lemma dkey_notin: "snd x \<notin> snd ` set q \<Longrightarrow> dkey x \<notin> dkey ` set q"
  by (auto simp: dkey_def)

end
