(* ===== verification/FlatIndex.thy ===== *)
theory FlatIndex
  imports VectorIndex PriorityQueue
begin

text \<open>
  \<open>FlatIndex\<close> (flat_index.h, flat_index.cc): an unordered map from ids to vectors, and a
  search that scans all of them with a bounded max-heap. Shown: the search returns exactly
  the \<open>k\<close> nearest ids in the order of (distance, id), whatever the iteration order of the
  map, when no distance is NaN; under L2 with finite vectors none is.
\<close>

record FlatIndexConfig =
  fc_vector_dimensionality :: int
  fc_metric :: metric

record FlatIndex =
  fi_config :: FlatIndexConfig
  fi_vectors :: "(Id, vector) umap"

definition flat_new :: "FlatIndexConfig \<Rightarrow> FlatIndex" where
  "flat_new config = \<lparr>fi_config = config, fi_vectors = []\<rparr>"

definition flat_load :: "FlatIndexConfig \<Rightarrow> (Id, vector) umap \<Rightarrow> FlatIndex" where
  "flat_load config vectors = \<lparr>fi_config = config, fi_vectors = vectors\<rparr>"

definition flat_Insert :: "FlatIndex \<Rightarrow> Id \<Rightarrow> vector \<Rightarrow> FlatIndex" where
  "flat_Insert ix i v =
     (if length v \<noteq> size_of_int (fc_vector_dimensionality (fi_config ix)) \<or> contains (fi_vectors ix) i
      then ix
      else ix\<lparr>fi_vectors := mput i v (fi_vectors ix)\<rparr>)"

definition flat_Remove :: "FlatIndex \<Rightarrow> Id \<Rightarrow> FlatIndex" where
  "flat_Remove ix i = ix\<lparr>fi_vectors := merase i (fi_vectors ix)\<rparr>"

definition flat_ComputeDistance :: "FlatIndex \<Rightarrow> vector \<Rightarrow> vector \<Rightarrow> f32" where
  "flat_ComputeDistance ix a b = ComputeDistance (fc_metric (fi_config ix)) a b"

text \<open>The scan: emplace each pair, pop the farthest when the heap exceeds \<open>k\<close>.\<close>

fun flat_scan ::
  "FlatIndex \<Rightarrow> vector \<Rightarrow> nat \<Rightarrow> (Id \<times> vector) list \<Rightarrow> (f32 \<times> Id) list \<Rightarrow> (f32 \<times> Id) list option" where
  "flat_scan ix query k [] top_k = Some top_k"
| "flat_scan ix query k ((i, v) # rest) top_k =
     (case emplace pair_lt (flat_ComputeDistance ix query v, i) top_k of
        None \<Rightarrow> None
      | Some q \<Rightarrow> flat_scan ix query k rest (if length q > k then tl q else q))"

definition flat_Search :: "FlatIndex \<Rightarrow> vector \<Rightarrow> nat \<Rightarrow> nat \<Rightarrow> Id list option" where
  "flat_Search ix query k search_param =
     (if length query \<noteq> size_of_int (fc_vector_dimensionality (fi_config ix)) then Some []
      else case flat_scan ix query k (fi_vectors ix) [] of
        None \<Rightarrow> None
      | Some top_k \<Rightarrow> Some (rev (pq_drain top_k)))"

definition flat_Cleanup :: "FlatIndex \<Rightarrow> FlatIndex" where
  "flat_Cleanup ix = ix"

definition flat_Reindex :: "FlatIndex \<Rightarrow> FlatIndex" where
  "flat_Reindex ix = ix"

section \<open>The reference: sort everything, take k\<close>

definition scored :: "FlatIndex \<Rightarrow> vector \<Rightarrow> (Id \<times> vector) list \<Rightarrow> (f32 \<times> Id) list" where
  "scored ix query vs = map (\<lambda>(i, v). (flat_ComputeDistance ix query v, i)) vs"

definition knn :: "FlatIndex \<Rightarrow> vector \<Rightarrow> nat \<Rightarrow> Id list" where
  "knn ix query k = take k (map snd (sort_key dkey (scored ix query (fi_vectors ix))))"

lemma scored_simps [simp]:
  "scored ix q [] = []"
  "scored ix q ((i, v) # vs) = (flat_ComputeDistance ix q v, i) # scored ix q vs"
  by (simp_all add: scored_def)

lemma map_snd_scored [simp]: "map snd (scored ix q vs) = keys vs"
  by (induction vs) auto

lemma scored_append [simp]: "scored ix q (vs @ ws) = scored ix q vs @ scored ix q ws"
  by (simp add: scored_def)

lemma snd_scored [simp]: "snd ` set (scored ix q vs) = fst ` set vs"
  by (metis list.set_map map_snd_scored)

text \<open>Inserting into the first k elements of a sorted list, then keeping k.\<close>

lemma take_insort_take:
  "take k (insort_key f x (take k ys)) = take k (insort_key f x ys)"
proof (induction ys arbitrary: k)
  case (Cons y ys)
  show ?case
  proof (cases k)
    case (Suc j)
    show ?thesis
    proof (cases "f x \<le> f y")
      case True
      with Suc show ?thesis by (cases j) simp_all
    next
      case False
      with Suc Cons show ?thesis by simp
    qed
  qed simp
qed simp

lemma sort_key_snoc_insort:
  assumes "distinct (map f (xs @ [x]))"
  shows "insort_key f x (sort_key f xs) = sort_key f (xs @ [x])"
  by (rule sort_key_eqI) (use assms in \<open>auto simp: sorted_insort_key\<close>)

section \<open>The scan computes the reference\<close>

lemma tl_rev_take: "length zs \<le> Suc k \<Longrightarrow> (if length (rev zs) > k then tl (rev zs) else rev zs) = rev (take k zs)"
  by (cases zs rule: rev_cases) auto

lemma flat_scan_step:
  assumes "list_all pair_ok (scored ix q seen)" and "pair_ok x"
    and "distinct (map snd (scored ix q seen @ [x]))"
    and "top_k = rev (take k (sort_key dkey (scored ix q seen)))"
  shows "\<exists>h. emplace pair_lt x top_k = Some h \<and>
    (if length h > k then tl h else h) = rev (take k (sort_key dkey (scored ix q seen @ [x])))"
proof -
  let ?s = "sort_key dkey (scored ix q seen)"
  have sub: "set top_k \<subseteq> set (scored ix q seen)"
    using assms(4) set_take_subset [of k ?s] by simp
  then have ok: "\<forall>y \<in> set top_k. pair_ok y" using assms(1) by (auto simp: list_all_iff)
  have new: "dkey x \<notin> dkey ` set top_k"
    by (rule dkey_notin) (use assms(3) image_mono [OF sub, of snd] in auto)
  have "sorted (map dkey (rev top_k))" by (simp add: assms(4) take_map [symmetric] sorted_wrt_take)
  then have push: "pq_push pair_lt x top_k = rev (insort_key dkey x (take k ?s))"
    using max_queue.push_insort [OF assms(2) ok new] assms(4) by simp
  have "(if length (rev (insort_key dkey x (take k ?s))) > k then tl (rev (insort_key dkey x (take k ?s)))
      else rev (insort_key dkey x (take k ?s))) = rev (take k (insort_key dkey x (take k ?s)))"
    by (rule tl_rev_take) simp
  also have "\<dots> = rev (take k (sort_key dkey (scored ix q seen @ [x])))"
    by (simp only: take_insort_take sort_key_snoc_insort [OF inj_dkey_ids [OF assms(3)]])
  finally show ?thesis
    using emplace_ok [OF assms(2) ok] push by simp
qed

lemma flat_scan_knn:
  assumes "list_all pair_ok (scored ix q (seen @ rest))" and "distinct (keys (seen @ rest))"
    and "top_k = rev (take k (sort_key dkey (scored ix q seen)))"
  shows "flat_scan ix q k rest top_k = Some (rev (take k (sort_key dkey (scored ix q (seen @ rest)))))"
  using assms
proof (induction rest arbitrary: seen top_k)
  case (Cons p rest)
  obtain i v where p: "p = (i, v)" by (cases p)
  let ?x = "(flat_ComputeDistance ix q v, i)"
  have sn: "scored ix q (seen @ [p]) = scored ix q seen @ [?x]" by (simp add: p)
  obtain h where h: "emplace pair_lt ?x top_k = Some h"
    "(if length h > k then tl h else h) = rev (take k (sort_key dkey (scored ix q (seen @ [p]))))"
    using flat_scan_step [of ix q seen ?x top_k k] Cons.prems
    by (auto simp: sn p list_all_iff)
  have "flat_scan ix q k rest (if length h > k then tl h else h) =
      Some (rev (take k (sort_key dkey (scored ix q ((seen @ [p]) @ rest)))))"
    by (rule Cons.IH) (use Cons.prems h(2) in auto)
  with h(1) show ?case by (simp add: p)
qed simp

definition flat_wf :: "FlatIndex \<Rightarrow> bool" where
  "flat_wf ix \<longleftrightarrow> distinct (keys (fi_vectors ix)) \<and>
     (\<forall>(i, v) \<in> set (fi_vectors ix). length v = size_of_int (fc_vector_dimensionality (fi_config ix)))"

lemma flat_Search_knn:
  assumes "flat_wf ix" and "list_all pair_ok (scored ix q (fi_vectors ix))"
    and "length q = size_of_int (fc_vector_dimensionality (fi_config ix))"
  shows "flat_Search ix q k p = Some (knn ix q k)"
proof -
  have "flat_scan ix q k (fi_vectors ix) [] = Some (rev (take k (sort_key dkey (scored ix q (fi_vectors ix)))))"
    using flat_scan_knn [of ix q "[]" "fi_vectors ix" "[]" k] assms by (simp add: flat_wf_def)
  with assms(3) show ?thesis by (simp add: flat_Search_def knn_def pq_drain_map take_map rev_map)
qed

text \<open>The result does not depend on the iteration order of the map.\<close>

lemma knn_order_independent:
  assumes "mset (fi_vectors ix) = mset (fi_vectors jx)" and "fi_config ix = fi_config jx"
    and "distinct (keys (fi_vectors ix))"
  shows "knn ix q k = knn jx q k"
proof -
  have sc: "scored ix q (fi_vectors ix) = scored jx q (fi_vectors ix)"
    using assms(2) by (simp add: scored_def flat_ComputeDistance_def)
  have "sort_key dkey (scored jx q (fi_vectors ix)) = sort_key dkey (scored jx q (fi_vectors jx))"
  proof (rule sort_key_eqI)
    show "mset (sort_key dkey (scored jx q (fi_vectors ix))) = mset (scored jx q (fi_vectors jx))"
      using assms(1) by (simp add: scored_def)
    have "distinct (keys (fi_vectors jx))"
      using assms(1,3) by (metis mset_map mset_eq_imp_distinct_iff)
    then show "distinct (map dkey (scored jx q (fi_vectors jx)))"
      by (simp add: inj_dkey_ids)
  qed simp
  with sc show ?thesis by (simp add: knn_def)
qed

section \<open>Under L2, with finite vectors\<close>

definition flat_finite :: "FlatIndex \<Rightarrow> bool" where
  "flat_finite ix \<longleftrightarrow> fc_metric (fi_config ix) = L2 \<and> (\<forall>(i, v) \<in> set (fi_vectors ix). finite_vec v)"

lemma scored_ok: "flat_finite ix \<Longrightarrow> finite_vec q \<Longrightarrow> list_all pair_ok (scored ix q (fi_vectors ix))"
  by (auto simp: flat_finite_def scored_def list_all_iff pair_ok_def flat_ComputeDistance_def
      ComputeDistance_L2_not_nan)

definition flat_inv :: "FlatIndex \<Rightarrow> bool" where
  "flat_inv ix \<longleftrightarrow> flat_wf ix \<and> flat_finite ix"

definition flat_dim :: "FlatIndex \<Rightarrow> nat" where
  "flat_dim ix = size_of_int (fc_vector_dimensionality (fi_config ix))"

definition flat_vec :: "FlatIndex \<Rightarrow> Id \<rightharpoonup> vector" where
  "flat_vec ix = map_of (fi_vectors ix)"

definition flat_fresh :: "FlatIndex \<Rightarrow> Id \<Rightarrow> bool" where
  "flat_fresh ix i \<longleftrightarrow> \<not> contains (fi_vectors ix) i"

lemma flat_inv_Insert [invar_intros]: "flat_inv ix \<Longrightarrow> finite_vec v \<Longrightarrow> flat_inv (flat_Insert ix i v)"
  by (auto simp: flat_inv_def flat_wf_def flat_finite_def flat_Insert_def mput_new dest: contains_in_set)

lemma flat_inv_Remove [invar_intros]: "flat_inv ix \<Longrightarrow> flat_inv (flat_Remove ix i)"
  by (auto simp: flat_inv_def flat_wf_def flat_finite_def flat_Remove_def merase_filter distinct_keys_filter)

lemma flat_inv_new: "fc_metric c = L2 \<Longrightarrow> flat_inv (flat_new c)"
  by (simp add: flat_inv_def flat_wf_def flat_finite_def flat_new_def)

lemma flat_vec_Insert: "flat_vec (flat_Insert ix i v) =
    (if flat_fresh ix i \<and> length v = flat_dim ix then (flat_vec ix)(i \<mapsto> v) else flat_vec ix)"
  by (auto simp: flat_vec_def flat_fresh_def flat_dim_def flat_Insert_def)

lemma flat_vec_Remove: "flat_vec (flat_Remove ix i) = (flat_vec ix)(i := None)"
  by (auto simp: flat_vec_def flat_Remove_def)

lemma flat_dim_ops [simp]: "flat_dim (flat_Insert ix i v) = flat_dim ix" "flat_dim (flat_Remove ix i) = flat_dim ix"
  by (simp_all add: flat_dim_def flat_Insert_def flat_Remove_def)

lemma set_knn: "set (knn ix q k) \<subseteq> dom (flat_vec ix)"
proof -
  have "set (knn ix q k) \<subseteq> snd ` set (scored ix q (fi_vectors ix))"
    using set_take_subset [of k "map snd (sort_key dkey (scored ix q (fi_vectors ix)))"]
    by (simp add: knn_def)
  then show ?thesis by (simp add: flat_vec_def dom_map_of_conv_image_fst)
qed

lemma distinct_knn: "distinct (keys (fi_vectors ix)) \<Longrightarrow> distinct (knn ix q k)"
proof -
  assume "distinct (keys (fi_vectors ix))"
  then have "distinct (map snd (scored ix q (fi_vectors ix)))" by simp
  then have "distinct (map snd (sort_key dkey (scored ix q (fi_vectors ix))))"
    by (metis mset_map mset_eq_imp_distinct_iff mset_sort)
  then show ?thesis by (simp add: knn_def)
qed

lemma length_knn: "length (knn ix q k) = min k (length (fi_vectors ix))"
  by (simp add: knn_def scored_def min.commute)

lemma flat_Search_ok:
  assumes "flat_inv ix" and "finite_vec q"
  shows "\<exists>r. flat_Search ix q k p = Some r \<and> distinct r \<and> set r \<subseteq> dom (flat_vec ix) \<and> length r \<le> k"
proof (cases "length q = size_of_int (fc_vector_dimensionality (fi_config ix))")
  case True
  then have "flat_Search ix q k p = Some (knn ix q k)"
    using assms by (intro flat_Search_knn) (auto simp: flat_inv_def scored_ok)
  then show ?thesis
    using assms(1) set_knn distinct_knn length_knn by (auto simp: flat_inv_def flat_wf_def)
qed (simp add: flat_Search_def)

text \<open>The flat index provides the interface of the vector store.\<close>

interpretation flat: vector_index flat_inv finite_vec flat_dim flat_vec flat_fresh
    "\<lambda>ix i v. Some (flat_Insert ix i v)" "\<lambda>ix i. Some (flat_Remove ix i)" flat_Search
    "\<lambda>ix reindex. Some (if reindex then flat_Reindex (flat_Cleanup ix) else flat_Cleanup ix)"
proof unfold_locales
  fix ix i assume "flat_fresh ix i"
  then show "flat_vec ix i = None" by (simp add: flat_fresh_def flat_vec_def contains_def)
qed (auto simp: flat_inv_Insert flat_vec_Insert flat_inv_Remove flat_vec_Remove flat_Search_ok
    flat_Cleanup_def flat_Reindex_def)

end
