(* ===== verification/HnswIndex.thy ===== *)
theory HnswIndex
  imports VectorIndex PriorityQueue
begin

text \<open>
  \<open>HNSWIndex\<close> (hnsw_index.h, hnsw_index.cc): the state and every operation. An
  \<open>unordered_set\<close> is a distinct list, its order the iteration order. \<open>None\<close> is an
  exception (\<open>at\<close> on a missing key) or a comparison outside the library's contract (NaN
  distances in a heap or in \<open>std::sort\<close>). The level of a node is
  \<open>GetRandomLevel\<close>, which draws from \<open>std::mt19937\<close> and takes a \<open>std::log\<close>: the
  parameter \<open>rl\<close> of the operations, a function of the id and of \<open>ml\<close>.
\<close>

record HNSWIndexConfig =
  hc_m :: nat
  hc_m0 :: nat
  hc_ef_construction :: nat
  hc_ml :: f32
  hc_metric :: metric
  hc_vector_dimensionality :: int

record Node =
  n_vector :: vector
  n_level :: int
  n_neighbors :: "(int, Id list) umap"
  n_active :: bool

record HNSWIndex =
  hx_config :: HNSWIndexConfig
  hx_nodes :: "(Id, Node) umap"
  hx_node_levels :: "(int, Id list) umap"
  hx_max_level :: int
  hx_entry_point :: "Id option"

type_synonym level_fun = "Id \<Rightarrow> f32 \<Rightarrow> int"

section \<open>Containers\<close>

definition sinsert :: "'a \<Rightarrow> 'a list \<Rightarrow> 'a list" where
  "sinsert x s = (if x \<in> set s then s else s @ [x])"

definition serase :: "'a \<Rightarrow> 'a list \<Rightarrow> 'a list" where
  "serase x s = filter (\<lambda>y. y \<noteq> x) s"

text \<open>What \<open>operator[]\<close> makes of a missing key: a value-initialised node, an empty set.\<close>

definition default_node :: Node where
  "default_node = \<lparr>n_vector = [], n_level = 0, n_neighbors = [], n_active = False\<rparr>"

definition node_ref :: "HNSWIndex \<Rightarrow> Id \<Rightarrow> Node" where
  "node_ref h i = (case map_of (hx_nodes h) i of None \<Rightarrow> default_node | Some n \<Rightarrow> n)"

definition set_ref :: "('k, 'a list) umap \<Rightarrow> 'k \<Rightarrow> 'a list" where
  "set_ref m k = (case map_of m k of None \<Rightarrow> [] | Some s \<Rightarrow> s)"

definition upd_node :: "Id \<Rightarrow> (Node \<Rightarrow> Node) \<Rightarrow> HNSWIndex \<Rightarrow> HNSWIndex" where
  "upd_node i f h = h\<lparr>hx_nodes := mput i (f (node_ref h i)) (hx_nodes h)\<rparr>"

definition set_neighbors :: "int \<Rightarrow> Id list \<Rightarrow> Node \<Rightarrow> Node" where
  "set_neighbors l s n = n\<lparr>n_neighbors := mput l s (n_neighbors n)\<rparr>"

definition is_active :: "HNSWIndex \<Rightarrow> Id \<Rightarrow> bool" where
  "is_active h i = (case map_of (hx_nodes h) i of None \<Rightarrow> False | Some n \<Rightarrow> n_active n)"

text \<open>\<open>for (int l = hi; l > lo; --l)\<close>\<close>

definition levels_down :: "int \<Rightarrow> int \<Rightarrow> int list" where
  "levels_down hi lo = rev [lo + 1..hi]"

section \<open>Construction\<close>

definition hnsw_new :: "HNSWIndexConfig \<Rightarrow> HNSWIndex" where
  "hnsw_new config = \<lparr>hx_config = config, hx_nodes = [], hx_node_levels = [],
     hx_max_level = -1, hx_entry_point = None\<rparr>"

text \<open>The loading constructor looks for an entry point when the snapshot had none.\<close>

definition hnsw_load :: "HNSWIndexConfig \<Rightarrow> int \<Rightarrow> Id option \<Rightarrow> (Id, Node) umap \<Rightarrow>
    (int, Id list) umap \<Rightarrow> HNSWIndex" where
  "hnsw_load config max_level entry_point nodes node_levels =
     \<lparr>hx_config = config, hx_nodes = nodes, hx_node_levels = node_levels,
      hx_max_level = max_level,
      hx_entry_point = (case entry_point of
         Some e \<Rightarrow> Some e
       | None \<Rightarrow> map_option fst
           (find (\<lambda>(i, n). n_level n = max_level \<and> n_active n) nodes))\<rparr>"

section \<open>Searching one level\<close>

definition hnsw_ComputeDistance :: "HNSWIndex \<Rightarrow> vector \<Rightarrow> vector \<Rightarrow> f32" where
  "hnsw_ComputeDistance h a b = ComputeDistance (hc_metric (hx_config h)) a b"

text \<open>The loop over the neighbours of the node just taken: visit the unvisited active ones.\<close>

fun visit_neighbors :: "HNSWIndex \<Rightarrow> vector \<Rightarrow> Id list \<Rightarrow> Id list \<Rightarrow> (f32 \<times> Id) list \<Rightarrow>
    (Id list \<times> (f32 \<times> Id) list) option" where
  "visit_neighbors h query [] visited candidates = Some (visited, candidates)"
| "visit_neighbors h query (neighbor # rest) visited candidates =
     (if neighbor \<in> set visited then visit_neighbors h query rest visited candidates
      else case map_of (hx_nodes h) neighbor of
        None \<Rightarrow> None
      | Some n \<Rightarrow>
          if \<not> n_active n then visit_neighbors h query rest visited candidates
          else case emplace pair_gt (hnsw_ComputeDistance h query (n_vector n), neighbor) candidates of
            None \<Rightarrow> None
          | Some candidates' \<Rightarrow> visit_neighbors h query rest (neighbor # visited) candidates')"

definition unvisited :: "HNSWIndex \<Rightarrow> Id list \<Rightarrow> nat" where
  "unvisited h visited = card (set (keys (hx_nodes h)) - set visited)"

lemma visit_neighbors_measure:
  "visit_neighbors h q nbs vs cs = Some (vs', cs') \<Longrightarrow>
   unvisited h vs' + length cs' = unvisited h vs + length cs"
proof (induction h q nbs vs cs rule: visit_neighbors.induct)
  case (2 h q nb rest vs cs)
  show ?case
  proof (cases "nb \<in> set vs \<or> \<not> is_active h nb")
    case True
    with 2 show ?thesis by (auto simp: is_active_def split: if_splits option.splits)
  next
    case False
    then obtain n where n: "map_of (hx_nodes h) nb = Some n" "n_active n" and new: "nb \<notin> set vs"
      by (auto simp: is_active_def split: option.splits)
    with 2(4) obtain cs1 where cs1: "emplace pair_gt (hnsw_ComputeDistance h q (n_vector n), nb) cs = Some cs1"
      "visit_neighbors h q rest (nb # vs) cs1 = Some (vs', cs')"
      by (auto split: option.splits)
    have "unvisited h vs' + length cs' = unvisited h (nb # vs) + length cs1"
      using 2(3) new n cs1 by blast
    moreover have "length cs1 = Suc (length cs)"
      using emplace_SomeD [OF cs1(1)] by simp
    moreover have "Suc (unvisited h (nb # vs)) = unvisited h vs"
    proof -
      have "set (keys (hx_nodes h)) - set (nb # vs) = (set (keys (hx_nodes h)) - set vs) - {nb}" by auto
      then show ?thesis unfolding unvisited_def
        using map_of_in_keys [OF n(1)] new by (simp only:) (intro card_Suc_Diff1, auto)
    qed
    ultimately show ?thesis by simp
  qed
qed simp

text \<open>
  The main loop: take the nearest candidate; when \<open>ef\<close> results are held, stop if it is
  farther than the farthest of them, else drop that one; keep the candidate and visit its
  neighbours on this level.
\<close>

function search_loop :: "HNSWIndex \<Rightarrow> vector \<Rightarrow> nat \<Rightarrow> int \<Rightarrow> (f32 \<times> Id) list \<Rightarrow>
    (f32 \<times> Id) list \<Rightarrow> Id list \<Rightarrow> (f32 \<times> Id) list option" where
  "search_loop h query ef level [] top_ef visited = Some top_ef"
| "search_loop h query ef level (c # candidates) top_ef visited =
     (if length top_ef = ef \<and> flt (fst (hd top_ef)) (fst c) then Some top_ef
      else case emplace pair_lt c (if length top_ef = ef then tl top_ef else top_ef) of
        None \<Rightarrow> None
      | Some top_ef' \<Rightarrow>
          (case map_of (hx_nodes h) (snd c) of
             None \<Rightarrow> None
           | Some n \<Rightarrow>
               (case map_of (n_neighbors n) level of
                  None \<Rightarrow> search_loop h query ef level candidates top_ef' visited
                | Some nbs \<Rightarrow>
                    (case visit_neighbors h query nbs visited candidates of
                       None \<Rightarrow> None
                     | Some vc \<Rightarrow> search_loop h query ef level (snd vc) top_ef' (fst vc)))))"
  by pat_completeness auto
termination
  by (relation "measure (\<lambda>(h, q, ef, l, cs, top, vs). unvisited h vs + length cs)")
    (auto dest: visit_neighbors_measure)

definition SearchLevel :: "HNSWIndex \<Rightarrow> vector \<Rightarrow> Id option \<Rightarrow> nat \<Rightarrow> int \<Rightarrow> Id list option" where
  "SearchLevel h query entry_point ef level =
     (case entry_point of
        None \<Rightarrow> Some []
      | Some e \<Rightarrow>
          if ef = 0 then Some []
          else case map_of (hx_nodes h) e of
            None \<Rightarrow> None
          | Some n \<Rightarrow>
              map_option (\<lambda>top_ef. rev (pq_drain top_ef))
                (search_loop h query ef level [(hnsw_ComputeDistance h query (n_vector n), e)] [] [e]))"

section \<open>Selecting and connecting neighbours\<close>

fun score_candidates :: "HNSWIndex \<Rightarrow> vector \<Rightarrow> Id list \<Rightarrow> (f32 \<times> Id) list option" where
  "score_candidates h query [] = Some []"
| "score_candidates h query (c # cs) =
     (case map_of (hx_nodes h) c of
        None \<Rightarrow> None
      | Some n \<Rightarrow>
          if \<not> n_active n then score_candidates h query cs
          else map_option (\<lambda>ds. (hnsw_ComputeDistance h query (n_vector n), c) # ds)
                 (score_candidates h query cs))"

definition max_neighbors :: "HNSWIndex \<Rightarrow> int \<Rightarrow> nat" where
  "max_neighbors h level = (if level = 0 then hc_m0 (hx_config h) else hc_m (hx_config h))"

definition SelectNeighbors :: "HNSWIndex \<Rightarrow> vector \<Rightarrow> Id list \<Rightarrow> int \<Rightarrow> Id list option" where
  "SelectNeighbors h query candidates level =
     (case score_candidates h query candidates of
        None \<Rightarrow> None
      | Some ds \<Rightarrow>
          if comparable ds
          then Some (map snd (take (min (length ds) (max_neighbors h level)) (sort_key dkey ds)))
          else None)"

definition add_edge :: "Id \<Rightarrow> int \<Rightarrow> Id \<Rightarrow> HNSWIndex \<Rightarrow> HNSWIndex" where
  "add_edge a l b h = upd_node a (\<lambda>n. set_neighbors l (sinsert b (set_ref (n_neighbors n) l)) n) h"

definition del_edge :: "Id \<Rightarrow> int \<Rightarrow> Id \<Rightarrow> HNSWIndex \<Rightarrow> HNSWIndex" where
  "del_edge a l b h = upd_node a (\<lambda>n. set_neighbors l (serase b (set_ref (n_neighbors n) l)) n) h"

text \<open>Keep the selected neighbours of \<open>neighbor_id\<close>, and drop the edges back from the others.\<close>

definition prune :: "Id \<Rightarrow> int \<Rightarrow> Id list \<Rightarrow> Id list \<Rightarrow> HNSWIndex \<Rightarrow> HNSWIndex" where
  "prune neighbor_id level e_conn e_new_conn h =
     upd_node neighbor_id (set_neighbors level (fold sinsert e_new_conn []))
       (fold (\<lambda>old h. if old \<in> set e_new_conn then h else del_edge old level neighbor_id h) e_conn h)"

definition connect_one :: "Id \<Rightarrow> int \<Rightarrow> Id \<Rightarrow> HNSWIndex \<Rightarrow> HNSWIndex option" where
  "connect_one node_id level neighbor_id h =
     (case map_of (hx_nodes h) neighbor_id of
        None \<Rightarrow> None
      | Some n \<Rightarrow>
          if \<not> n_active n then Some h
          else
            let h' = add_edge neighbor_id level node_id (add_edge node_id level neighbor_id h);
                e_conn = set_ref (n_neighbors (node_ref h' neighbor_id)) level
            in if length e_conn > max_neighbors h' level
               then map_option (\<lambda>e_new_conn. prune neighbor_id level e_conn e_new_conn h')
                      (SelectNeighbors h' (n_vector (node_ref h' neighbor_id)) e_conn level)
               else Some h')"

definition ConnectNeighbors :: "HNSWIndex \<Rightarrow> Id \<Rightarrow> vector \<Rightarrow> Id list \<Rightarrow> int \<Rightarrow> HNSWIndex option" where
  "ConnectNeighbors h node_id v neighbors level = for_each (connect_one node_id level) neighbors h"

section \<open>Insertion\<close>

fun descend :: "HNSWIndex \<Rightarrow> vector \<Rightarrow> Id \<Rightarrow> int list \<Rightarrow> Id option" where
  "descend h v entry_point [] = Some entry_point"
| "descend h v entry_point (l # ls) =
     (case SearchLevel h v (Some entry_point) 1 l of
        None \<Rightarrow> None
      | Some nearest \<Rightarrow> descend h v (case nearest of [] \<Rightarrow> entry_point | x # _ \<Rightarrow> x) ls)"

fun connect_levels :: "Id \<Rightarrow> vector \<Rightarrow> Id \<Rightarrow> int list \<Rightarrow> HNSWIndex \<Rightarrow> HNSWIndex option" where
  "connect_levels i v entry_point [] h = Some h"
| "connect_levels i v entry_point (l # ls) h =
     (case SearchLevel h v (Some entry_point) (hc_ef_construction (hx_config h)) l of
        None \<Rightarrow> None
      | Some nearest \<Rightarrow>
          (case SelectNeighbors h v nearest l of
             None \<Rightarrow> None
           | Some neighbors \<Rightarrow>
               (case ConnectNeighbors h i v neighbors l of
                  None \<Rightarrow> None
                | Some h' \<Rightarrow> connect_levels i v entry_point ls h')))"

definition add_node :: "Id \<Rightarrow> vector \<Rightarrow> int \<Rightarrow> HNSWIndex \<Rightarrow> HNSWIndex" where
  "add_node i v new_level h =
     h\<lparr>hx_nodes := mput i \<lparr>n_vector = v, n_level = new_level, n_neighbors = [], n_active = True\<rparr> (hx_nodes h),
       hx_node_levels := mput new_level (sinsert i (set_ref (hx_node_levels h) new_level)) (hx_node_levels h)\<rparr>"

definition hnsw_InsertNoLock :: "level_fun \<Rightarrow> HNSWIndex \<Rightarrow> Id \<Rightarrow> vector \<Rightarrow> HNSWIndex option" where
  "hnsw_InsertNoLock rl h i v =
     (if length v \<noteq> size_of_int (hc_vector_dimensionality (hx_config h)) \<or> contains (hx_nodes h) i
      then Some h
      else
        let new_level = rl i (hc_ml (hx_config h));
            h1 = add_node i v new_level h
        in case hx_entry_point h of
             None \<Rightarrow> Some (h1\<lparr>hx_entry_point := Some i, hx_max_level := new_level\<rparr>)
           | Some ep \<Rightarrow>
               (case descend h1 v ep (levels_down (hx_max_level h) new_level) of
                  None \<Rightarrow> None
                | Some ep' \<Rightarrow>
                    map_option
                      (\<lambda>h2. if new_level > hx_max_level h
                            then h2\<lparr>hx_max_level := new_level, hx_entry_point := Some i\<rparr> else h2)
                      (connect_levels i v ep' (levels_down (min (hx_max_level h) new_level) (-1)) h1)))"

text \<open>\<open>Insert\<close> takes the lock and then has the same body.\<close>

definition hnsw_Insert :: "level_fun \<Rightarrow> HNSWIndex \<Rightarrow> Id \<Rightarrow> vector \<Rightarrow> HNSWIndex option" where
  "hnsw_Insert rl h i v = hnsw_InsertNoLock rl h i v"

section \<open>Removal\<close>

text \<open>The highest populated level at or below \<open>l\<close>, and its first active node.\<close>

function pick_entry :: "HNSWIndex \<Rightarrow> int \<Rightarrow> Id option \<times> int" where
  "pick_entry h l =
     (if l < 0 then (None, l)
      else case map_of (hx_node_levels h) l of
        Some s \<Rightarrow> (find (is_active h) s, l)
      | None \<Rightarrow> pick_entry h (l - 1))"
  by pat_completeness auto
termination
  by (relation "measure (\<lambda>(h, l). nat (l + 1))") auto

declare pick_entry.simps [simp del]

definition drop_level :: "Id \<Rightarrow> int \<Rightarrow> (int, Id list) umap \<Rightarrow> (int, Id list) umap" where
  "drop_level i level node_levels =
     (let s = serase i (set_ref node_levels level)
      in if s = [] then merase level node_levels else mput level s node_levels)"

definition hnsw_Remove :: "HNSWIndex \<Rightarrow> Id \<Rightarrow> HNSWIndex" where
  "hnsw_Remove h i =
     (case hx_entry_point h of
        None \<Rightarrow> h
      | Some ep \<Rightarrow>
          if \<not> is_active h i then h
          else
            let h1 = upd_node i (\<lambda>n. n\<lparr>n_active := False\<rparr>) h;
                h2 = h1\<lparr>hx_node_levels := drop_level i (n_level (node_ref h i)) (hx_node_levels h)\<rparr>
            in if i \<noteq> ep then h2
               else let (entry, level) = pick_entry h2 (hx_max_level h)
                    in h2\<lparr>hx_entry_point := entry, hx_max_level := level\<rparr>)"

section \<open>Search\<close>

fun descend_search :: "HNSWIndex \<Rightarrow> vector \<Rightarrow> nat \<Rightarrow> Id \<Rightarrow> int list \<Rightarrow> Id option option" where
  "descend_search h query ef entry_point [] = Some (Some entry_point)"
| "descend_search h query ef entry_point (l # ls) =
     (case SearchLevel h query (Some entry_point) ef l of
        None \<Rightarrow> None
      | Some [] \<Rightarrow> Some None
      | Some (x # _) \<Rightarrow> descend_search h query ef x ls)"

definition hnsw_Search :: "HNSWIndex \<Rightarrow> vector \<Rightarrow> nat \<Rightarrow> nat \<Rightarrow> Id list option" where
  "hnsw_Search h query k ef_search =
     (case hx_entry_point h of
        None \<Rightarrow> Some []
      | Some ep \<Rightarrow>
          (case descend_search h query ef_search ep (levels_down (hx_max_level h) 0) of
             None \<Rightarrow> None
           | Some None \<Rightarrow> Some []
           | Some (Some e) \<Rightarrow>
               map_option (take k) (SearchLevel h query (Some e) ef_search 0)))"

section \<open>Cleanup and reindex\<close>

definition cleanup_node :: "Id \<Rightarrow> HNSWIndex \<Rightarrow> HNSWIndex" where
  "cleanup_node i h =
     (if \<not> is_active h i then h\<lparr>hx_nodes := merase i (hx_nodes h)\<rparr>
      else upd_node i (\<lambda>n. n\<lparr>n_neighbors :=
             map (\<lambda>(level, s). (level, filter (is_active h) s)) (n_neighbors n)\<rparr>) h)"

definition hnsw_Cleanup :: "HNSWIndex \<Rightarrow> HNSWIndex" where
  "hnsw_Cleanup h = fold cleanup_node (keys (hx_nodes h)) h"

definition hnsw_Reindex :: "level_fun \<Rightarrow> HNSWIndex \<Rightarrow> HNSWIndex option" where
  "hnsw_Reindex rl h =
     for_each (\<lambda>(i, v) h. hnsw_InsertNoLock rl h i v)
       (map (\<lambda>(i, n). (i, n_vector n)) (hx_nodes h))
       (h\<lparr>hx_nodes := [], hx_node_levels := [], hx_entry_point := None, hx_max_level := -1\<rparr>)"

end
