(* ===== verification/Wal.thy ===== *)
theory Wal
  imports StreamText Distance FlatIndex HnswIndex
begin

text \<open>
  The write-ahead log of \<open>VectorPersistenceManager\<close> (persistence_manager.cc): what the
  \<open>Append\<close> operations write and what \<open>ReplayWAL\<close> and \<open>SerializeWALEntries\<close> read back, with
  the same loop over the lines. A \<open>WALEntry\<close> is the message of replica.proto: a field that
  is not set reads as its default. \<open>None\<close> is an entry filled from an unset variable. Shown:
  a logged operation reads back as itself when its floats are \<open>wal_stable\<close> and its content
  has no newline; a newline in the content adds entries of the caller's choice.
\<close>

section \<open>Entries\<close>

datatype WALType = WAL_INSERT | WAL_REMOVE | WAL_CREATE | WAL_DROP

datatype IndexConfig = NoIndexConfig | HnswConfig HNSWIndexConfig | FlatConfig FlatIndexConfig

datatype WALConfig =
    NoConfig
  | InsertConfig Id vector string
  | RemoveConfig Id
  | CreateConfig int IndexConfig u64

record WALEntry =
  we_type :: WALType
  we_table :: string
  we_config :: WALConfig

definition empty_entry :: "string \<Rightarrow> WALEntry" where
  "empty_entry table = \<lparr>we_type = WAL_INSERT, we_table = table, we_config = NoConfig\<rparr>"

datatype StoredIndexType = STORED_HNSW | STORED_FLAT

section \<open>Writing\<close>

abbreviation newline :: char where "newline \<equiv> CHR 0x0A"

definition metric_name :: "metric \<Rightarrow> string" where
  "metric_name m = (if m = L2 then ''L2'' else ''COSINE'')"

definition wal_AppendInsert :: "string \<Rightarrow> Id \<Rightarrow> vector \<Rightarrow> string \<Rightarrow> string" where
  "wal_AppendInsert wal i v content =
     wal @ ''insert '' @ show_nat (unat i) @ show_floats v @ '' | '' @ content @ [newline]"

definition wal_AppendRemove :: "string \<Rightarrow> Id \<Rightarrow> string" where
  "wal_AppendRemove wal i = wal @ ''remove '' @ show_nat (unat i) @ [newline]"

definition wal_AppendCreate ::
  "StoredIndexType \<Rightarrow> string \<Rightarrow> HNSWIndexConfig \<Rightarrow> FlatIndexConfig \<Rightarrow> u64 \<Rightarrow> string" where
  "wal_AppendCreate stored wal hc fc cache_size = wal @
     (case stored of
        STORED_HNSW \<Rightarrow> ''create '' @ show_int (hc_vector_dimensionality hc) @ '' '' @ show_nat (hc_m hc) @ '' ''
          @ show_nat (hc_m0 hc) @ '' '' @ show_nat (hc_ef_construction hc) @ '' '' @ show_f32 (hc_ml hc) @ '' ''
          @ metric_name (hc_metric hc) @ '' '' @ show_nat (unat cache_size) @ [newline]
      | STORED_FLAT \<Rightarrow> ''create '' @ show_int (fc_vector_dimensionality fc) @ '' ''
          @ metric_name (fc_metric fc) @ '' '' @ show_nat (unat cache_size) @ [newline])"

definition wal_AppendDrop :: "string \<Rightarrow> string" where
  "wal_AppendDrop wal = wal @ ''drop'' @ [newline]"

section \<open>Reading\<close>

text \<open>\<open>std::getline\<close> until the end of the file.\<close>

function lines :: "string \<Rightarrow> string list" where
  "lines [] = []"
| "lines (c # s) = takeWhile (\<lambda>c. c \<noteq> newline) (c # s) # lines (drop 1 (dropWhile (\<lambda>c. c \<noteq> newline) (c # s)))"
  by pat_completeness auto
termination
proof (relation "measure length")
  fix c :: char and s
  have "length (drop 1 xs) < Suc n" if "length xs \<le> Suc n" for xs :: string and n
    using that by simp
  from this [OF order_trans [OF length_dropWhile_le]]
  show "(drop 1 (dropWhile (\<lambda>c. c \<noteq> newline) (c # s)), c # s) \<in> measure length"
    unfolding in_measure length_Cons by this simp
qed simp

definition strip_delimiter :: "string \<Rightarrow> string" where
  "strip_delimiter content = (if take 2 content = ''| '' then drop 2 content else content)"

definition parse_insert :: "stream \<Rightarrow> WALConfig option" where
  "parse_insert st =
     (let (i, st1) = get_u64 st; (vs, st2) = get_floats st1
      in map_option (\<lambda>i. InsertConfig i vs (strip_delimiter (skip_ws (snd st2)))) i)"

definition parse_remove :: "stream \<Rightarrow> WALConfig option" where
  "parse_remove st = map_option RemoveConfig (fst (get_u64 st))"

definition parse_metric :: "string \<Rightarrow> metric" where
  "parse_metric s = (if s = ''L2'' then L2 else Cosine)"

definition parse_create :: "StoredIndexType \<Rightarrow> stream \<Rightarrow> WALConfig option" where
  "parse_create stored st =
     (case stored of
        STORED_HNSW \<Rightarrow>
          (let (dim, st1) = get_int st; (m, st2) = get_u64 st1; (m0, st3) = get_u64 st2;
               (ef, st4) = get_u64 st3; (ml, st5) = get_f32 st4; (metric_s, st6) = get_word st5;
               (cache_size, st7) = get_u64 st6
           in case (dim, m, m0, ef, ml, cache_size) of
                (Some dim, Some m, Some m0, Some ef, Some ml, Some cache_size) \<Rightarrow>
                  Some (CreateConfig dim (HnswConfig \<lparr>hc_m = unat m, hc_m0 = unat m0,
                    hc_ef_construction = unat ef, hc_ml = ml, hc_metric = parse_metric metric_s,
                    hc_vector_dimensionality = dim\<rparr>) cache_size)
              | _ \<Rightarrow> None)
      | STORED_FLAT \<Rightarrow>
          (let (dim, st1) = get_int st; (metric_s, st2) = get_word st1; (cache_size, st3) = get_u64 st2
           in case (dim, cache_size) of
                (Some dim, Some cache_size) \<Rightarrow>
                  Some (CreateConfig dim (FlatConfig \<lparr>fc_vector_dimensionality = dim,
                    fc_metric = parse_metric metric_s\<rparr>) cache_size)
              | _ \<Rightarrow> None))"

definition parse_line :: "StoredIndexType \<Rightarrow> string \<Rightarrow> string \<Rightarrow> WALEntry option" where
  "parse_line stored table line =
     (let entry = empty_entry table; (command, st) = get_word (False, line)
      in if command = ''insert''
         then map_option (\<lambda>c. entry\<lparr>we_type := WAL_INSERT, we_config := c\<rparr>) (parse_insert st)
         else if command = ''remove''
         then map_option (\<lambda>c. entry\<lparr>we_type := WAL_REMOVE, we_config := c\<rparr>) (parse_remove st)
         else if command = ''create''
         then map_option (\<lambda>c. entry\<lparr>we_type := WAL_CREATE, we_config := c\<rparr>) (parse_create stored st)
         else if command = ''drop'' then Some (entry\<lparr>we_type := WAL_DROP\<rparr>)
         else Some entry)"

text \<open>The lines before the offset are skipped, not parsed.\<close>

definition SerializeWALEntries :: "StoredIndexType \<Rightarrow> string \<Rightarrow> string \<Rightarrow> u64 \<Rightarrow> WALEntry list option" where
  "SerializeWALEntries stored table wal offset = those (map (parse_line stored table) (drop (unat offset) (lines wal)))"

text \<open>\<open>ReplayWAL\<close> calls back on each entry in turn.\<close>

definition ReplayWAL :: "StoredIndexType \<Rightarrow> string \<Rightarrow> string \<Rightarrow> (WALEntry \<Rightarrow> 's \<Rightarrow> 's option) \<Rightarrow> 's \<Rightarrow> 's option" where
  "ReplayWAL stored table wal callback s =
     for_each (\<lambda>line s. case parse_line stored table line of None \<Rightarrow> None | Some entry \<Rightarrow> callback entry s)
       (lines wal) s"

section \<open>Lines\<close>

definition terminated :: "string \<Rightarrow> bool" where
  "terminated wal \<longleftrightarrow> wal = [] \<or> last wal = newline"

lemma lines_line: "newline \<notin> set l \<Longrightarrow> lines (l @ newline # s) = l # lines s"
  by (cases l) (auto simp: takeWhile_append dropWhile_append)

lemma lines_append: "terminated wal \<Longrightarrow> lines (wal @ s) = lines wal @ lines s"
proof (induction wal rule: lines.induct)
  case (2 c w)
  have "newline \<in> set (c # w)" using 2(2) last_in_set [of "c # w"] by (auto simp: terminated_def)
  from split_list_first [OF this] obtain l r where cw: "c # w = l @ newline # r" and l: "newline \<notin> set l"
    by blast
  have "terminated r" using 2(2) cw by (cases r) (simp_all add: terminated_def)
  moreover have "dropWhile (\<lambda>c. c \<noteq> newline) (l @ newline # r) = newline # r" using l by (induction l) auto
  ultimately have "lines (r @ s) = lines r @ lines s" using 2(1) by (simp only: cw) simp
  then show ?case using lines_line [OF l, of "r @ s"] lines_line [OF l, of r] cw by simp
qed simp

lemma lines_append_line: "terminated wal \<Longrightarrow> newline \<notin> set l \<Longrightarrow> lines (wal @ l @ [newline]) = lines wal @ [l]"
  using lines_append [of wal "l @ [newline]"] lines_line [of l "[]"] by simp

lemma terminated_append [simp]: "terminated (wal @ l @ [newline])" "terminated []"
  by (simp_all add: terminated_def)

section \<open>Round trips\<close>

lemma get_word_command:
  assumes "\<forall>c \<in> set w. \<not> is_space c" and "w \<noteq> []" and "s = [] \<or> (\<exists>c t. s = c # t \<and> is_space c)"
  shows "get_word (False, w @ s) = (w, (False, s))"
proof -
  obtain c t where w: "w = c # t" using assms(2) by (cases w) auto
  then have "skip_ws (w @ s) = w @ s" using assms(1) by (simp add: skip_ws_def)
  moreover have "takeWhile (\<lambda>c. \<not> is_space c) (w @ s) = w"
    using assms(1,3) by (auto simp: takeWhile_append2)
  moreover have "dropWhile (\<lambda>c. \<not> is_space c) (w @ s) = s"
    using assms(1,3) by (auto simp: dropWhile_append2)
  ultimately show ?thesis using assms(2) by (simp add: get_word_def Let_def)
qed

lemma blank [simp]: "is_space (CHR '' '')" "\<not> is_space (CHR ''|'')"
  by (simp_all add: is_space_def)

lemma stops_blank [simp]: "stops_number (CHR '' '' # s)" "stops_number []"
  by (simp_all add: stops_number_def)

lemma command_chars:
  "\<forall>c \<in> set ''insert''. \<not> is_space c" "\<forall>c \<in> set ''remove''. \<not> is_space c"
  "\<forall>c \<in> set ''create''. \<not> is_space c" "\<forall>c \<in> set ''drop''. \<not> is_space c"
  by (simp_all add: is_space_def)

definition insert_line :: "Id \<Rightarrow> vector \<Rightarrow> string \<Rightarrow> string" where
  "insert_line i v content = ''insert '' @ show_nat (unat i) @ show_floats v @ '' | '' @ content"

lemma wal_AppendInsert_line: "wal_AppendInsert wal i v content = wal @ insert_line i v content @ [newline]"
  by (simp add: wal_AppendInsert_def insert_line_def)

lemma parse_insert_line:
  assumes "list_all wal_stable v"
  shows "parse_line stored table (insert_line i v content) =
    Some \<lparr>we_type = WAL_INSERT, we_table = table, we_config = InsertConfig i v content\<rparr>"
proof -
  let ?rest = "show_floats v @ CHR '' '' # CHR ''|'' # CHR '' '' # content"
  let ?s = "CHR '' '' # show_nat (unat i) @ ?rest"
  have "\<exists>u. ?rest = CHR '' '' # u" by (cases v) (simp_all add: show_floats_def)
  then have u: "get_u64 (False, ?s) = (Some i, (False, ?rest))"
    by (intro get_u64_show) (auto simp: stops_number_def)
  have w: "get_word (False, ''insert'' @ ?s) = (''insert'', (False, ?s))"
    by (rule get_word_command [OF command_chars(1)]) simp_all
  have f: "get_floats (False, ?rest) = (v, (True, CHR ''|'' # CHR '' '' # content))"
    by (rule get_floats_show [OF assms])
  have "strip_delimiter (skip_ws (CHR ''|'' # CHR '' '' # content)) = content"
    by (simp add: strip_delimiter_def skip_ws_def)
  then have p: "parse_insert (False, ?s) = Some (InsertConfig i v content)"
    by (simp add: parse_insert_def u f)
  have "insert_line i v content = ''insert'' @ ?s" by (simp add: insert_line_def)
  then show ?thesis unfolding parse_line_def Let_def by (simp only: w p prod.case) (simp add: empty_entry_def)
qed

definition remove_line :: "Id \<Rightarrow> string" where
  "remove_line i = ''remove '' @ show_nat (unat i)"

lemma wal_AppendRemove_line: "wal_AppendRemove wal i = wal @ remove_line i @ [newline]"
  by (simp add: wal_AppendRemove_def remove_line_def)

lemma parse_remove_line:
  "parse_line stored table (remove_line i) =
    Some \<lparr>we_type = WAL_REMOVE, we_table = table, we_config = RemoveConfig i\<rparr>"
proof -
  let ?s = "CHR '' '' # show_nat (unat i) @ []"
  have w: "get_word (False, ''remove'' @ ?s) = (''remove'', (False, ?s))"
    by (rule get_word_command [OF command_chars(2)]) simp_all
  have p: "parse_remove (False, ?s) = Some (RemoveConfig i)"
    unfolding parse_remove_def get_u64_show [OF stops_blank(2)] by simp
  have "remove_line i = ''remove'' @ ?s" by (simp add: remove_line_def)
  then show ?thesis unfolding parse_line_def Let_def by (simp only: w p prod.case) (simp add: empty_entry_def)
qed

lemma parse_drop_line:
  "parse_line stored table ''drop'' = Some \<lparr>we_type = WAL_DROP, we_table = table, we_config = NoConfig\<rparr>"
proof -
  have w: "get_word (False, ''drop'' @ []) = (''drop'', (False, []))"
    by (rule get_word_command [OF command_chars(4)]) simp_all
  show ?thesis unfolding parse_line_def Let_def using w by (simp add: empty_entry_def)
qed

text \<open>The fields of a \<open>create\<close> entry.\<close>

lemma get_u64_nat:
  assumes "stops_number rest" and "n < 2 ^ 64"
  shows "get_u64 (False, CHR '' '' # show_nat n @ rest) = (Some (of_nat n), (False, rest))"
proof -
  have "unat (of_nat n :: u64) = n" using assms(2) by (simp add: unat_of_nat)
  with get_u64_show [OF assms(1), of "of_nat n"] show ?thesis by simp
qed

lemma skip_ws_nonspace: "\<not> is_space c \<Longrightarrow> skip_ws (c # s) = c # s"
  by (simp add: skip_ws_def)

lemma get_word_blank: "get_word (False, CHR '' '' # s) = get_word (False, s)"
  by (simp add: get_word_def)

lemma metric_name_chars: "\<forall>c \<in> set (metric_name m). \<not> is_space c" "metric_name m \<noteq> []"
  by (cases m; simp add: metric_name_def is_space_def)+

lemma get_word_metric: "get_word (False, CHR '' '' # metric_name m @ CHR '' '' # s) = (metric_name m, (False, CHR '' '' # s))"
  unfolding get_word_blank by (rule get_word_command [OF metric_name_chars]) simp

lemma parse_metric_name [simp]: "parse_metric (metric_name m) = m"
  by (cases m) (simp_all add: parse_metric_def metric_name_def)

definition create_line :: "StoredIndexType \<Rightarrow> HNSWIndexConfig \<Rightarrow> FlatIndexConfig \<Rightarrow> u64 \<Rightarrow> string" where
  "create_line stored hc fc cache_size = butlast (wal_AppendCreate stored [] hc fc cache_size)"

lemma wal_AppendCreate_line:
  "wal_AppendCreate stored wal hc fc cache_size = wal @ create_line stored hc fc cache_size @ [newline]"
  by (cases stored) (simp_all add: create_line_def wal_AppendCreate_def butlast_append)

lemma parse_create_flat:
  assumes "- (2 ^ 31) \<le> fc_vector_dimensionality fc" and "fc_vector_dimensionality fc < 2 ^ 31"
  shows "parse_line STORED_FLAT table (create_line STORED_FLAT hc fc cache_size) =
    Some \<lparr>we_type = WAL_CREATE, we_table = table,
      we_config = CreateConfig (fc_vector_dimensionality fc) (FlatConfig fc) cache_size\<rparr>"
proof -
  let ?s2 = "CHR '' '' # show_nat (unat cache_size) @ []"
  let ?s1 = "CHR '' '' # metric_name (fc_metric fc) @ ?s2"
  let ?s = "CHR '' '' # show_int (fc_vector_dimensionality fc) @ ?s1"
  have w: "get_word (False, ''create'' @ ?s) = (''create'', (False, ?s))"
    by (rule get_word_command [OF command_chars(3)]) simp_all
  have i: "get_int (False, ?s) = (Some (fc_vector_dimensionality fc), (False, ?s1))"
    by (rule get_int_show [OF stops_blank(1) assms])
  have m: "get_word (False, ?s1) = (metric_name (fc_metric fc), (False, ?s2))" by (rule get_word_metric)
  have c: "get_u64 (False, ?s2) = (Some cache_size, (False, []))" by (rule get_u64_show) simp
  have "parse_create STORED_FLAT (False, ?s) =
      Some (CreateConfig (fc_vector_dimensionality fc) (FlatConfig fc) cache_size)"
    unfolding parse_create_def by (simp only: i m c prod.case StoredIndexType.case Let_def option.case) simp
  then show ?thesis
    unfolding parse_line_def Let_def
    by (simp only: create_line_def wal_AppendCreate_def)
      (use w in \<open>simp add: empty_entry_def butlast_append\<close>)
qed

lemma parse_create_hnsw:
  assumes "- (2 ^ 31) \<le> hc_vector_dimensionality hc" and "hc_vector_dimensionality hc < 2 ^ 31"
    and "hc_m hc < 2 ^ 64" and "hc_m0 hc < 2 ^ 64" and "hc_ef_construction hc < 2 ^ 64" and "wal_stable (hc_ml hc)"
  shows "parse_line STORED_HNSW table (create_line STORED_HNSW hc fc cache_size) =
    Some \<lparr>we_type = WAL_CREATE, we_table = table,
      we_config = CreateConfig (hc_vector_dimensionality hc) (HnswConfig hc) cache_size\<rparr>"
proof -
  let ?s6 = "CHR '' '' # show_nat (unat cache_size) @ []"
  let ?s5 = "CHR '' '' # metric_name (hc_metric hc) @ ?s6"
  let ?s4 = "CHR '' '' # show_f32 (hc_ml hc) @ ?s5"
  let ?s3 = "CHR '' '' # show_nat (hc_ef_construction hc) @ ?s4"
  let ?s2 = "CHR '' '' # show_nat (hc_m0 hc) @ ?s3"
  let ?s1 = "CHR '' '' # show_nat (hc_m hc) @ ?s2"
  let ?s = "CHR '' '' # show_int (hc_vector_dimensionality hc) @ ?s1"
  have w: "get_word (False, ''create'' @ ?s) = (''create'', (False, ?s))"
    by (rule get_word_command [OF command_chars(3)]) simp_all
  have g: "get_int (False, ?s) = (Some (hc_vector_dimensionality hc), (False, ?s1))"
    "get_u64 (False, ?s1) = (Some (of_nat (hc_m hc)), (False, ?s2))"
    "get_u64 (False, ?s2) = (Some (of_nat (hc_m0 hc)), (False, ?s3))"
    "get_u64 (False, ?s3) = (Some (of_nat (hc_ef_construction hc)), (False, ?s4))"
    "get_f32 (False, ?s4) = (Some (hc_ml hc), (False, ?s5))"
    "get_word (False, ?s5) = (metric_name (hc_metric hc), (False, ?s6))"
    "get_u64 (False, ?s6) = (Some cache_size, (False, []))"
    by (rule get_int_show [OF stops_blank(1) assms(1,2)] get_u64_nat [OF stops_blank(1)] assms
        get_f32_show get_word_metric get_u64_show stops_blank)+
  have u: "unat (of_nat (hc_m hc) :: u64) = hc_m hc" "unat (of_nat (hc_m0 hc) :: u64) = hc_m0 hc"
    "unat (of_nat (hc_ef_construction hc) :: u64) = hc_ef_construction hc"
    using assms(3-5) by (simp_all add: unat_of_nat)
  have "parse_create STORED_HNSW (False, ?s) =
      Some (CreateConfig (hc_vector_dimensionality hc) (HnswConfig hc) cache_size)"
    unfolding parse_create_def by (simp only: g u prod.case StoredIndexType.case Let_def option.case) simp
  then show ?thesis
    unfolding parse_line_def Let_def
    by (simp only: create_line_def wal_AppendCreate_def)
      (use w in \<open>simp add: empty_entry_def butlast_append\<close>)
qed

section \<open>The log as a whole\<close>

lemma show_nat_no_newline: "newline \<notin> set (show_nat n)"
  using show_nat_all [of newline n] by (auto simp: is_digit_def)

lemma float_form_no_newline:
  assumes "float_form a"
  shows "newline \<notin> set a"
proof -
  have "\<not> is_digit newline" by (simp add: is_digit_def)
  then have d: "newline \<notin> set ds" if "list_all is_digit ds" for ds
    using that unfolding list_all_iff by metis
  obtain ip fp ep where "a = ip @ fp @ ep" "newline \<notin> set ip"
    and fp: "fp = [] \<or> (\<exists>ds. fp = CHR ''.'' # ds \<and> list_all is_digit ds)"
    and ep: "ep = [] \<or> (\<exists>c ds. ep = CHR ''e'' # c # ds \<and> (c = CHR ''+'' \<or> c = CHR ''-'') \<and> list_all is_digit ds)"
    using assms d unfolding float_form_def by metis
  moreover have "newline \<notin> set fp" using fp d by (elim disjE exE conjE) simp_all
  moreover have "newline \<notin> set ep" using ep d by (elim disjE exE conjE) simp_all
  ultimately show ?thesis by simp
qed

lemma show_floats_no_newline: "newline \<notin> set (show_floats v)"
proof -
  have "newline \<notin> set (show_f32 f)" for f
    using float_form_no_newline [OF show_magnitude_form] by (cases f) simp_all
  then show ?thesis by (simp add: show_floats_def)
qed

lemma insert_line_no_newline: "newline \<notin> set content \<Longrightarrow> newline \<notin> set (insert_line i v content)"
  using show_nat_no_newline show_floats_no_newline by (simp add: insert_line_def)

lemma remove_line_no_newline: "newline \<notin> set (remove_line i)"
  using show_nat_no_newline by (simp add: remove_line_def)

definition wal_entries :: "StoredIndexType \<Rightarrow> string \<Rightarrow> string \<Rightarrow> WALEntry list option" where
  "wal_entries stored table wal = those (map (parse_line stored table) (lines wal))"

lemma SerializeWALEntries_0: "SerializeWALEntries stored table wal 0 = wal_entries stored table wal"
  by (simp add: SerializeWALEntries_def wal_entries_def)

lemma those_append: "those (xs @ ys) =
    (case those xs of None \<Rightarrow> None | Some as \<Rightarrow> (case those ys of None \<Rightarrow> None | Some bs \<Rightarrow> Some (as @ bs)))"
  by (induction xs) (auto split: option.splits simp: map_option_case)

lemma wal_entries_Nil: "wal_entries stored table [] = Some []"
  by (simp add: wal_entries_def)

lemma wal_entries_line:
  assumes "terminated wal" and "newline \<notin> set l" and "wal_entries stored table wal = Some es"
    and "parse_line stored table l = Some e"
  shows "wal_entries stored table (wal @ l @ [newline]) = Some (es @ [e])"
  using assms by (simp add: wal_entries_def lines_append_line those_append)

lemma wal_entries_AppendInsert:
  assumes "terminated wal" and "wal_entries stored table wal = Some es"
    and "list_all wal_stable v" and "newline \<notin> set content"
  shows "wal_entries stored table (wal_AppendInsert wal i v content) =
    Some (es @ [\<lparr>we_type = WAL_INSERT, we_table = table, we_config = InsertConfig i v content\<rparr>])"
  unfolding wal_AppendInsert_line
  by (rule wal_entries_line [OF assms(1) insert_line_no_newline [OF assms(4)] assms(2) parse_insert_line [OF assms(3)]])

lemma wal_entries_AppendRemove:
  assumes "terminated wal" and "wal_entries stored table wal = Some es"
  shows "wal_entries stored table (wal_AppendRemove wal i) =
    Some (es @ [\<lparr>we_type = WAL_REMOVE, we_table = table, we_config = RemoveConfig i\<rparr>])"
  unfolding wal_AppendRemove_line
  by (rule wal_entries_line [OF assms(1) remove_line_no_newline assms(2) parse_remove_line])

text \<open>Reading at an offset gives what the whole log has after that many entries.\<close>

lemma those_map_drop: "those (map f xs) = Some ys \<Longrightarrow> those (map f (drop n xs)) = Some (drop n ys)"
proof (induction xs arbitrary: ys n)
  case (Cons x xs)
  then show ?case by (cases n) (auto split: option.splits)
qed simp

lemma SerializeWALEntries_offset:
  assumes "wal_entries stored table wal = Some es"
  shows "SerializeWALEntries stored table wal offset = Some (drop (unat offset) es)"
  using assms those_map_drop by (simp add: SerializeWALEntries_def wal_entries_def)

lemma ReplayWAL_entries:
  assumes "wal_entries stored table wal = Some es"
  shows "ReplayWAL stored table wal callback s = for_each callback es s"
proof -
  have "those (map (parse_line stored table) ls) = Some es \<Longrightarrow>
      for_each (\<lambda>line s. case parse_line stored table line of None \<Rightarrow> None | Some entry \<Rightarrow> callback entry s) ls s =
      for_each callback es s" for ls
    by (induction ls arbitrary: es s) (auto split: option.splits)
  with assms show ?thesis by (simp add: ReplayWAL_def wal_entries_def)
qed

text \<open>A newline in the content ends the line early; what follows it is read as an entry.\<close>

lemma wal_injection:
  assumes "terminated wal" and "wal_entries stored table wal = Some es"
    and "list_all wal_stable v" and "newline \<notin> set content"
  shows "wal_entries stored table (wal_AppendInsert wal i v (content @ newline # remove_line j)) =
    Some (es @ [\<lparr>we_type = WAL_INSERT, we_table = table, we_config = InsertConfig i v content\<rparr>,
                \<lparr>we_type = WAL_REMOVE, we_table = table, we_config = RemoveConfig j\<rparr>])"
proof -
  have "wal_AppendInsert wal i v (content @ newline # remove_line j) =
      wal_AppendRemove (wal_AppendInsert wal i v content) j"
    by (simp add: wal_AppendInsert_def wal_AppendRemove_def remove_line_def)
  then show ?thesis
    using wal_entries_AppendRemove [OF _ wal_entries_AppendInsert [OF assms]]
    by (simp add: wal_AppendInsert_line)
qed

end
