(* ===== verification/HnswSearch.thy ===== *)
theory HnswSearch
  imports HnswIndex
begin

text \<open>
  \<open>SearchLevel\<close> and \<open>Search\<close> of the HNSW index. On a closed graph whose distances are
  numbers the beam search always returns: distinct ids reachable from the entry point along
  active neighbours, nearest first, at most \<open>ef\<close> of them, at least one. With \<open>ef\<close> at least
  the number of nodes it returns every reachable id, so on a connected graph the search is
  the exact k-nearest-neighbour search.
\<close>

section \<open>Graphs a search can run on\<close>

definition neighbors_at :: "HNSWIndex \<Rightarrow> Id \<Rightarrow> int \<Rightarrow> Id list" where
  "neighbors_at h i l = set_ref (n_neighbors (node_ref h i)) l"

definition closed :: "HNSWIndex \<Rightarrow> bool" where
  "closed h \<longleftrightarrow> (\<forall>i l b. b \<in> set (neighbors_at h i l) \<longrightarrow> contains (hx_nodes h) b)"

definition num_dist :: "HNSWIndex \<Rightarrow> vector \<Rightarrow> bool" where
  "num_dist h q \<longleftrightarrow> (\<forall>i n. map_of (hx_nodes h) i = Some n \<longrightarrow> \<not> is_nan (hnsw_ComputeDistance h q (n_vector n)))"

text \<open>The distance of a stored node to the query.\<close>

definition dist_to :: "HNSWIndex \<Rightarrow> vector \<Rightarrow> Id \<Rightarrow> f32" where
  "dist_to h q i = hnsw_ComputeDistance h q (n_vector (node_ref h i))"

definition score :: "HNSWIndex \<Rightarrow> vector \<Rightarrow> Id \<Rightarrow> f32 \<times> Id" where
  "score h q i = (dist_to h q i, i)"

inductive reach :: "HNSWIndex \<Rightarrow> int \<Rightarrow> Id \<Rightarrow> Id \<Rightarrow> bool" for h l e where
  start: "reach h l e e"
| step: "reach h l e i \<Longrightarrow> b \<in> set (neighbors_at h i l) \<Longrightarrow> is_active h b \<Longrightarrow> reach h l e b"

inductive_cases reachE: "reach h l e i"

lemma reach_active: "reach h l e i \<Longrightarrow> i = e \<or> is_active h i"
  by (induction rule: reach.induct) auto

lemma snd_score [simp]: "snd (score h q i) = i"
  by (simp add: score_def)

lemma fst_score [simp]: "fst (score h q i) = dist_to h q i"
  by (simp add: score_def)

lemma is_active_contains: "is_active h i \<Longrightarrow> contains (hx_nodes h) i"
  by (auto simp: is_active_def contains_def split: option.splits)

lemma reach_contains: "reach h l e i \<Longrightarrow> contains (hx_nodes h) e \<Longrightarrow> contains (hx_nodes h) i"
  using reach_active is_active_contains by blast

lemma node_ref_Some: "map_of (hx_nodes h) i = Some n \<Longrightarrow> node_ref h i = n"
  by (simp add: node_ref_def)

lemma contains_node_ref: "contains (hx_nodes h) i \<Longrightarrow> map_of (hx_nodes h) i = Some (node_ref h i)"
  by (auto simp: contains_map_of node_ref_def)

lemma is_active_node_ref: "contains (hx_nodes h) i \<Longrightarrow> is_active h i = n_active (node_ref h i)"
  by (auto simp: is_active_def contains_node_ref)

lemma num_dist_score: "num_dist h q \<Longrightarrow> contains (hx_nodes h) i \<Longrightarrow> pair_ok (score h q i)"
  using contains_node_ref [of h i] by (auto simp: num_dist_def pair_ok_def dist_to_def)

section \<open>The loop invariant\<close>

definition result_inv :: "HNSWIndex \<Rightarrow> vector \<Rightarrow> int \<Rightarrow> Id \<Rightarrow> (f32 \<times> Id) list \<Rightarrow> bool" where
  "result_inv h q l e xs \<longleftrightarrow> distinct (map snd xs) \<and>
     (\<forall>x \<in> set xs. x = score h q (snd x) \<and> reach h l e (snd x))"

definition loop_inv :: "HNSWIndex \<Rightarrow> vector \<Rightarrow> int \<Rightarrow> Id \<Rightarrow> (f32 \<times> Id) list \<Rightarrow> (f32 \<times> Id) list \<Rightarrow> Id list \<Rightarrow> bool" where
  "loop_inv h q l e cs te vs \<longleftrightarrow> result_inv h q l e (cs @ te) \<and> snd ` set (cs @ te) \<subseteq> set vs \<and>
     sorted_wrt (\<lambda>x y. \<not> pair_gt x y) cs \<and> sorted_wrt (\<lambda>x y. \<not> pair_lt x y) te"

text \<open>Facts about the graph under which everything below is proved.\<close>

definition searchable :: "HNSWIndex \<Rightarrow> vector \<Rightarrow> Id \<Rightarrow> bool" where
  "searchable h q e \<longleftrightarrow> closed h \<and> num_dist h q \<and> contains (hx_nodes h) e"

lemma result_inv_pair_ok:
  "searchable h q e \<Longrightarrow> result_inv h q l e xs \<Longrightarrow> x \<in> set xs \<Longrightarrow> pair_ok x"
  unfolding searchable_def result_inv_def using num_dist_score reach_contains by metis

lemma result_inv_snd: "result_inv h q l e xs \<Longrightarrow> xs = map (score h q) (map snd xs)"
  unfolding result_inv_def by (induction xs) auto

lemma result_inv_mset:
  "mset xs = mset ys \<Longrightarrow> result_inv h q l e xs \<Longrightarrow> result_inv h q l e ys"
  unfolding result_inv_def by (metis mset_eq_setD mset_eq_imp_distinct_iff mset_map)

lemma result_inv_subset:
  "result_inv h q l e xs \<Longrightarrow> set ys \<subseteq> set xs \<Longrightarrow> distinct (map snd ys) \<Longrightarrow> result_inv h q l e ys"
  by (auto simp: result_inv_def)

lemma visit_step:
  assumes "searchable h q e" and "loop_inv h q l e cs te vs"
    and "nb \<notin> set vs" and "is_active h nb" and "reach h l e nb"
  shows "emplace pair_gt (score h q nb) cs = Some (pq_push pair_gt (score h q nb) cs)
    \<and> loop_inv h q l e (pq_push pair_gt (score h q nb) cs) te (nb # vs)"
proof
  let ?x = "score h q nb"
  have ok: "pair_ok ?x" "\<forall>y \<in> set cs. pair_ok y"
    using assms is_active_contains num_dist_score result_inv_pair_ok
    by (auto simp: searchable_def loop_inv_def)
  show "emplace pair_gt ?x cs = Some (pq_push pair_gt ?x cs)"
    by (rule emplace_ok [OF ok])
  have "result_inv h q l e (?x # cs @ te)"
    using assms by (auto simp: loop_inv_def result_inv_def)
  moreover have "mset (?x # cs @ te) = mset (pq_push pair_gt ?x cs @ te)" by simp
  ultimately have "result_inv h q l e (pq_push pair_gt ?x cs @ te)"
    using result_inv_mset by metis
  moreover have "sorted_wrt (\<lambda>x y. \<not> pair_gt x y) (pq_push pair_gt ?x cs)"
    using assms(2) ok by (intro min_queue.push_ordered) (auto simp: loop_inv_def)
  ultimately show "loop_inv h q l e (pq_push pair_gt ?x cs) te (nb # vs)"
    using assms(2) by (auto simp: loop_inv_def)
qed

lemma visit_neighbors_ok:
  assumes "searchable h q e" and "loop_inv h q l e cs te vs"
    and "\<forall>b \<in> set nbs. contains (hx_nodes h) b \<and> (is_active h b \<longrightarrow> reach h l e b)"
  shows "\<exists>vs' cs'. visit_neighbors h q nbs vs cs = Some (vs', cs') \<and> loop_inv h q l e cs' te vs' \<and>
    set vs' = set vs \<union> snd ` set cs' \<and> snd ` set cs \<subseteq> snd ` set cs' \<and>
    (\<forall>b \<in> set nbs. is_active h b \<longrightarrow> b \<in> set vs')"
  using assms(2,3)
proof (induction nbs arbitrary: vs cs)
  case Nil
  then show ?case by (auto simp: loop_inv_def)
next
  case (Cons nb nbs)
  from Cons.prems(2) have nb: "map_of (hx_nodes h) nb = Some (node_ref h nb)"
    "is_active h nb = n_active (node_ref h nb)"
    by (auto simp: contains_node_ref is_active_node_ref)
  show ?case
  proof (cases "nb \<in> set vs \<or> \<not> is_active h nb")
    case True
    with Cons.IH [OF Cons.prems(1)] Cons.prems(2) nb show ?thesis by fastforce
  next
    case False
    let ?cs1 = "pq_push pair_gt (score h q nb) cs"
    have st: "emplace pair_gt (score h q nb) cs = Some ?cs1" "loop_inv h q l e ?cs1 te (nb # vs)"
      using visit_step [OF assms(1) Cons.prems(1)] False Cons.prems(2) by auto
    have rest: "\<forall>b \<in> set nbs. contains (hx_nodes h) b \<and> (is_active h b \<longrightarrow> reach h l e b)"
      using Cons.prems(2) by simp
    obtain vs' cs' where r: "visit_neighbors h q nbs (nb # vs) ?cs1 = Some (vs', cs')"
        "loop_inv h q l e cs' te vs'" "set vs' = set (nb # vs) \<union> snd ` set cs'"
        "snd ` set ?cs1 \<subseteq> snd ` set cs'" "\<forall>b \<in> set nbs. is_active h b \<longrightarrow> b \<in> set vs'"
      using Cons.IH [OF st(2) rest] by blast
    have "visit_neighbors h q (nb # nbs) vs cs = Some (vs', cs')"
      using False nb st(1) r(1) by (simp add: score_def dist_to_def)
    moreover have nb': "nb \<in> snd ` set cs'" and "snd ` set cs \<subseteq> snd ` set cs'" using r(4) by auto
    moreover have "set vs' = set vs \<union> snd ` set cs'" using r(3) nb' by auto
    moreover have "\<forall>b \<in> set (nb # nbs). is_active h b \<longrightarrow> b \<in> set vs'" using r(3,5) by simp
    ultimately show ?thesis using r(2) by metis
  qed
qed

text \<open>The neighbours of a reached node, as \<open>visit_neighbors_ok\<close> wants them.\<close>

lemma reach_neighbors:
  assumes "searchable h q e" and "reach h l e i"
    and "map_of (n_neighbors (node_ref h i)) l = Some nbs"
  shows "\<forall>b \<in> set nbs. contains (hx_nodes h) b \<and> (is_active h b \<longrightarrow> reach h l e b)"
proof -
  have "neighbors_at h i l = nbs" using assms(3) by (simp add: neighbors_at_def set_ref_def)
  with assms(1,2) show ?thesis unfolding searchable_def closed_def using reach.step by metis
qed

lemma take_candidate:
  assumes "searchable h q e" and "loop_inv h q l e (c # cs) te vs"
    and "te' = te \<or> te' = tl te"
  shows "emplace pair_lt c te' = Some (pq_push pair_lt c te') \<and>
    loop_inv h q l e cs (pq_push pair_lt c te') vs"
proof -
  have sub: "set te' \<subseteq> set te" and dist: "distinct (map snd te) \<longrightarrow> distinct (map snd te')"
    using assms(3) by (cases te; auto)+
  have srt: "sorted_wrt (\<lambda>x y. \<not> pair_lt x y) te'"
    using assms(2,3) by (cases te) (auto simp: loop_inv_def)
  have ok: "pair_ok c" "\<forall>y \<in> set te'. pair_ok y"
    using assms(1,2) sub result_inv_pair_ok [of h q e l "(c # cs) @ te"] by (auto simp: loop_inv_def)
  have ri: "result_inv h q l e (c # cs @ te)" using assms(2) by (simp add: loop_inv_def)
  have d: "distinct (map snd cs)" "distinct (map snd te)" "snd c \<notin> snd ` set cs"
    "snd c \<notin> snd ` set te" "snd ` set cs \<inter> snd ` set te = {}"
    using ri by (simp_all add: result_inv_def)
  have im: "snd ` set te' \<subseteq> snd ` set te" using sub by (rule image_mono)
  have "snd c \<notin> snd ` set te'" using d(4) im by blast
  moreover have "snd ` set cs \<inter> snd ` set te' = {}" using d(5) im by blast
  ultimately have "distinct (map snd (cs @ c # te'))"
    using d(1,2,3) dist by simp
  then have "result_inv h q l e (cs @ c # te')"
    by (rule result_inv_subset [OF ri, rotated]) (use sub in auto)
  then have "result_inv h q l e (cs @ pq_push pair_lt c te')"
    by (rule result_inv_mset [rotated]) simp
  moreover have "sorted_wrt (\<lambda>x y. \<not> pair_lt x y) (pq_push pair_lt c te')"
    using srt ok by (intro max_queue.push_ordered) auto
  ultimately show ?thesis
    using assms(2) sub emplace_ok [OF ok] by (auto simp: loop_inv_def)
qed

section \<open>The search always returns\<close>

definition top_ok :: "HNSWIndex \<Rightarrow> vector \<Rightarrow> int \<Rightarrow> Id \<Rightarrow> (f32 \<times> Id) list \<Rightarrow> bool" where
  "top_ok h q l e te \<longleftrightarrow> result_inv h q l e te \<and> sorted_wrt (\<lambda>x y. \<not> pair_lt x y) te"

lemma loop_inv_top: "loop_inv h q l e cs te vs \<Longrightarrow> top_ok h q l e te"
  by (auto simp: loop_inv_def top_ok_def result_inv_def)

lemma search_loop_ok:
  assumes "searchable h q e" and "loop_inv h q l e cs te vs" and "length te \<le> ef" and "0 < ef"
  shows "\<exists>te'. search_loop h q ef l cs te vs = Some te' \<and> top_ok h q l e te' \<and>
    length te' \<le> ef \<and> (cs \<noteq> [] \<or> te \<noteq> [] \<longrightarrow> te' \<noteq> [])"
  using assms
proof (induction h q ef l cs te vs rule: search_loop.induct)
  case (1 h q ef l te vs)
  then show ?case using loop_inv_top by auto
next
  case (2 h q ef l c cs te vs)
  let ?full = "length te = ef"
  let ?te = "if ?full then tl te else te"
  show ?case
  proof (cases "?full \<and> flt (fst (hd te)) (fst c)")
    case True
    with 2 show ?thesis using loop_inv_top by auto
  next
    case False
    have tc: "emplace pair_lt c ?te = Some (pq_push pair_lt c ?te)"
      "loop_inv h q l e cs (pq_push pair_lt c ?te) vs"
      using take_candidate [OF 2(3,4), of ?te] by auto
    have len: "length (pq_push pair_lt c ?te) \<le> ef" using 2(5,6) by auto
    have r: "reach h l e (snd c)" using 2(4) by (auto simp: loop_inv_def result_inv_def)
    with 2(3) have n: "map_of (hx_nodes h) (snd c) = Some (node_ref h (snd c))"
      by (auto simp: searchable_def intro: contains_node_ref reach_contains)
    show ?thesis
    proof (cases "map_of (n_neighbors (node_ref h (snd c))) l")
      case None
      with 2(1) [OF False tc(1) n None 2(3) tc(2) len 2(6)] tc(1) n False show ?thesis by auto
    next
      case (Some nbs)
      obtain vs' cs' where v: "visit_neighbors h q nbs vs cs = Some (vs', cs')"
        "loop_inv h q l e cs' (pq_push pair_lt c ?te) vs'"
        using visit_neighbors_ok [OF 2(3) tc(2) reach_neighbors [OF 2(3) r Some]] by blast
      with 2(2) [OF False tc(1) n Some v(1) 2(3)] tc(1) n Some len 2(6) False show ?thesis by auto
    qed
  qed
qed

lemma loop_inv_start: "contains (hx_nodes h) e \<Longrightarrow> loop_inv h q l e [score h q e] [] [e]"
  by (auto simp: loop_inv_def result_inv_def intro: reach.start)

lemma SearchLevel_unfold:
  assumes "contains (hx_nodes h) e" and "0 < ef"
  shows "SearchLevel h q (Some e) ef l =
    map_option (\<lambda>te. rev (map snd te)) (search_loop h q ef l [score h q e] [] [e])"
  using assms by (simp add: SearchLevel_def contains_node_ref score_def dist_to_def pq_drain_map)

text \<open>What a level search returns.\<close>

definition level_result :: "HNSWIndex \<Rightarrow> vector \<Rightarrow> int \<Rightarrow> Id \<Rightarrow> Id list \<Rightarrow> bool" where
  "level_result h q l e r \<longleftrightarrow> distinct r \<and> (\<forall>i \<in> set r. reach h l e i) \<and>
     sorted (map (\<lambda>i. dkey (score h q i)) r)"

lemma top_ok_level_result:
  assumes "searchable h q e" and "top_ok h q l e te"
  shows "level_result h q l e (rev (map snd te))"
proof -
  have ok: "\<forall>x \<in> set te. pair_ok x"
    using assms result_inv_pair_ok by (auto simp: top_ok_def)
  have "sorted_wrt (\<lambda>x y. dkey y \<le> dkey x) te"
    by (rule sorted_wrt_mono_rel [of te "\<lambda>x y. \<not> pair_lt x y"])
      (use assms(2) ok in \<open>auto simp: top_ok_def pair_lt_key\<close>)
  then have "sorted (map dkey (rev te))"
    by (simp add: sorted_map sorted_wrt_rev)
  moreover have "map dkey (rev te) = map (\<lambda>i. dkey (score h q i)) (rev (map snd te))"
    using assms(2) by (auto simp: top_ok_def result_inv_def rev_map)
  ultimately show ?thesis using assms(2)
    by (auto simp: level_result_def top_ok_def result_inv_def)
qed

lemma SearchLevel_ok:
  assumes "searchable h q e"
  shows "\<exists>r. SearchLevel h q (Some e) ef l = Some r \<and> level_result h q l e r \<and> length r \<le> ef \<and>
    (0 < ef \<longrightarrow> r \<noteq> [])"
proof (cases "ef = 0")
  case True
  then show ?thesis by (simp add: SearchLevel_def level_result_def)
next
  case False
  then obtain te where "search_loop h q ef l [score h q e] [] [e] = Some te"
    "top_ok h q l e te" "length te \<le> ef" "te \<noteq> []"
    using search_loop_ok [OF assms loop_inv_start, of ef l] assms by (auto simp: searchable_def)
  with False assms top_ok_level_result show ?thesis
    by (auto simp: SearchLevel_unfold searchable_def)
qed

section \<open>With a wide beam the search is complete\<close>

definition expanded :: "HNSWIndex \<Rightarrow> int \<Rightarrow> (f32 \<times> Id) list \<Rightarrow> Id list \<Rightarrow> bool" where
  "expanded h l te vs \<longleftrightarrow> (\<forall>i \<in> snd ` set te. \<forall>b \<in> set (neighbors_at h i l). is_active h b \<longrightarrow> b \<in> set vs)"

lemma result_inv_length:
  assumes "searchable h q e" and "result_inv h q l e xs"
  shows "length xs \<le> length (hx_nodes h)"
proof -
  have "set (map snd xs) \<subseteq> set (keys (hx_nodes h))"
    using assms reach_contains by (fastforce simp: result_inv_def searchable_def contains_iff)
  then have "length (map snd xs) \<le> card (set (keys (hx_nodes h)))"
    using assms(2) by (intro distinct_length_le_card) (auto simp: result_inv_def)
  also have "\<dots> \<le> length (hx_nodes h)" using card_length [of "keys (hx_nodes h)"] by simp
  finally show ?thesis by simp
qed

lemma search_loop_complete:
  assumes "searchable h q e" and "loop_inv h q l e cs te vs" and "length (hx_nodes h) \<le> ef"
    and "set vs = snd ` set (cs @ te)" and "expanded h l te vs"
  shows "\<exists>te' vs'. search_loop h q ef l cs te vs = Some te' \<and> top_ok h q l e te' \<and>
    set vs' = snd ` set te' \<and> set vs \<subseteq> set vs' \<and> expanded h l te' vs'"
  using assms
proof (induction h q ef l cs te vs rule: search_loop.induct)
  case (1 h q ef l te vs)
  then show ?case using loop_inv_top by auto
next
  case (2 h q ef l c cs te vs)
  have "length ((c # cs) @ te) \<le> ef"
    using result_inv_length [OF 2(3), of l "(c # cs) @ te"] 2(4,5) by (auto simp: loop_inv_def)
  then have nfull: "length te \<noteq> ef" by simp
  let ?te = "pq_push pair_lt c te"
  have tc: "emplace pair_lt c te = Some ?te" "loop_inv h q l e cs ?te vs"
    using take_candidate [OF 2(3,4), of te] by auto
  have r: "reach h l e (snd c)" using 2(4) by (auto simp: loop_inv_def result_inv_def)
  with 2(3) have n: "map_of (hx_nodes h) (snd c) = Some (node_ref h (snd c))"
    by (auto simp: searchable_def intro: contains_node_ref reach_contains)
  show ?case
  proof (cases "map_of (n_neighbors (node_ref h (snd c))) l")
    case None
    then have "expanded h l ?te vs"
      using 2(7) by (simp add: expanded_def neighbors_at_def set_ref_def)
    moreover have "set vs = snd ` set (cs @ ?te)" using 2(6) by auto
    ultimately show ?thesis using 2(1) [OF _ _ n None 2(3) tc(2) 2(5)] tc(1) n None nfull by simp
  next
    case (Some nbs)
    obtain vs' cs' where v: "visit_neighbors h q nbs vs cs = Some (vs', cs')"
        "loop_inv h q l e cs' ?te vs'" "set vs' = set vs \<union> snd ` set cs'"
        "snd ` set cs \<subseteq> snd ` set cs'" "\<forall>b \<in> set nbs. is_active h b \<longrightarrow> b \<in> set vs'"
      using visit_neighbors_ok [OF 2(3) tc(2) reach_neighbors [OF 2(3) r Some]] by blast
    have "set vs' = snd ` set (cs' @ ?te)" using v(3,4) 2(6) by auto
    moreover have "expanded h l ?te vs'"
      using 2(7) v(3,5) Some by (auto simp: expanded_def neighbors_at_def set_ref_def)
    ultimately obtain te' vs'' where
        "search_loop h q ef l cs' ?te vs' = Some te'" "top_ok h q l e te'"
        "set vs'' = snd ` set te'" "set vs' \<subseteq> set vs''" "expanded h l te' vs''"
      using 2(2) [OF _ _ n Some v(1) 2(3), of ?te] tc(1) v(2) 2(5) nfull by auto
    note te' = this
    have "search_loop h q ef l (c # cs) te vs = Some te'"
      using te'(1) tc(1) n Some v(1) nfull by simp
    moreover have "set vs \<subseteq> set vs''" using te'(4) v(3) by auto
    ultimately show ?thesis using te'(2,3,5) by blast
  qed
qed

lemma SearchLevel_complete:
  assumes "searchable h q e" and "length (hx_nodes h) \<le> ef"
  shows "\<exists>r. SearchLevel h q (Some e) ef l = Some r \<and> level_result h q l e r \<and> set r = {i. reach h l e i}"
proof -
  have e: "contains (hx_nodes h) e" using assms(1) by (simp add: searchable_def)
  then have "0 < ef" using assms(2) by (cases "hx_nodes h") auto
  obtain te vs where s: "search_loop h q ef l [score h q e] [] [e] = Some te" "top_ok h q l e te"
    "set vs = snd ` set te" "e \<in> set vs" "expanded h l te vs"
    using search_loop_complete [OF assms(1) loop_inv_start [OF e] assms(2), of l]
    by (auto simp: expanded_def)
  have "i \<in> set vs" if "reach h l e i" for i
    using that by induction (use s in \<open>auto simp: expanded_def\<close>)
  moreover have "reach h l e i" if "i \<in> set vs" for i
    using that s(2,3) by (auto simp: top_ok_def result_inv_def)
  ultimately have "set (rev (map snd te)) = {i. reach h l e i}" using s(3) by auto
  with s(1,2) e \<open>0 < ef\<close> show ?thesis
    using top_ok_level_result [OF assms(1) s(2)] by (auto simp: SearchLevel_unfold)
qed

section \<open>Search\<close>

definition entry_ok :: "HNSWIndex \<Rightarrow> bool" where
  "entry_ok h \<longleftrightarrow> (\<forall>e. hx_entry_point h = Some e \<longrightarrow> is_active h e)"

lemma descend_search_ok:
  assumes "closed h" and "num_dist h q" and "is_active h e"
  shows "\<exists>x. descend_search h q ef e ls = Some x \<and> (0 < ef \<longrightarrow> x \<noteq> None) \<and> (\<forall>i. x = Some i \<longrightarrow> is_active h i)"
  using assms(3)
proof (induction ls arbitrary: e)
  case (Cons l ls)
  have "searchable h q e" using assms(1,2) Cons.prems is_active_contains by (simp add: searchable_def)
  then obtain r where r: "SearchLevel h q (Some e) ef l = Some r" "level_result h q l e r" "0 < ef \<longrightarrow> r \<noteq> []"
    using SearchLevel_ok by blast
  show ?case
  proof (cases r)
    case (Cons x xs)
    then have "is_active h x" using r(2) reach_active Cons.prems by (fastforce simp: level_result_def)
    with Cons.IH Cons r show ?thesis by simp
  qed (use r in auto)
qed simp

text \<open>
  A search never throws and returns at most \<open>k\<close> distinct active ids, nearest first, and at
  least one when there is an entry point and neither bound is zero.
\<close>

lemma hnsw_Search_ok:
  assumes "closed h" and "num_dist h q" and "entry_ok h"
  shows "\<exists>r. hnsw_Search h q k ef = Some r \<and> distinct r \<and> (\<forall>i \<in> set r. is_active h i) \<and> length r \<le> k \<and>
    sorted (map (\<lambda>i. dkey (score h q i)) r) \<and>
    (hx_entry_point h \<noteq> None \<and> 0 < ef \<and> 0 < k \<longrightarrow> r \<noteq> [])"
proof (cases "hx_entry_point h")
  case None
  then show ?thesis by (simp add: hnsw_Search_def)
next
  case (Some e)
  with assms(3) have "is_active h e" by (simp add: entry_ok_def)
  then obtain x where x: "descend_search h q ef e (levels_down (hx_max_level h) 0) = Some x"
    "0 < ef \<longrightarrow> x \<noteq> None" "\<forall>i. x = Some i \<longrightarrow> is_active h i"
    using descend_search_ok [OF assms(1,2) \<open>is_active h e\<close>, of ef "levels_down (hx_max_level h) 0"] by auto
  show ?thesis
  proof (cases x)
    case None
    with x Some show ?thesis by (simp add: hnsw_Search_def)
  next
    case (Some i)
    then have i: "is_active h i" using x by simp
    then have "searchable h q i" using assms(1,2) is_active_contains by (simp add: searchable_def)
    then obtain r where r: "SearchLevel h q (Some i) ef 0 = Some r" "level_result h q 0 i r" "0 < ef \<longrightarrow> r \<noteq> []"
      using SearchLevel_ok by blast
    show ?thesis
    proof (intro exI conjI impI)
      show "hnsw_Search h q k ef = Some (take k r)"
        using x Some r(1) \<open>hx_entry_point h = Some e\<close> by (simp add: hnsw_Search_def)
      show "\<forall>j \<in> set (take k r). is_active h j"
        using r(2) i reach_active by (fastforce simp: level_result_def dest: in_set_takeD)
      show "distinct (take k r)" "sorted (map (\<lambda>i. dkey (score h q i)) (take k r))"
        using r(2) by (simp_all add: level_result_def take_map [symmetric] sorted_wrt_take)
      show "length (take k r) \<le> k" by simp
      show "take k r \<noteq> []" if "hx_entry_point h \<noteq> None \<and> 0 < ef \<and> 0 < k"
        using that r(3) by simp
    qed
  qed
qed

text \<open>The exact answer: the \<open>k\<close> nearest active nodes in the order of (distance, id).\<close>

definition active_ids :: "HNSWIndex \<Rightarrow> Id list" where
  "active_ids h = filter (is_active h) (keys (hx_nodes h))"

definition hnsw_knn :: "HNSWIndex \<Rightarrow> vector \<Rightarrow> nat \<Rightarrow> Id list" where
  "hnsw_knn h q k = take k (map snd (sort_key dkey (map (score h q) (active_ids h))))"

definition connected :: "HNSWIndex \<Rightarrow> bool" where
  "connected h \<longleftrightarrow> (\<forall>i j. is_active h i \<longrightarrow> is_active h j \<longrightarrow> reach h 0 i j)"

lemma set_active_ids [simp]: "set (active_ids h) = {i. is_active h i}"
  using is_active_contains by (auto simp: active_ids_def contains_iff)

lemma level_result_sort:
  assumes "distinct r" and "sorted (map (\<lambda>i. dkey (score h q i)) r)" and "set r = set ids" and "distinct ids"
  shows "r = map snd (sort_key dkey (map (score h q) ids))"
proof -
  have "map (score h q) r = sort_key dkey (map (score h q) ids)"
  proof (rule sort_key_eqI)
    show "sorted (map dkey (map (score h q) r))" using assms(2) by (simp add: comp_def)
    show "mset (map (score h q) r) = mset (map (score h q) ids)"
      using assms set_eq_iff_mset_eq_distinct by (metis mset_map)
    show "distinct (map dkey (map (score h q) ids))"
      using assms(4) by (intro inj_dkey_ids) (simp add: comp_def)
  qed
  then have "map snd (map (score h q) r) = map snd (sort_key dkey (map (score h q) ids))" by simp
  then show ?thesis by (simp add: comp_def)
qed

lemma hnsw_Search_exact:
  assumes "closed h" and "num_dist h q" and "entry_ok h" and "distinct (keys (hx_nodes h))"
    and "connected h" and "hx_entry_point h \<noteq> None" and "length (hx_nodes h) \<le> ef"
  shows "hnsw_Search h q k ef = Some (hnsw_knn h q k)"
proof -
  obtain e where e: "hx_entry_point h = Some e" "is_active h e"
    using assms(3,6) by (auto simp: entry_ok_def)
  then have "0 < ef" using assms(7) is_active_contains by (cases "hx_nodes h") force+
  with e obtain x where x: "descend_search h q ef e (levels_down (hx_max_level h) 0) = Some (Some x)"
    "is_active h x"
    using descend_search_ok [OF assms(1,2) e(2), of ef "levels_down (hx_max_level h) 0"] by auto
  then have "searchable h q x" using assms(1,2) is_active_contains by (simp add: searchable_def)
  then obtain r where r: "SearchLevel h q (Some x) ef 0 = Some r" "level_result h q 0 x r" "set r = {i. reach h 0 x i}"
    using SearchLevel_complete assms(7) by blast
  have "set r = set (active_ids h)"
    using r(3) assms(5) x(2) reach_active by (fastforce simp: connected_def)
  then have "r = map snd (sort_key dkey (map (score h q) (active_ids h)))"
    using r(2) assms(4) by (intro level_result_sort) (auto simp: level_result_def active_ids_def)
  with e x r(1) show ?thesis by (simp add: hnsw_Search_def hnsw_knn_def)
qed

end
