(* ===== verification/HnswGraph.thy ===== *)
theory HnswGraph
  imports HnswSearch
begin

text \<open>
  The HNSW graph as an undirected graph per level: what adding, deleting and pruning edges
  do to it, and that \<open>ConnectNeighbors\<close> keeps it symmetric, loop-free, closed and within
  the degree bound of each level.
\<close>

section \<open>Sets as lists\<close>

lemma set_sinsert [simp]: "set (sinsert x s) = insert x (set s)"
  by (auto simp: sinsert_def)

lemma set_serase [simp]: "set (serase x s) = set s - {x}"
  by (auto simp: serase_def)

lemma distinct_sinsert [simp]: "distinct s \<Longrightarrow> distinct (sinsert x s)"
  by (simp add: sinsert_def)

lemma distinct_serase [simp]: "distinct s \<Longrightarrow> distinct (serase x s)"
  by (simp add: serase_def)

lemma length_sinsert: "length (sinsert x s) = (if x \<in> set s then length s else Suc (length s))"
  by (simp add: sinsert_def)

lemma length_serase: "length (serase x s) \<le> length s"
  by (simp add: serase_def)

lemma serase_idem [simp]: "serase x (serase x s) = serase x s"
  by (simp add: serase_def)

lemma fold_sinsert: "distinct xs \<Longrightarrow> set xs \<inter> set acc = {} \<Longrightarrow> fold sinsert xs acc = acc @ xs"
  by (induction xs arbitrary: acc) (auto simp: sinsert_def)

lemma set_ref_mput [simp]: "set_ref (mput k s m) j = (if j = k then s else set_ref m j)"
  by (simp add: set_ref_def)

lemma set_ref_Nil [simp]: "set_ref [] k = []"
  by (simp add: set_ref_def)

section \<open>Everything but the edges\<close>

text \<open>The parts of the index that operations on edges leave alone.\<close>

definition same_base :: "HNSWIndex \<Rightarrow> HNSWIndex \<Rightarrow> bool" where
  "same_base h h' \<longleftrightarrow> hx_config h' = hx_config h \<and> hx_node_levels h' = hx_node_levels h \<and>
     hx_max_level h' = hx_max_level h \<and> hx_entry_point h' = hx_entry_point h \<and>
     keys (hx_nodes h') = keys (hx_nodes h) \<and>
     (\<forall>i. is_active h' i = is_active h i \<and> n_vector (node_ref h' i) = n_vector (node_ref h i) \<and>
          n_level (node_ref h' i) = n_level (node_ref h i))"

lemma same_base_refl [simp]: "same_base h h"
  by (simp add: same_base_def)

lemma same_base_trans: "same_base h h' \<Longrightarrow> same_base h' h'' \<Longrightarrow> same_base h h''"
  by (simp add: same_base_def)

lemma same_base_contains: "same_base h h' \<Longrightarrow> contains (hx_nodes h') i = contains (hx_nodes h) i"
  by (simp only: same_base_def contains_iff)

lemma node_ref_upd_node [simp]:
  "node_ref (upd_node i f h) j = (if j = i then f (node_ref h i) else node_ref h j)"
  by (simp add: node_ref_def upd_node_def)

lemma upd_node_frame [simp]:
  "hx_config (upd_node i f h) = hx_config h" "hx_node_levels (upd_node i f h) = hx_node_levels h"
  "hx_max_level (upd_node i f h) = hx_max_level h" "hx_entry_point (upd_node i f h) = hx_entry_point h"
  by (simp_all add: upd_node_def)

lemma same_base_upd_node:
  assumes "contains (hx_nodes h) i" and "\<And>n. n_active (f n) = n_active n"
    and "\<And>n. n_vector (f n) = n_vector n" and "\<And>n. n_level (f n) = n_level n"
  shows "same_base h (upd_node i f h)"
proof -
  have "keys (hx_nodes (upd_node i f h)) = keys (hx_nodes h)"
    unfolding upd_node_def using assms(1) by (simp add: keys_mput_old)
  moreover have "is_active (upd_node i f h) j = is_active h j" for j
    using assms(1,2) by (simp add: is_active_def upd_node_def contains_node_ref)
  ultimately show ?thesis using assms(3,4) by (simp add: same_base_def)
qed

lemma neighbors_at_set [simp]:
  "neighbors_at (upd_node a (set_neighbors l s) h) i k = (if i = a \<and> k = l then s else neighbors_at h i k)"
  by (simp add: neighbors_at_def set_neighbors_def)

lemma neighbors_at_add_edge [simp]:
  "neighbors_at (add_edge a l b h) i k = (if i = a \<and> k = l then sinsert b (neighbors_at h a l) else neighbors_at h i k)"
  by (simp add: neighbors_at_def add_edge_def set_neighbors_def)

lemma neighbors_at_del_edge [simp]:
  "neighbors_at (del_edge a l b h) i k = (if i = a \<and> k = l then serase b (neighbors_at h a l) else neighbors_at h i k)"
  by (simp add: neighbors_at_def del_edge_def set_neighbors_def)

lemma same_base_add_edge: "contains (hx_nodes h) a \<Longrightarrow> same_base h (add_edge a l b h)"
  unfolding add_edge_def by (rule same_base_upd_node) (simp_all add: set_neighbors_def)

lemma same_base_del_edge: "contains (hx_nodes h) a \<Longrightarrow> same_base h (del_edge a l b h)"
  unfolding del_edge_def by (rule same_base_upd_node) (simp_all add: set_neighbors_def)

lemma same_base_set_neighbors: "contains (hx_nodes h) a \<Longrightarrow> same_base h (upd_node a (set_neighbors l s) h)"
  by (rule same_base_upd_node) (simp_all add: set_neighbors_def)

section \<open>Pruning\<close>

definition drop_back_edges :: "Id \<Rightarrow> int \<Rightarrow> Id list \<Rightarrow> Id list \<Rightarrow> HNSWIndex \<Rightarrow> HNSWIndex" where
  "drop_back_edges x l keep es h = fold (\<lambda>old h. if old \<in> set keep then h else del_edge old l x h) es h"

lemma neighbors_at_drop_back_edges:
  "neighbors_at (drop_back_edges x l keep es h) i k =
    (if k = l \<and> i \<in> set es - set keep then serase x (neighbors_at h i l) else neighbors_at h i k)"
  unfolding drop_back_edges_def by (induction es arbitrary: h) auto

lemma same_base_drop_back_edges:
  "\<forall>b \<in> set es. contains (hx_nodes h) b \<Longrightarrow> same_base h (drop_back_edges x l keep es h)"
  unfolding drop_back_edges_def
proof (induction es arbitrary: h)
  case (Cons e es)
  let ?h = "if e \<in> set keep then h else del_edge e l x h"
  have sb: "same_base h ?h" using Cons.prems by (simp add: same_base_del_edge)
  then have "same_base ?h (fold (\<lambda>old h. if old \<in> set keep then h else del_edge old l x h) es ?h)"
    using Cons.prems by (intro Cons.IH) (simp add: same_base_contains)
  with sb show ?case by (auto intro: same_base_trans)
qed simp

lemma prune_alt: "prune x l e_conn keep h =
    upd_node x (set_neighbors l (fold sinsert keep [])) (drop_back_edges x l keep e_conn h)"
  by (simp add: prune_def drop_back_edges_def)

lemma neighbors_at_prune:
  assumes "distinct keep"
  shows "neighbors_at (prune x l e_conn keep h) i k =
    (if k = l \<and> i = x then keep
     else if k = l \<and> i \<in> set e_conn - set keep then serase x (neighbors_at h i l)
     else neighbors_at h i k)"
  using assms fold_sinsert [of keep "[]"] by (simp add: prune_alt neighbors_at_drop_back_edges)

lemma same_base_prune:
  assumes "contains (hx_nodes h) x" and "\<forall>b \<in> set e_conn. contains (hx_nodes h) b"
  shows "same_base h (prune x l e_conn keep h)"
proof -
  have d: "same_base h (drop_back_edges x l keep e_conn h)"
    by (rule same_base_drop_back_edges [OF assms(2)])
  have "same_base (drop_back_edges x l keep e_conn h) (prune x l e_conn keep h)"
    unfolding prune_alt using assms(1) by (intro same_base_set_neighbors) (simp add: same_base_contains [OF d])
  with d show ?thesis by (rule same_base_trans)
qed

section \<open>The graph invariant\<close>

lemma closedD: "closed h \<Longrightarrow> b \<in> set (neighbors_at h i l) \<Longrightarrow> contains (hx_nodes h) b"
  by (auto simp: closed_def)

definition graph_inv :: "HNSWIndex \<Rightarrow> bool" where
  "graph_inv h \<longleftrightarrow> closed h \<and>
     (\<forall>i l. distinct (neighbors_at h i l) \<and> i \<notin> set (neighbors_at h i l)) \<and>
     (\<forall>i j l. j \<in> set (neighbors_at h i l) \<longrightarrow> i \<in> set (neighbors_at h j l))"

definition degree_ok :: "HNSWIndex \<Rightarrow> bool" where
  "degree_ok h \<longleftrightarrow> (\<forall>i l. length (neighbors_at h i l) \<le> max_neighbors h l)"

lemma graph_inv_sym: "graph_inv h \<Longrightarrow> j \<in> set (neighbors_at h i l) \<longleftrightarrow> i \<in> set (neighbors_at h j l)"
  by (auto simp: graph_inv_def)

lemma graph_invD:
  "graph_inv h \<Longrightarrow> closed h" "graph_inv h \<Longrightarrow> distinct (neighbors_at h i l)"
  "graph_inv h \<Longrightarrow> i \<notin> set (neighbors_at h i l)"
  by (auto simp: graph_inv_def)

lemma graph_inv_add_edges:
  assumes "graph_inv h" and "contains (hx_nodes h) a" and "contains (hx_nodes h) b" and "a \<noteq> b"
  shows "graph_inv (add_edge b l a (add_edge a l b h))"
proof -
  let ?h = "add_edge b l a (add_edge a l b h)"
  have sb: "same_base h ?h"
    by (metis assms(2,3) same_base_add_edge same_base_contains same_base_trans)
  have "closed ?h"
    using assms(1-3) same_base_contains [OF sb] by (auto simp: graph_inv_def closed_def)
  moreover have "distinct (neighbors_at ?h i k) \<and> i \<notin> set (neighbors_at ?h i k)" for i k
    using assms(1,4) by (auto simp: graph_inv_def)
  moreover have "i \<in> set (neighbors_at ?h j k)" if "j \<in> set (neighbors_at ?h i k)" for i j k
    using that graph_inv_sym [OF assms(1)] by (auto split: if_splits)
  ultimately show ?thesis by (simp add: graph_inv_def)
qed

lemma graph_inv_prune:
  assumes "graph_inv h" and "contains (hx_nodes h) x" and "distinct keep"
    and "set keep \<subseteq> set (neighbors_at h x l)"
  shows "graph_inv (prune x l (neighbors_at h x l) keep h)"
proof -
  let ?h = "prune x l (neighbors_at h x l) keep h"
  note nb = neighbors_at_prune [OF assms(3)]
  have sb: "same_base h ?h"
    using assms(1,2) by (intro same_base_prune) (auto simp: graph_inv_def closed_def)
  have sub: "set (neighbors_at ?h i k) \<subseteq> set (neighbors_at h i k)" for i k
    using assms(4) by (auto simp: nb)
  have "closed ?h"
    unfolding closed_def using sub closedD [OF graph_invD(1) [OF assms(1)]] same_base_contains [OF sb] by blast
  moreover have "distinct (neighbors_at ?h i k)" for i k
    using assms(1,3) by (auto simp: nb graph_inv_def)
  moreover have "i \<notin> set (neighbors_at ?h i k)" for i k
    using sub graph_invD(3) [OF assms(1)] by blast
  moreover have "i \<in> set (neighbors_at ?h j k)" if "j \<in> set (neighbors_at ?h i k)" for i j k
    using that graph_inv_sym [OF assms(1)] assms(4) graph_invD(3) [OF assms(1)]
    by (auto simp: nb split: if_splits)
  ultimately show ?thesis by (simp add: graph_inv_def)
qed

section \<open>Selecting neighbours\<close>

text \<open>L2 and finite vectors: every distance between nodes is a number.\<close>

definition l2_finite :: "HNSWIndex \<Rightarrow> bool" where
  "l2_finite h \<longleftrightarrow> hc_metric (hx_config h) = L2 \<and>
     (\<forall>i. contains (hx_nodes h) i \<longrightarrow> finite_vec (n_vector (node_ref h i)))"

lemma l2_finite_same_base: "same_base h h' \<Longrightarrow> l2_finite h \<Longrightarrow> l2_finite h'"
  by (simp add: l2_finite_def same_base_contains) (simp add: same_base_def)

lemma l2_finite_num_dist: "l2_finite h \<Longrightarrow> finite_vec q \<Longrightarrow> num_dist h q"
proof -
  assume h: "l2_finite h" and q: "finite_vec q"
  have "finite_vec (n_vector n)" if "map_of (hx_nodes h) i = Some n" for i n
    using h that node_ref_Some [OF that] by (auto simp: l2_finite_def contains_def)
  with h q show ?thesis
    by (auto simp: num_dist_def hnsw_ComputeDistance_def l2_finite_def ComputeDistance_L2_not_nan)
qed

lemma score_candidates_ok:
  "\<forall>c \<in> set cs. contains (hx_nodes h) c \<Longrightarrow>
   score_candidates h q cs = Some (map (score h q) (filter (is_active h) cs))"
  by (induction cs) (auto simp: contains_node_ref is_active_node_ref score_def dist_to_def)

lemma SelectNeighbors_ok:
  assumes "num_dist h q" and "\<forall>c \<in> set cs. contains (hx_nodes h) c" and "distinct cs"
  shows "\<exists>r. SelectNeighbors h q cs l = Some r \<and> distinct r \<and> set r \<subseteq> set cs \<and>
    (\<forall>i \<in> set r. is_active h i) \<and> length r \<le> max_neighbors h l"
proof -
  let ?ds = "map (score h q) (filter (is_active h) cs)"
  have "list_all pair_ok ?ds"
    using assms(1,2) by (auto simp: list_all_iff num_dist_score)
  then have sel: "SelectNeighbors h q cs l = Some (map snd (take (min (length ?ds) (max_neighbors h l)) (sort_key dkey ?ds)))"
    using assms(2) by (simp add: SelectNeighbors_def score_candidates_ok comparable_def)
  let ?r = "map snd (take (min (length ?ds) (max_neighbors h l)) (sort_key dkey ?ds))"
  have "distinct (map snd ?ds)" using assms(3) by (simp add: comp_def)
  then have "distinct (map snd (sort_key dkey ?ds))"
    by (metis mset_map mset_eq_imp_distinct_iff mset_sort)
  then have "distinct ?r" by (simp add: take_map [symmetric])
  moreover have "set ?r \<subseteq> snd ` set ?ds"
    unfolding set_map by (intro image_mono) (use set_take_subset in force)
  then have "set ?r \<subseteq> set (filter (is_active h) cs)" by auto
  ultimately show ?thesis using sel by (intro exI [of _ ?r]) auto
qed

section \<open>Connecting\<close>

text \<open>
  One neighbour: the edge appears unless pruning drops it again, and only \<open>node_id\<close> can
  grow, by at most one.
\<close>

lemma connect_one_ok:
  assumes "graph_inv h" and "l2_finite h" and "contains (hx_nodes h) x" and "contains (hx_nodes h) b"
    and "b \<noteq> x" and "\<forall>i. i \<noteq> x \<longrightarrow> length (neighbors_at h i l) \<le> max_neighbors h l"
  shows "\<exists>h'. connect_one x l b h = Some h' \<and> graph_inv h' \<and> same_base h h' \<and>
    (\<forall>i. i \<noteq> x \<longrightarrow> length (neighbors_at h' i l) \<le> max_neighbors h l) \<and>
    length (neighbors_at h' x l) \<le> Suc (length (neighbors_at h x l)) \<and>
    (\<forall>i k. k \<noteq> l \<longrightarrow> neighbors_at h' i k = neighbors_at h i k)"
proof (cases "is_active h b")
  case False
  then have "connect_one x l b h = Some h"
    using assms(4) by (simp add: connect_one_def contains_node_ref is_active_node_ref)
  with assms(1,6) show ?thesis by simp
next
  case True
  let ?h = "add_edge b l x (add_edge x l b h)"
  let ?e = "neighbors_at ?h b l"
  have g: "graph_inv ?h" using assms by (intro graph_inv_add_edges) auto
  have sb: "same_base h ?h"
    by (metis assms(3,4) same_base_add_edge same_base_contains same_base_trans)
  have mx: "max_neighbors ?h k = max_neighbors h k" for k using sb by (simp add: max_neighbors_def same_base_def)
  have b: "contains (hx_nodes ?h) b" using assms(4) same_base_contains [OF sb] by simp
  have co: "connect_one x l b h = (if length ?e > max_neighbors ?h l
      then map_option (\<lambda>keep. prune b l ?e keep ?h) (SelectNeighbors ?h (n_vector (node_ref ?h b)) ?e l)
      else Some ?h)"
    using assms(4) True
    by (simp add: connect_one_def contains_node_ref is_active_node_ref neighbors_at_def Let_def)
  show ?thesis
  proof (cases "length ?e > max_neighbors ?h l")
    case False
    have "length (neighbors_at ?h i l) \<le> max_neighbors h l" if "i \<noteq> x" for i
      using that False assms(6) mx by (cases "i = b") auto
    with False co g sb assms(5) show ?thesis by (auto simp: length_sinsert)
  next
    case over: True
    have "num_dist ?h (n_vector (node_ref ?h b))"
      using l2_finite_same_base [OF sb assms(2)] b by (intro l2_finite_num_dist) (auto simp: l2_finite_def)
    moreover have "\<forall>c \<in> set ?e. contains (hx_nodes ?h) c"
      using closedD [OF graph_invD(1) [OF g]] by blast
    ultimately obtain keep where k: "SelectNeighbors ?h (n_vector (node_ref ?h b)) ?e l = Some keep"
      "distinct keep" "set keep \<subseteq> set ?e" "length keep \<le> max_neighbors ?h l"
      using SelectNeighbors_ok [of ?h "n_vector (node_ref ?h b)" ?e l] graph_invD(2) [OF g] by blast
    let ?h' = "prune b l ?e keep ?h"
    note nb = neighbors_at_prune [OF k(2), of b l ?e ?h]
    have "graph_inv ?h'" by (rule graph_inv_prune [OF g b k(2,3)])
    moreover have "same_base h ?h'"
      by (rule same_base_trans [OF sb same_base_prune [OF b]])
        (use closedD [OF graph_invD(1) [OF g]] in blast)
    moreover have "length (neighbors_at ?h' i l) \<le> max_neighbors h l" if "i \<noteq> x" for i
    proof (cases "i = b")
      case False
      then have "length (neighbors_at ?h' i l) \<le> length (neighbors_at h i l)"
        using that by (simp only: nb if_False) (simp add: length_serase)
      with that assms(6) show ?thesis using le_trans by blast
    qed (use k(4) mx nb in simp)
    moreover have "length (neighbors_at ?h' x l) \<le> Suc (length (neighbors_at h x l))"
    proof -
      have "length (neighbors_at ?h' x l) \<le> length (neighbors_at ?h x l)"
        using assms(5) by (simp only: nb) (simp add: length_serase)
      also have "\<dots> \<le> Suc (length (neighbors_at h x l))" using assms(5) by (simp add: length_sinsert)
      finally show ?thesis .
    qed
    moreover have "\<forall>i k. k \<noteq> l \<longrightarrow> neighbors_at ?h' i k = neighbors_at h i k" unfolding nb by simp
    ultimately show ?thesis using co over k(1) by simp
  qed
qed

lemma ConnectNeighbors_ok:
  assumes "graph_inv h" and "l2_finite h" and "contains (hx_nodes h) x"
    and "\<forall>b \<in> set bs. contains (hx_nodes h) b \<and> b \<noteq> x"
    and "\<forall>i. i \<noteq> x \<longrightarrow> length (neighbors_at h i l) \<le> max_neighbors h l"
  shows "\<exists>h'. ConnectNeighbors h x v bs l = Some h' \<and> graph_inv h' \<and> same_base h h' \<and>
    (\<forall>i. i \<noteq> x \<longrightarrow> length (neighbors_at h' i l) \<le> max_neighbors h l) \<and>
    length (neighbors_at h' x l) \<le> length bs + length (neighbors_at h x l) \<and>
    (\<forall>i k. k \<noteq> l \<longrightarrow> neighbors_at h' i k = neighbors_at h i k)"
  using assms unfolding ConnectNeighbors_def
proof (induction bs arbitrary: h)
  case (Cons b bs)
  obtain h1 where h1: "connect_one x l b h = Some h1" "graph_inv h1" "same_base h h1"
    "\<forall>i. i \<noteq> x \<longrightarrow> length (neighbors_at h1 i l) \<le> max_neighbors h l"
    "length (neighbors_at h1 x l) \<le> Suc (length (neighbors_at h x l))"
    "\<forall>i k. k \<noteq> l \<longrightarrow> neighbors_at h1 i k = neighbors_at h i k"
    using connect_one_ok [of h x b l] Cons.prems by auto
  have mx: "max_neighbors h1 l = max_neighbors h l" using h1(3) by (simp add: max_neighbors_def same_base_def)
  obtain h' where h': "for_each (connect_one x l) bs h1 = Some h'" "graph_inv h'" "same_base h1 h'"
    "\<forall>i. i \<noteq> x \<longrightarrow> length (neighbors_at h' i l) \<le> max_neighbors h1 l"
    "length (neighbors_at h' x l) \<le> length bs + length (neighbors_at h1 x l)"
    "\<forall>i k. k \<noteq> l \<longrightarrow> neighbors_at h' i k = neighbors_at h1 i k"
    using Cons.IH [OF h1(2) l2_finite_same_base [OF h1(3) Cons.prems(2)]] Cons.prems(3,4) h1(4) mx
      same_base_contains [OF h1(3)] by auto
  have "for_each (connect_one x l) (b # bs) h = Some h'" using h1(1) h'(1) by simp
  moreover have "length (neighbors_at h' x l) \<le> length (b # bs) + length (neighbors_at h x l)"
    using h1(5) h'(5) by simp
  ultimately show ?case
    using h'(2,4,6) h1(6) mx same_base_trans [OF h1(3) h'(3)] by auto
qed simp

end
