(* ===== verification/HnswInsert.thy ===== *)
theory HnswInsert
  imports HnswGraph
begin

text \<open>
  The invariant of the HNSW index and its preservation by \<open>Insert\<close>: under L2, with finite
  vectors and non-negative levels, an insertion never throws, adds exactly the one active
  node, and leaves a symmetric graph within its degree bounds, the level table and the
  entry point in agreement with the nodes.
\<close>

section \<open>The invariant\<close>

text \<open>
  \<open>node_levels_\<close> lists, per level, exactly the active nodes of that level; the entry point is
  an active node of the highest level, and there is none only when no node is active.
\<close>

definition levels_inv :: "HNSWIndex \<Rightarrow> bool" where
  "levels_inv h \<longleftrightarrow>
     (\<forall>l. map_of (hx_node_levels h) l \<noteq> Some []) \<and>
     (\<forall>i l. i \<in> set (set_ref (hx_node_levels h) l) \<longleftrightarrow> is_active h i \<and> n_level (node_ref h i) = l) \<and>
     (\<forall>i. is_active h i \<longrightarrow> 0 \<le> n_level (node_ref h i) \<and> n_level (node_ref h i) \<le> hx_max_level h) \<and>
     (case hx_entry_point h of
        None \<Rightarrow> \<forall>i. \<not> is_active h i
      | Some e \<Rightarrow> is_active h e \<and> n_level (node_ref h e) = hx_max_level h)"

definition dims_ok :: "HNSWIndex \<Rightarrow> bool" where
  "dims_ok h \<longleftrightarrow> (\<forall>i. contains (hx_nodes h) i \<longrightarrow>
     length (n_vector (node_ref h i)) = size_of_int (hc_vector_dimensionality (hx_config h)))"

definition hnsw_inv :: "level_fun \<Rightarrow> HNSWIndex \<Rightarrow> bool" where
  "hnsw_inv rl h \<longleftrightarrow> (\<forall>i. 0 \<le> rl i (hc_ml (hx_config h))) \<and> distinct (keys (hx_nodes h)) \<and>
     l2_finite h \<and> dims_ok h \<and> graph_inv h \<and> degree_ok h \<and> levels_inv h"

lemma hnsw_invD:
  assumes "hnsw_inv rl h"
  shows "closed h" "l2_finite h" "graph_inv h" "degree_ok h" "levels_inv h" "distinct (keys (hx_nodes h))"
    "0 \<le> rl i (hc_ml (hx_config h))" "entry_ok h" "finite_vec q \<Longrightarrow> num_dist h q"
    "dims_ok h"
  using assms
  by (auto simp: hnsw_inv_def graph_inv_def levels_inv_def entry_ok_def l2_finite_num_dist split: option.splits)

lemma hnsw_inv_new: "hc_metric c = L2 \<Longrightarrow> \<forall>i. 0 \<le> rl i (hc_ml c) \<Longrightarrow> hnsw_inv rl (hnsw_new c)"
  by (simp add: hnsw_inv_def hnsw_new_def l2_finite_def dims_ok_def graph_inv_def closed_def degree_ok_def levels_inv_def
      neighbors_at_def node_ref_def default_node_def is_active_def)

section \<open>A node without neighbours is not found\<close>

lemma reach_avoids:
  assumes "graph_inv h" and "neighbors_at h x l = []" and "e \<noteq> x" and "reach h l e i"
  shows "i \<noteq> x"
  using assms(4,3)
proof (induction)
  case (step i b)
  then have "i \<in> set (neighbors_at h b l)" using graph_inv_sym [OF assms(1)] by blast
  with assms(2) show ?case by auto
qed

lemma SearchLevel_avoids:
  assumes "graph_inv h" and "num_dist h v" and "is_active h e" and "e \<noteq> x" and "neighbors_at h x l = []"
  shows "\<exists>r. SearchLevel h v (Some e) ef l = Some r \<and> distinct r \<and> (\<forall>i \<in> set r. is_active h i \<and> i \<noteq> x)"
proof -
  have "searchable h v e" using assms graph_invD(1) is_active_contains by (simp add: searchable_def)
  then obtain r where r: "SearchLevel h v (Some e) ef l = Some r" "level_result h v l e r"
    using SearchLevel_ok by blast
  have "is_active h i \<and> i \<noteq> x" if "i \<in> set r" for i
  proof -
    from that r(2) have ri: "reach h l e i" by (simp add: level_result_def)
    show ?thesis using reach_active [OF ri] assms(3) reach_avoids [OF assms(1,5,4) ri] by auto
  qed
  with r show ?thesis by (auto simp: level_result_def)
qed

lemma descend_ok:
  assumes "graph_inv h" and "num_dist h v" and "is_active h e" and "e \<noteq> x"
    and "\<forall>l. neighbors_at h x l = []"
  shows "\<exists>e'. descend h v e ls = Some e' \<and> is_active h e' \<and> e' \<noteq> x"
  using assms(3,4)
proof (induction ls arbitrary: e)
  case (Cons l ls)
  obtain r where r: "SearchLevel h v (Some e) 1 l = Some r" "\<forall>i \<in> set r. is_active h i \<and> i \<noteq> x"
    using SearchLevel_avoids [OF assms(1,2) Cons.prems, of l 1] assms(5) by blast
  show ?case
  proof (cases r)
    case Nil
    with r Cons show ?thesis by simp
  next
    case (Cons y ys)
    with r Cons.IH [of y] show ?thesis by simp
  qed
qed simp

section \<open>Connecting a node on all its levels\<close>

lemma same_base_max_neighbors: "same_base h h' \<Longrightarrow> max_neighbors h' l = max_neighbors h l"
  by (simp add: same_base_def max_neighbors_def)

lemma same_base_is_active: "same_base h h' \<Longrightarrow> is_active h' i = is_active h i"
  by (simp add: same_base_def)

lemma connect_level_ok:
  assumes "graph_inv h" and "l2_finite h" and "degree_ok h" and "contains (hx_nodes h) x" and "finite_vec v"
    and "is_active h e" and "e \<noteq> x" and "neighbors_at h x l = []"
  shows "\<exists>nearest bs h'. SearchLevel h v (Some e) ef l = Some nearest \<and>
    SelectNeighbors h v nearest l = Some bs \<and> ConnectNeighbors h x v bs l = Some h' \<and>
    graph_inv h' \<and> same_base h h' \<and> degree_ok h' \<and>
    (\<forall>i k. k \<noteq> l \<longrightarrow> neighbors_at h' i k = neighbors_at h i k)"
proof -
  have nd: "num_dist h v" using assms(2,5) by (rule l2_finite_num_dist)
  obtain r where r: "SearchLevel h v (Some e) ef l = Some r" "distinct r" "\<forall>i \<in> set r. is_active h i \<and> i \<noteq> x"
    using SearchLevel_avoids [OF assms(1) nd assms(6,7,8)] by blast
  then have "\<forall>c \<in> set r. contains (hx_nodes h) c" using is_active_contains by blast
  then obtain bs where bs: "SelectNeighbors h v r l = Some bs" "set bs \<subseteq> set r" "length bs \<le> max_neighbors h l"
    using SelectNeighbors_ok [OF nd _ r(2), of l] by blast
  have "\<forall>b \<in> set bs. contains (hx_nodes h) b \<and> b \<noteq> x"
    using bs(2) r(3) is_active_contains by blast
  then obtain h' where h': "ConnectNeighbors h x v bs l = Some h'" "graph_inv h'" "same_base h h'"
    "\<forall>i. i \<noteq> x \<longrightarrow> length (neighbors_at h' i l) \<le> max_neighbors h l"
    "length (neighbors_at h' x l) \<le> length bs + length (neighbors_at h x l)"
    "\<forall>i k. k \<noteq> l \<longrightarrow> neighbors_at h' i k = neighbors_at h i k"
    using ConnectNeighbors_ok [OF assms(1,2,4), of bs l v] assms(3) by (auto simp: degree_ok_def)
  have "length (neighbors_at h' i k) \<le> max_neighbors h k" for i k
  proof (cases "k = l")
    case True
    with h'(4,5) bs(3) assms(8) show ?thesis by (cases "i = x") auto
  qed (use h'(6) assms(3) in \<open>simp add: degree_ok_def\<close>)
  then have "degree_ok h'" by (simp add: degree_ok_def same_base_max_neighbors [OF h'(3)])
  with r(1) bs(1) h' show ?thesis by blast
qed

lemma connect_levels_ok:
  assumes "graph_inv h" and "l2_finite h" and "degree_ok h" and "contains (hx_nodes h) x" and "finite_vec v"
    and "is_active h e" and "e \<noteq> x" and "distinct ls" and "\<forall>l \<in> set ls. neighbors_at h x l = []"
  shows "\<exists>h'. connect_levels x v e ls h = Some h' \<and> graph_inv h' \<and> same_base h h' \<and> degree_ok h' \<and>
    (\<forall>i k. k \<notin> set ls \<longrightarrow> neighbors_at h' i k = neighbors_at h i k)"
  using assms
proof (induction ls arbitrary: h)
  case (Cons l ls)
  have l: "neighbors_at h x l = []" using Cons.prems(9) by simp
  obtain nearest bs h1 where
    h1: "SearchLevel h v (Some e) (hc_ef_construction (hx_config h)) l = Some nearest"
      "SelectNeighbors h v nearest l = Some bs" "ConnectNeighbors h x v bs l = Some h1"
    and g: "graph_inv h1" and sb: "same_base h h1" and d: "degree_ok h1"
    and nb: "\<forall>i k. k \<noteq> l \<longrightarrow> neighbors_at h1 i k = neighbors_at h i k"
    using connect_level_ok [OF Cons.prems(1-7) l, of "hc_ef_construction (hx_config h)"] by blast
  have iso: "\<forall>k \<in> set ls. neighbors_at h1 x k = []" using Cons.prems(8,9) nb by (metis distinct.simps(2) list.set_intros(2))
  obtain h' where h': "connect_levels x v e ls h1 = Some h'" "graph_inv h'" "same_base h1 h'" "degree_ok h'"
    "\<forall>i k. k \<notin> set ls \<longrightarrow> neighbors_at h' i k = neighbors_at h1 i k"
    using Cons.IH [OF g l2_finite_same_base [OF sb Cons.prems(2)] d] Cons.prems(4-8) iso
      same_base_contains [OF sb] same_base_is_active [OF sb] by auto
  with h1 nb same_base_trans [OF sb h'(3)] show ?case by simp
qed simp

lemma distinct_levels_down: "distinct (levels_down hi lo)"
  by (simp add: levels_down_def)

section \<open>Adding the node\<close>

lemma node_ref_add_node [simp]: "node_ref (add_node i v n h) j =
    (if j = i then \<lparr>n_vector = v, n_level = n, n_neighbors = [], n_active = True\<rparr> else node_ref h j)"
  by (simp add: node_ref_def add_node_def)

lemma is_active_add_node [simp]: "is_active (add_node i v n h) j \<longleftrightarrow> j = i \<or> is_active h j"
  by (simp add: is_active_def add_node_def)

lemma contains_add_node [simp]: "contains (hx_nodes (add_node i v n h)) j \<longleftrightarrow> j = i \<or> contains (hx_nodes h) j"
  by (simp add: add_node_def)

lemma add_node_frame [simp]:
  "hx_config (add_node i v n h) = hx_config h" "hx_max_level (add_node i v n h) = hx_max_level h"
  "hx_entry_point (add_node i v n h) = hx_entry_point h"
  by (simp_all add: add_node_def)

lemma set_ref_node_levels_add_node:
  "set (set_ref (hx_node_levels (add_node i v n h)) l) =
    (if l = n then insert i (set (set_ref (hx_node_levels h) l)) else set (set_ref (hx_node_levels h) l))"
  by (simp add: add_node_def)

lemma node_levels_add_node_not_Nil:
  "map_of (hx_node_levels h) l \<noteq> Some [] \<Longrightarrow> map_of (hx_node_levels (add_node i v n h)) l \<noteq> Some []"
  by (auto simp: add_node_def sinsert_def)

lemma neighbors_at_missing: "\<not> contains (hx_nodes h) i \<Longrightarrow> neighbors_at h i l = []"
  by (simp add: neighbors_at_def node_ref_def contains_def default_node_def)

lemma neighbors_at_add_node:
  "\<not> contains (hx_nodes h) i \<Longrightarrow> neighbors_at (add_node i v n h) j l = neighbors_at h j l"
  using neighbors_at_missing [of h i l] by (auto simp: neighbors_at_def)

lemma add_node_ok:
  assumes "hnsw_inv rl h" and "\<not> contains (hx_nodes h) i" and "finite_vec v"
  shows "graph_inv (add_node i v n h)" "degree_ok (add_node i v n h)" "l2_finite (add_node i v n h)"
    "distinct (keys (hx_nodes (add_node i v n h)))"
proof -
  note nb = neighbors_at_add_node [OF assms(2)]
  show "graph_inv (add_node i v n h)"
    using hnsw_invD(3) [OF assms(1)] by (simp add: graph_inv_def closed_def nb)
  show "degree_ok (add_node i v n h)"
    using hnsw_invD(4) [OF assms(1)] by (simp only: degree_ok_def nb max_neighbors_def add_node_frame simp_thms)
  show "l2_finite (add_node i v n h)"
    using hnsw_invD(2) [OF assms(1)] assms(3) by (simp add: l2_finite_def)
  show "distinct (keys (hx_nodes (add_node i v n h)))"
    using hnsw_invD(6) [OF assms(1)] by (simp add: add_node_def)
qed

section \<open>Insert\<close>

definition accepts :: "HNSWIndex \<Rightarrow> Id \<Rightarrow> vector \<Rightarrow> bool" where
  "accepts h i v \<longleftrightarrow> length v = size_of_int (hc_vector_dimensionality (hx_config h)) \<and> \<not> contains (hx_nodes h) i"

lemma hnsw_Insert_rejected: "\<not> accepts h i v \<Longrightarrow> hnsw_Insert rl h i v = Some h"
  by (auto simp: accepts_def hnsw_Insert_def hnsw_InsertNoLock_def)

text \<open>Changing the entry point and the highest level leaves the graph as it is.\<close>

lemma set_entry_frame [simp]:
  "neighbors_at (h\<lparr>hx_max_level := m, hx_entry_point := e\<rparr>) = neighbors_at h"
  "is_active (h\<lparr>hx_max_level := m, hx_entry_point := e\<rparr>) = is_active h"
  "node_ref (h\<lparr>hx_max_level := m, hx_entry_point := e\<rparr>) = node_ref h"
  by (simp_all add: neighbors_at_def is_active_def node_ref_def fun_eq_iff)

lemma graph_set_entry [simp]:
  "graph_inv (h\<lparr>hx_max_level := m, hx_entry_point := e\<rparr>) = graph_inv h"
  "degree_ok (h\<lparr>hx_max_level := m, hx_entry_point := e\<rparr>) = degree_ok h"
  "l2_finite (h\<lparr>hx_max_level := m, hx_entry_point := e\<rparr>) = l2_finite h"
  by (simp_all add: graph_inv_def closed_def degree_ok_def max_neighbors_def l2_finite_def)

text \<open>How the level table and the entry point come out, given the edges.\<close>

lemma levels_inv_inserted:
  assumes "hnsw_inv rl h" and "\<not> contains (hx_nodes h) i" and "same_base (add_node i v n h) h2" and "0 \<le> n"
    and "h' = (if hx_entry_point h = None \<or> n > hx_max_level h
               then h2\<lparr>hx_max_level := n, hx_entry_point := Some i\<rparr> else h2)"
  shows "levels_inv h'"
proof -
  note lv = hnsw_invD(5) [OF assms(1), unfolded levels_inv_def]
  have act: "is_active h' j \<longleftrightarrow> j = i \<or> is_active h j" for j
    using same_base_is_active [OF assms(3), of j] assms(5) by simp
  have lev: "n_level (node_ref h' j) = (if j = i then n else n_level (node_ref h j))" for j
    using assms(3,5) by (simp add: same_base_def)
  have tab: "hx_node_levels h' = hx_node_levels (add_node i v n h)"
    using assms(3,5) by (auto simp: same_base_def)
  have ni: "\<not> is_active h i" using assms(2) is_active_contains by blast
  have mx: "hx_max_level h' = (if hx_entry_point h = None \<or> n > hx_max_level h then n else hx_max_level h)"
    and ep: "hx_entry_point h' = (if hx_entry_point h = None \<or> n > hx_max_level h then Some i else hx_entry_point h)"
    using assms(3,5) by (auto simp: same_base_def)
  show ?thesis unfolding levels_inv_def
  proof (intro conjI allI impI)
    show "map_of (hx_node_levels h') l \<noteq> Some []" for l
      unfolding tab using lv by (intro node_levels_add_node_not_Nil) simp
    show "j \<in> set (set_ref (hx_node_levels h') l) \<longleftrightarrow> is_active h' j \<and> n_level (node_ref h' j) = l" for j l
      unfolding tab set_ref_node_levels_add_node act lev using lv ni by auto
    show "0 \<le> n_level (node_ref h' j)" if "is_active h' j" for j
      using that lv assms(4) by (auto simp: act lev)
    show "n_level (node_ref h' j) \<le> hx_max_level h'" if "is_active h' j" for j
      using that lv by (cases "hx_entry_point h") (fastforce simp: act lev mx)+
    show "case hx_entry_point h' of None \<Rightarrow> \<forall>i. \<not> is_active h' i
        | Some e \<Rightarrow> is_active h' e \<and> n_level (node_ref h' e) = hx_max_level h'"
      using lv ni by (cases "hx_entry_point h") (auto simp: act lev mx ep)
  qed
qed

lemma hnsw_Insert_shape:
  assumes "hnsw_inv rl h" and "accepts h i v" and "finite_vec v"
  shows "\<exists>h2. same_base (add_node i v (rl i (hc_ml (hx_config h))) h) h2 \<and> graph_inv h2 \<and> degree_ok h2 \<and>
    hnsw_Insert rl h i v = Some
      (if hx_entry_point h = None \<or> rl i (hc_ml (hx_config h)) > hx_max_level h
       then h2\<lparr>hx_max_level := rl i (hc_ml (hx_config h)), hx_entry_point := Some i\<rparr> else h2)"
proof -
  let ?n = "rl i (hc_ml (hx_config h))"
  let ?h1 = "add_node i v ?n h"
  have new: "\<not> contains (hx_nodes h) i" and dim: "length v = size_of_int (hc_vector_dimensionality (hx_config h))"
    using assms(2) by (simp_all add: accepts_def)
  note ok = add_node_ok [OF assms(1) new assms(3), of ?n]
  show ?thesis
  proof (cases "hx_entry_point h")
    case None
    with ok(1,2) new dim show ?thesis
      by (intro exI [of _ ?h1]) (simp add: hnsw_Insert_def hnsw_InsertNoLock_def Let_def)
  next
    case (Some e)
    have e: "is_active ?h1 e" "e \<noteq> i"
      using Some hnsw_invD(8) [OF assms(1)] is_active_contains new by (auto simp: entry_ok_def)
    have iso: "\<forall>l. neighbors_at ?h1 i l = []"
      using neighbors_at_add_node [OF new] neighbors_at_missing [OF new] by simp
    obtain e' where e': "descend ?h1 v e (levels_down (hx_max_level h) ?n) = Some e'" "is_active ?h1 e'" "e' \<noteq> i"
      using descend_ok [OF ok(1) l2_finite_num_dist [OF ok(3) assms(3)] e iso] by blast
    have ci: "contains (hx_nodes ?h1) i" by simp
    obtain h2 where h2: "connect_levels i v e' (levels_down (min (hx_max_level h) ?n) (-1)) ?h1 = Some h2"
      "graph_inv h2" "same_base ?h1 h2" "degree_ok h2"
      using connect_levels_ok [OF ok(1,3,2) ci assms(3) e'(2,3) distinct_levels_down] iso by blast
    show ?thesis
      using Some new dim e'(1) h2
      by (intro exI [of _ h2]) (simp add: hnsw_Insert_def hnsw_InsertNoLock_def Let_def)
  qed
qed

lemma hnsw_Insert_ok:
  assumes "hnsw_inv rl h" and "accepts h i v" and "finite_vec v"
  shows "\<exists>h'. hnsw_Insert rl h i v = Some h' \<and> hnsw_inv rl h' \<and> hx_config h' = hx_config h \<and>
    set (keys (hx_nodes h')) = insert i (set (keys (hx_nodes h))) \<and>
    (\<forall>j. is_active h' j \<longleftrightarrow> j = i \<or> is_active h j) \<and>
    n_vector (node_ref h' i) = v \<and> (\<forall>j. j \<noteq> i \<longrightarrow> n_vector (node_ref h' j) = n_vector (node_ref h j))"
proof -
  let ?n = "rl i (hc_ml (hx_config h))"
  let ?new = "hx_entry_point h = None \<or> ?n > hx_max_level h"
  have new: "\<not> contains (hx_nodes h) i" using assms(2) by (simp add: accepts_def)
  obtain h2 where sb: "same_base (add_node i v ?n h) h2" and g: "graph_inv h2" "degree_ok h2"
    and ins: "hnsw_Insert rl h i v = Some (if ?new then h2\<lparr>hx_max_level := ?n, hx_entry_point := Some i\<rparr> else h2)"
    using hnsw_Insert_shape [OF assms] by blast
  define h' where "h' = (if ?new then h2\<lparr>hx_max_level := ?n, hx_entry_point := Some i\<rparr> else h2)"
  have nodes: "hx_nodes h' = hx_nodes h2" "hx_config h' = hx_config h2" by (simp_all add: h'_def)
  have ref: "node_ref h' j = node_ref h2 j" "is_active h' j = is_active h2 j" for j by (simp_all add: h'_def)
  have l2: "l2_finite h2"
    using l2_finite_same_base [OF sb] add_node_ok(3) [OF assms(1) new assms(3)] by blast
  have "graph_inv h' \<and> degree_ok h' \<and> l2_finite h'" using g l2 by (simp add: h'_def)
  moreover have "levels_inv h'"
    by (rule levels_inv_inserted [OF assms(1) new sb hnsw_invD(7) [OF assms(1)] h'_def])
  moreover have ks: "keys (hx_nodes h') = keys (hx_nodes (add_node i v ?n h))"
    using sb nodes by (simp add: same_base_def)
  moreover have "hx_config h' = hx_config h" using sb nodes by (simp add: same_base_def)
  moreover have "dims_ok h'"
    using hnsw_invD(10) [OF assms(1)] assms(2) sb nodes ref
    by (simp add: dims_ok_def accepts_def same_base_contains) (simp add: same_base_def)
  ultimately have "hnsw_inv rl h'"
    using assms(1) add_node_ok(4) [OF assms(1) new assms(3), of ?n] by (simp add: hnsw_inv_def)
  moreover have "set (keys (hx_nodes h')) = insert i (set (keys (hx_nodes h)))"
    unfolding ks by (simp add: add_node_def)
  moreover have "is_active h' j \<longleftrightarrow> j = i \<or> is_active h j" for j
    using same_base_is_active [OF sb] ref by simp
  moreover have "n_vector (node_ref h' j) = (if j = i then v else n_vector (node_ref h j))" for j
    using sb ref by (simp add: same_base_def)
  ultimately show ?thesis using ins nodes sb by (auto simp: h'_def same_base_def)
qed

end
