(* ===== verification/HnswMaint.thy ===== *)
theory HnswMaint
  imports HnswInsert
begin

text \<open>
  Soft removal, cleanup and reindexing of the HNSW index: \<open>Remove\<close> deactivates exactly one
  node and finds a new entry point; \<open>Cleanup\<close> erases exactly the inactive nodes and every
  reference to them; \<open>Reindex\<close> rebuilds the graph on the nodes it finds, active or not. With
  these the HNSW index provides the interface of the vector store.
\<close>

section \<open>Choosing a new entry point\<close>

text \<open>The level table lists exactly the active nodes of each level.\<close>

definition table_ok :: "HNSWIndex \<Rightarrow> bool" where
  "table_ok h \<longleftrightarrow> (\<forall>l. map_of (hx_node_levels h) l \<noteq> Some []) \<and>
     (\<forall>i l. i \<in> set (set_ref (hx_node_levels h) l) \<longleftrightarrow> is_active h i \<and> n_level (node_ref h i) = l)"

lemma pick_entry_ok:
  assumes "table_ok h"
  shows "case pick_entry h l of
      (None, l') \<Rightarrow> \<forall>i. is_active h i \<longrightarrow> n_level (node_ref h i) \<le> l \<longrightarrow> n_level (node_ref h i) < 0
    | (Some e, l') \<Rightarrow> is_active h e \<and> n_level (node_ref h e) = l' \<and>
        (\<forall>i. is_active h i \<longrightarrow> n_level (node_ref h i) \<le> l \<longrightarrow> n_level (node_ref h i) \<le> l')"
  using assms
proof (induction h l rule: pick_entry.induct)
  case (1 h l)
  note tab = 1(2) [unfolded table_ok_def]
  show ?case
  proof (cases "l < 0")
    case True
    then show ?thesis by (simp add: pick_entry.simps [of h l])
  next
    case False
    show ?thesis
    proof (cases "map_of (hx_node_levels h) l")
      case None
      then have "\<not> (is_active h i \<and> n_level (node_ref h i) = l)" for i
        using tab None by (metis set_ref_def option.simps(4) list.set(1) empty_iff)
      moreover have "pick_entry h l = pick_entry h (l - 1)"
        using False None by (simp add: pick_entry.simps [of h l])
      ultimately show ?thesis
        using 1(1) [OF False None 1(2)] by (fastforce split: prod.splits option.splits)
    next
      case (Some s)
      then have ne: "s \<noteq> []" and sr: "set_ref (hx_node_levels h) l = s"
        using tab by (auto simp: set_ref_def)
      then obtain e es where s: "s = e # es" by (cases s) auto
      have e: "is_active h e" "n_level (node_ref h e) = l"
        using tab sr s by (metis list.set_intros(1))+
      have "pick_entry h l = (Some e, l)"
        using False Some s e(1) by (simp add: pick_entry.simps [of h l])
      with e show ?thesis by simp
    qed
  qed
qed

section \<open>Remove\<close>

lemma set_ref_drop_level:
  "set (set_ref (drop_level i n m) l) = (if l = n then set (set_ref m l) - {i} else set (set_ref m l))"
proof (cases "l = n")
  case True
  have "set (serase i s) = set s - {i}" for s :: "Id list" by (auto simp: serase_def)
  moreover have "set_ref (drop_level i n m) n = serase i (set_ref m n)"
    by (simp add: drop_level_def Let_def) (simp add: set_ref_def)
  ultimately show ?thesis using True by simp
next
  case False
  then show ?thesis by (simp add: drop_level_def Let_def set_ref_def)
qed

lemma drop_level_not_Nil: "map_of m l \<noteq> Some [] \<Longrightarrow> map_of (drop_level i n m) l \<noteq> Some []"
  by (auto simp: drop_level_def Let_def)

text \<open>The index once the node is inactive and out of the level table.\<close>

definition deactivated :: "HNSWIndex \<Rightarrow> Id \<Rightarrow> HNSWIndex" where
  "deactivated h i = (upd_node i (\<lambda>n. n\<lparr>n_active := False\<rparr>) h)
     \<lparr>hx_node_levels := drop_level i (n_level (node_ref h i)) (hx_node_levels h)\<rparr>"

lemma hnsw_Remove_alt: "hnsw_Remove h i =
  (case hx_entry_point h of None \<Rightarrow> h
   | Some ep \<Rightarrow> if \<not> is_active h i then h
       else if i \<noteq> ep then deactivated h i
       else (deactivated h i)\<lparr>hx_max_level := snd (pick_entry (deactivated h i) (hx_max_level h)),
              hx_entry_point := fst (pick_entry (deactivated h i) (hx_max_level h))\<rparr>)"
  by (simp add: hnsw_Remove_def deactivated_def Let_def case_prod_beta split: option.split)

lemma deactivated_simps [simp]:
  "hx_config (deactivated h i) = hx_config h" "hx_max_level (deactivated h i) = hx_max_level h"
  "hx_entry_point (deactivated h i) = hx_entry_point h"
  "node_ref (deactivated h i) j = (if j = i then (node_ref h i)\<lparr>n_active := False\<rparr> else node_ref h j)"
  "hx_node_levels (deactivated h i) = drop_level i (n_level (node_ref h i)) (hx_node_levels h)"
  by (simp_all add: deactivated_def node_ref_def upd_node_def)

lemma is_active_deactivated [simp]: "is_active (deactivated h i) j \<longleftrightarrow> j \<noteq> i \<and> is_active h j"
  by (simp add: is_active_def deactivated_def upd_node_def)

lemma neighbors_at_deactivated [simp]: "neighbors_at (deactivated h i) j l = neighbors_at h j l"
  by (simp add: neighbors_at_def)

lemma keys_deactivated: "contains (hx_nodes h) i \<Longrightarrow> keys (hx_nodes (deactivated h i)) = keys (hx_nodes h)"
  by (simp add: deactivated_def upd_node_def keys_mput_old del: map_map)

lemma table_ok_deactivated: "levels_inv h \<Longrightarrow> table_ok (deactivated h i)"
  by (auto simp: table_ok_def levels_inv_def drop_level_not_Nil set_ref_drop_level)

lemma graph_deactivated:
  assumes "hnsw_inv rl h" and "contains (hx_nodes h) i"
  shows "graph_inv (deactivated h i)" "degree_ok (deactivated h i)" "l2_finite (deactivated h i)"
    "dims_ok (deactivated h i)" "distinct (keys (hx_nodes (deactivated h i)))"
proof -
  have c: "contains (hx_nodes (deactivated h i)) j = contains (hx_nodes h) j" for j
    by (simp only: contains_iff keys_deactivated [OF assms(2)])
  show "graph_inv (deactivated h i)" "l2_finite (deactivated h i)" "dims_ok (deactivated h i)"
    using hnsw_invD(2,3,10) [OF assms(1)] assms(2)
    by (auto simp: graph_inv_def closed_def l2_finite_def dims_ok_def c)
  show "degree_ok (deactivated h i)"
    using hnsw_invD(4) [OF assms(1)] by (simp only: degree_ok_def max_neighbors_def neighbors_at_deactivated deactivated_simps(1) simp_thms)
  show "distinct (keys (hx_nodes (deactivated h i)))"
    using hnsw_invD(6) [OF assms(1)] keys_deactivated [OF assms(2)] by simp
qed

lemma levels_inv_Remove:
  assumes "levels_inv h" and "is_active h i"
  shows "levels_inv (hnsw_Remove h i)"
proof -
  obtain ep where ep: "hx_entry_point h = Some ep" "is_active h ep" "n_level (node_ref h ep) = hx_max_level h"
    using assms by (auto simp: levels_inv_def split: option.splits)
  have low: "\<forall>j. is_active h j \<longrightarrow> 0 \<le> n_level (node_ref h j) \<and> n_level (node_ref h j) \<le> hx_max_level h"
    using assms(1) by (simp add: levels_inv_def)
  note tab = table_ok_deactivated [OF assms(1), of i]
  show ?thesis
  proof (cases "i = ep")
    case False
    with tab ep low assms show ?thesis
      by (auto simp: hnsw_Remove_alt levels_inv_def table_ok_def)
  next
    case True
    obtain e l' where pe: "pick_entry (deactivated h i) (hx_max_level h) = (e, l')" by fastforce
    have rm: "hnsw_Remove h i = (deactivated h i)\<lparr>hx_max_level := l', hx_entry_point := e\<rparr>"
      using True ep assms(2) pe by (simp add: hnsw_Remove_alt)
    note po = pick_entry_ok [OF tab, of "hx_max_level h", unfolded pe]
    show ?thesis
    proof (cases e)
      case None
      have na: "\<not> is_active (deactivated h i) j" for j
      proof
        assume a: "is_active (deactivated h i) j"
        then have "0 \<le> n_level (node_ref (deactivated h i) j)" "n_level (node_ref (deactivated h i) j) \<le> hx_max_level h"
          using low by auto
        with a po None show False by fastforce
      qed
      then have "levels_inv ((deactivated h i)\<lparr>hx_max_level := l', hx_entry_point := None\<rparr>)"
        using tab na unfolding levels_inv_def table_ok_def set_entry_frame
        by (simp del: is_active_deactivated deactivated_simps)
      with None rm show ?thesis by simp
    next
      case (Some x)
      then have "is_active (deactivated h i) j \<Longrightarrow> n_level (node_ref (deactivated h i) j) \<le> l'" for j
        using po low by auto
      with Some po tab low rm show ?thesis by (auto simp: levels_inv_def table_ok_def)
    qed
  qed
qed

lemma hnsw_Remove_active:
  assumes "hx_entry_point h = Some ep" and "is_active h i"
  obtains m e where "hnsw_Remove h i = (deactivated h i)\<lparr>hx_max_level := m, hx_entry_point := e\<rparr>"
proof (cases "i = ep")
  case True
  with assms that show ?thesis by (simp add: hnsw_Remove_alt)
next
  case False
  have "deactivated h i = (deactivated h i)\<lparr>hx_max_level := hx_max_level h, hx_entry_point := hx_entry_point h\<rparr>"
    by (simp add: deactivated_def upd_node_def)
  moreover have "hnsw_Remove h i = deactivated h i" using False assms by (simp add: hnsw_Remove_alt)
  ultimately show ?thesis using that by metis
qed

lemma hnsw_Remove_inactive: "\<not> is_active h i \<Longrightarrow> hnsw_Remove h i = h"
  by (simp add: hnsw_Remove_alt split: option.split)

lemma hnsw_Remove_ok:
  assumes "hnsw_inv rl h"
  shows "hnsw_inv rl (hnsw_Remove h i) \<and> hx_config (hnsw_Remove h i) = hx_config h \<and>
    keys (hx_nodes (hnsw_Remove h i)) = keys (hx_nodes h) \<and>
    (\<forall>j. is_active (hnsw_Remove h i) j \<longleftrightarrow> j \<noteq> i \<and> is_active h j) \<and>
    (\<forall>j. n_vector (node_ref (hnsw_Remove h i) j) = n_vector (node_ref h j))"
proof (cases "is_active h i")
  case False
  with assms show ?thesis by (auto simp: hnsw_Remove_inactive)
next
  case True
  then have c: "contains (hx_nodes h) i" by (rule is_active_contains)
  obtain ep where ep: "hx_entry_point h = Some ep"
    using hnsw_invD(5) [OF assms] True by (auto simp: levels_inv_def split: option.splits)
  obtain m e where rm: "hnsw_Remove h i = (deactivated h i)\<lparr>hx_max_level := m, hx_entry_point := e\<rparr>"
    by (rule hnsw_Remove_active [OF ep True])
  have "levels_inv (hnsw_Remove h i)" by (rule levels_inv_Remove [OF hnsw_invD(5) [OF assms] True])
  moreover have "dims_ok (hnsw_Remove h i)"
    using graph_deactivated(4) [OF assms c] by (simp add: rm dims_ok_def)
  ultimately show ?thesis
    using graph_deactivated [OF assms c] assms keys_deactivated [OF c]
    by (simp add: hnsw_inv_def rm)
qed

end
