(* ===== verification/HnswCleanup.thy ===== *)
theory HnswCleanup
  imports HnswMaint
begin

text \<open>
  \<open>Cleanup\<close> erases exactly the inactive nodes and every reference to them, and keeps the
  invariant; \<open>Reindex\<close> rebuilds the graph from the nodes it finds, active or not. With these
  the HNSW index provides the interface of the vector store.
\<close>

section \<open>Cleanup\<close>

text \<open>What becomes of one node.\<close>

definition cleaned :: "(Id \<Rightarrow> bool) \<Rightarrow> Node option \<Rightarrow> Node option" where
  "cleaned act m = (case m of
       None \<Rightarrow> None
     | Some n \<Rightarrow> if n_active n
         then Some (n\<lparr>n_neighbors := map (\<lambda>(level, s). (level, filter act s)) (n_neighbors n)\<rparr>)
         else None)"

lemma cleanup_node_frame [simp]:
  "hx_config (cleanup_node i h) = hx_config h" "hx_node_levels (cleanup_node i h) = hx_node_levels h"
  "hx_max_level (cleanup_node i h) = hx_max_level h" "hx_entry_point (cleanup_node i h) = hx_entry_point h"
  by (simp_all add: cleanup_node_def upd_node_def)

lemma map_of_cleanup_node:
  "map_of (hx_nodes (cleanup_node i h)) j =
    (if j = i then cleaned (is_active h) (map_of (hx_nodes h) i) else map_of (hx_nodes h) j)"
  by (simp add: cleanup_node_def cleaned_def upd_node_def is_active_def node_ref_def split: option.split)

lemma is_active_cleanup_node [simp]: "is_active (cleanup_node i h) = is_active h"
  by (rule ext) (simp add: is_active_def map_of_cleanup_node cleaned_def split: option.split)

lemma distinct_keys_cleanup_node:
  "distinct (keys (hx_nodes h)) \<Longrightarrow> distinct (keys (hx_nodes (cleanup_node i h)))"
  by (simp add: cleanup_node_def upd_node_def)

lemma fold_cleanup_node:
  assumes "distinct is"
  shows "is_active (fold cleanup_node is h) = is_active h \<and>
    hx_config (fold cleanup_node is h) = hx_config h \<and>
    hx_node_levels (fold cleanup_node is h) = hx_node_levels h \<and>
    hx_max_level (fold cleanup_node is h) = hx_max_level h \<and>
    hx_entry_point (fold cleanup_node is h) = hx_entry_point h \<and>
    (distinct (keys (hx_nodes h)) \<longrightarrow> distinct (keys (hx_nodes (fold cleanup_node is h)))) \<and>
    (\<forall>j. map_of (hx_nodes (fold cleanup_node is h)) j =
       (if j \<in> set is then cleaned (is_active h) (map_of (hx_nodes h) j) else map_of (hx_nodes h) j))"
  using assms
proof (induction "is" arbitrary: h)
  case (Cons i js)
  then show ?case
    using Cons.IH [of "cleanup_node i h"] by (auto simp: map_of_cleanup_node distinct_keys_cleanup_node)
qed simp

lemma hnsw_Cleanup_frame:
  assumes "distinct (keys (hx_nodes h))"
  shows "is_active (hnsw_Cleanup h) = is_active h" "hx_config (hnsw_Cleanup h) = hx_config h"
    "hx_node_levels (hnsw_Cleanup h) = hx_node_levels h" "hx_max_level (hnsw_Cleanup h) = hx_max_level h"
    "hx_entry_point (hnsw_Cleanup h) = hx_entry_point h" "distinct (keys (hx_nodes (hnsw_Cleanup h)))"
    "map_of (hx_nodes (hnsw_Cleanup h)) j = cleaned (is_active h) (map_of (hx_nodes h) j)"
proof -
  note f = fold_cleanup_node [OF assms, of h, folded hnsw_Cleanup_def]
  show "is_active (hnsw_Cleanup h) = is_active h" "hx_config (hnsw_Cleanup h) = hx_config h"
    "hx_node_levels (hnsw_Cleanup h) = hx_node_levels h" "hx_max_level (hnsw_Cleanup h) = hx_max_level h"
    "hx_entry_point (hnsw_Cleanup h) = hx_entry_point h" "distinct (keys (hx_nodes (hnsw_Cleanup h)))"
    using f assms by blast+
  have "map_of (hx_nodes h) j = None" if "j \<notin> set (keys (hx_nodes h))"
    using that by (simp add: map_of_eq_None_iff)
  then show "map_of (hx_nodes (hnsw_Cleanup h)) j = cleaned (is_active h) (map_of (hx_nodes h) j)"
    using f by (auto simp: cleaned_def)
qed

lemma contains_hnsw_Cleanup:
  "distinct (keys (hx_nodes h)) \<Longrightarrow> contains (hx_nodes (hnsw_Cleanup h)) j \<longleftrightarrow> is_active h j"
  by (simp add: contains_def hnsw_Cleanup_frame(7) cleaned_def is_active_def split: option.split)

lemma node_ref_hnsw_Cleanup:
  assumes "distinct (keys (hx_nodes h))" and "is_active h j"
  shows "n_vector (node_ref (hnsw_Cleanup h) j) = n_vector (node_ref h j)"
    "n_level (node_ref (hnsw_Cleanup h) j) = n_level (node_ref h j)"
  using assms(2)
  by (auto simp: node_ref_def hnsw_Cleanup_frame(7) [OF assms(1)] cleaned_def is_active_def split: option.splits)

lemma set_ref_map_filter: "set_ref (map (\<lambda>(l, s). (l, filter P s)) m) k = filter P (set_ref m k)"
  by (induction m) (auto simp: set_ref_def)

lemma neighbors_at_hnsw_Cleanup:
  assumes "distinct (keys (hx_nodes h))"
  shows "neighbors_at (hnsw_Cleanup h) j l = (if is_active h j then filter (is_active h) (neighbors_at h j l) else [])"
  unfolding neighbors_at_def node_ref_def hnsw_Cleanup_frame(7) [OF assms]
  by (simp add: cleaned_def is_active_def set_ref_map_filter split: option.split)
    (simp add: default_node_def set_ref_def)

lemma hnsw_Cleanup_ok:
  assumes "hnsw_inv rl h"
  shows "hnsw_inv rl (hnsw_Cleanup h)"
proof -
  have d: "distinct (keys (hx_nodes h))" by (rule hnsw_invD(6) [OF assms])
  note fr = hnsw_Cleanup_frame [OF d] and nb = neighbors_at_hnsw_Cleanup [OF d]
    and co = contains_hnsw_Cleanup [OF d] and nr = node_ref_hnsw_Cleanup [OF d]
  have "l2_finite (hnsw_Cleanup h)" "dims_ok (hnsw_Cleanup h)"
    using hnsw_invD(2,10) [OF assms] is_active_contains
    by (auto simp: l2_finite_def dims_ok_def fr co nr)
  moreover have "graph_inv (hnsw_Cleanup h)"
    using hnsw_invD(3) [OF assms] by (auto simp: graph_inv_def closed_def nb co)
  moreover have "degree_ok (hnsw_Cleanup h)"
    unfolding degree_ok_def
  proof (intro allI)
    fix i l
    have "length (neighbors_at (hnsw_Cleanup h) i l) \<le> length (neighbors_at h i l)" by (simp add: nb)
    also have "\<dots> \<le> max_neighbors (hnsw_Cleanup h) l"
      using hnsw_invD(4) [OF assms] unfolding degree_ok_def max_neighbors_def fr by blast
    finally show "length (neighbors_at (hnsw_Cleanup h) i l) \<le> max_neighbors (hnsw_Cleanup h) l" .
  qed
  moreover have "levels_inv (hnsw_Cleanup h)"
    using hnsw_invD(5) [OF assms] unfolding levels_inv_def fr
    by (auto simp: nr split: option.splits)
  ultimately show ?thesis using assms fr(2,6) by (simp add: hnsw_inv_def)
qed

section \<open>Reindex\<close>

definition emptied :: "HNSWIndex \<Rightarrow> HNSWIndex" where
  "emptied h = h\<lparr>hx_nodes := [], hx_node_levels := [], hx_entry_point := None, hx_max_level := -1\<rparr>"

lemma hnsw_inv_emptied: "hnsw_inv rl h \<Longrightarrow> hnsw_inv rl (emptied h)"
  by (simp add: hnsw_inv_def emptied_def l2_finite_def dims_ok_def graph_inv_def closed_def degree_ok_def levels_inv_def
      neighbors_at_def node_ref_def default_node_def is_active_def set_ref_def)

text \<open>Inserting a list of new vectors one by one.\<close>

lemma insert_all:
  assumes "hnsw_inv rl h" and "distinct (map fst ivs)"
    and "\<forall>(i, v) \<in> set ivs. accepts h i v \<and> finite_vec v"
  shows "\<exists>h'. for_each (\<lambda>(i, v) h. hnsw_InsertNoLock rl h i v) ivs h = Some h' \<and> hnsw_inv rl h' \<and>
    hx_config h' = hx_config h \<and> (\<forall>j. is_active h' j \<longleftrightarrow> j \<in> fst ` set ivs \<or> is_active h j) \<and>
    (\<forall>(i, v) \<in> set ivs. n_vector (node_ref h' i) = v) \<and>
    (\<forall>j. j \<notin> fst ` set ivs \<longrightarrow> n_vector (node_ref h' j) = n_vector (node_ref h j)) \<and>
    (\<forall>j. contains (hx_nodes h') j \<longleftrightarrow> j \<in> fst ` set ivs \<or> contains (hx_nodes h) j)"
  using assms
proof (induction ivs arbitrary: h)
  case (Cons iv ivs)
  obtain i v where iv [simp]: "iv = (i, v)" by fastforce
  from Cons.prems(3) have a: "accepts h i v" "finite_vec v" by simp_all
  obtain h1 where h1: "hnsw_Insert rl h i v = Some h1" "hnsw_inv rl h1" "hx_config h1 = hx_config h"
    and k0: "set (keys (hx_nodes h1)) = insert i (set (keys (hx_nodes h)))"
    and a1: "\<forall>j. is_active h1 j \<longleftrightarrow> j = i \<or> is_active h j"
    and v1: "n_vector (node_ref h1 i) = v" "\<forall>j. j \<noteq> i \<longrightarrow> n_vector (node_ref h1 j) = n_vector (node_ref h j)"
    using hnsw_Insert_ok [OF Cons.prems(1) a] by blast
  from k0 have k1: "contains (hx_nodes h1) j \<longleftrightarrow> j = i \<or> contains (hx_nodes h) j" for j
    unfolding contains_iff by blast
  have "\<forall>(j, w) \<in> set ivs. accepts h1 j w \<and> finite_vec w"
    using Cons.prems(2,3) h1(3) k1 by (force simp: accepts_def)
  then obtain h' where h': "for_each (\<lambda>(i, v) h. hnsw_InsertNoLock rl h i v) ivs h1 = Some h'" "hnsw_inv rl h'"
    "hx_config h' = hx_config h1" "\<forall>j. is_active h' j \<longleftrightarrow> j \<in> fst ` set ivs \<or> is_active h1 j"
    "\<forall>(i, v) \<in> set ivs. n_vector (node_ref h' i) = v"
    "\<forall>j. j \<notin> fst ` set ivs \<longrightarrow> n_vector (node_ref h' j) = n_vector (node_ref h1 j)"
    "\<forall>j. contains (hx_nodes h') j \<longleftrightarrow> j \<in> fst ` set ivs \<or> contains (hx_nodes h1) j"
    using Cons.IH [OF h1(2)] Cons.prems(2) by auto
  have i: "i \<notin> fst ` set ivs" using Cons.prems(2) by simp
  have "for_each (\<lambda>(i, v) h. hnsw_InsertNoLock rl h i v) (iv # ivs) h = Some h'"
    using h1(1) h'(1) by (simp add: hnsw_Insert_def)
  moreover have "\<forall>(j, w) \<in> set (iv # ivs). n_vector (node_ref h' j) = w"
    using h'(5,6) i v1(1) by simp
  moreover have "\<forall>j. j \<notin> fst ` set (iv # ivs) \<longrightarrow> n_vector (node_ref h' j) = n_vector (node_ref h j)"
    using h'(6) v1(2) by simp
  ultimately show ?case using h'(2,3,4,7) h1(3) a1 k1 by (intro exI [of _ h']) (simp, blast)
qed simp

text \<open>What a reindex inserts again.\<close>

definition node_vectors :: "HNSWIndex \<Rightarrow> (Id \<times> vector) list" where
  "node_vectors h = map (\<lambda>(i, n). (i, n_vector n)) (hx_nodes h)"

lemma keys_node_vectors [simp]: "map fst (node_vectors h) = keys (hx_nodes h)" "length (node_vectors h) = length (hx_nodes h)"
  by (simp_all add: node_vectors_def split_def)

lemma node_vectors_ok:
  assumes "hnsw_inv rl h"
  shows "\<forall>(i, v) \<in> set (node_vectors h). accepts (emptied h) i v \<and> finite_vec v"
proof -
  have d: "distinct (keys (hx_nodes h))" by (rule hnsw_invD(6) [OF assms])
  have "node_ref h i = n \<and> contains (hx_nodes h) i" if "(i, n) \<in> set (hx_nodes h)" for i n
    using that d by (auto simp: node_ref_def contains_in_set)
  then show ?thesis
    using hnsw_invD(2,10) [OF assms]
    by (fastforce simp: l2_finite_def dims_ok_def accepts_def emptied_def node_vectors_def)
qed

lemma hnsw_Reindex_ok:
  assumes "hnsw_inv rl h"
  shows "\<exists>h'. hnsw_Reindex rl h = Some h' \<and> hnsw_inv rl h' \<and> hx_config h' = hx_config h \<and>
    (\<forall>j. is_active h' j \<longleftrightarrow> contains (hx_nodes h) j) \<and>
    (\<forall>j. contains (hx_nodes h) j \<longrightarrow> n_vector (node_ref h' j) = n_vector (node_ref h j)) \<and>
    (\<forall>j. contains (hx_nodes h') j = contains (hx_nodes h) j)"
proof -
  let ?ivs = "node_vectors h"
  have d: "distinct (keys (hx_nodes h))" by (rule hnsw_invD(6) [OF assms])
  have fs: "fst ` set ?ivs = set (keys (hx_nodes h))" by (metis keys_node_vectors(1) list.set_map)
  have nr: "node_ref h i = n" if "(i, n) \<in> set (hx_nodes h)" for i n
    using that d by (auto simp: node_ref_def)
  obtain h' where h': "for_each (\<lambda>(i, v) h. hnsw_InsertNoLock rl h i v) ?ivs (emptied h) = Some h'" "hnsw_inv rl h'"
    "hx_config h' = hx_config (emptied h)"
    "\<forall>j. is_active h' j \<longleftrightarrow> j \<in> fst ` set ?ivs \<or> is_active (emptied h) j"
    "\<forall>(i, v) \<in> set ?ivs. n_vector (node_ref h' i) = v"
    "\<forall>j. contains (hx_nodes h') j \<longleftrightarrow> j \<in> fst ` set ?ivs \<or> contains (hx_nodes (emptied h)) j"
    using insert_all [OF hnsw_inv_emptied [OF assms] _ node_vectors_ok [OF assms]] d unfolding keys_node_vectors by blast
  have "n_vector (node_ref h' j) = n_vector (node_ref h j)" if c: "contains (hx_nodes h) j" for j
  proof -
    obtain n where "(j, n) \<in> set (hx_nodes h)" using c by (auto simp: contains_iff)
    with h'(5) nr show ?thesis by (force simp: node_vectors_def)
  qed
  with h' show ?thesis unfolding fs
    by (intro exI [of _ h']) (simp add: hnsw_Reindex_def emptied_def node_vectors_def is_active_def contains_iff)
qed

section \<open>The interface\<close>

definition hnsw_dim :: "HNSWIndex \<Rightarrow> nat" where
  "hnsw_dim h = size_of_int (hc_vector_dimensionality (hx_config h))"

definition hnsw_vec :: "HNSWIndex \<Rightarrow> Id \<rightharpoonup> vector" where
  "hnsw_vec h i = (if is_active h i then Some (n_vector (node_ref h i)) else None)"

text \<open>An id can be taken when the index has no node of it, not even an inactive one.\<close>

definition hnsw_fresh :: "HNSWIndex \<Rightarrow> Id \<Rightarrow> bool" where
  "hnsw_fresh h i \<longleftrightarrow> \<not> contains (hx_nodes h) i"

text \<open>\<open>VectorStore::Cleanup\<close> calls \<open>Cleanup\<close> and then, when asked to, \<open>Reindex\<close>.\<close>

definition hnsw_maintain :: "level_fun \<Rightarrow> HNSWIndex \<Rightarrow> bool \<Rightarrow> HNSWIndex option" where
  "hnsw_maintain rl h reindex = (if reindex then hnsw_Reindex rl (hnsw_Cleanup h) else Some (hnsw_Cleanup h))"

lemma hnsw_maintain_ok:
  assumes "hnsw_inv rl h"
  shows "\<exists>h'. hnsw_maintain rl h reindex = Some h' \<and> hnsw_inv rl h' \<and> hx_config h' = hx_config h \<and>
    (\<forall>j. is_active h' j = is_active h j) \<and> (\<forall>j. contains (hx_nodes h') j = is_active h j) \<and>
    (\<forall>j. is_active h j \<longrightarrow> n_vector (node_ref h' j) = n_vector (node_ref h j))"
proof -
  have d: "distinct (keys (hx_nodes h))" by (rule hnsw_invD(6) [OF assms])
  note fr = hnsw_Cleanup_frame [OF d] and co = contains_hnsw_Cleanup [OF d] and nr = node_ref_hnsw_Cleanup [OF d]
  show ?thesis
  proof (cases reindex)
    case True
    obtain h' where "hnsw_Reindex rl (hnsw_Cleanup h) = Some h'" "hnsw_inv rl h'"
      "hx_config h' = hx_config (hnsw_Cleanup h)" "\<forall>j. is_active h' j \<longleftrightarrow> contains (hx_nodes (hnsw_Cleanup h)) j"
      "\<forall>j. contains (hx_nodes (hnsw_Cleanup h)) j \<longrightarrow> n_vector (node_ref h' j) = n_vector (node_ref (hnsw_Cleanup h) j)"
      "\<forall>j. contains (hx_nodes h') j = contains (hx_nodes (hnsw_Cleanup h)) j"
      using hnsw_Reindex_ok [OF hnsw_Cleanup_ok [OF assms]] by blast
    with True show ?thesis
      by (intro exI [of _ h']) (simp add: hnsw_maintain_def co fr nr)
  next
    case False
    with hnsw_Cleanup_ok [OF assms] show ?thesis by (simp add: hnsw_maintain_def co fr nr)
  qed
qed

interpretation hnsw: vector_index "hnsw_inv rl" finite_vec hnsw_dim hnsw_vec hnsw_fresh "hnsw_Insert rl"
    "\<lambda>h i. Some (hnsw_Remove h i)" hnsw_Search "hnsw_maintain rl" for rl
proof unfold_locales
  fix h v i assume i: "hnsw_inv rl h" "finite_vec v"
  show "\<exists>h'. hnsw_Insert rl h i v = Some h' \<and> hnsw_inv rl h' \<and> hnsw_dim h' = hnsw_dim h \<and>
      hnsw_vec h' = (if hnsw_fresh h i \<and> length v = hnsw_dim h then (hnsw_vec h)(i \<mapsto> v) else hnsw_vec h)"
  proof (cases "accepts h i v")
    case True
    then show ?thesis using hnsw_Insert_ok [OF i(1) True i(2)]
      by (auto simp: hnsw_vec_def hnsw_dim_def hnsw_fresh_def accepts_def fun_eq_iff)
  next
    case False
    with i(1) show ?thesis by (auto simp: hnsw_Insert_rejected accepts_def hnsw_fresh_def hnsw_dim_def)
  qed
next
  fix h i assume "hnsw_inv rl h"
  then show "\<exists>h'. Some (hnsw_Remove h i) = Some h' \<and> hnsw_inv rl h' \<and> hnsw_dim h' = hnsw_dim h \<and>
      hnsw_vec h' = (hnsw_vec h)(i := None)"
    using hnsw_Remove_ok [of rl h i] by (simp add: hnsw_vec_def hnsw_dim_def fun_eq_iff)
next
  fix h v k p assume i: "hnsw_inv rl h" "finite_vec v"
  show "\<exists>r. hnsw_Search h v k p = Some r \<and> distinct r \<and> set r \<subseteq> dom (hnsw_vec h) \<and> length r \<le> k"
    using hnsw_Search_ok [OF hnsw_invD(1) [OF i(1)] hnsw_invD(9) [OF i] hnsw_invD(8) [OF i(1)], of k p]
    by (auto simp: hnsw_vec_def dom_def)
next
  fix h reindex assume "hnsw_inv rl h"
  then show "\<exists>h'. hnsw_maintain rl h reindex = Some h' \<and> hnsw_inv rl h' \<and> hnsw_dim h' = hnsw_dim h \<and>
      hnsw_vec h' = hnsw_vec h"
    using hnsw_maintain_ok [of rl h reindex] by (auto simp: hnsw_vec_def hnsw_dim_def fun_eq_iff)
next
  fix h i assume "hnsw_fresh h i"
  then show "hnsw_vec h i = None" using is_active_contains by (auto simp: hnsw_vec_def hnsw_fresh_def)
qed

end
