(* ===== verification/VectorStore.thy ===== *)
theory VectorStore
  imports FlatIndex HnswCleanup "HOL-Library.List_Lexorder"
begin

text \<open>
  \<open>VectorStore\<close> (vector_store.h, vector_store.cc): the stored data, the index over it and
  the checksum. The virtual calls of \<open>VectorIndex\<close> are the dispatch on the kind of index.
  Shown: the operations refine a map from ids to data; the index never returns an id that is
  not stored; a flat store searches exactly; the checksum is a function of the stored map.
\<close>

datatype IndexType = HNSW | FLAT

datatype Index = HnswIx HNSWIndex | FlatIx FlatIndex

record Data =
  d_id :: Id
  d_vector :: vector
  d_content :: string

record VectorStore =
  vs_index_type :: IndexType
  vs_store :: "(Id, Data) umap"
  vs_index :: Index
  vs_vector_dimensionality :: int

section \<open>The virtual calls\<close>

fun index_Insert :: "level_fun \<Rightarrow> Index \<Rightarrow> Id \<Rightarrow> vector \<Rightarrow> Index option" where
  "index_Insert rl (HnswIx h) i v = map_option HnswIx (hnsw_Insert rl h i v)"
| "index_Insert rl (FlatIx f) i v = Some (FlatIx (flat_Insert f i v))"

fun index_Remove :: "Index \<Rightarrow> Id \<Rightarrow> Index" where
  "index_Remove (HnswIx h) i = HnswIx (hnsw_Remove h i)"
| "index_Remove (FlatIx f) i = FlatIx (flat_Remove f i)"

fun index_Search :: "Index \<Rightarrow> vector \<Rightarrow> nat \<Rightarrow> nat \<Rightarrow> Id list option" where
  "index_Search (HnswIx h) query k search_param = hnsw_Search h query k search_param"
| "index_Search (FlatIx f) query k search_param = flat_Search f query k search_param"

fun index_Cleanup :: "Index \<Rightarrow> Index" where
  "index_Cleanup (HnswIx h) = HnswIx (hnsw_Cleanup h)"
| "index_Cleanup (FlatIx f) = FlatIx (flat_Cleanup f)"

fun index_Reindex :: "level_fun \<Rightarrow> Index \<Rightarrow> Index option" where
  "index_Reindex rl (HnswIx h) = map_option HnswIx (hnsw_Reindex rl h)"
| "index_Reindex rl (FlatIx f) = Some (FlatIx (flat_Reindex f))"

section \<open>The operations\<close>

definition store_new :: "IndexType \<Rightarrow> Index \<Rightarrow> int \<Rightarrow> VectorStore" where
  "store_new index_type ix dim = \<lparr>vs_index_type = index_type, vs_store = [], vs_index = ix,
     vs_vector_dimensionality = dim\<rparr>"

definition store_load :: "IndexType \<Rightarrow> Index \<Rightarrow> int \<Rightarrow> (Id, Data) umap \<Rightarrow> VectorStore" where
  "store_load index_type ix dim store = \<lparr>vs_index_type = index_type, vs_store = store, vs_index = ix,
     vs_vector_dimensionality = dim\<rparr>"

definition store_Insert ::
  "level_fun \<Rightarrow> VectorStore \<Rightarrow> Id \<Rightarrow> vector \<Rightarrow> string \<Rightarrow> (bool \<times> VectorStore) option" where
  "store_Insert rl s i v content =
     (if contains (vs_store s) i \<or> length v \<noteq> size_of_int (vs_vector_dimensionality s) then Some (False, s)
      else map_option
        (\<lambda>ix. (True, s\<lparr>vs_store := mput i \<lparr>d_id = i, d_vector = v, d_content = content\<rparr> (vs_store s),
                       vs_index := ix\<rparr>))
        (index_Insert rl (vs_index s) i v))"

definition store_Remove :: "VectorStore \<Rightarrow> Id \<Rightarrow> bool \<times> VectorStore" where
  "store_Remove s i =
     (if \<not> contains (vs_store s) i then (False, s)
      else (True, s\<lparr>vs_store := merase i (vs_store s), vs_index := index_Remove (vs_index s) i\<rparr>))"

definition store_Search :: "VectorStore \<Rightarrow> vector \<Rightarrow> nat \<Rightarrow> nat \<Rightarrow> Data list option" where
  "store_Search s query k search_param =
     (if length query \<noteq> size_of_int (vs_vector_dimensionality s) then Some []
      else map_option (List.map_filter (map_of (vs_store s)))
             (index_Search (vs_index s) query k search_param))"

definition store_Cleanup :: "level_fun \<Rightarrow> VectorStore \<Rightarrow> bool \<Rightarrow> VectorStore option" where
  "store_Cleanup rl s reindex =
     (let ix = index_Cleanup (vs_index s)
      in if reindex then map_option (\<lambda>ix'. s\<lparr>vs_index := ix'\<rparr>) (index_Reindex rl ix)
         else Some (s\<lparr>vs_index := ix\<rparr>))"

definition hash_bytes :: "string \<Rightarrow> u64 \<Rightarrow> u64" where
  "hash_bytes content checksum = fold (\<lambda>c checksum. checksum * 71 + of_char c) content checksum"

definition ComputeChecksum :: "VectorStore \<Rightarrow> u64 option" where
  "ComputeChecksum s =
     for_each (\<lambda>i checksum. case map_of (vs_store s) i of
         None \<Rightarrow> None
       | Some data \<Rightarrow> Some (hash_bytes (d_content data) (checksum * 71 + i)))
       (sort (keys (vs_store s))) 0"

section \<open>The interface, for either index\<close>

fun index_inv :: "level_fun \<Rightarrow> Index \<Rightarrow> bool" where
  "index_inv rl (HnswIx h) = hnsw_inv rl h"
| "index_inv rl (FlatIx f) = flat_inv f"

fun index_dim :: "Index \<Rightarrow> nat" where
  "index_dim (HnswIx h) = hnsw_dim h"
| "index_dim (FlatIx f) = flat_dim f"

fun index_vec :: "Index \<Rightarrow> Id \<rightharpoonup> vector" where
  "index_vec (HnswIx h) = hnsw_vec h"
| "index_vec (FlatIx f) = flat_vec f"

fun index_fresh :: "Index \<Rightarrow> Id \<Rightarrow> bool" where
  "index_fresh (HnswIx h) i = hnsw_fresh h i"
| "index_fresh (FlatIx f) i = flat_fresh f i"

definition index_maintain :: "level_fun \<Rightarrow> Index \<Rightarrow> bool \<Rightarrow> Index option" where
  "index_maintain rl ix reindex =
     (if reindex then index_Reindex rl (index_Cleanup ix) else Some (index_Cleanup ix))"

interpretation index: vector_index "index_inv rl" finite_vec index_dim index_vec index_fresh "index_Insert rl"
    "\<lambda>ix i. Some (index_Remove ix i)" index_Search "index_maintain rl" for rl
proof unfold_locales
  fix ix v i assume "index_inv rl ix" "finite_vec v"
  then show "\<exists>ix'. index_Insert rl ix i v = Some ix' \<and> index_inv rl ix' \<and> index_dim ix' = index_dim ix \<and>
      index_vec ix' = (if index_fresh ix i \<and> length v = index_dim ix then (index_vec ix)(i \<mapsto> v) else index_vec ix)"
    using hnsw.insert_law [of rl _ v i] flat.insert_law [of _ v i] by (cases ix) fastforce+
next
  fix ix i assume "index_inv rl ix"
  then show "\<exists>ix'. Some (index_Remove ix i) = Some ix' \<and> index_inv rl ix' \<and> index_dim ix' = index_dim ix \<and>
      index_vec ix' = (index_vec ix)(i := None)"
    using hnsw.remove_law [of rl _ i] flat.remove_law [of _ i] by (cases ix) auto
next
  fix ix v k p assume "index_inv rl ix" "finite_vec v"
  then show "\<exists>r. index_Search ix v k p = Some r \<and> distinct r \<and> set r \<subseteq> dom (index_vec ix) \<and> length r \<le> k"
    using hnsw.search_law [of rl _ v k p] flat.search_law [of _ v k p] by (cases ix) auto
next
  fix ix reindex assume i: "index_inv rl ix"
  show "\<exists>ix'. index_maintain rl ix reindex = Some ix' \<and> index_inv rl ix' \<and> index_dim ix' = index_dim ix \<and>
      index_vec ix' = index_vec ix"
  proof (cases ix)
    case (HnswIx h)
    with i hnsw.cleanup_law [of rl h reindex] show ?thesis
      by (auto simp: index_maintain_def hnsw_maintain_def)
  next
    case (FlatIx f)
    with i flat.cleanup_law [of f reindex] show ?thesis by (auto simp: index_maintain_def)
  qed
next
  fix ix i assume "index_inv rl ix" "index_fresh ix i"
  then show "index_vec ix i = None"
    using hnsw.fresh_law [of rl _ i] flat.fresh_law [of _ i] by (cases ix) auto
qed

lemma store_Cleanup_alt:
  "store_Cleanup rl s reindex = map_option (\<lambda>ix. s\<lparr>vs_index := ix\<rparr>) (index_maintain rl (vs_index s) reindex)"
  by (simp add: store_Cleanup_def index_maintain_def Let_def)

section \<open>The invariant of the store\<close>

definition store_vec :: "VectorStore \<Rightarrow> Id \<rightharpoonup> vector" where
  "store_vec s = map_option d_vector \<circ> map_of (vs_store s)"

text \<open>The index returns everything that is stored.\<close>

definition in_sync :: "VectorStore \<Rightarrow> bool" where
  "in_sync s \<longleftrightarrow> index_vec (vs_index s) = store_vec s"

definition flat_store :: "VectorStore \<Rightarrow> bool" where
  "flat_store s \<longleftrightarrow> (\<exists>f. vs_index s = FlatIx f)"

text \<open>
  The index returns nothing that is not stored; a flat index returns everything that is. (An
  HNSW index can miss a stored id: see \<open>reinserted_not_found\<close>.)
\<close>

definition store_inv :: "level_fun \<Rightarrow> VectorStore \<Rightarrow> bool" where
  "store_inv rl s \<longleftrightarrow> distinct (keys (vs_store s)) \<and> index_inv rl (vs_index s) \<and>
     index_dim (vs_index s) = size_of_int (vs_vector_dimensionality s) \<and>
     (\<forall>i d. map_of (vs_store s) i = Some d \<longrightarrow> d_id d = i \<and> finite_vec (d_vector d) \<and>
        length (d_vector d) = size_of_int (vs_vector_dimensionality s)) \<and>
     index_vec (vs_index s) \<subseteq>\<^sub>m store_vec s \<and> (flat_store s \<longrightarrow> in_sync s)"

lemma index_kind:
  "index_Insert rl ix i v = Some ix' \<Longrightarrow> (\<exists>f. ix' = FlatIx f) \<longleftrightarrow> (\<exists>f. ix = FlatIx f)"
  "(\<exists>f. index_Remove ix i = FlatIx f) \<longleftrightarrow> (\<exists>f. ix = FlatIx f)"
  "index_maintain rl ix reindex = Some ix' \<Longrightarrow> (\<exists>f. ix' = FlatIx f) \<longleftrightarrow> (\<exists>f. ix = FlatIx f)"
  by (cases ix; auto simp: index_maintain_def split: if_splits)+

lemma flat_fresh_iff: "flat_store s \<Longrightarrow> in_sync s \<Longrightarrow> index_fresh (vs_index s) i \<longleftrightarrow> \<not> contains (vs_store s) i"
  by (auto simp: flat_store_def in_sync_def flat_fresh_def flat_vec_def store_vec_def fun_eq_iff contains_def)

lemma store_vec_mput [simp]:
  "store_vec (s\<lparr>vs_store := mput i d (vs_store s)\<rparr>) = (store_vec s)(i \<mapsto> d_vector d)"
  by (simp add: store_vec_def fun_eq_iff)

lemma store_vec_merase [simp]:
  "store_vec (s\<lparr>vs_store := merase i (vs_store s)\<rparr>) = (store_vec s)(i := None)"
  by (simp add: store_vec_def fun_eq_iff)

lemma store_vec_index [simp]: "store_vec (s\<lparr>vs_index := ix\<rparr>) = store_vec s"
  by (simp add: store_vec_def)

lemma store_vec_None: "store_vec s i = None \<longleftrightarrow> \<not> contains (vs_store s) i"
  by (simp add: store_vec_def contains_def)

lemma dom_store_vec: "dom (store_vec s) = set (keys (vs_store s))"
  by (simp add: store_vec_def dom_map_option_comp dom_map_of_conv_image_fst)

lemma store_Insert_rejected:
  "contains (vs_store s) i \<or> length v \<noteq> size_of_int (vs_vector_dimensionality s) \<Longrightarrow>
   store_Insert rl s i v c = Some (False, s)"
  by (simp add: store_Insert_def)

lemma store_Insert_ok:
  assumes "store_inv rl s" and "finite_vec v" and "\<not> contains (vs_store s) i"
    and "length v = size_of_int (vs_vector_dimensionality s)"
  shows "\<exists>s'. store_Insert rl s i v c = Some (True, s') \<and> store_inv rl s' \<and>
    vs_store s' = mput i \<lparr>d_id = i, d_vector = v, d_content = c\<rparr> (vs_store s) \<and>
    vs_vector_dimensionality s' = vs_vector_dimensionality s \<and> vs_index_type s' = vs_index_type s \<and>
    (in_sync s \<and> index_fresh (vs_index s) i \<longrightarrow> in_sync s')"
proof -
  have sub: "index_vec (vs_index s) \<subseteq>\<^sub>m store_vec s" and inv: "index_inv rl (vs_index s)"
    and dim: "length v = index_dim (vs_index s)" and none: "store_vec s i = None"
    using assms by (simp_all add: store_inv_def store_vec_None)
  obtain ix where ix: "index_Insert rl (vs_index s) i v = Some ix" "index_inv rl ix"
    "index_dim ix = index_dim (vs_index s)" "index_vec ix \<subseteq>\<^sub>m (store_vec s)(i \<mapsto> v)"
    "index_vec (vs_index s) = store_vec s \<and> index_fresh (vs_index s) i \<longrightarrow> index_vec ix = (store_vec s)(i \<mapsto> v)"
    using index.insert_agrees [OF inv assms(2) sub none dim] by blast
  moreover have "flat_store s \<Longrightarrow> index_vec (vs_index s) = store_vec s \<and> index_fresh (vs_index s) i"
    using assms(1,3) flat_fresh_iff by (simp add: store_inv_def in_sync_def)
  ultimately show ?thesis
    using assms index_kind(1) [OF ix(1)] by (simp add: store_Insert_def store_inv_def in_sync_def flat_store_def)
qed

lemma store_Remove_ok:
  assumes "store_inv rl s"
  shows "store_inv rl (snd (store_Remove s i)) \<and>
    fst (store_Remove s i) = contains (vs_store s) i \<and>
    vs_store (snd (store_Remove s i)) = merase i (vs_store s) \<and>
    vs_vector_dimensionality (snd (store_Remove s i)) = vs_vector_dimensionality s \<and>
    vs_index_type (snd (store_Remove s i)) = vs_index_type s \<and>
    (in_sync s \<longrightarrow> in_sync (snd (store_Remove s i)))"
proof (cases "contains (vs_store s) i")
  case True
  have "index_inv rl (vs_index s)" "index_vec (vs_index s) \<subseteq>\<^sub>m store_vec s"
    using assms by (simp_all add: store_inv_def)
  from index.remove_agrees [OF this, of i] True assms show ?thesis
    by (auto simp: store_Remove_def store_inv_def in_sync_def flat_store_def index_kind(2))
next
  case False
  then have "merase i (vs_store s) = vs_store s" by (auto simp: merase_filter contains_iff intro!: filter_True)
  with False assms show ?thesis by (simp add: store_Remove_def)
qed

lemma store_Search_ok:
  assumes "store_inv rl s" and "finite_vec q"
  shows "\<exists>r. store_Search s q k p = Some r \<and> distinct (map d_id r) \<and> length r \<le> k \<and>
    (\<forall>d \<in> set r. map_of (vs_store s) (d_id d) = Some d)"
proof (cases "length q = size_of_int (vs_vector_dimensionality s)")
  case True
  have "index_inv rl (vs_index s)" "index_vec (vs_index s) \<subseteq>\<^sub>m store_vec s"
    using assms(1) by (simp_all add: store_inv_def)
  then obtain r where r: "index_Search (vs_index s) q k p = Some r" "distinct r" "set r \<subseteq> dom (store_vec s)" "length r \<le> k"
    using index.search_agrees [OF _ assms(2)] by blast
  have wf: "\<forall>i d. map_of (vs_store s) i = Some d \<longrightarrow> d_id d = i" using assms(1) by (simp add: store_inv_def)
  have found: "\<exists>d. map_of (vs_store s) i = Some d" if "i \<in> set r" for i
    using r(3) that by (auto simp: store_vec_def)
  then have "map d_id (List.map_filter (map_of (vs_store s)) r) = r"
    using wf by (induction r) (force simp: List.map_filter_def)+
  moreover have "\<forall>d \<in> set (List.map_filter (map_of (vs_store s)) r). map_of (vs_store s) (d_id d) = Some d"
    using wf by (auto simp: List.map_filter_def split: option.splits)
  ultimately show ?thesis using True r
    by (intro exI [of _ "List.map_filter (map_of (vs_store s)) r"]) (simp add: store_Search_def, metis length_map)
qed (simp add: store_Search_def)

text \<open>A search finds only what the index holds.\<close>

lemma store_Search_indexed:
  assumes "store_inv rl s" and "finite_vec q"
  shows "\<exists>r. store_Search s q k p = Some r \<and> d_id ` set r \<subseteq> dom (index_vec (vs_index s))"
proof -
  have inv: "index_inv rl (vs_index s)" "\<forall>i d. map_of (vs_store s) i = Some d \<longrightarrow> d_id d = i"
    using assms(1) by (simp_all add: store_inv_def)
  obtain r where r: "index_Search (vs_index s) q k p = Some r" "set r \<subseteq> dom (index_vec (vs_index s))"
    using index.search_law [OF inv(1) assms(2)] by blast
  have "d_id ` set (List.map_filter (map_of (vs_store s)) r) \<subseteq> set r"
    using inv(2) by (auto simp: List.map_filter_def)
  with r show ?thesis by (auto simp: store_Search_def)
qed

text \<open>The index keeps the inactive node of a removed vector, and ignores an insertion at its id.\<close>

lemma index_reinsert:
  assumes "store_inv rl s" and "in_sync s" and "vs_index s = HnswIx h" and "contains (vs_store s) i"
    and "store_Insert rl (snd (store_Remove s i)) i v c = Some (ok, s')"
  shows "index_vec (vs_index s') i = None"
proof -
  have hi: "hnsw_inv rl h" using assms(1,3) by (simp add: store_inv_def)
  have "hnsw_vec h i = store_vec s i" using assms(2,3) by (simp add: in_sync_def)
  then have "is_active h i" using assms(4) store_vec_None [of s i] by (auto simp: hnsw_vec_def split: if_splits)
  then have "contains (hx_nodes h) i" by (rule is_active_contains)
  then have "contains (hx_nodes (hnsw_Remove h i)) i" "\<not> is_active (hnsw_Remove h i) i"
    using hnsw_Remove_ok [OF hi] by (simp_all add: contains_iff)
  then show ?thesis
    using assms(3-5) by (auto simp: store_Remove_def store_Insert_def hnsw_Insert_def hnsw_InsertNoLock_def hnsw_vec_def split: if_splits)
qed

lemma store_Cleanup_ok:
  assumes "store_inv rl s"
  shows "\<exists>s'. store_Cleanup rl s reindex = Some s' \<and> store_inv rl s' \<and> vs_store s' = vs_store s \<and>
    vs_vector_dimensionality s' = vs_vector_dimensionality s \<and> vs_index_type s' = vs_index_type s \<and>
    (in_sync s \<longrightarrow> in_sync s')"
proof -
  have "index_inv rl (vs_index s)" using assms by (simp add: store_inv_def)
  then obtain ix where ix: "index_maintain rl (vs_index s) reindex = Some ix" "index_inv rl ix"
    "index_dim ix = index_dim (vs_index s)" "index_vec ix = index_vec (vs_index s)"
    using index.cleanup_law by blast
  with assms index_kind(3) [OF ix(1)] show ?thesis
    by (simp add: store_Cleanup_alt store_inv_def in_sync_def flat_store_def)
qed

section \<open>A flat store searches exactly\<close>

text \<open>The \<open>k\<close> stored data nearest to the query, by distance and then id.\<close>

definition dist_key :: "(Id, Data) umap \<Rightarrow> metric \<Rightarrow> vector \<Rightarrow> Id \<Rightarrow> (int \<times> int) \<times> Id" where
  "dist_key m metric query i = dkey (ComputeDistance metric query (d_vector (the (map_of m i))), i)"

definition nearest :: "(Id, Data) umap \<Rightarrow> metric \<Rightarrow> vector \<Rightarrow> nat \<Rightarrow> Data list" where
  "nearest m metric query k =
     map (the \<circ> map_of m) (take k (sort_key (dist_key m metric query) (keys m)))"

lemma distinct_dist_key: "distinct is \<Longrightarrow> distinct (map (dist_key m metric q) is)"
  by (simp add: distinct_map inj_on_def dist_key_def dkey_def)

lemma knn_store:
  assumes "map_of (fi_vectors f) = map_option d_vector \<circ> map_of m"
    and "distinct (keys (fi_vectors f))" and "distinct (keys m)"
  shows "knn f q k = take k (sort_key (dist_key m (fc_metric (fi_config f)) q) (keys m))"
proof -
  let ?met = "fc_metric (fi_config f)"
  let ?g = "\<lambda>i. (ComputeDistance ?met q (d_vector (the (map_of m i))), i)"
  let ?ids = "sort_key (dist_key m ?met q) (keys m)"
  have vm: "\<exists>d. map_of m i = Some d \<and> d_vector d = v" if "(i, v) \<in> set (fi_vectors f)" for i v
    using that assms(1,2) by (metis comp_apply map_of_is_SomeI map_option_eq_Some)
  have sc: "scored f q (fi_vectors f) = map ?g (keys (fi_vectors f))"
    unfolding scored_def map_map comp_def
  proof (rule map_cong [OF refl])
    fix x assume "x \<in> set (fi_vectors f)"
    then obtain d where "map_of m (fst x) = Some d" "d_vector d = snd x" using vm [of "fst x" "snd x"] by auto
    then show "(case x of (i, v) \<Rightarrow> (flat_ComputeDistance f q v, i)) = ?g (fst x)"
      by (simp add: flat_ComputeDistance_def split: prod.split)
  qed
  have "dom (map_of (fi_vectors f)) = dom (map_of m)" by (simp add: assms(1) dom_map_option_comp)
  then have ms: "mset (keys (fi_vectors f)) = mset (keys m)"
    using assms(2,3) set_eq_iff_mset_eq_distinct by (metis dom_map_of_conv_image_fst list.set_map)
  have "map ?g ?ids = sort_key dkey (map ?g (keys (fi_vectors f)))"
  proof (rule sort_key_eqI)
    have "map dkey (map ?g ?ids) = map (dist_key m ?met q) ?ids" by (simp add: dist_key_def)
    then show "sorted (map dkey (map ?g ?ids))" by (simp only: sorted_sort_key)
    have "mset ?ids = mset (keys (fi_vectors f))" using ms by (simp only: mset_sort)
    then show "mset (map ?g ?ids) = mset (map ?g (keys (fi_vectors f)))"
      by (simp only: mset_map [of ?g])
    show "distinct (map dkey (map ?g (keys (fi_vectors f))))"
      using assms(2) by (intro inj_dkey_ids) (simp add: comp_def)
  qed
  then have "map snd (sort_key dkey (scored f q (fi_vectors f))) = map snd (map ?g ?ids)" by (simp only: sc)
  then have "map snd (sort_key dkey (scored f q (fi_vectors f))) = ?ids" by (simp add: comp_def)
  then show ?thesis by (simp add: knn_def)
qed

lemma map_filter_found: "set is \<subseteq> dom m \<Longrightarrow> List.map_filter m is = map (the \<circ> m) is"
  by (induction "is") (auto simp: List.map_filter_def)

lemma store_Search_flat:
  assumes "store_inv rl s" and "flat_store s" and "finite_vec q"
    and "length q = size_of_int (vs_vector_dimensionality s)"
  shows "store_Search s q k p = Some (nearest (vs_store s) L2 q k)"
proof -
  obtain f where ix: "vs_index s = FlatIx f" using assms(2) by (auto simp: flat_store_def)
  have "in_sync s" using assms(1,2) by (simp add: store_inv_def)
  then have f: "flat_inv f" "flat_dim f = length q" "distinct (keys (vs_store s))"
    and vm: "map_of (fi_vectors f) = map_option d_vector \<circ> map_of (vs_store s)"
    using assms ix by (simp_all add: store_inv_def in_sync_def flat_vec_def store_vec_def)
  then have met: "fc_metric (fi_config f) = L2" by (simp add: flat_inv_def flat_finite_def)
  have fs: "flat_Search f q k p = Some (knn f q k)"
    using f assms(3) by (intro flat_Search_knn) (auto simp: flat_inv_def flat_dim_def scored_ok)
  have kn: "knn f q k = take k (sort_key (dist_key (vs_store s) L2 q) (keys (vs_store s)))"
    using knn_store [OF vm _ f(3), of q k] f(1) met by (simp add: flat_inv_def flat_wf_def)
  moreover have "set (knn f q k) \<subseteq> dom (map_of (vs_store s))"
    using set_take_subset [of k "sort_key (dist_key (vs_store s) L2 q) (keys (vs_store s))"]
    by (simp add: kn dom_map_of_conv_image_fst)
  ultimately show ?thesis
    using assms(4) ix fs by (simp add: store_Search_def nearest_def map_filter_found)
qed

section \<open>The checksum\<close>

definition hash_record :: "(Id \<Rightarrow> string) \<Rightarrow> Id \<Rightarrow> u64 \<Rightarrow> u64" where
  "hash_record content i checksum = hash_bytes (content i) (checksum * 71 + i)"

definition content_of :: "(Id, Data) umap \<Rightarrow> Id \<Rightarrow> string" where
  "content_of m i = (case map_of m i of None \<Rightarrow> [] | Some d \<Rightarrow> d_content d)"

text \<open>No \<open>at\<close> throws: the ids come from the map.\<close>

lemma ComputeChecksum_total:
  "ComputeChecksum s = Some (fold (hash_record (content_of (vs_store s))) (sort (keys (vs_store s))) 0)"
proof -
  have "set is \<subseteq> set (keys (vs_store s)) \<Longrightarrow>
      for_each (\<lambda>i checksum. case map_of (vs_store s) i of None \<Rightarrow> None
         | Some data \<Rightarrow> Some (hash_bytes (d_content data) (checksum * 71 + i))) is c =
      Some (fold (hash_record (content_of (vs_store s))) is c)" for "is" c
  proof (induction "is" arbitrary: c)
    case (Cons i js)
    then obtain d where "map_of (vs_store s) i = Some d" using in_keys_map_of by fastforce
    with Cons show ?case by (simp add: hash_record_def content_of_def)
  qed simp
  then show ?thesis by (simp add: ComputeChecksum_def)
qed

lemma ComputeChecksum_cong:
  assumes "distinct (keys (vs_store s))" and "distinct (keys (vs_store t))"
    and "map_option d_content \<circ> map_of (vs_store s) = map_option d_content \<circ> map_of (vs_store t)"
  shows "ComputeChecksum s = ComputeChecksum t"
proof -
  have "dom (map_of (vs_store s)) = dom (map_of (vs_store t))"
    using assms(3) by (metis dom_map_option_comp)
  then have "set (keys (vs_store s)) = set (keys (vs_store t))"
    by (simp add: dom_map_of_conv_image_fst)
  then have ks: "sort (keys (vs_store s)) = sort (keys (vs_store t))"
    using assms(1,2) by (metis sorted_distinct_set_unique distinct_sort set_sort sorted_sort)
  have "content_of (vs_store s) = content_of (vs_store t)"
  proof
    show "content_of (vs_store s) i = content_of (vs_store t) i" for i
      using fun_cong [OF assms(3), of i] by (auto simp: content_of_def split: option.splits)
  qed
  with ks show ?thesis by (simp only: ComputeChecksum_total)
qed

text \<open>71 is odd, so a step of the rolling hash loses nothing of the hash before it.\<close>

lemma hash_step_inj: "(x :: u64) * 71 = y * 71 \<longleftrightarrow> x = y"
proof -
  have one: "(71 :: u64) * 1818693077689674103 = 1"
    by (simp add: word_uint_eq_iff)
  have inv: "(z * 71) * 1818693077689674103 = z" for z :: u64
    by (simp only: mult.assoc one mult_1_right)
  show ?thesis by (metis inv)
qed

lemma hash_bytes_inj [simp]: "hash_bytes cs x = hash_bytes cs y \<longleftrightarrow> x = y"
  unfolding hash_bytes_def by (induction cs arbitrary: x y) (simp_all add: hash_step_inj)

lemma fold_hash_inj: "fold (hash_record f) is x = fold (hash_record f) is y \<longleftrightarrow> x = y"
  by (induction "is" arbitrary: x y) (simp_all add: hash_record_def hash_step_inj)

lemma hash_bytes_changed:
  assumes "a \<noteq> b"
  shows "hash_bytes (pre @ a # post) x \<noteq> hash_bytes (pre @ b # post) x"
proof -
  have "(of_char a :: u64) \<noteq> of_char b"
  proof
    assume "(of_char a :: u64) = of_char b"
    then have "unat (of_nat (of_char a) :: u64) = unat (of_nat (of_char b) :: u64)"
      by (simp only: of_nat_of_char)
    then have "(of_char a :: nat) = of_char b"
      using nat_of_char_less_256 [of a] nat_of_char_less_256 [of b] by (simp add: unat_of_nat)
    with assms show False by simp
  qed
  moreover have "hash_bytes (pre @ c # post) x = hash_bytes post (hash_bytes pre x * 71 + of_char c)" for c
    by (simp add: hash_bytes_def)
  ultimately show ?thesis by simp
qed

lemma fold_hash_cong: "(\<And>j. j \<in> set is \<Longrightarrow> f j = g j) \<Longrightarrow> fold (hash_record f) is c = fold (hash_record g) is c"
  by (rule fold_cong) (simp_all add: hash_record_def fun_eq_iff)

lemma ComputeChecksum_detects:
  assumes "distinct (keys (vs_store s))" and "map_of (vs_store s) i = Some d"
    and "d_content d = pre @ a # post" and "a \<noteq> b"
  shows "ComputeChecksum (s\<lparr>vs_store := mput i (d\<lparr>d_content := pre @ b # post\<rparr>) (vs_store s)\<rparr>) \<noteq> ComputeChecksum s"
proof -
  let ?m = "vs_store s" and ?m' = "mput i (d\<lparr>d_content := pre @ b # post\<rparr>) (vs_store s)"
  have "i \<in> set (sort (keys ?m))" using map_of_in_keys [OF assms(2)] by (simp only: set_sort)
  from split_list [OF this] obtain xs ys where ks: "sort (keys ?m) = xs @ i # ys" by blast
  have "distinct (xs @ i # ys)" using assms(1) ks by (metis distinct_sort)
  then have notin: "i \<notin> set xs" "i \<notin> set ys" by auto
  have ks': "keys ?m' = keys ?m" using assms(2) by (intro keys_mput_old) (simp add: contains_def)
  have same: "content_of ?m' j = content_of ?m j" if "j \<noteq> i" for j using that by (simp add: content_of_def)
  have xs: "fold (hash_record (content_of ?m')) xs 0 = fold (hash_record (content_of ?m)) xs 0"
    by (rule fold_hash_cong, rule same) (use notin in blast)
  have ys: "fold (hash_record (content_of ?m')) ys c = fold (hash_record (content_of ?m)) ys c" for c
    by (rule fold_hash_cong, rule same) (use notin in blast)
  have "hash_record (content_of ?m') i c \<noteq> hash_record (content_of ?m) i c" for c
    using hash_bytes_changed [OF assms(4), of pre post "c * 71 + i"] assms(2,3)
    by (simp add: hash_record_def content_of_def)
  then show ?thesis
    using ks by (simp add: ComputeChecksum_total ks' xs ys fold_hash_inj del: AList.update.simps)
qed

text \<open>A record with id 0 and empty content is invisible to the checksum.\<close>

lemma ComputeChecksum_blind:
  assumes "distinct (keys (vs_store s))" and "\<not> contains (vs_store s) 0" and "d_content d = []"
  shows "ComputeChecksum (s\<lparr>vs_store := mput 0 d (vs_store s)\<rparr>) = ComputeChecksum s"
proof -
  let ?m = "vs_store s"
  have n0: "0 \<notin> set (keys ?m)" using assms(2) by (simp add: contains_iff)
  have ks: "sort (keys (mput 0 d ?m)) = 0 # sort (keys ?m)"
  proof (rule sorted_distinct_set_unique)
    show "distinct (sort (keys (mput 0 d ?m)))" "distinct (0 # sort (keys ?m))"
      using assms(1) n0 by (simp_all only: distinct_sort distinct_keys_mput distinct.simps set_sort simp_thms)
  qed simp_all
  have c0: "hash_record (content_of (mput 0 d ?m)) 0 0 = 0"
    using assms(3) by (simp add: hash_record_def content_of_def hash_bytes_def)
  have "fold (hash_record (content_of (mput 0 d ?m))) (sort (keys ?m)) 0 = fold (hash_record (content_of ?m)) (sort (keys ?m)) 0"
    using n0 by (intro fold_hash_cong) (auto simp: content_of_def)
  with ks c0 show ?thesis by (simp add: ComputeChecksum_total)
qed

end
