(* ===== verification/InputValidator.thy ===== *)
theory InputValidator
  imports FlatIndex HnswIndex
begin

text \<open>
  \<open>InputValidator\<close> (input_validator.h, input_validator.cc): the checks the engine makes of
  its arguments. Shown: exactly what \<open>ValidateCreateTable\<close> accepts, and that the engine's
  choice of the index agrees with the configuration that is not empty.
\<close>

definition ValidateInsert :: "string \<Rightarrow> Id \<Rightarrow> vector \<Rightarrow> string \<Rightarrow> bool" where
  "ValidateInsert table_name i v content = (\<not> (table_name = [] \<or> v = [] \<or> content = []))"

definition ValidateRemove :: "string \<Rightarrow> Id \<Rightarrow> bool" where
  "ValidateRemove table_name i = (table_name \<noteq> [])"

definition ValidateSearch :: "string \<Rightarrow> vector \<Rightarrow> nat \<Rightarrow> nat \<Rightarrow> bool" where
  "ValidateSearch table_name query k search_param = (\<not> (table_name = [] \<or> query = [] \<or> k = 0))"

definition ValidateStats :: "string \<Rightarrow> bool" where
  "ValidateStats table_name = (table_name \<noteq> [])"

definition ValidateMetrics :: "string \<Rightarrow> bool" where
  "ValidateMetrics table_name = (table_name \<noteq> [])"

definition hnsw_config_empty :: "HNSWIndexConfig \<Rightarrow> bool" where
  "hnsw_config_empty c \<longleftrightarrow> hc_vector_dimensionality c = 0 \<and> hc_m c = 0 \<and> hc_m0 c = 0 \<and>
     hc_ef_construction c = 0 \<and> feq (hc_ml c) f32_zero"

definition hnsw_config_valid :: "HNSWIndexConfig \<Rightarrow> bool" where
  "hnsw_config_valid c \<longleftrightarrow> hc_vector_dimensionality c \<noteq> 0 \<and> hc_m c \<noteq> 0 \<and> hc_m0 c \<noteq> 0 \<and>
     hc_ef_construction c \<noteq> 0 \<and> \<not> feq (hc_ml c) f32_zero"

definition ValidateCreateTable ::
  "string \<Rightarrow> int \<Rightarrow> HNSWIndexConfig \<Rightarrow> FlatIndexConfig \<Rightarrow> nat \<Rightarrow> bool" where
  "ValidateCreateTable name dim hnsw_index_config flat_index_config cache_size =
     (if name = [] \<or> dim = 0 then False
      else
        let hnsw_empty = hnsw_config_empty hnsw_index_config;
            flat_empty = (fc_vector_dimensionality flat_index_config = 0)
        in if (hnsw_empty \<and> flat_empty) \<or> (\<not> hnsw_empty \<and> \<not> flat_empty) then False
           else
             let hnsw_valid = hnsw_config_valid hnsw_index_config;
                 flat_valid = (fc_vector_dimensionality flat_index_config \<noteq> 0)
             in if (\<not> hnsw_empty \<and> \<not> hnsw_valid) \<or> (\<not> flat_empty \<and> \<not> flat_valid) then False
                else True)"

definition ValidateDropTable :: "string \<Rightarrow> bool" where
  "ValidateDropTable name = (name \<noteq> [])"

text \<open>The engine's test for an HNSW index (\<open>CreateTable\<close>, \<open>SaveMetadata\<close>): \<open>ml\<close> is not in it.\<close>

definition wants_hnsw :: "HNSWIndexConfig \<Rightarrow> bool" where
  "wants_hnsw c \<longleftrightarrow> hc_m c \<noteq> 0 \<and> hc_m0 c \<noteq> 0 \<and> hc_ef_construction c \<noteq> 0 \<and> hc_vector_dimensionality c \<noteq> 0"

lemma ValidateCreateTable_iff:
  "ValidateCreateTable name dim hc fc cache_size \<longleftrightarrow> name \<noteq> [] \<and> dim \<noteq> 0 \<and>
     (hnsw_config_valid hc \<and> fc_vector_dimensionality fc = 0 \<or>
      hnsw_config_empty hc \<and> fc_vector_dimensionality fc \<noteq> 0)"
  by (auto simp: ValidateCreateTable_def Let_def hnsw_config_empty_def hnsw_config_valid_def)

lemma ValidateCreateTable_index:
  assumes "ValidateCreateTable name dim hc fc cache_size"
  shows "wants_hnsw hc \<longleftrightarrow> fc_vector_dimensionality fc = 0"
  using assms by (auto simp: ValidateCreateTable_iff wants_hnsw_def hnsw_config_empty_def hnsw_config_valid_def)

end
