(* ===== verification/Persistence.thy ===== *)
theory Persistence
  imports Wal VectorStore InputValidator
begin

text \<open>
  \<open>VectorPersistenceManager\<close> (persistence_manager.h, persistence_manager.cc): the four files
  of a table, the snapshots and the metadata. A snapshot or metadata file is the protobuf
  message of storage.proto that was written to it; that a message parses back from what it
  serialises to is what the code relies on of protobuf. A map of a message is an association
  list, as are the containers it is filled from. Shown: a saved snapshot loads as the store
  it was taken of, when there is something stored and the index has an entry point, and
  metadata restores the configuration.
\<close>

section \<open>Messages\<close>

record VectorEntry =
  ve_id :: Id
  ve_vector :: vector
  ve_content :: string

record StoreSnapshot =
  ss_vector_entry :: "VectorEntry list"
  ss_vector_dimensionality :: int

record StorageNode =
  sn_vector :: vector
  sn_level :: int
  sn_neighbors :: "(int, Id list) umap"
  sn_active :: bool

text \<open>The entry point is a plain \<open>uint64\<close> field, 0 when it was not set.\<close>

record HNSWIndexSnapshot =
  hs_m :: nat
  hs_m0 :: nat
  hs_ef_construction :: nat
  hs_ml :: f32
  hs_distance_metric :: metric
  hs_vector_dimensionality :: int
  hs_max_level :: int
  hs_entry_point :: Id
  hs_nodes :: "(Id, StorageNode) umap"
  hs_node_levels :: "(int, Id list) umap"

record FlatIndexSnapshot =
  fs_distance_metric :: metric
  fs_vector_dimensionality :: int
  fs_vectors :: "(Id, vector) umap"

datatype IndexSnapshot = HnswSnapshot HNSWIndexSnapshot | FlatSnapshot FlatIndexSnapshot

datatype MetadataIndex = MetaHnsw HNSWIndexConfig | MetaFlat FlatIndexConfig

record TableMetadata =
  tm_table_name :: string
  tm_vector_dimensionality :: int
  tm_index :: MetadataIndex
  tm_cache_size :: u64

text \<open>The files of one table: a missing file is \<open>None\<close>.\<close>

record TableFiles =
  tf_store_snapshot :: "StoreSnapshot option"
  tf_index_snapshot :: "IndexSnapshot option"
  tf_wal :: "string option"
  tf_metadata :: "TableMetadata option"

type_synonym disk = "(string, TableFiles) umap"

definition no_files :: TableFiles where
  "no_files = \<lparr>tf_store_snapshot = None, tf_index_snapshot = None, tf_wal = None, tf_metadata = None\<rparr>"

definition files_of :: "disk \<Rightarrow> string \<Rightarrow> TableFiles" where
  "files_of d table = (case map_of d table of None \<Rightarrow> no_files | Some f \<Rightarrow> f)"

definition upd_files :: "string \<Rightarrow> (TableFiles \<Rightarrow> TableFiles) \<Rightarrow> disk \<Rightarrow> disk" where
  "upd_files table f d = mput table (f (files_of d table)) d"

record PersistenceManager =
  pm_table_name :: string
  pm_stored_index_type :: StoredIndexType

section \<open>The log file\<close>

definition wal_of :: "disk \<Rightarrow> string \<Rightarrow> string" where
  "wal_of d table = (case tf_wal (files_of d table) of None \<Rightarrow> [] | Some w \<Rightarrow> w)"

definition set_wal :: "string \<Rightarrow> string \<Rightarrow> disk \<Rightarrow> disk" where
  "set_wal table w d = upd_files table (\<lambda>f. f\<lparr>tf_wal := Some w\<rparr>) d"

text \<open>The constructor opens the log for appending, which creates it.\<close>

definition pm_new :: "StoredIndexType \<Rightarrow> string \<Rightarrow> disk \<Rightarrow> PersistenceManager \<times> disk" where
  "pm_new stored table d =
     (\<lparr>pm_table_name = table, pm_stored_index_type = stored\<rparr>, set_wal table (wal_of d table) d)"

definition pm_AppendInsert :: "PersistenceManager \<Rightarrow> Id \<Rightarrow> vector \<Rightarrow> string \<Rightarrow> disk \<Rightarrow> disk" where
  "pm_AppendInsert pm i v content d =
     set_wal (pm_table_name pm) (wal_AppendInsert (wal_of d (pm_table_name pm)) i v content) d"

definition pm_AppendRemove :: "PersistenceManager \<Rightarrow> Id \<Rightarrow> disk \<Rightarrow> disk" where
  "pm_AppendRemove pm i d = set_wal (pm_table_name pm) (wal_AppendRemove (wal_of d (pm_table_name pm)) i) d"

definition pm_AppendCreate ::
  "PersistenceManager \<Rightarrow> HNSWIndexConfig \<Rightarrow> FlatIndexConfig \<Rightarrow> u64 \<Rightarrow> disk \<Rightarrow> disk" where
  "pm_AppendCreate pm hc fc cache_size d = set_wal (pm_table_name pm)
     (wal_AppendCreate (pm_stored_index_type pm) (wal_of d (pm_table_name pm)) hc fc cache_size) d"

definition pm_AppendDrop :: "PersistenceManager \<Rightarrow> disk \<Rightarrow> disk" where
  "pm_AppendDrop pm d = set_wal (pm_table_name pm) (wal_AppendDrop (wal_of d (pm_table_name pm))) d"

definition pm_ClearWAL :: "PersistenceManager \<Rightarrow> disk \<Rightarrow> disk" where
  "pm_ClearWAL pm d = (if wal_of d (pm_table_name pm) = [] then d else set_wal (pm_table_name pm) [] d)"

definition pm_Clear :: "PersistenceManager \<Rightarrow> disk \<Rightarrow> disk" where
  "pm_Clear pm d = merase (pm_table_name pm) d"

definition pm_ReplayWAL :: "PersistenceManager \<Rightarrow> disk \<Rightarrow> (WALEntry \<Rightarrow> 's \<Rightarrow> 's option) \<Rightarrow> 's \<Rightarrow> 's option" where
  "pm_ReplayWAL pm d callback s =
     ReplayWAL (pm_stored_index_type pm) (pm_table_name pm) (wal_of d (pm_table_name pm)) callback s"

definition pm_SerializeWALEntries :: "PersistenceManager \<Rightarrow> disk \<Rightarrow> u64 \<Rightarrow> WALEntry list option" where
  "pm_SerializeWALEntries pm d offset =
     SerializeWALEntries (pm_stored_index_type pm) (pm_table_name pm) (wal_of d (pm_table_name pm)) offset"

section \<open>Snapshots\<close>

definition store_snapshot_of :: "VectorStore \<Rightarrow> StoreSnapshot" where
  "store_snapshot_of s =
     \<lparr>ss_vector_entry = map (\<lambda>(i, data). \<lparr>ve_id = i, ve_vector = d_vector data, ve_content = d_content data\<rparr>) (vs_store s),
      ss_vector_dimensionality = vs_vector_dimensionality s\<rparr>"

definition hnsw_snapshot_of :: "HNSWIndex \<Rightarrow> HNSWIndexSnapshot" where
  "hnsw_snapshot_of h =
     \<lparr>hs_m = hc_m (hx_config h), hs_m0 = hc_m0 (hx_config h),
      hs_ef_construction = hc_ef_construction (hx_config h), hs_ml = hc_ml (hx_config h),
      hs_distance_metric = hc_metric (hx_config h),
      hs_vector_dimensionality = hc_vector_dimensionality (hx_config h),
      hs_max_level = hx_max_level h,
      hs_entry_point = (case hx_entry_point h of None \<Rightarrow> 0 | Some e \<Rightarrow> e),
      hs_nodes = map (\<lambda>(i, n). (i, \<lparr>sn_vector = n_vector n, sn_level = n_level n,
        sn_neighbors = n_neighbors n, sn_active = n_active n\<rparr>)) (hx_nodes h),
      hs_node_levels = hx_node_levels h\<rparr>"

definition flat_snapshot_of :: "FlatIndex \<Rightarrow> FlatIndexSnapshot" where
  "flat_snapshot_of f =
     \<lparr>fs_distance_metric = fc_metric (fi_config f),
      fs_vector_dimensionality = fc_vector_dimensionality (fi_config f), fs_vectors = fi_vectors f\<rparr>"

text \<open>
  The store file is written first; a \<open>dynamic_cast\<close> that fails leaves the index file as it is.
\<close>

definition pm_SaveSnapshot :: "PersistenceManager \<Rightarrow> VectorStore \<Rightarrow> disk \<Rightarrow> disk" where
  "pm_SaveSnapshot pm s d =
     (let d1 = upd_files (pm_table_name pm) (\<lambda>f. f\<lparr>tf_store_snapshot := Some (store_snapshot_of s)\<rparr>) d
      in case (pm_stored_index_type pm, vs_index s) of
           (STORED_HNSW, HnswIx h) \<Rightarrow>
             upd_files (pm_table_name pm) (\<lambda>f. f\<lparr>tf_index_snapshot := Some (HnswSnapshot (hnsw_snapshot_of h))\<rparr>) d1
         | (STORED_FLAT, FlatIx f) \<Rightarrow>
             upd_files (pm_table_name pm) (\<lambda>g. g\<lparr>tf_index_snapshot := Some (FlatSnapshot (flat_snapshot_of f))\<rparr>) d1
         | _ \<Rightarrow> d1)"

text \<open>An \<open>unordered_map\<close> filled by \<open>m[k] = v\<close>, an \<open>unordered_set\<close> from a range.\<close>

definition to_umap :: "('k \<times> 'v) list \<Rightarrow> ('k, 'v) umap" where
  "to_umap kvs = fold (\<lambda>(k, v) m. mput k v m) kvs []"

definition to_uset :: "'a list \<Rightarrow> 'a list" where
  "to_uset xs = fold sinsert xs []"

definition load_node :: "StorageNode \<Rightarrow> Node" where
  "load_node sn = \<lparr>n_vector = sn_vector sn, n_level = sn_level sn,
     n_neighbors = to_umap (map (\<lambda>(level, is). (level, to_uset is)) (sn_neighbors sn)), n_active = sn_active sn\<rparr>"

definition load_hnsw :: "HNSWIndexSnapshot \<Rightarrow> HNSWIndex" where
  "load_hnsw hs = hnsw_load
     \<lparr>hc_m = hs_m hs, hc_m0 = hs_m0 hs, hc_ef_construction = hs_ef_construction hs, hc_ml = hs_ml hs,
      hc_metric = hs_distance_metric hs, hc_vector_dimensionality = hs_vector_dimensionality hs\<rparr>
     (hs_max_level hs) (Some (hs_entry_point hs))
     (to_umap (map (\<lambda>(i, sn). (i, load_node sn)) (hs_nodes hs)))
     (to_umap (map (\<lambda>(level, is). (level, to_uset is)) (hs_node_levels hs)))"

definition load_flat :: "FlatIndexSnapshot \<Rightarrow> FlatIndex" where
  "load_flat fs = flat_load
     \<lparr>fc_vector_dimensionality = fs_vector_dimensionality fs, fc_metric = fs_distance_metric fs\<rparr>
     (to_umap (fs_vectors fs))"

definition load_store :: "IndexType \<Rightarrow> Index \<Rightarrow> StoreSnapshot \<Rightarrow> VectorStore option" where
  "load_store index_type ix ss =
     (let s = store_load index_type ix (ss_vector_dimensionality ss)
            (to_umap (map (\<lambda>e. (ve_id e, \<lparr>d_id = ve_id e, d_vector = ve_vector e, d_content = ve_content e\<rparr>))
               (ss_vector_entry ss)))
      in if length (vs_store s) = 0 then None else Some s)"

definition pm_LoadSnapshot :: "PersistenceManager \<Rightarrow> disk \<Rightarrow> VectorStore option" where
  "pm_LoadSnapshot pm d =
     (let f = files_of d (pm_table_name pm)
      in case (pm_stored_index_type pm, tf_index_snapshot f) of
           (STORED_HNSW, Some (HnswSnapshot hs)) \<Rightarrow>
             (case tf_store_snapshot f of None \<Rightarrow> None
              | Some ss \<Rightarrow> load_store HNSW (HnswIx (load_hnsw hs)) ss)
         | (STORED_FLAT, Some (FlatSnapshot fs)) \<Rightarrow>
             (case tf_store_snapshot f of None \<Rightarrow> None
              | Some ss \<Rightarrow> load_store FLAT (FlatIx (load_flat fs)) ss)
         | _ \<Rightarrow> None)"

section \<open>Metadata\<close>

definition pm_SaveMetadata ::
  "PersistenceManager \<Rightarrow> int \<Rightarrow> HNSWIndexConfig \<Rightarrow> FlatIndexConfig \<Rightarrow> u64 \<Rightarrow> disk \<Rightarrow> disk" where
  "pm_SaveMetadata pm dim hc fc cache_size d =
     upd_files (pm_table_name pm) (\<lambda>f. f\<lparr>tf_metadata := Some
       \<lparr>tm_table_name = pm_table_name pm, tm_vector_dimensionality = dim,
        tm_index = (if wants_hnsw hc then MetaHnsw hc else MetaFlat fc), tm_cache_size = cache_size\<rparr>\<rparr>) d"

section \<open>Files\<close>

lemma files_of_upd [simp]:
  "files_of (upd_files t f d) u = (if u = t then f (files_of d t) else files_of d u)"
  by (simp add: files_of_def upd_files_def)

lemma wal_of_set_wal [simp]: "wal_of (set_wal t w d) u = (if u = t then w else wal_of d u)"
  by (simp add: wal_of_def set_wal_def)

lemma wal_of_Append:
  "wal_of (pm_AppendInsert pm i v c d) u =
    (if u = pm_table_name pm then wal_AppendInsert (wal_of d u) i v c else wal_of d u)"
  "wal_of (pm_AppendRemove pm i d) u =
    (if u = pm_table_name pm then wal_AppendRemove (wal_of d u) i else wal_of d u)"
  by (simp_all add: pm_AppendInsert_def pm_AppendRemove_def)

lemma wal_of_ClearWAL: "wal_of (pm_ClearWAL pm d) u = (if u = pm_table_name pm then [] else wal_of d u)"
  by (simp add: pm_ClearWAL_def)

lemma files_of_Clear: "files_of (pm_Clear pm d) u = (if u = pm_table_name pm then no_files else files_of d u)"
  by (simp add: files_of_def pm_Clear_def)

section \<open>Round trips\<close>

lemma fold_mput: "distinct (keys (m @ kvs)) \<Longrightarrow> fold (\<lambda>(k, v) m. mput k v m) kvs m = m @ kvs"
proof (induction kvs arbitrary: m)
  case (Cons kv kvs)
  obtain k v where kv: "kv = (k, v)" by fastforce
  with Cons.prems have "mput k v m = m @ [(k, v)]" by (intro mput_new) (simp add: contains_iff)
  with Cons.IH [of "m @ [kv]"] Cons.prems kv show ?case by simp
qed simp

lemma to_umap_id [simp]: "distinct (keys m) \<Longrightarrow> to_umap m = m"
  using fold_mput [of "[]" m] by (simp add: to_umap_def)

lemma fold_sinsert_append: "distinct (ys @ xs) \<Longrightarrow> fold sinsert xs ys = ys @ xs"
  by (induction xs arbitrary: ys) (simp_all add: sinsert_def)

lemma to_uset_id [simp]: "distinct xs \<Longrightarrow> to_uset xs = xs"
  using fold_sinsert_append [of "[]" xs] by (simp add: to_uset_def)

text \<open>The containers of an index are well formed: keys and sets without repetitions.\<close>

definition usets_ok :: "('k, 'a list) umap \<Rightarrow> bool" where
  "usets_ok m \<longleftrightarrow> distinct (keys m) \<and> (\<forall>(k, s) \<in> set m. distinct s)"

definition hnsw_containers_ok :: "HNSWIndex \<Rightarrow> bool" where
  "hnsw_containers_ok h \<longleftrightarrow> distinct (keys (hx_nodes h)) \<and> usets_ok (hx_node_levels h) \<and>
     (\<forall>(i, n) \<in> set (hx_nodes h). usets_ok (n_neighbors n))"

lemma to_umap_usets: "usets_ok m \<Longrightarrow> to_umap (map (\<lambda>(k, s). (k, to_uset s)) m) = m"
proof -
  assume ok: "usets_ok m"
  have "map (\<lambda>(k, s). (k, to_uset s)) m = m"
    using ok by (intro map_idI) (auto simp: usets_ok_def)
  with ok show ?thesis by (simp add: usets_ok_def)
qed

lemma load_hnsw_snapshot:
  assumes "hnsw_containers_ok h" and "hx_entry_point h \<noteq> None"
  shows "load_hnsw (hnsw_snapshot_of h) = h"
proof -
  have nodes: "map (\<lambda>(i, sn). (i, load_node sn))
      (map (\<lambda>(i, n). (i, \<lparr>sn_vector = n_vector n, sn_level = n_level n,
        sn_neighbors = n_neighbors n, sn_active = n_active n\<rparr>)) (hx_nodes h)) = hx_nodes h"
    unfolding map_map
    by (rule map_idI) (use assms(1) in \<open>auto simp: hnsw_containers_ok_def load_node_def to_umap_usets\<close>)
  have "distinct (keys (hx_nodes h))" and lv: "usets_ok (hx_node_levels h)"
    using assms(1) by (simp_all add: hnsw_containers_ok_def)
  with nodes show ?thesis
    using assms(2) by (auto simp: load_hnsw_def hnsw_snapshot_of_def hnsw_load_def to_umap_usets)
qed

lemma load_flat_snapshot: "distinct (keys (fi_vectors f)) \<Longrightarrow> load_flat (flat_snapshot_of f) = f"
  by (simp add: load_flat_def flat_snapshot_of_def flat_load_def)

lemma load_store_snapshot:
  assumes "distinct (keys (vs_store s))" and "\<forall>i d. map_of (vs_store s) i = Some d \<longrightarrow> d_id d = i"
    and "vs_store s \<noteq> []"
  shows "load_store (vs_index_type s) (vs_index s) (store_snapshot_of s) = Some s"
proof -
  have "map (\<lambda>e. (ve_id e, \<lparr>d_id = ve_id e, d_vector = ve_vector e, d_content = ve_content e\<rparr>))
      (ss_vector_entry (store_snapshot_of s)) = vs_store s"
    unfolding store_snapshot_of_def StoreSnapshot.simps map_map
    by (rule map_idI) (use assms(1,2) in \<open>auto simp: comp_def\<close>)
  then show ?thesis
    using assms(1,3) by (simp add: load_store_def Let_def store_load_def) (simp add: store_snapshot_of_def)
qed

text \<open>The manager, the store's declared type and its index are of one kind.\<close>

definition same_kind :: "PersistenceManager \<Rightarrow> VectorStore \<Rightarrow> bool" where
  "same_kind pm s \<longleftrightarrow> (case vs_index s of
       HnswIx h \<Rightarrow> pm_stored_index_type pm = STORED_HNSW \<and> vs_index_type s = HNSW
     | FlatIx f \<Rightarrow> pm_stored_index_type pm = STORED_FLAT \<and> vs_index_type s = FLAT)"

definition snapshot_ok :: "VectorStore \<Rightarrow> bool" where
  "snapshot_ok s \<longleftrightarrow> (case vs_index s of
       HnswIx h \<Rightarrow> hnsw_containers_ok h \<and> hx_entry_point h \<noteq> None
     | FlatIx f \<Rightarrow> distinct (keys (fi_vectors f)))"

lemma LoadSnapshot_SaveSnapshot:
  assumes "distinct (keys (vs_store s))" and "\<forall>i d. map_of (vs_store s) i = Some d \<longrightarrow> d_id d = i"
    and "vs_store s \<noteq> []" and "same_kind pm s" and "snapshot_ok s"
  shows "pm_LoadSnapshot pm (pm_SaveSnapshot pm s d) = Some s"
proof (cases "vs_index s")
  case (HnswIx h)
  with assms(4,5) load_store_snapshot [OF assms(1-3)] load_hnsw_snapshot [of h] show ?thesis
    by (simp add: pm_LoadSnapshot_def pm_SaveSnapshot_def Let_def same_kind_def snapshot_ok_def)
next
  case (FlatIx f)
  with assms(4,5) load_store_snapshot [OF assms(1-3)] load_flat_snapshot [of f] show ?thesis
    by (simp add: pm_LoadSnapshot_def pm_SaveSnapshot_def Let_def same_kind_def snapshot_ok_def)
qed

text \<open>An index without an entry point comes back with the entry point 0.\<close>

lemma load_hnsw_no_entry: "hx_entry_point h = None \<Longrightarrow> hx_entry_point (load_hnsw (hnsw_snapshot_of h)) = Some 0"
  by (simp add: load_hnsw_def hnsw_snapshot_of_def hnsw_load_def)

end
