(* ===== verification/Stats.thy ===== *)
theory Stats
  imports Prelude
begin

text \<open>
  \<open>StatsManager\<close> (stats_manager.h, stats_manager.cc): the counters and flags of a table. The
  counters are 64 bits wide and wrap; \<open>Set\<close> takes an \<open>int\<close>, which sign-extends. The number
  of live vectors is \<open>vector_count - deleted_count\<close>, in that arithmetic.
\<close>

record Stats =
  vector_count :: u64
  deleted_count :: u64
  stale_count :: u64

datatype StatType = VECTOR | DELETED | STALE

record StatsManager =
  sm_stats :: Stats
  sm_modified :: bool
  sm_removed :: bool

definition empty_stats :: Stats where
  "empty_stats = \<lparr>vector_count = 0, deleted_count = 0, stale_count = 0\<rparr>"

definition stats_new :: StatsManager where
  "stats_new = \<lparr>sm_stats = empty_stats, sm_modified = False, sm_removed = False\<rparr>"

fun stats_Increment :: "StatType \<Rightarrow> StatsManager \<Rightarrow> StatsManager" where
  "stats_Increment VECTOR m = m\<lparr>sm_stats := (sm_stats m)\<lparr>vector_count := vector_count (sm_stats m) + 1\<rparr>\<rparr>"
| "stats_Increment DELETED m = m\<lparr>sm_stats := (sm_stats m)\<lparr>deleted_count := deleted_count (sm_stats m) + 1\<rparr>\<rparr>"
| "stats_Increment STALE m = m\<lparr>sm_stats := (sm_stats m)\<lparr>stale_count := stale_count (sm_stats m) + 1\<rparr>\<rparr>"

fun stats_Set :: "StatType \<Rightarrow> int \<Rightarrow> StatsManager \<Rightarrow> StatsManager" where
  "stats_Set VECTOR value m = m\<lparr>sm_stats := (sm_stats m)\<lparr>vector_count := word_of_int value\<rparr>\<rparr>"
| "stats_Set DELETED value m = m\<lparr>sm_stats := (sm_stats m)\<lparr>deleted_count := word_of_int value\<rparr>\<rparr>"
| "stats_Set STALE value m = m\<lparr>sm_stats := (sm_stats m)\<lparr>stale_count := word_of_int value\<rparr>\<rparr>"

definition stats_Reset :: "StatType \<Rightarrow> StatsManager \<Rightarrow> StatsManager" where
  "stats_Reset stat_type m = stats_Set stat_type 0 m"

definition stats_AdjustForDeletions :: "StatsManager \<Rightarrow> StatsManager" where
  "stats_AdjustForDeletions m = m\<lparr>sm_stats := (sm_stats m)
     \<lparr>vector_count := vector_count (sm_stats m) - deleted_count (sm_stats m)\<rparr>\<rparr>"

definition stats_SetRemovedFlag :: "bool \<Rightarrow> StatsManager \<Rightarrow> StatsManager" where
  "stats_SetRemovedFlag value m = m\<lparr>sm_removed := value\<rparr>"

definition stats_SetModifiedFlag :: "bool \<Rightarrow> StatsManager \<Rightarrow> StatsManager" where
  "stats_SetModifiedFlag value m = m\<lparr>sm_modified := value\<rparr>"

section \<open>The number of live vectors\<close>

definition live_count :: "StatsManager \<Rightarrow> u64" where
  "live_count m = vector_count (sm_stats m) - deleted_count (sm_stats m)"

lemma live_count_ops [simp]:
  "live_count stats_new = 0"
  "live_count (stats_Increment VECTOR m) = live_count m + 1"
  "live_count (stats_Increment DELETED m) = live_count m - 1"
  "live_count (stats_Increment STALE m) = live_count m"
  "live_count (stats_SetRemovedFlag b m) = live_count m"
  "live_count (stats_SetModifiedFlag b m) = live_count m"
  by (simp_all add: live_count_def stats_new_def empty_stats_def stats_SetRemovedFlag_def stats_SetModifiedFlag_def)

text \<open>
  What a cleanup does to the counters: the deletions are taken out of the vector count and
  forgotten, so the number of live vectors stays.
\<close>

lemma live_count_cleanup [simp]:
  "live_count (stats_Reset DELETED (stats_AdjustForDeletions m)) = live_count m"
  "live_count (stats_Reset STALE m) = live_count m"
  by (simp_all add: live_count_def stats_Reset_def stats_AdjustForDeletions_def)

lemma sm_flags [simp]:
  "sm_modified (stats_Increment t m) = sm_modified m" "sm_removed (stats_Increment t m) = sm_removed m"
  "sm_modified (stats_Set t v m) = sm_modified m" "sm_removed (stats_Set t v m) = sm_removed m"
  "sm_modified (stats_SetModifiedFlag b m) = b" "sm_removed (stats_SetModifiedFlag b m) = sm_removed m"
  "sm_removed (stats_SetRemovedFlag b m) = b" "sm_modified (stats_SetRemovedFlag b m) = sm_modified m"
  "sm_modified (stats_AdjustForDeletions m) = sm_modified m" "sm_removed (stats_AdjustForDeletions m) = sm_removed m"
  by (cases t; simp add: stats_SetModifiedFlag_def stats_SetRemovedFlag_def stats_AdjustForDeletions_def)+

declare stats_Increment.simps [simp del] stats_Set.simps [simp del]

text \<open>\<open>int\<close> of a container's size: the conversion of \<open>Set (VECTOR, store.size ())\<close>.\<close>

definition int_of_size :: "nat \<Rightarrow> int" where
  "int_of_size n = sint (of_nat n :: 32 word)"

lemma int_of_size_small: "n < 2 ^ 31 \<Longrightarrow> int_of_size n = int n"
  by (simp add: int_of_size_def signed_of_nat signed_take_bit_int_eq_self)

end
