(* ===== verification/ReplicaManager.thy ===== *)
theory ReplicaManager
  imports Persistence Stats
begin

text \<open>
  The primary's side of \<open>ReplicaManager\<close> (replica_manager.cc): \<open>Sync\<close> sends each replica the
  log entries after its offset, up to four times, and compares checksums. The network is a
  parameter with a state of its own, \<open>'w\<close>: what a call of the two RPCs answers (status and
  value) and what it does to the other side. The loop and server threads only call \<open>Sync\<close>
  and the service. Shown: the offset never runs ahead of the log, and the modified flag of a
  table is cleared only when every replica has acknowledged its whole log.
\<close>

record 'w Net =
  net_Sync :: "string \<Rightarrow> WALEntry list \<Rightarrow> 'w \<Rightarrow> (bool \<times> u64) \<times> 'w"
  net_GetChecksum :: "string \<Rightarrow> string \<Rightarrow> 'w \<Rightarrow> (bool \<times> u64) \<times> 'w"

definition kRetryCount :: nat where
  "kRetryCount = 3"

type_synonym offsets = "(string \<times> string, u64) umap"

definition offset_of :: "offsets \<Rightarrow> string \<Rightarrow> string \<Rightarrow> u64" where
  "offset_of offs table replica = (case map_of offs (table, replica) of None \<Rightarrow> 0 | Some n \<Rightarrow> n)"

text \<open>The attempts for one replica: offset, failure and network state.\<close>

fun sync_attempts :: "'w Net \<Rightarrow> PersistenceManager \<Rightarrow> disk \<Rightarrow> VectorStore \<Rightarrow> string \<Rightarrow> string \<Rightarrow> nat list \<Rightarrow>
    u64 \<times> bool \<times> 'w \<Rightarrow> (u64 \<times> bool \<times> 'w) option" where
  "sync_attempts net pm d s table replica [] st = Some st"
| "sync_attempts net pm d s table replica (i # is) (off, failed, w) =
     (case pm_SerializeWALEntries pm d off of
        None \<Rightarrow> None
      | Some entries \<Rightarrow>
          if entries = [] then sync_attempts net pm d s table replica is (off, failed, w)
          else case ComputeChecksum s of
            None \<Rightarrow> None
          | Some checksum \<Rightarrow>
              (let ((ok, count), w1) = net_Sync net replica entries w; off' = off + count
               in if ok \<and> unat count = length entries then
                    (let ((checksum_ok, checksum'), w2) = net_GetChecksum net replica table w1
                     in if checksum_ok \<and> checksum = checksum' then Some (off', failed, w2)
                        else sync_attempts net pm d s table replica is (off', True, w2))
                  else sync_attempts net pm d s table replica is (off', failed \<or> i = kRetryCount - 1, w1)))"

fun sync_replicas :: "'w Net \<Rightarrow> PersistenceManager \<Rightarrow> disk \<Rightarrow> VectorStore \<Rightarrow> string \<Rightarrow> string list \<Rightarrow>
    offsets \<times> bool \<times> 'w \<Rightarrow> (offsets \<times> bool \<times> 'w) option" where
  "sync_replicas net pm d s table [] st = Some st"
| "sync_replicas net pm d s table (r # rs) (offs, failed, w) =
     (case sync_attempts net pm d s table r [0..<kRetryCount + 1] (offset_of offs table r, failed, w) of
        None \<Rightarrow> None
      | Some (off, failed', w') \<Rightarrow>
          sync_replicas net pm d s table rs (mput (table, r) off offs, failed', w'))"

text \<open>One table: the modified flag is cleared when nothing failed.\<close>

definition sync_table :: "'w Net \<Rightarrow> string list \<Rightarrow> disk \<Rightarrow> (string, VectorStore) umap \<Rightarrow> string \<times> PersistenceManager \<Rightarrow>
    offsets \<times> (string, StatsManager) umap \<times> 'w \<Rightarrow> (offsets \<times> (string, StatsManager) umap \<times> 'w) option" where
  "sync_table net replicas d store_map tp st =
     (let (table, pm) = tp; (offs, stats_map, w) = st
      in case map_of store_map table of
           None \<Rightarrow> Some st
         | Some s \<Rightarrow>
             (case sync_replicas net pm d s table replicas (offs, False, w) of
                None \<Rightarrow> None
              | Some (offs', failed, w') \<Rightarrow>
                  Some (offs',
                    (case map_of stats_map table of
                       Some m \<Rightarrow> if failed then stats_map else mput table (stats_SetModifiedFlag False m) stats_map
                     | None \<Rightarrow> stats_map), w')))"

definition rm_Sync :: "'w Net \<Rightarrow> bool \<Rightarrow> bool \<Rightarrow> string list \<Rightarrow> disk \<Rightarrow> (string, VectorStore) umap \<Rightarrow>
    (string, PersistenceManager) umap \<Rightarrow> offsets \<times> (string, StatsManager) umap \<times> 'w \<Rightarrow>
    (offsets \<times> (string, StatsManager) umap \<times> 'w) option" where
  "rm_Sync net shutdown force replicas d store_map pm_map st =
     (if shutdown \<and> \<not> force then Some st
      else for_each (sync_table net replicas d store_map) pm_map st)"

text \<open>The replica's answer to \<open>GetChecksum\<close>: 0 for a table it does not have.\<close>

definition rm_GetChecksum :: "(string, VectorStore) umap \<Rightarrow> string \<Rightarrow> u64 option" where
  "rm_GetChecksum store_map table =
     (case map_of store_map table of None \<Rightarrow> Some 0 | Some s \<Rightarrow> ComputeChecksum s)"

section \<open>What a successful sync means\<close>

text \<open>
  The service counts the entries it has applied, so it never answers more than it was sent.
\<close>

definition honest :: "'w Net \<Rightarrow> bool" where
  "honest net \<longleftrightarrow> (\<forall>r es w. unat (snd (fst (net_Sync net r es w))) \<le> length es)"

definition log_length :: "PersistenceManager \<Rightarrow> disk \<Rightarrow> nat" where
  "log_length pm d = length (lines (wal_of d (pm_table_name pm)))"

lemma Serialize_length:
  "pm_SerializeWALEntries pm d off = Some es \<Longrightarrow> length es = log_length pm d - unat off"
proof -
  have "those xs = Some ys \<Longrightarrow> length ys = length xs" for xs :: "'a option list" and ys
    by (induction xs arbitrary: ys) (auto split: option.splits)
  from this [of "map (parse_line _ _) _"] show
    "pm_SerializeWALEntries pm d off = Some es \<Longrightarrow> length es = log_length pm d - unat off"
    by (fastforce simp: pm_SerializeWALEntries_def SerializeWALEntries_def log_length_def)
qed

lemma unat_add_le: "unat (a :: u64) + unat b < 2 ^ 64 \<Longrightarrow> unat (a + b) = unat a + unat b"
  by (simp add: unat_word_ariths)

lemma sync_attempts_offset:
  assumes "honest net" and "log_length pm d < 2 ^ 64" and "unat off \<le> log_length pm d"
    and "sync_attempts net pm d s table r is (off, failed, w) = Some (off', failed', w')"
  shows "unat off' \<le> log_length pm d \<and> unat off \<le> unat off'"
  using assms(3,4)
proof (induction "is" arbitrary: off failed w)
  case (Cons i js)
  obtain es where es: "pm_SerializeWALEntries pm d off = Some es"
    using Cons.prems(2) by (auto split: option.splits)
  have len: "length es = log_length pm d - unat off" by (rule Serialize_length [OF es])
  show ?case
  proof (cases "es = []")
    case True
    with Cons es show ?thesis by simp
  next
    case False
    obtain cs where cs: "ComputeChecksum s = Some cs" using ComputeChecksum_total by blast
    obtain ok count w1 where c: "net_Sync net r es w = ((ok, count), w1)" by (metis prod.collapse)
    have "unat count \<le> length es" using assms(1) c unfolding honest_def by (metis fst_conv snd_conv)
    then have sum: "unat (off + count) = unat off + unat count" and le: "unat off + unat count \<le> log_length pm d"
      using unat_add_le [of off count] len assms(2) Cons.prems(1) by auto
    obtain k cs' w2 where k: "net_GetChecksum net r table w1 = ((k, cs'), w2)" by (metis prod.collapse)
    have cont: "off' = off + count \<or>
        (\<exists>f x. sync_attempts net pm d s table r js (off + count, f, x) = Some (off', failed', w'))"
      using Cons.prems(2) es False cs c k by (auto simp: Let_def split: if_splits)
    then show ?thesis
    proof
      assume "off' = off + count"
      with sum le show ?thesis by simp
    next
      assume "\<exists>f x. sync_attempts net pm d s table r js (off + count, f, x) = Some (off', failed', w')"
      then obtain f x where "sync_attempts net pm d s table r js (off + count, f, x) = Some (off', failed', w')" by blast
      from Cons.IH [OF _ this] sum le show ?thesis by simp
    qed
  qed
qed simp

text \<open>An attempt that leaves the replica behind is repeated until the third, which counts as failed.\<close>

lemma sync_attempts_failed:
  "sync_attempts net pm d s table r is (off, True, w) = Some (off', failed', w') \<Longrightarrow> failed'"
proof (induction "is" arbitrary: off w)
  case (Cons i js)
  then show ?case by (auto simp: Let_def split: option.splits if_splits prod.splits)
qed simp

lemma sync_attempts_complete:
  assumes "honest net" and "log_length pm d < 2 ^ 64" and "unat off \<le> log_length pm d"
    and "sync_attempts net pm d s table r is (off, failed, w) = Some (off', False, w')"
    and "kRetryCount - 1 \<in> set is"
  shows "unat off' = log_length pm d"
  using assms(3-5)
proof (induction "is" arbitrary: off failed w)
  case (Cons i js)
  obtain es where es: "pm_SerializeWALEntries pm d off = Some es"
    using Cons.prems(2) by (auto split: option.splits)
  have len: "length es = log_length pm d - unat off" by (rule Serialize_length [OF es])
  show ?case
  proof (cases "es = []")
    case True
    then have "sync_attempts net pm d s table r js (off, failed, w) = Some (off', False, w')"
      using Cons.prems(2) es by simp
    moreover have "unat off = log_length pm d" using len True Cons.prems(1) by simp
    ultimately show ?thesis
      using sync_attempts_offset [OF assms(1,2)] Cons.prems(1) by fastforce
  next
    case False
    obtain cs where cs: "ComputeChecksum s = Some cs" using ComputeChecksum_total by blast
    obtain ok count w1 where c: "net_Sync net r es w = ((ok, count), w1)" by (metis prod.collapse)
    have "unat count \<le> length es" using assms(1) c unfolding honest_def by (metis fst_conv snd_conv)
    then have sum: "unat (off + count) = unat off + unat count" and le: "unat off + unat count \<le> log_length pm d"
      using unat_add_le [of off count] len assms(2) Cons.prems(1) by auto
    obtain k cs' w2 where k: "net_GetChecksum net r table w1 = ((k, cs'), w2)" by (metis prod.collapse)
    show ?thesis
    proof (cases "ok \<and> unat count = length es")
      case True
      then have "off' = off + count"
        using Cons.prems(2) es False cs c k sync_attempts_failed by (fastforce simp: Let_def split: if_splits)
      with True sum len Cons.prems(1) show ?thesis by simp
    next
      case bad: False
      then have n: "sync_attempts net pm d s table r js (off + count, failed \<or> i = kRetryCount - 1, w1) = Some (off', False, w')"
        using Cons.prems(2) es False cs c k by (cases ok) (simp_all add: Let_def)
      then have "i \<noteq> kRetryCount - 1" using sync_attempts_failed by fastforce
      with Cons.IH [OF _ n] Cons.prems(3) sum le show ?thesis by auto
    qed
  qed
qed simp

text \<open>For all replicas of a table: nothing failed means that everyone has the whole log.\<close>

definition offsets_ok :: "PersistenceManager \<Rightarrow> disk \<Rightarrow> string \<Rightarrow> string list \<Rightarrow> offsets \<Rightarrow> bool" where
  "offsets_ok pm d table rs offs \<longleftrightarrow> (\<forall>r \<in> set rs. unat (offset_of offs table r) \<le> log_length pm d)"

lemma offset_of_mput [simp]:
  "offset_of (mput (t, r) off offs) t' r' = (if t' = t \<and> r' = r then off else offset_of offs t' r')"
  by (simp add: offset_of_def)

lemma sync_replicas_offsets:
  assumes "honest net" and "log_length pm d < 2 ^ 64" and "offsets_ok pm d table (rs @ rest) offs"
    and "sync_replicas net pm d s table rs (offs, failed, w) = Some (offs', failed', w')"
  shows "offsets_ok pm d table (rs @ rest) offs'"
  using assms(3,4)
proof (induction rs arbitrary: offs failed w rest)
  case (Cons r rs)
  obtain off f w1 where a: "sync_attempts net pm d s table r [0..<kRetryCount + 1] (offset_of offs table r, failed, w) = Some (off, f, w1)"
    and n: "sync_replicas net pm d s table rs (mput (table, r) off offs, f, w1) = Some (offs', failed', w')"
    using Cons.prems(2) by (auto simp del: sync_attempts.simps upt_Suc split: option.splits)
  have "unat off \<le> log_length pm d"
    using sync_attempts_offset [OF assms(1,2) _ a] Cons.prems(1) by (simp add: offsets_ok_def)
  then have "offsets_ok pm d table (rs @ r # rest) (mput (table, r) off offs)"
    using Cons.prems(1) by (auto simp: offsets_ok_def)
  from Cons.IH [OF this n] show ?case by (auto simp: offsets_ok_def)
qed simp

lemma sync_replicas_complete:
  assumes "honest net" and "log_length pm d < 2 ^ 64" and "offsets_ok pm d table rs offs"
    and "sync_replicas net pm d s table rs (offs, False, w) = Some (offs', False, w')"
  shows "\<forall>r \<in> set rs. unat (offset_of offs' table r) = log_length pm d"
proof -
  have failed: "failed'" if "sync_replicas net pm d s table qs (o1, True, x) = Some (o2, failed', y)" for qs o1 x o2 failed' y
    using that
  proof (induction qs arbitrary: o1 x)
    case (Cons q qs)
    then obtain off f w1 where
      a: "sync_attempts net pm d s table q [0..<kRetryCount + 1] (offset_of o1 table q, True, x) = Some (off, f, w1)"
      and n: "sync_replicas net pm d s table qs (mput (table, q) off o1, f, w1) = Some (o2, failed', y)"
      by (auto simp del: sync_attempts.simps upt_Suc split: option.splits)
    have "f" by (rule sync_attempts_failed [OF a])
    with n Cons.IH show ?case by simp
  qed simp
  have "\<forall>r \<in> set rs \<union> D. unat (offset_of offs' table r) = log_length pm d"
    if "\<forall>r \<in> D. unat (offset_of offs table r) = log_length pm d" for D
    using assms(3,4) that
  proof (induction rs arbitrary: offs w D)
    case (Cons r rs)
    obtain off f w1 where a: "sync_attempts net pm d s table r [0..<kRetryCount + 1] (offset_of offs table r, False, w) = Some (off, f, w1)"
      and n: "sync_replicas net pm d s table rs (mput (table, r) off offs, f, w1) = Some (offs', False, w')"
      using Cons.prems(2) by (auto simp del: sync_attempts.simps upt_Suc split: option.splits)
    have f: "\<not> f" using n failed by (cases f) auto
    have le: "unat (offset_of offs table r) \<le> log_length pm d" using Cons.prems(1) by (simp add: offsets_ok_def)
    have off: "unat off = log_length pm d"
      using sync_attempts_complete [OF assms(1,2) le] a f by (simp add: kRetryCount_def del: sync_attempts.simps)
    have "offsets_ok pm d table rs (mput (table, r) off offs)"
      using Cons.prems(1) off by (simp add: offsets_ok_def)
    moreover have "\<forall>q \<in> insert r D. unat (offset_of (mput (table, r) off offs) table q) = log_length pm d"
      using Cons.prems(3) off by simp
    ultimately have "\<forall>q \<in> set rs \<union> insert r D. unat (offset_of offs' table q) = log_length pm d"
      using n f by (intro Cons.IH [of "mput (table, r) off offs" w1]) simp_all
    then show ?case by simp
  qed simp
  from this [of "{}"] show ?thesis by simp
qed

lemma sync_table_flag:
  assumes "honest net" and "log_length pm d < 2 ^ 64" and "offsets_ok pm d table rs offs"
    and "sync_table net rs d store_map (table, pm) (offs, stats_map, w) = Some (offs', stats_map', w')"
    and "map_of stats_map table = Some m" and "sm_modified m"
    and "map_of stats_map' table = Some m'" and "\<not> sm_modified m'"
  shows "\<forall>r \<in> set rs. unat (offset_of offs' table r) = log_length pm d"
proof -
  obtain s where s: "map_of store_map table = Some s"
    using assms(4-8) by (auto simp: sync_table_def split: option.splits)
  obtain failed w1 where r: "sync_replicas net pm d s table rs (offs, False, w) = Some (offs', failed, w1)"
    and "\<not> failed"
    using assms(4-8) s by (auto simp: sync_table_def split: option.splits if_splits)
  with sync_replicas_complete [OF assms(1-3)] show ?thesis by simp
qed

end
