(* ===== verification/Metrics.thy ===== *)
theory Metrics
  imports Prelude Float32
begin

text \<open>
  \<open>MetricsManager\<close> (metrics_manager.h, metrics_manager.cc): operation counters and the
  average, maximum and minimum of the latencies, in single precision. The engine measures a
  latency before it counts the operation, so the old count weighs the old average.
\<close>

record Metrics =
  insert_count :: u64
  remove_count :: u64
  search_count :: u64
  cleanup_count :: u64
  reindex_count :: u64
  average_search_latency_ms :: f32
  max_search_latency_ms :: f32
  min_search_latency_ms :: f32
  average_cleanup_latency_ms :: f32
  max_cleanup_latency_ms :: f32
  min_cleanup_latency_ms :: f32
  cache_hit :: u64
  cache_miss :: u64

datatype CountType = INSERT | REMOVE | SEARCH | CLEANUP | REINDEX | CACHE_HIT | CACHE_MISS

definition metrics_new :: Metrics where
  "metrics_new = \<lparr>insert_count = 0, remove_count = 0, search_count = 0, cleanup_count = 0, reindex_count = 0,
     average_search_latency_ms = f32_zero, max_search_latency_ms = f32_zero, min_search_latency_ms = f32_max,
     average_cleanup_latency_ms = f32_zero, max_cleanup_latency_ms = f32_zero, min_cleanup_latency_ms = f32_max,
     cache_hit = 0, cache_miss = 0\<rparr>"

fun metrics_Increment :: "CountType \<Rightarrow> u64 \<Rightarrow> Metrics \<Rightarrow> Metrics" where
  "metrics_Increment INSERT step m = m\<lparr>insert_count := insert_count m + step\<rparr>"
| "metrics_Increment REMOVE step m = m\<lparr>remove_count := remove_count m + step\<rparr>"
| "metrics_Increment SEARCH step m = m\<lparr>search_count := search_count m + step\<rparr>"
| "metrics_Increment CLEANUP step m = m\<lparr>cleanup_count := cleanup_count m + step\<rparr>"
| "metrics_Increment REINDEX step m = m\<lparr>reindex_count := reindex_count m + step\<rparr>"
| "metrics_Increment CACHE_HIT step m = m\<lparr>cache_hit := cache_hit m + step\<rparr>"
| "metrics_Increment CACHE_MISS step m = m\<lparr>cache_miss := cache_miss m + step\<rparr>"

text \<open>An average \<open>avg\<close> over \<open>n\<close> values and one more value.\<close>

definition running_average :: "f32 \<Rightarrow> u64 \<Rightarrow> f32 \<Rightarrow> f32" where
  "running_average avg n latency =
     fdiv (fadd (fmul avg (f32_of_nat (unat n))) latency) (f32_of_nat (unat (n + 1)))"

definition metrics_CalculateSearchLatency :: "f32 \<Rightarrow> Metrics \<Rightarrow> Metrics" where
  "metrics_CalculateSearchLatency latency m = m
     \<lparr>average_search_latency_ms := running_average (average_search_latency_ms m) (search_count m) latency,
      max_search_latency_ms := fmax (max_search_latency_ms m) latency,
      min_search_latency_ms := fmin (min_search_latency_ms m) latency\<rparr>"

definition metrics_CalculateCleanupLatency :: "f32 \<Rightarrow> Metrics \<Rightarrow> Metrics" where
  "metrics_CalculateCleanupLatency latency m = m
     \<lparr>average_cleanup_latency_ms := running_average (average_cleanup_latency_ms m) (cleanup_count m) latency,
      max_cleanup_latency_ms := fmax (max_cleanup_latency_ms m) latency,
      min_cleanup_latency_ms := fmin (min_cleanup_latency_ms m) latency\<rparr>"

section \<open>The recorded extremes\<close>

text \<open>No recorded latency is above the maximum or below the minimum.\<close>

definition search_extremes :: "f32 list \<Rightarrow> Metrics \<Rightarrow> bool" where
  "search_extremes ls m \<longleftrightarrow> \<not> is_nan (max_search_latency_ms m) \<and> \<not> is_nan (min_search_latency_ms m) \<and>
     (\<forall>l \<in> set ls. \<not> flt (max_search_latency_ms m) l \<and> \<not> flt l (min_search_latency_ms m))"

lemma not_flt_fmax:
  assumes "\<not> is_nan a" and "\<not> is_nan b" and "\<not> is_nan c" and "\<not> flt a c"
  shows "\<not> flt (fmax a b) c"
  using assms flt_trans [of a b c] by (auto simp: fmax_def)

lemma not_flt_fmin:
  assumes "\<not> is_nan a" and "\<not> is_nan b" and "\<not> is_nan c" and "\<not> flt c a"
  shows "\<not> flt c (fmin a b)"
  using assms flt_trans [of c b a] by (auto simp: fmin_def)

lemma search_extremes_new: "search_extremes [] metrics_new"
  by (simp add: search_extremes_def metrics_new_def f32_max_def)

lemma search_extremes_step:
  assumes "search_extremes ls m" and "\<not> is_nan l" and "\<forall>x \<in> set ls. \<not> is_nan x"
  shows "search_extremes (l # ls) (metrics_CalculateSearchLatency l m)"
  using assms flt_asym [of "max_search_latency_ms m" l] flt_asym [of l "min_search_latency_ms m"]
  by (auto simp: search_extremes_def metrics_CalculateSearchLatency_def not_flt_fmax not_flt_fmin)
    (auto simp: fmax_def fmin_def split: if_splits)

lemma metrics_Increment_search [simp]:
  "search_count (metrics_Increment SEARCH s m) = search_count m + s"
  "max_search_latency_ms (metrics_Increment t s m) = max_search_latency_ms m"
  "min_search_latency_ms (metrics_Increment t s m) = min_search_latency_ms m"
  by (cases t; simp)+

declare metrics_Increment.simps [simp del]

lemma search_extremes_Increment [simp]: "search_extremes ls (metrics_Increment t s m) = search_extremes ls m"
  by (simp add: search_extremes_def)

end
