(* ===== verification/LruCache.thy ===== *)
theory LruCache
  imports Prelude Distance
begin

text \<open>
  The interface \<open>Cache\<close> (cache.h) and its implementation \<open>LRUCache\<close> (lru_cache.h,
  lru_cache.cc): a hash map whose values hold an iterator into a linked list of the keys,
  the least recently used first. A node of the \<open>std::list\<close> has a handle, which the iterator
  is; \<open>None\<close> as a state is undefined behaviour (\<open>front\<close> of an empty list). Shown: the two
  containers agree, the size stays within the capacity, and the cache refines a list of
  entries in the order of their last use.
\<close>

record CacheData =
  cd_id :: Id
  cd_vector :: vector
  cd_content :: string

type_synonym CacheEntry = "CacheData list list"

type_synonym CacheKey = u64

section \<open>The interface\<close>

locale cache =
  fixes inv :: "'c \<Rightarrow> bool"
    and content :: "'c \<Rightarrow> CacheKey \<rightharpoonup> CacheEntry"
    and get_op :: "'c \<Rightarrow> CacheKey \<Rightarrow> CacheEntry option \<times> 'c"
    and invalidate_op :: "'c \<Rightarrow> CacheKey \<Rightarrow> 'c"
    and invalidate_all_op :: "'c \<Rightarrow> 'c"
    and store_op :: "'c \<Rightarrow> CacheKey \<Rightarrow> CacheEntry \<Rightarrow> 'c option"
  assumes get_law: "inv c \<Longrightarrow> inv (snd (get_op c key)) \<and> fst (get_op c key) = content c key \<and>
      content (snd (get_op c key)) = content c"
    and invalidate_law: "inv c \<Longrightarrow>
      inv (invalidate_op c key) \<and> content (invalidate_op c key) = (content c)(key := None)"
    and invalidate_all_law: "inv c \<Longrightarrow>
      inv (invalidate_all_op c) \<and> content (invalidate_all_op c) = (\<lambda>_. None)"
    and store_law: "inv c \<Longrightarrow> \<exists>c'. store_op c key entry = Some c' \<and> inv c' \<and>
      content c' key = Some entry \<and> content c' \<subseteq>\<^sub>m (content c)(key \<mapsto> entry)"
begin

text \<open>
  What a client relies on: when every entry it has stored is right for its key, so is every
  entry it is given.
\<close>

definition sound :: "(CacheKey \<Rightarrow> CacheEntry \<Rightarrow> bool) \<Rightarrow> 'c \<Rightarrow> bool" where
  "sound R c \<longleftrightarrow> (\<forall>key entry. content c key = Some entry \<longrightarrow> R key entry)"

lemma sound_get:
  assumes "inv c" and "sound R c" and "get_op c key = (r, c')"
  shows "inv c' \<and> sound R c' \<and> (\<forall>entry. r = Some entry \<longrightarrow> R key entry)"
  using get_law [OF assms(1), of key] assms(2,3) by (simp add: sound_def)

lemma sound_store:
  assumes "inv c" and "sound R c" and "R key entry"
  shows "\<exists>c'. store_op c key entry = Some c' \<and> inv c' \<and> sound R c'"
proof -
  obtain c' where "store_op c key entry = Some c'" "inv c'"
    and le: "content c' \<subseteq>\<^sub>m (content c)(key \<mapsto> entry)"
    using store_law assms(1) by blast
  moreover have "R k e" if "content c' k = Some e" for k e
  proof -
    have "((content c)(key \<mapsto> entry)) k = Some e" using le that by (metis domI map_le_def)
    with assms(2,3) show ?thesis by (auto simp: sound_def split: if_splits)
  qed
  ultimately show ?thesis by (auto simp: sound_def)
qed

lemma sound_invalidate_all: "inv c \<Longrightarrow> inv (invalidate_all_op c) \<and> sound R (invalidate_all_op c)"
  by (simp add: invalidate_all_law sound_def)

lemma store_get:
  assumes "inv c" and "store_op c key entry = Some c'"
  shows "fst (get_op c' key) = Some entry"
proof -
  obtain c'' where "store_op c key entry = Some c''" "inv c''" "content c'' key = Some entry"
    using store_law assms(1) by blast
  with assms(2) show ?thesis by (simp add: get_law)
qed

end

section \<open>LRUCache\<close>

record LRUCache =
  lc_cache :: "(CacheKey, CacheEntry \<times> nat) umap"
  lc_keys :: "(nat \<times> CacheKey) list"
  lc_next :: nat
  lc_max_cache_size :: nat

definition lru_new :: "nat \<Rightarrow> LRUCache" where
  "lru_new max_cache_size = \<lparr>lc_cache = [], lc_keys = [], lc_next = 0, lc_max_cache_size = max_cache_size\<rparr>"

text \<open>\<open>keys_.erase(it)\<close>, and \<open>keys_.push_back(key)\<close> with the entry that points to it.\<close>

definition erase_it :: "nat \<Rightarrow> LRUCache \<Rightarrow> LRUCache" where
  "erase_it it c = c\<lparr>lc_keys := filter (\<lambda>n. fst n \<noteq> it) (lc_keys c)\<rparr>"

definition push_key :: "CacheKey \<Rightarrow> CacheEntry \<Rightarrow> LRUCache \<Rightarrow> LRUCache" where
  "push_key key entry c = c\<lparr>lc_keys := lc_keys c @ [(lc_next c, key)],
     lc_cache := mput key (entry, lc_next c) (lc_cache c), lc_next := Suc (lc_next c)\<rparr>"

definition lru_Get :: "LRUCache \<Rightarrow> CacheKey \<Rightarrow> CacheEntry option \<times> LRUCache" where
  "lru_Get c key =
     (case map_of (lc_cache c) key of
        None \<Rightarrow> (None, c)
      | Some (entry, it) \<Rightarrow> (Some entry, push_key key entry (erase_it it c)))"

definition lru_Invalidate :: "LRUCache \<Rightarrow> CacheKey \<Rightarrow> LRUCache" where
  "lru_Invalidate c key =
     (case map_of (lc_cache c) key of
        None \<Rightarrow> c
      | Some (entry, it) \<Rightarrow> (erase_it it c)\<lparr>lc_cache := merase key (lc_cache c)\<rparr>)"

definition lru_InvalidateAll :: "LRUCache \<Rightarrow> LRUCache" where
  "lru_InvalidateAll c = c\<lparr>lc_cache := [], lc_keys := []\<rparr>"

definition lru_Store :: "LRUCache \<Rightarrow> CacheKey \<Rightarrow> CacheEntry \<Rightarrow> LRUCache option" where
  "lru_Store c key entry =
     (case map_of (lc_cache c) key of
        Some (old, it) \<Rightarrow> Some (push_key key entry (erase_it it c))
      | None \<Rightarrow>
          if length (lc_cache c) = lc_max_cache_size c
          then (case lc_keys c of
                  [] \<Rightarrow> None
                | (it, lru) # rest \<Rightarrow>
                    Some (push_key key entry (c\<lparr>lc_cache := merase lru (lc_cache c), lc_keys := rest\<rparr>)))
          else Some (push_key key entry c))"

section \<open>The two containers agree\<close>

definition lru_wf :: "LRUCache \<Rightarrow> bool" where
  "lru_wf c \<longleftrightarrow> distinct (keys (lc_cache c)) \<and> distinct (map snd (lc_keys c)) \<and> distinct (map fst (lc_keys c)) \<and>
     (\<forall>it key. (it, key) \<in> set (lc_keys c) \<longleftrightarrow> (\<exists>entry. map_of (lc_cache c) key = Some (entry, it))) \<and>
     (\<forall>(it, key) \<in> set (lc_keys c). it < lc_next c)"

definition lru_inv :: "LRUCache \<Rightarrow> bool" where
  "lru_inv c \<longleftrightarrow> lru_wf c \<and> 0 < lc_max_cache_size c \<and> length (lc_cache c) \<le> lc_max_cache_size c"

lemma lru_wf_keys: "lru_wf c \<Longrightarrow> set (map snd (lc_keys c)) = set (keys (lc_cache c))"
  by (force simp: lru_wf_def contains_iff [symmetric] contains_map_of simp del: list.set_map
      intro!: set_eqI simp: image_iff Bex_def in_set_conv_decomp)

lemma lru_wfD:
  assumes "lru_wf c"
  shows "(it, key) \<in> set (lc_keys c) \<longleftrightarrow> (\<exists>entry. map_of (lc_cache c) key = Some (entry, it))"
    "map_of (lc_cache c) key = Some (entry, it) \<Longrightarrow> it < lc_next c"
proof -
  note w = conjunct2 [OF conjunct2 [OF conjunct2 [OF assms [unfolded lru_wf_def]]]]
  show ex: "(it, key) \<in> set (lc_keys c) \<longleftrightarrow> (\<exists>entry. map_of (lc_cache c) key = Some (entry, it))"
    for it key by (rule conjunct1 [OF w, rule_format])
  assume "map_of (lc_cache c) key = Some (entry, it)"
  then have "(it, key) \<in> set (lc_keys c)" unfolding ex by (rule exI)
  from bspec [OF conjunct2 [OF w] this] show "it < lc_next c" by simp
qed

lemma lru_wf_length: "lru_wf c \<Longrightarrow> length (lc_keys c) = length (lc_cache c)"
proof -
  assume c: "lru_wf c"
  then have "distinct (map snd (lc_keys c))" "distinct (keys (lc_cache c))" by (simp_all only: lru_wf_def)
  from distinct_card [OF this(1)] distinct_card [OF this(2)] lru_wf_keys [OF c] show ?thesis
    by (simp only: length_map)
qed

text \<open>The iterator of a key leads to the list's only node with that key.\<close>

lemma filter_it:
  assumes "lru_wf c" and "map_of (lc_cache c) key = Some (entry, it)"
  shows "filter (\<lambda>n. fst n \<noteq> it) (lc_keys c) = filter (\<lambda>n. snd n \<noteq> key) (lc_keys c)"
proof (rule filter_cong [OF refl])
  fix n assume n: "n \<in> set (lc_keys c)"
  have k: "(it, key) \<in> set (lc_keys c)" using lru_wfD(1) [OF assms(1)] assms(2) by blast
  have "inj_on fst (set (lc_keys c))" "inj_on snd (set (lc_keys c))"
    using assms(1) by (auto simp: lru_wf_def distinct_map)
  with n k show "(fst n \<noteq> it) = (snd n \<noteq> key)"
    by (metis fst_conv inj_onD snd_conv)
qed

lemma lru_wf_push:
  assumes "lru_wf c" and "lc_keys d = filter (\<lambda>n. snd n \<noteq> key) (lc_keys c)"
    and "map_of (lc_cache d) = (map_of (lc_cache c)) (key := x)" and "distinct (keys (lc_cache d))"
    and "lc_next d = lc_next c"
  shows "lru_wf (push_key key entry d)"
proof -
  have d: "distinct (map snd (filter P (lc_keys c)))" "distinct (map fst (filter P (lc_keys c)))" for P
    using assms(1) by (auto simp: lru_wf_def distinct_map_filter)
  note old = lru_wfD(1) [OF assms(1)] and lt = lru_wfD(2) [OF assms(1)]
  have "\<forall>(it, k) \<in> set (lc_keys d). it < lc_next d" "lc_next d \<notin> fst ` set (lc_keys d)" "key \<notin> snd ` set (lc_keys d)"
    using old lt assms(2,5) by force+
  moreover from this(1) have "\<forall>(it, k) \<in> set (lc_keys d). it < Suc (lc_next d)" by auto
  moreover have "(it, k) \<in> set (lc_keys (push_key key entry d)) \<longleftrightarrow>
      (\<exists>e. map_of (lc_cache (push_key key entry d)) k = Some (e, it))" for it k
    using old assms(2,3) by (auto simp: push_key_def)
  ultimately show ?thesis
    using assms(2,4) d unfolding lru_wf_def by (simp add: push_key_def)
qed

lemma lru_wf_push_old:
  assumes "lru_wf c" and "map_of (lc_cache c) key = Some (old, it)"
  shows "lru_wf (push_key key entry (erase_it it c))"
  using assms filter_it [OF assms]
  by (intro lru_wf_push [OF assms(1), where x = "Some (old, it)"]) (auto simp: erase_it_def lru_wf_def fun_eq_iff)

lemma lru_wf_push_new:
  assumes "lru_wf c" and "map_of (lc_cache c) key = None"
  shows "lru_wf (push_key key entry c)"
proof (rule lru_wf_push [OF assms(1), where x = None])
  show "lc_keys c = filter (\<lambda>n. snd n \<noteq> key) (lc_keys c)"
    using lru_wfD(1) [OF assms(1)] assms(2) by (intro filter_True [symmetric]) force
qed (use assms in \<open>auto simp: lru_wf_def fun_eq_iff\<close>)

lemma lru_wf_merase:
  assumes "lru_wf c"
  shows "lru_wf (c\<lparr>lc_cache := merase key (lc_cache c), lc_keys := filter (\<lambda>n. snd n \<noteq> key) (lc_keys c)\<rparr>)"
  using assms by (auto simp: lru_wf_def distinct_map_filter)

lemma lru_front:
  assumes "lru_wf c" and "lc_keys c = (it, lru) # rest"
  shows "rest = filter (\<lambda>n. snd n \<noteq> lru) (lc_keys c)" "contains (lc_cache c) lru"
proof -
  have "lru \<notin> snd ` set rest" using assms by (simp add: lru_wf_def)
  then have "\<forall>n \<in> set rest. snd n \<noteq> lru" by auto
  then show "rest = filter (\<lambda>n. snd n \<noteq> lru) (lc_keys c)" using assms(2) by simp
  show "contains (lc_cache c) lru"
    using lru_wfD(1) [OF assms(1), of it lru] assms(2) by (simp add: contains_map_of) blast
qed

section \<open>A list in the order of use\<close>

definition lru_abs :: "LRUCache \<Rightarrow> (CacheKey \<times> CacheEntry) list" where
  "lru_abs c = map (\<lambda>(it, key). (key, fst (the (map_of (lc_cache c) key)))) (lc_keys c)"

definition spec_get :: "CacheKey \<Rightarrow> (CacheKey \<times> CacheEntry) list \<Rightarrow>
    CacheEntry option \<times> (CacheKey \<times> CacheEntry) list" where
  "spec_get key xs = (map_of xs key,
     case map_of xs key of None \<Rightarrow> xs | Some entry \<Rightarrow> merase key xs @ [(key, entry)])"

definition spec_store :: "nat \<Rightarrow> CacheKey \<Rightarrow> CacheEntry \<Rightarrow> (CacheKey \<times> CacheEntry) list \<Rightarrow>
    (CacheKey \<times> CacheEntry) list" where
  "spec_store capacity key entry xs =
     merase key (if contains xs key \<or> length xs < capacity then xs else tl xs) @ [(key, entry)]"

lemma lru_abs_keys: "keys (lru_abs c) = map snd (lc_keys c)"
  by (simp add: lru_abs_def case_prod_beta comp_def)

lemma length_lru_abs: "lru_wf c \<Longrightarrow> length (lru_abs c) = length (lc_cache c)"
  by (simp add: lru_abs_def lru_wf_length)

lemma map_of_lru_abs:
  assumes "lru_wf c"
  shows "map_of (lru_abs c) = map_option fst \<circ> map_of (lc_cache c)"
proof
  fix key
  show "map_of (lru_abs c) key = (map_option fst \<circ> map_of (lc_cache c)) key"
  proof (cases "map_of (lc_cache c) key")
    case None
    then have "key \<notin> set (keys (lru_abs c))"
      using lru_wf_keys [OF assms] by (simp add: lru_abs_keys map_of_eq_None_iff)
    then have "map_of (lru_abs c) key = None" by (simp add: map_of_eq_None_iff)
    with None show ?thesis by simp
  next
    case (Some e)
    then have "(snd e, key) \<in> set (lc_keys c)" using lru_wfD(1) [OF assms] by (metis prod.collapse)
    then have "(key, fst e) \<in> set (lru_abs c)" using Some by (force simp: lru_abs_def)
    moreover have "distinct (keys (lru_abs c))" using assms by (simp add: lru_abs_keys lru_wf_def)
    ultimately show ?thesis using Some by simp
  qed
qed

lemma merase_lru_abs:
  "merase key (lru_abs c) = map (\<lambda>(it, k). (k, fst (the (map_of (lc_cache c) k)))) (filter (\<lambda>n. snd n \<noteq> key) (lc_keys c))"
  by (simp add: merase_filter lru_abs_def filter_map comp_def case_prod_beta)

lemma lru_abs_push:
  assumes "lc_keys d = filter (\<lambda>n. snd n \<noteq> key) (lc_keys c)" and "\<forall>k. k \<noteq> key \<longrightarrow> map_of (lc_cache d) k = map_of (lc_cache c) k"
  shows "lru_abs (push_key key entry d) = merase key (lru_abs c) @ [(key, entry)]"
  using assms unfolding merase_lru_abs by (auto simp: lru_abs_def push_key_def)

lemma lru_Get_refines:
  assumes "lru_wf c"
  shows "lru_wf (snd (lru_Get c key))" "fst (lru_Get c key) = fst (spec_get key (lru_abs c))"
    "lru_abs (snd (lru_Get c key)) = snd (spec_get key (lru_abs c))"
proof -
  show "lru_wf (snd (lru_Get c key))"
    using assms lru_wf_push_old by (auto simp: lru_Get_def split: option.split)
  show "fst (lru_Get c key) = fst (spec_get key (lru_abs c))"
    by (auto simp: lru_Get_def spec_get_def map_of_lru_abs [OF assms] split: option.split)
  show "lru_abs (snd (lru_Get c key)) = snd (spec_get key (lru_abs c))"
    using filter_it [OF assms]
    by (auto simp: lru_Get_def spec_get_def map_of_lru_abs [OF assms] erase_it_def intro!: lru_abs_push split: option.split)
qed

lemma lru_Store_refines:
  assumes "lru_inv c"
  shows "\<exists>c'. lru_Store c key entry = Some c' \<and> lru_inv c' \<and> lc_max_cache_size c' = lc_max_cache_size c \<and>
    lru_abs c' = spec_store (lc_max_cache_size c) key entry (lru_abs c)"
proof -
  have wf: "lru_wf c" and size: "0 < lc_max_cache_size c" "length (lc_cache c) \<le> lc_max_cache_size c"
    using assms by (simp_all add: lru_inv_def)
  have ca: "contains (lru_abs c) key \<longleftrightarrow> contains (lc_cache c) key"
    by (simp add: contains_def map_of_lru_abs [OF wf])
  show ?thesis
  proof (cases "map_of (lc_cache c) key")
    case (Some e)
    then obtain old it where e: "map_of (lc_cache c) key = Some (old, it)" by (cases e) auto
    have "lru_abs (push_key key entry (erase_it it c)) = merase key (lru_abs c) @ [(key, entry)]"
      using filter_it [OF wf e] by (intro lru_abs_push) (simp_all add: erase_it_def)
    moreover have "length (lc_cache (push_key key entry (erase_it it c))) = length (lc_cache c)"
      using e by (simp add: push_key_def erase_it_def length_mput contains_def)
    ultimately show ?thesis
      using e size lru_wf_push_old [OF wf e] ca
      by (simp add: lru_Store_def lru_inv_def spec_store_def contains_def) (simp add: push_key_def erase_it_def)
  next
    case None
    show ?thesis
    proof (cases "length (lc_cache c) = lc_max_cache_size c")
      case False
      have "filter (\<lambda>n. snd n \<noteq> key) (lc_keys c) = lc_keys c"
        using lru_wfD(1) [OF wf] None by (intro filter_True) force
      then have "lru_abs (push_key key entry c) = merase key (lru_abs c) @ [(key, entry)]"
        by (intro lru_abs_push) simp_all
      with False None size lru_wf_push_new [OF wf None] show ?thesis
        by (simp add: lru_Store_def lru_inv_def spec_store_def length_lru_abs [OF wf])
          (simp add: push_key_def length_mput contains_def)
    next
      case True
      then obtain it lru rest where ks: "lc_keys c = (it, lru) # rest"
        using size lru_wf_length [OF wf] by (cases "lc_keys c") auto
      note fr = lru_front [OF wf ks]
      let ?c = "c\<lparr>lc_cache := merase lru (lc_cache c), lc_keys := rest\<rparr>"
      have wf1: "lru_wf ?c" using lru_wf_merase [OF wf, of lru] fr(1) by simp
      have n1: "map_of (lc_cache ?c) key = None" using None by simp
      have "filter (\<lambda>n. snd n \<noteq> key) (lc_keys ?c) = lc_keys ?c"
        using lru_wfD(1) [OF wf1] n1 by (intro filter_True) force
      then have ab: "lru_abs (push_key key entry ?c) = merase key (lru_abs ?c) @ [(key, entry)]"
        by (intro lru_abs_push) simp_all
      have "lru_abs ?c = merase lru (lru_abs c)"
        unfolding merase_lru_abs using fr(1) by (auto simp: lru_abs_def)
      also have "\<dots> = tl (lru_abs c)" unfolding merase_lru_abs using fr(1) ks by (simp add: lru_abs_def)
      finally have "lru_abs (push_key key entry ?c) = spec_store (lc_max_cache_size c) key entry (lru_abs c)"
        using ab ca None True by (simp add: spec_store_def length_lru_abs [OF wf] contains_def)
      moreover have "Suc (length (lc_cache ?c)) = length (lc_cache c)"
        using fr(2) wf by (simp add: length_merase lru_wf_def)
      ultimately show ?thesis
        using True None ks size lru_wf_push_new [OF wf1 n1]
        by (simp add: lru_Store_def lru_inv_def) (simp add: push_key_def length_mput contains_def)
    qed
  qed
qed

lemma lru_Invalidate_refines:
  assumes "lru_wf c"
  shows "lru_wf (lru_Invalidate c key)" "lru_abs (lru_Invalidate c key) = merase key (lru_abs c)"
proof -
  have "lru_wf (c\<lparr>lc_keys := filter (\<lambda>n. snd n \<noteq> key) (lc_keys c), lc_cache := merase key (lc_cache c)\<rparr>)"
    using lru_wf_merase [OF assms, of key] by (simp add: lru_wf_def)
  then show "lru_wf (lru_Invalidate c key)"
    using assms filter_it [OF assms]
    by (auto simp: lru_Invalidate_def erase_it_def split: option.split)
  show "lru_abs (lru_Invalidate c key) = merase key (lru_abs c)"
  proof (cases "map_of (lc_cache c) key")
    case None
    then have "filter (\<lambda>n. snd n \<noteq> key) (lc_keys c) = lc_keys c"
      using lru_wfD(1) [OF assms] by (intro filter_True) force
    with None show ?thesis unfolding merase_lru_abs by (simp add: lru_Invalidate_def lru_abs_def)
  next
    case (Some e)
    with filter_it [OF assms, of key "fst e" "snd e"] show ?thesis
      unfolding merase_lru_abs by (auto simp: lru_Invalidate_def lru_abs_def erase_it_def split: prod.split)
  qed
qed

section \<open>The interface, provided\<close>

definition lru_content :: "LRUCache \<Rightarrow> CacheKey \<rightharpoonup> CacheEntry" where
  "lru_content c = map_of (lru_abs c)"

lemma lru_inv_new: "0 < n \<Longrightarrow> lru_inv (lru_new n)"
  by (simp add: lru_inv_def lru_wf_def lru_new_def)

lemma lru_inv_Get: "lru_inv c \<Longrightarrow> lru_inv (snd (lru_Get c key))"
  using lru_Get_refines(1) [of c key]
  by (auto simp: lru_inv_def lru_Get_def push_key_def erase_it_def length_mput contains_def split: option.splits)

lemma lru_inv_Invalidate:
  assumes "lru_inv c"
  shows "lru_inv (lru_Invalidate c key)"
proof -
  have "length (lc_cache (lru_Invalidate c key)) \<le> length (lc_cache c)"
    by (auto simp: lru_Invalidate_def erase_it_def merase_filter split: option.split)
  moreover have "lc_max_cache_size (lru_Invalidate c key) = lc_max_cache_size c"
    by (auto simp: lru_Invalidate_def erase_it_def split: option.split)
  ultimately show ?thesis using assms lru_Invalidate_refines(1) [of c key] by (simp add: lru_inv_def)
qed

lemma map_of_snoc: "[key \<mapsto> entry] ++ map_of (merase key xs) = (map_of xs)(key \<mapsto> entry)"
  by (rule ext) (simp add: map_add_def split: option.split)

lemma map_of_tl: "distinct (keys xs) \<Longrightarrow> map_of (tl xs) \<subseteq>\<^sub>m map_of xs"
  by (cases xs) (force simp: map_le_def dom_map_of_conv_image_fst)+

lemma map_of_spec_store:
  "distinct (keys xs) \<Longrightarrow> map_of (spec_store n key entry xs) \<subseteq>\<^sub>m (map_of xs)(key \<mapsto> entry)"
  by (simp add: spec_store_def map_of_snoc map_of_tl map_le_upd)

lemma map_of_spec_store_key: "map_of (spec_store n key entry xs) key = Some entry"
  by (simp add: spec_store_def map_of_snoc)

interpretation lru: cache lru_inv lru_content lru_Get lru_Invalidate lru_InvalidateAll lru_Store
proof unfold_locales
  fix c :: LRUCache and key assume i: "lru_inv c"
  then have wf: "lru_wf c" by (simp add: lru_inv_def)
  show "lru_inv (snd (lru_Get c key)) \<and> fst (lru_Get c key) = lru_content c key \<and>
      lru_content (snd (lru_Get c key)) = lru_content c"
    using lru_inv_Get [OF i] lru_Get_refines(2,3) [OF wf]
    by (auto simp: lru_content_def spec_get_def map_of_snoc fun_upd_idem split: option.split)
  show "lru_inv (lru_Invalidate c key) \<and> lru_content (lru_Invalidate c key) = (lru_content c)(key := None)"
    using lru_inv_Invalidate [OF i] lru_Invalidate_refines(2) [OF wf] by (auto simp: lru_content_def)
  show "lru_inv (lru_InvalidateAll c) \<and> lru_content (lru_InvalidateAll c) = (\<lambda>_. None)"
    using i by (auto simp: lru_inv_def lru_wf_def lru_InvalidateAll_def lru_content_def lru_abs_def)
  fix entry
  have "distinct (keys (lru_abs c))" using wf by (simp add: lru_abs_keys lru_wf_def)
  note le = map_of_spec_store [OF this, of "lc_max_cache_size c" key entry]
  obtain c' where "lru_Store c key entry = Some c'" "lru_inv c'"
    "lru_abs c' = spec_store (lc_max_cache_size c) key entry (lru_abs c)"
    using lru_Store_refines [OF i, of key entry] by blast
  with le show "\<exists>c'. lru_Store c key entry = Some c' \<and> lru_inv c' \<and> lru_content c' key = Some entry \<and>
      lru_content c' \<subseteq>\<^sub>m (lru_content c)(key \<mapsto> entry)"
    by (intro exI [of _ c']) (simp add: lru_content_def map_of_spec_store_key)
qed

text \<open>A cache of capacity 0 takes the front of an empty list on its first \<open>Store\<close>.\<close>

lemma lru_Store_capacity_0: "lru_Store (lru_new 0) key entry = None"
  by (simp add: lru_Store_def lru_new_def)

end
