(* ===== verification/Engine.thy ===== *)
theory Engine
  imports ReplicaManager Metrics LruCache InputValidator
begin

text \<open>
  \<open>Engine\<close> (engine.h, engine.cc): the state and every operation. The five maps are keyed by
  the name of the table; an operation returns its result and the new engine, or \<open>None\<close> when
  it would throw, deadlock or use an undefined value. Parameters stand for what the platform
  decides: the level of a node (\<open>rl\<close>), \<open>std::hash<float>\<close> (\<open>hash_float\<close>), the measured
  latencies and the network (\<open>net\<close>).
\<close>

section \<open>State\<close>

datatype LoggerType = SILENT | LOCAL | REMOTE

record Metadata =
  md_name :: string
  md_primary :: bool
  md_sync_server_address :: string
  md_replicas :: "string list"
  md_reindex_threshold :: f32
  md_use_cache :: bool
  md_cleanup_interval :: int
  md_sync_interval :: int
  md_logger_type :: LoggerType

record Engine =
  en_metadata :: Metadata
  en_shutdown :: bool
  en_store_map :: "(string, VectorStore) umap"
  en_persistence_manager_map :: "(string, PersistenceManager) umap"
  en_stats_manager_map :: "(string, StatsManager) umap"
  en_metrics_manager_map :: "(string, Metrics) umap"
  en_cache_map :: "(string, LRUCache) umap"
  en_disk :: disk
  en_wal_offsets :: offsets

text \<open>\<open>map[key]\<close> for a key that a guard has found in the map.\<close>

abbreviation mref :: "('k, 'v) umap \<Rightarrow> 'k \<Rightarrow> 'v" where
  "mref m k \<equiv> the (map_of m k)"

definition set_store :: "string \<Rightarrow> VectorStore \<Rightarrow> Engine \<Rightarrow> Engine" where
  "set_store t s e = e\<lparr>en_store_map := mput t s (en_store_map e)\<rparr>"

definition upd_stats :: "string \<Rightarrow> (StatsManager \<Rightarrow> StatsManager) \<Rightarrow> Engine \<Rightarrow> Engine" where
  "upd_stats t f e = e\<lparr>en_stats_manager_map := mput t (f (mref (en_stats_manager_map e) t)) (en_stats_manager_map e)\<rparr>"

definition upd_metrics :: "string \<Rightarrow> (Metrics \<Rightarrow> Metrics) \<Rightarrow> Engine \<Rightarrow> Engine" where
  "upd_metrics t f e =
     e\<lparr>en_metrics_manager_map := mput t (f (mref (en_metrics_manager_map e) t)) (en_metrics_manager_map e)\<rparr>"

definition upd_disk :: "(disk \<Rightarrow> disk) \<Rightarrow> Engine \<Rightarrow> Engine" where
  "upd_disk f e = e\<lparr>en_disk := f (en_disk e)\<rparr>"

section \<open>Guards\<close>

definition writable :: "Engine \<Rightarrow> string \<Rightarrow> bool" where
  "writable e t \<longleftrightarrow> \<not> (\<not> md_primary (en_metadata e) \<or> en_shutdown e \<or>
     (\<not> contains (en_store_map e) t \<or> \<not> contains (en_persistence_manager_map e) t \<or>
      \<not> contains (en_stats_manager_map e) t \<or> \<not> contains (en_metrics_manager_map e) t))"

definition searchable_table :: "Engine \<Rightarrow> string \<Rightarrow> bool" where
  "searchable_table e t \<longleftrightarrow> \<not> (en_shutdown e \<or>
     (\<not> contains (en_store_map e) t \<or> \<not> contains (en_metrics_manager_map e) t))"

definition table_exists :: "Engine \<Rightarrow> string \<Rightarrow> bool" where
  "table_exists e t \<longleftrightarrow> contains (en_store_map e) t \<and> contains (en_persistence_manager_map e) t \<and>
     contains (en_stats_manager_map e) t \<and> contains (en_metrics_manager_map e) t \<and> contains (en_cache_map e) t"

definition table_absent :: "Engine \<Rightarrow> string \<Rightarrow> bool" where
  "table_absent e t \<longleftrightarrow> \<not> (contains (en_store_map e) t \<or> contains (en_persistence_manager_map e) t \<or>
     contains (en_stats_manager_map e) t \<or> contains (en_metrics_manager_map e) t \<or> contains (en_cache_map e) t)"

section \<open>Insert and remove\<close>

text \<open>A write makes the cache of a modified table stale.\<close>

definition invalidate_cache :: "string \<Rightarrow> Engine \<Rightarrow> Engine" where
  "invalidate_cache t e =
     (if md_use_cache (en_metadata e) \<and> contains (en_cache_map e) t \<and> sm_modified (mref (en_stats_manager_map e) t)
      then e\<lparr>en_cache_map := mput t (lru_InvalidateAll (mref (en_cache_map e) t)) (en_cache_map e)\<rparr>
      else e)"

text \<open>The log first, then the store; flags and counters when the store has taken it.\<close>

definition insert_step :: "level_fun \<Rightarrow> string \<Rightarrow> Id \<Rightarrow> vector \<Rightarrow> string \<Rightarrow> Engine \<Rightarrow> (bool \<times> Engine) option" where
  "insert_step rl t i v content e =
     (let e1 = upd_disk (pm_AppendInsert (mref (en_persistence_manager_map e) t) i v content) e
      in case store_Insert rl (mref (en_store_map e1) t) i v content of
           None \<Rightarrow> None
         | Some (ok, s) \<Rightarrow>
             (let e2 = set_store t s e1
              in Some (ok, if ok
                  then upd_metrics t (metrics_Increment INSERT 1)
                         (upd_stats t (stats_Increment VECTOR) (upd_stats t (stats_SetModifiedFlag True) e2))
                  else e2)))"

definition remove_step :: "string \<Rightarrow> Id \<Rightarrow> Engine \<Rightarrow> bool \<times> Engine" where
  "remove_step t i e =
     (let e1 = upd_disk (pm_AppendRemove (mref (en_persistence_manager_map e) t) i) e;
          (ok, s) = store_Remove (mref (en_store_map e1) t) i;
          e2 = set_store t s e1
      in (ok, if ok
          then upd_metrics t (metrics_Increment REMOVE 1)
                 (upd_stats t (stats_Increment STALE) (upd_stats t (stats_Increment DELETED)
                   (upd_stats t (stats_SetRemovedFlag True) (upd_stats t (stats_SetModifiedFlag True) e2))))
          else e2))"

definition engine_Insert ::
  "level_fun \<Rightarrow> Engine \<Rightarrow> string \<Rightarrow> Id \<Rightarrow> vector \<Rightarrow> string \<Rightarrow> (bool \<times> Engine) option" where
  "engine_Insert rl e t i v content =
     (if \<not> writable e t then Some (False, e)
      else if \<not> ValidateInsert t i v content then Some (False, e)
      else map_option (\<lambda>(ok, e'). (ok, invalidate_cache t e')) (insert_step rl t i v content e))"

definition engine_Remove :: "Engine \<Rightarrow> string \<Rightarrow> Id \<Rightarrow> bool \<times> Engine" where
  "engine_Remove e t i =
     (if \<not> writable e t then (False, e)
      else if \<not> ValidateRemove t i then (False, e)
      else let (ok, e') = remove_step t i e in (ok, invalidate_cache t e'))"

fun insert_steps :: "level_fun \<Rightarrow> string \<Rightarrow> (Id \<times> vector \<times> string) list \<Rightarrow> Engine \<Rightarrow> (bool list \<times> Engine) option" where
  "insert_steps rl t [] e = Some ([], e)"
| "insert_steps rl t ((i, v, content) # rest) e =
     (case insert_step rl t i v content e of
        None \<Rightarrow> None
      | Some (ok, e') \<Rightarrow> map_option (\<lambda>(oks, e''). (ok # oks, e'')) (insert_steps rl t rest e'))"

fun remove_steps :: "string \<Rightarrow> Id list \<Rightarrow> Engine \<Rightarrow> bool list \<times> Engine" where
  "remove_steps t [] e = ([], e)"
| "remove_steps t (i # rest) e =
     (let (ok, e') = remove_step t i e; (oks, e'') = remove_steps t rest e' in (ok # oks, e''))"

definition engine_BatchInsert ::
  "level_fun \<Rightarrow> Engine \<Rightarrow> string \<Rightarrow> (Id \<times> vector \<times> string) list \<Rightarrow> (bool list \<times> Engine) option" where
  "engine_BatchInsert rl e t vectors =
     (if \<not> writable e t then Some (replicate (length vectors) False, e)
      else if \<exists>(i, v, content) \<in> set vectors. \<not> ValidateInsert t i v content
      then Some (replicate (length vectors) False, e)
      else map_option (\<lambda>(oks, e'). (oks, invalidate_cache t e')) (insert_steps rl t vectors e))"

definition engine_BatchRemove :: "Engine \<Rightarrow> string \<Rightarrow> Id list \<Rightarrow> bool list \<times> Engine" where
  "engine_BatchRemove e t ids =
     (if \<not> writable e t then (replicate (length ids) False, e)
      else if \<exists>i \<in> set ids. \<not> ValidateRemove t i then (replicate (length ids) False, e)
      else let (oks, e') = remove_steps t ids e in (oks, invalidate_cache t e'))"

section \<open>Search\<close>

definition engine_Search ::
  "Engine \<Rightarrow> f32 \<Rightarrow> string \<Rightarrow> vector \<Rightarrow> nat \<Rightarrow> nat \<Rightarrow> (Data list \<times> Engine) option" where
  "engine_Search e latency t query k search_param =
     (if \<not> searchable_table e t then Some ([], e)
      else if \<not> ValidateSearch t query k search_param then Some ([], e)
      else map_option
        (\<lambda>data. (data, upd_metrics t (metrics_Increment SEARCH 1)
                         (upd_metrics t (metrics_CalculateSearchLatency latency) e)))
        (store_Search (mref (en_store_map e) t) query k search_param))"

type_synonym request = "vector \<times> nat \<times> nat"

text \<open>Every second component, from the first.\<close>

fun evens :: "'a list \<Rightarrow> 'a list" where
  "evens [] = []"
| "evens [x] = [x]"
| "evens (x # y # xs) = x # evens xs"

definition hash_request :: "(f32 \<Rightarrow> u64) \<Rightarrow> request \<Rightarrow> u64 \<Rightarrow> u64" where
  "hash_request hash_float r hash =
     (case r of (v, k, search_param) \<Rightarrow>
        fold (\<lambda>x hash. xor hash (hash_float x)) (evens v) (xor (xor hash (of_nat k)) (of_nat search_param)))"

definition hash_key :: "(f32 \<Rightarrow> u64) \<Rightarrow> request list \<Rightarrow> u64" where
  "hash_key hash_float requests = fold (hash_request hash_float) requests (of_nat (length requests))"

definition to_cache :: "Data list list \<Rightarrow> CacheEntry" where
  "to_cache results = map (map (\<lambda>d. \<lparr>cd_id = d_id d, cd_vector = d_vector d, cd_content = d_content d\<rparr>)) results"

definition from_cache :: "CacheEntry \<Rightarrow> Data list list" where
  "from_cache entry = map (map (\<lambda>d. \<lparr>d_id = cd_id d, d_vector = cd_vector d, d_content = cd_content d\<rparr>)) entry"

definition search_requests :: "VectorStore \<Rightarrow> request list \<Rightarrow> Data list list option" where
  "search_requests s requests = those (map (\<lambda>(query, k, search_param). store_Search s query k search_param) requests)"

text \<open>The tasks of the pool record their latencies, in the order they finish.\<close>

definition count_searches :: "string \<Rightarrow> f32 list \<Rightarrow> Engine \<Rightarrow> Engine" where
  "count_searches t latencies e =
     fold (\<lambda>l e. upd_metrics t (metrics_Increment SEARCH 1) (upd_metrics t (metrics_CalculateSearchLatency l) e))
       latencies e"

definition set_cache :: "string \<Rightarrow> LRUCache \<Rightarrow> Engine \<Rightarrow> Engine" where
  "set_cache t c e = e\<lparr>en_cache_map := mput t c (en_cache_map e)\<rparr>"

definition run_batch ::
  "string \<Rightarrow> f32 list \<Rightarrow> request list \<Rightarrow> Engine \<Rightarrow> (Data list list \<times> Engine) option" where
  "run_batch t latencies requests e =
     map_option (\<lambda>results. (results, count_searches t latencies e))
       (search_requests (mref (en_store_map e) t) requests)"

definition engine_BatchSearch :: "(f32 \<Rightarrow> u64) \<Rightarrow> Engine \<Rightarrow> f32 list \<Rightarrow> string \<Rightarrow> request list \<Rightarrow>
    (Data list list \<times> Engine) option" where
  "engine_BatchSearch hash_float e latencies t requests =
     (if \<not> searchable_table e t then Some ([], e)
      else if \<exists>(query, k, search_param) \<in> set requests. \<not> ValidateSearch t query k search_param then Some ([], e)
      else if \<not> md_use_cache (en_metadata e) then run_batch t latencies requests e
      else if \<not> contains (en_cache_map e) t then Some ([], e)
      else
        let key = hash_key hash_float requests;
            (hit, c) = lru_Get (mref (en_cache_map e) t) key;
            e1 = set_cache t c e
        in case hit of
             Some entry \<Rightarrow> Some (from_cache entry, upd_metrics t (metrics_Increment CACHE_HIT 1) e1)
           | None \<Rightarrow>
               (case run_batch t latencies requests (upd_metrics t (metrics_Increment CACHE_MISS 1) e1) of
                  None \<Rightarrow> None
                | Some (results, e2) \<Rightarrow>
                    map_option (\<lambda>c'. (results, set_cache t c' e2))
                      (lru_Store (mref (en_cache_map e2) t) key (to_cache results))))"

section \<open>Statistics and tables\<close>

definition engine_GetStats :: "Engine \<Rightarrow> string \<Rightarrow> Stats" where
  "engine_GetStats e t =
     (if en_shutdown e \<or> \<not> contains (en_stats_manager_map e) t then empty_stats
      else if \<not> ValidateStats t then empty_stats
      else sm_stats (mref (en_stats_manager_map e) t))"

definition engine_GetMetrics :: "Engine \<Rightarrow> string \<Rightarrow> Metrics" where
  "engine_GetMetrics e t =
     (if en_shutdown e \<or> \<not> contains (en_metrics_manager_map e) t then metrics_new
      else if \<not> ValidateMetrics t then metrics_new
      else mref (en_metrics_manager_map e) t)"

definition engine_ListTables :: "Engine \<Rightarrow> string list" where
  "engine_ListTables e = keys (en_store_map e)"

definition make_index :: "HNSWIndexConfig \<Rightarrow> FlatIndexConfig \<Rightarrow> IndexType \<times> StoredIndexType \<times> Index" where
  "make_index hc fc =
     (if wants_hnsw hc then (HNSW, STORED_HNSW, HnswIx (hnsw_new hc))
      else (FLAT, STORED_FLAT, FlatIx (flat_new fc)))"

text \<open>The new store, managers and cache of a table, the log opened (and so created).\<close>

definition add_table ::
  "string \<Rightarrow> int \<Rightarrow> HNSWIndexConfig \<Rightarrow> FlatIndexConfig \<Rightarrow> u64 \<Rightarrow> Engine \<Rightarrow> Engine" where
  "add_table name dim hc fc cache_size e =
     (let (index_type, stored, ix) = make_index hc fc;
          (pm, d) = pm_new stored name (en_disk e)
      in e\<lparr>en_disk := d,
           en_store_map := mput name (store_new index_type ix dim) (en_store_map e),
           en_persistence_manager_map := mput name pm (en_persistence_manager_map e),
           en_stats_manager_map := mput name stats_new (en_stats_manager_map e),
           en_metrics_manager_map := mput name metrics_new (en_metrics_manager_map e),
           en_cache_map := mput name (lru_new (unat cache_size)) (en_cache_map e)\<rparr>)"

definition engine_CreateTable ::
  "Engine \<Rightarrow> string \<Rightarrow> int \<Rightarrow> HNSWIndexConfig \<Rightarrow> FlatIndexConfig \<Rightarrow> u64 \<Rightarrow> bool \<times> Engine" where
  "engine_CreateTable e name dim hc fc cache_size =
     (if \<not> md_primary (en_metadata e) \<or> en_shutdown e then (False, e)
      else if \<not> ValidateCreateTable name dim hc fc (unat cache_size) then (False, e)
      else if \<not> table_absent e name then (False, e)
      else
        let (pm, d) = pm_new (fst (snd (make_index hc fc))) name (en_disk e);
            e1 = e\<lparr>en_disk := pm_AppendCreate pm hc fc cache_size d\<rparr>
        in (True, upd_stats name (stats_SetModifiedFlag True) (add_table name dim hc fc cache_size e1)))"

definition engine_CreateTableOnReplica ::
  "Engine \<Rightarrow> string \<Rightarrow> int \<Rightarrow> HNSWIndexConfig \<Rightarrow> FlatIndexConfig \<Rightarrow> u64 \<Rightarrow> bool \<times> Engine" where
  "engine_CreateTableOnReplica e name dim hc fc cache_size =
     (if en_shutdown e \<or> name = [] then (False, e)
      else if \<not> table_absent e name then (False, e)
      else (True, add_table name dim hc fc cache_size e))"

definition drop_maps :: "string \<Rightarrow> Engine \<Rightarrow> Engine" where
  "drop_maps name e = e
     \<lparr>en_disk := pm_Clear (mref (en_persistence_manager_map e) name) (en_disk e),
      en_store_map := merase name (en_store_map e),
      en_persistence_manager_map := merase name (en_persistence_manager_map e),
      en_stats_manager_map := merase name (en_stats_manager_map e),
      en_metrics_manager_map := merase name (en_metrics_manager_map e),
      en_cache_map := merase name (en_cache_map e)\<rparr>"

text \<open>\<open>replica_manager_->Sync (force)\<close>\<close>

definition engine_Sync :: "'w Net \<Rightarrow> bool \<Rightarrow> Engine \<times> 'w \<Rightarrow> (Engine \<times> 'w) option" where
  "engine_Sync net force ew =
     (let (e, w) = ew
      in map_option (\<lambda>(offs, stats_map, w'). (e\<lparr>en_wal_offsets := offs, en_stats_manager_map := stats_map\<rparr>, w'))
           (rm_Sync net (en_shutdown e) force (md_replicas (en_metadata e)) (en_disk e) (en_store_map e)
             (en_persistence_manager_map e) (en_wal_offsets e, en_stats_manager_map e, w)))"

definition engine_DropTable :: "'w Net \<Rightarrow> string \<Rightarrow> Engine \<times> 'w \<Rightarrow> (bool \<times> Engine \<times> 'w) option" where
  "engine_DropTable net name ew =
     (let (e, w) = ew
      in if \<not> md_primary (en_metadata e) \<or> en_shutdown e then Some (False, e, w)
         else if \<not> ValidateDropTable name then Some (False, e, w)
         else if \<not> table_exists e name then Some (False, e, w)
         else
           let e1 = upd_stats name (stats_SetModifiedFlag True) e;
               e2 = upd_disk (pm_AppendDrop (mref (en_persistence_manager_map e1) name)) e1
           in map_option (\<lambda>(e3, w'). (True, drop_maps name e3, w')) (engine_Sync net True (e2, w)))"

definition engine_DropTableOnReplica :: "Engine \<Rightarrow> string \<Rightarrow> bool \<times> Engine" where
  "engine_DropTableOnReplica e name =
     (if en_shutdown e \<or> name = [] then (False, e)
      else if \<not> table_exists e name then (False, e)
      else (True, drop_maps name e))"

section \<open>Cleanup\<close>

text \<open>The ratio of stale to all index nodes, when there are any.\<close>

definition cleanup_ratio :: "Stats \<Rightarrow> f32" where
  "cleanup_ratio st =
     (let total = vector_count st + stale_count st - deleted_count st
      in if total > 0 then fdiv (f32_of_nat (unat (stale_count st))) (f32_of_nat (unat total)) else f32_zero)"

definition engine_Cleanup :: "level_fun \<Rightarrow> f32 \<Rightarrow> string \<Rightarrow> bool \<Rightarrow> Engine \<Rightarrow> Engine option" where
  "engine_Cleanup rl latency t force e =
     (if (en_shutdown e \<and> \<not> force) \<or> (\<not> contains (en_store_map e) t \<or>
          \<not> contains (en_stats_manager_map e) t \<or> \<not> contains (en_metrics_manager_map e) t)
      then Some e
      else
        let reindex = flt (md_reindex_threshold (en_metadata e))
              (cleanup_ratio (sm_stats (mref (en_stats_manager_map e) t)))
        in case store_Cleanup rl (mref (en_store_map e) t) reindex of
             None \<Rightarrow> None
           | Some s \<Rightarrow>
               (let e1 = upd_metrics t (metrics_Increment CLEANUP 1)
                      (upd_metrics t (metrics_CalculateCleanupLatency latency) (set_store t s e));
                    e2 = upd_stats t (stats_Reset DELETED)
                      (upd_stats t stats_AdjustForDeletions (upd_stats t (stats_SetRemovedFlag False) e1))
                in Some (if reindex
                     then upd_stats t (stats_Reset STALE) (upd_metrics t (metrics_Increment REINDEX 1) e2)
                     else e2)))"

section \<open>Log entries from the primary, and replay\<close>

text \<open>The fields of a message that are not set read as their defaults.\<close>

definition default_hnsw_config :: HNSWIndexConfig where
  "default_hnsw_config = \<lparr>hc_m = 0, hc_m0 = 0, hc_ef_construction = 0, hc_ml = f32_zero,
     hc_metric = L2, hc_vector_dimensionality = 0\<rparr>"

definition default_flat_config :: FlatIndexConfig where
  "default_flat_config = \<lparr>fc_vector_dimensionality = 0, fc_metric = L2\<rparr>"

definition create_args :: "WALConfig \<Rightarrow> int \<times> HNSWIndexConfig \<times> FlatIndexConfig \<times> u64" where
  "create_args c =
     (case c of
        CreateConfig dim (HnswConfig hc) cs \<Rightarrow> (dim, hc, default_flat_config, cs)
      | CreateConfig dim (FlatConfig fc) cs \<Rightarrow> (dim, default_hnsw_config, fc, cs)
      | CreateConfig dim NoIndexConfig cs \<Rightarrow> (dim, default_hnsw_config, default_flat_config, cs)
      | _ \<Rightarrow> (0, default_hnsw_config, default_flat_config, 0))"

definition insert_args :: "WALConfig \<Rightarrow> Id \<times> vector \<times> string" where
  "insert_args c = (case c of InsertConfig i v content \<Rightarrow> (i, v, content) | _ \<Rightarrow> (0, [], []))"

definition remove_args :: "WALConfig \<Rightarrow> Id" where
  "remove_args c = (case c of RemoveConfig i \<Rightarrow> i | _ \<Rightarrow> 0)"

definition apply_insert :: "level_fun \<Rightarrow> string \<Rightarrow> Id \<Rightarrow> vector \<Rightarrow> string \<Rightarrow> Engine \<Rightarrow> (bool \<times> Engine) option" where
  "apply_insert rl t i v content e =
     (case store_Insert rl (mref (en_store_map e) t) i v content of
        None \<Rightarrow> None
      | Some (ok, s) \<Rightarrow>
          Some (ok, if ok then upd_stats t (stats_Increment VECTOR) (set_store t s e) else set_store t s e))"

definition apply_remove :: "string \<Rightarrow> Id \<Rightarrow> Engine \<Rightarrow> bool \<times> Engine" where
  "apply_remove t i e =
     (let (ok, s) = store_Remove (mref (en_store_map e) t) i; e1 = set_store t s e
      in (ok, if ok
          then upd_stats t (stats_Increment STALE)
                 (upd_stats t (stats_Increment DELETED) (upd_stats t (stats_SetRemovedFlag True) e1))
          else e1))"

definition engine_ApplyWALEntry ::
  "level_fun \<Rightarrow> 'w Net \<Rightarrow> WALEntry \<Rightarrow> Engine \<times> 'w \<Rightarrow> (bool \<times> Engine \<times> 'w) option" where
  "engine_ApplyWALEntry rl net entry ew =
     (let (e, w) = ew; t = we_table entry
      in case we_type entry of
           WAL_CREATE \<Rightarrow>
             (let (dim, hc, fc, cs) = create_args (we_config entry);
                  (ok, e') = (if md_primary (en_metadata e) then engine_CreateTable e t dim hc fc cs
                              else engine_CreateTableOnReplica e t dim hc fc cs)
              in Some (ok, e', w))
         | WAL_DROP \<Rightarrow>
             if md_primary (en_metadata e) then engine_DropTable net t (e, w)
             else (let (ok, e') = engine_DropTableOnReplica e t in Some (ok, e', w))
         | WAL_INSERT \<Rightarrow>
             if \<not> contains (en_store_map e) t \<or> \<not> contains (en_stats_manager_map e) t then Some (False, e, w)
             else (let (i, v, content) = insert_args (we_config entry)
                   in map_option (\<lambda>(ok, e'). (ok, e', w)) (apply_insert rl t i v content e))
         | WAL_REMOVE \<Rightarrow>
             if \<not> contains (en_store_map e) t \<or> \<not> contains (en_stats_manager_map e) t then Some (False, e, w)
             else (let (ok, e') = apply_remove t (remove_args (we_config entry)) e in Some (ok, e', w)))"

text \<open>
  \<open>ReplayWAL\<close> holds the mutex of the log while it calls back: a \<open>drop\<close> entry that gets past the
  guards of \<open>DropTable\<close> waits for that mutex in \<open>AppendDrop\<close>, for ever.
\<close>

definition replay_entry :: "level_fun \<Rightarrow> 'w Net \<Rightarrow> WALEntry \<Rightarrow> Engine \<times> 'w \<Rightarrow> (Engine \<times> 'w) option" where
  "replay_entry rl net entry ew =
     (if we_type entry = WAL_DROP \<and> md_primary (en_metadata (fst ew)) \<and> \<not> en_shutdown (fst ew) \<and>
         ValidateDropTable (we_table entry) \<and> table_exists (fst ew) (we_table entry)
      then None
      else map_option snd (engine_ApplyWALEntry rl net entry ew))"

section \<open>Start and shutdown\<close>

definition engine_init :: "Metadata \<Rightarrow> disk \<Rightarrow> Engine" where
  "engine_init md d = \<lparr>en_metadata = md, en_shutdown = False, en_store_map = [], en_persistence_manager_map = [],
     en_stats_manager_map = [], en_metrics_manager_map = [], en_cache_map = [], en_disk = d, en_wal_offsets = []\<rparr>"

text \<open>The tables on disk: those with a log file and a name.\<close>

definition tables_on_disk :: "disk \<Rightarrow> string list" where
  "tables_on_disk d = map fst (filter (\<lambda>(t, f). t \<noteq> [] \<and> tf_wal f \<noteq> None) d)"

text \<open>
  Without a metadata file both configurations stay empty and two variables unset: \<open>junk\<close> is
  what they hold.
\<close>

definition load_metadata :: "int \<times> u64 \<Rightarrow> TableMetadata option \<Rightarrow> int \<times> HNSWIndexConfig \<times> FlatIndexConfig \<times> u64" where
  "load_metadata junk m =
     (case m of
        None \<Rightarrow> (fst junk, default_hnsw_config, default_flat_config, snd junk)
      | Some m \<Rightarrow>
          (case tm_index m of
             MetaHnsw hc \<Rightarrow> (tm_vector_dimensionality m, hc, default_flat_config, tm_cache_size m)
           | MetaFlat fc \<Rightarrow> (tm_vector_dimensionality m, default_hnsw_config, fc, tm_cache_size m)))"

definition restore_table :: "level_fun \<Rightarrow> 'w Net \<Rightarrow> int \<times> u64 \<Rightarrow> string \<Rightarrow> Engine \<times> 'w \<Rightarrow> (Engine \<times> 'w) option" where
  "restore_table rl net junk t ew =
     (let (e, w) = ew;
          (dim, hc, fc, cache_size) = load_metadata junk (tf_metadata (files_of (en_disk e) t));
          (ok, e1) = engine_CreateTable e t dim hc fc cache_size
      in if \<not> ok then Some (e1, w)
         else
           let pm = mref (en_persistence_manager_map e1) t;
               e2 = (case pm_LoadSnapshot pm (en_disk e1) of None \<Rightarrow> e1 | Some s \<Rightarrow> set_store t s e1)
           in case pm_ReplayWAL pm (en_disk e2) (replay_entry rl net) (e2, w) of
                None \<Rightarrow> None
              | Some (e3, w') \<Rightarrow>
                  Some (upd_stats t (stats_Set VECTOR (int_of_size (length (vs_store (mref (en_store_map e3) t))))) e3, w'))"

definition engine_start :: "level_fun \<Rightarrow> 'w Net \<Rightarrow> int \<times> u64 \<Rightarrow> Metadata \<Rightarrow> disk \<Rightarrow> 'w \<Rightarrow> (Engine \<times> 'w) option" where
  "engine_start rl net junk md d w =
     for_each (restore_table rl net junk) (tables_on_disk d) (engine_init md d, w)"

text \<open>The configuration a store's index has, the other one empty.\<close>

definition store_configs :: "VectorStore \<Rightarrow> HNSWIndexConfig \<times> FlatIndexConfig" where
  "store_configs s =
     (case vs_index s of
        HnswIx h \<Rightarrow> (hx_config h, default_flat_config)
      | FlatIx f \<Rightarrow> (default_hnsw_config, fi_config f))"

definition shutdown_table :: "level_fun \<Rightarrow> 'w Net \<Rightarrow> f32 \<Rightarrow> string \<Rightarrow> Engine \<times> 'w \<Rightarrow> (Engine \<times> 'w) option" where
  "shutdown_table rl net latency t ew =
     (let (e, w) = ew
      in if \<not> contains (en_persistence_manager_map e) t then Some (e, w)
         else case engine_Cleanup rl latency t True e of
           None \<Rightarrow> None
         | Some e1 \<Rightarrow>
             (case engine_Sync net True (e1, w) of
                None \<Rightarrow> None
              | Some (e2, w') \<Rightarrow>
                  (let pm = mref (en_persistence_manager_map e2) t; s = mref (en_store_map e2) t;
                       (hc, fc) = store_configs s;
                       cache_size = (case map_of (en_cache_map e2) t of
                           None \<Rightarrow> 32 | Some c \<Rightarrow> of_nat (lc_max_cache_size c))
                   in Some (upd_disk (\<lambda>d. pm_ClearWAL pm
                          (pm_SaveMetadata pm (vs_vector_dimensionality s) hc fc cache_size
                            (pm_SaveSnapshot pm s d))) e2, w'))))"

definition engine_shutdown :: "level_fun \<Rightarrow> 'w Net \<Rightarrow> f32 \<Rightarrow> Engine \<times> 'w \<Rightarrow> (Engine \<times> 'w) option" where
  "engine_shutdown rl net latency ew =
     for_each (shutdown_table rl net latency) (keys (en_store_map (fst ew))) ((fst ew)\<lparr>en_shutdown := True\<rparr>, snd ew)"

section \<open>The service on the replica\<close>

text \<open>\<open>ReplicaManagerServiceImpl\<close>: apply until one entry fails, answer how many were applied.\<close>

fun service_Sync :: "level_fun \<Rightarrow> 'w Net \<Rightarrow> WALEntry list \<Rightarrow> Engine \<times> 'w \<Rightarrow> (nat \<times> Engine \<times> 'w) option" where
  "service_Sync rl net [] ew = Some (0, ew)"
| "service_Sync rl net (entry # entries) ew =
     (case engine_ApplyWALEntry rl net entry ew of
        None \<Rightarrow> None
      | Some (ok, ew') \<Rightarrow>
          if \<not> ok then Some (0, ew')
          else map_option (\<lambda>(n, ew''). (Suc n, ew'')) (service_Sync rl net entries ew'))"

definition service_GetChecksum :: "Engine \<Rightarrow> string \<Rightarrow> u64 option" where
  "service_GetChecksum e table = rm_GetChecksum (en_store_map e) table"

end
