(* ===== verification/EngineInv.thy ===== *)
theory EngineInv
  imports Engine
begin

text \<open>
  The invariant of the engine, table by table: the five maps have the same tables; a table's
  store, manager, counters and cache agree. An operation on one table leaves the view of
  every other table as it is.
\<close>

section \<open>Views\<close>

text \<open>Everything the engine and its disk hold of one table.\<close>

type_synonym view = "VectorStore option \<times> PersistenceManager option \<times> StatsManager option \<times>
    Metrics option \<times> LRUCache option \<times> TableFiles"

definition table_view :: "Engine \<Rightarrow> string \<Rightarrow> view" where
  "table_view e t =
     (map_of (en_store_map e) t, map_of (en_persistence_manager_map e) t, map_of (en_stats_manager_map e) t,
      map_of (en_metrics_manager_map e) t, map_of (en_cache_map e) t, files_of (en_disk e) t)"

lemma set_store_simps [simp]:
  "en_metadata (set_store t s e) = en_metadata e" "en_shutdown (set_store t s e) = en_shutdown e"
  "en_store_map (set_store t s e) = mput t s (en_store_map e)"
  "en_persistence_manager_map (set_store t s e) = en_persistence_manager_map e"
  "en_stats_manager_map (set_store t s e) = en_stats_manager_map e"
  "en_metrics_manager_map (set_store t s e) = en_metrics_manager_map e"
  "en_cache_map (set_store t s e) = en_cache_map e" "en_disk (set_store t s e) = en_disk e"
  "en_wal_offsets (set_store t s e) = en_wal_offsets e"
  by (simp_all add: set_store_def)

lemma upd_stats_simps [simp]:
  "en_metadata (upd_stats t f e) = en_metadata e" "en_shutdown (upd_stats t f e) = en_shutdown e"
  "en_store_map (upd_stats t f e) = en_store_map e"
  "en_persistence_manager_map (upd_stats t f e) = en_persistence_manager_map e"
  "en_stats_manager_map (upd_stats t f e) = mput t (f (mref (en_stats_manager_map e) t)) (en_stats_manager_map e)"
  "en_metrics_manager_map (upd_stats t f e) = en_metrics_manager_map e"
  "en_cache_map (upd_stats t f e) = en_cache_map e" "en_disk (upd_stats t f e) = en_disk e"
  "en_wal_offsets (upd_stats t f e) = en_wal_offsets e"
  by (simp_all add: upd_stats_def)

lemma upd_metrics_simps [simp]:
  "en_metadata (upd_metrics t f e) = en_metadata e" "en_shutdown (upd_metrics t f e) = en_shutdown e"
  "en_store_map (upd_metrics t f e) = en_store_map e"
  "en_persistence_manager_map (upd_metrics t f e) = en_persistence_manager_map e"
  "en_stats_manager_map (upd_metrics t f e) = en_stats_manager_map e"
  "en_metrics_manager_map (upd_metrics t f e) = mput t (f (mref (en_metrics_manager_map e) t)) (en_metrics_manager_map e)"
  "en_cache_map (upd_metrics t f e) = en_cache_map e" "en_disk (upd_metrics t f e) = en_disk e"
  "en_wal_offsets (upd_metrics t f e) = en_wal_offsets e"
  by (simp_all add: upd_metrics_def)

lemma upd_disk_simps [simp]:
  "en_metadata (upd_disk g e) = en_metadata e" "en_shutdown (upd_disk g e) = en_shutdown e"
  "en_store_map (upd_disk g e) = en_store_map e"
  "en_persistence_manager_map (upd_disk g e) = en_persistence_manager_map e"
  "en_stats_manager_map (upd_disk g e) = en_stats_manager_map e"
  "en_metrics_manager_map (upd_disk g e) = en_metrics_manager_map e"
  "en_cache_map (upd_disk g e) = en_cache_map e" "en_disk (upd_disk g e) = g (en_disk e)"
  "en_wal_offsets (upd_disk g e) = en_wal_offsets e"
  by (simp_all add: upd_disk_def)

lemma set_cache_simps [simp]:
  "en_metadata (set_cache t c e) = en_metadata e" "en_shutdown (set_cache t c e) = en_shutdown e"
  "en_store_map (set_cache t c e) = en_store_map e"
  "en_persistence_manager_map (set_cache t c e) = en_persistence_manager_map e"
  "en_stats_manager_map (set_cache t c e) = en_stats_manager_map e"
  "en_metrics_manager_map (set_cache t c e) = en_metrics_manager_map e"
  "en_cache_map (set_cache t c e) = mput t c (en_cache_map e)" "en_disk (set_cache t c e) = en_disk e"
  "en_wal_offsets (set_cache t c e) = en_wal_offsets e"
  by (simp_all add: set_cache_def)

lemma invalidate_cache_alt:
  "invalidate_cache t e =
    (if md_use_cache (en_metadata e) \<and> contains (en_cache_map e) t \<and> sm_modified (mref (en_stats_manager_map e) t)
     then set_cache t (lru_InvalidateAll (mref (en_cache_map e) t)) e else e)"
  by (simp add: invalidate_cache_def set_cache_def)

section \<open>The invariant of a table\<close>

definition table_inv :: "level_fun \<Rightarrow> string \<Rightarrow> VectorStore \<Rightarrow> PersistenceManager \<Rightarrow> StatsManager \<Rightarrow> LRUCache \<Rightarrow> bool" where
  "table_inv rl t s pm st c \<longleftrightarrow> store_inv rl s \<and> pm_table_name pm = t \<and> same_kind pm s \<and>
     live_count st = of_nat (length (vs_store s)) \<and> lru_inv c"

definition view_inv :: "level_fun \<Rightarrow> string \<Rightarrow> view \<Rightarrow> bool" where
  "view_inv rl t v \<longleftrightarrow> (\<exists>f. v = (None, None, None, None, None, f)) \<or>
     (\<exists>s pm st me c f. v = (Some s, Some pm, Some st, Some me, Some c, f) \<and> table_inv rl t s pm st c)"

definition engine_inv :: "level_fun \<Rightarrow> Engine \<Rightarrow> bool" where
  "engine_inv rl e \<longleftrightarrow> (\<forall>t. view_inv rl t (table_view e t))"

lemma engine_inv_cases:
  assumes "engine_inv rl e"
  obtains (absent) "map_of (en_store_map e) t = None" "map_of (en_persistence_manager_map e) t = None"
      "map_of (en_stats_manager_map e) t = None" "map_of (en_metrics_manager_map e) t = None"
      "map_of (en_cache_map e) t = None"
    | (present) s pm st me c where "map_of (en_store_map e) t = Some s" "map_of (en_persistence_manager_map e) t = Some pm"
      "map_of (en_stats_manager_map e) t = Some st" "map_of (en_metrics_manager_map e) t = Some me"
      "map_of (en_cache_map e) t = Some c" "table_inv rl t s pm st c"
proof -
  have "view_inv rl t (table_view e t)" using assms by (simp add: engine_inv_def)
  from this [unfolded view_inv_def table_view_def] show thesis
  proof
    assume "\<exists>f. (map_of (en_store_map e) t, map_of (en_persistence_manager_map e) t, map_of (en_stats_manager_map e) t,
      map_of (en_metrics_manager_map e) t, map_of (en_cache_map e) t, files_of (en_disk e) t) = (None, None, None, None, None, f)"
    then show thesis by (intro absent) auto
  next
    assume "\<exists>s pm st me c f. (map_of (en_store_map e) t, map_of (en_persistence_manager_map e) t,
      map_of (en_stats_manager_map e) t, map_of (en_metrics_manager_map e) t, map_of (en_cache_map e) t,
      files_of (en_disk e) t) = (Some s, Some pm, Some st, Some me, Some c, f) \<and> table_inv rl t s pm st c"
    then obtain s pm st me c where "map_of (en_store_map e) t = Some s" "map_of (en_persistence_manager_map e) t = Some pm"
      "map_of (en_stats_manager_map e) t = Some st" "map_of (en_metrics_manager_map e) t = Some me"
      "map_of (en_cache_map e) t = Some c" "table_inv rl t s pm st c" by auto
    then show thesis by (rule present)
  qed
qed

lemma engine_inv_upd:
  assumes "engine_inv rl e" and "\<forall>u. u \<noteq> t \<longrightarrow> table_view e' u = table_view e u"
    and "view_inv rl t (table_view e' t)"
  shows "engine_inv rl e'"
  using assms unfolding engine_inv_def by metis

lemma engine_inv_init: "engine_inv rl (engine_init md d)"
  by (simp add: engine_inv_def view_inv_def table_view_def engine_init_def)

text \<open>The data of a table, what a client sees.\<close>

definition store_data :: "VectorStore \<Rightarrow> Id \<rightharpoonup> vector \<times> string" where
  "store_data s = map_option (\<lambda>d. (d_vector d, d_content d)) \<circ> map_of (vs_store s)"

definition table_data :: "Engine \<Rightarrow> string \<rightharpoonup> (Id \<rightharpoonup> vector \<times> string)" where
  "table_data e t = map_option store_data (map_of (en_store_map e) t)"

lemma same_kind_cong:
  assumes "vs_index_type s' = vs_index_type s" and "flat_store s' \<longleftrightarrow> flat_store s"
  shows "same_kind pm s' = same_kind pm s"
  using assms by (cases "vs_index s"; cases "vs_index s'") (auto simp: same_kind_def flat_store_def)

lemma same_kind_Insert: "store_Insert rl s i v c = Some (ok, s') \<Longrightarrow> same_kind pm s' = same_kind pm s"
  by (auto simp: store_Insert_def flat_store_def split: if_splits intro!: same_kind_cong dest: index_kind(1))

lemma same_kind_Remove: "same_kind pm (snd (store_Remove s i)) = same_kind pm s"
  by (rule same_kind_cong) (auto simp: store_Remove_def flat_store_def index_kind(2))

lemma same_kind_Cleanup: "store_Cleanup rl s reindex = Some s' \<Longrightarrow> same_kind pm s' = same_kind pm s"
  by (auto simp: store_Cleanup_alt flat_store_def intro!: same_kind_cong dest: index_kind(3))

section \<open>One insertion, one removal\<close>

lemma store_data_mput:
  "vs_store s' = mput i \<lparr>d_id = i, d_vector = v, d_content = c\<rparr> (vs_store s) \<Longrightarrow>
   store_data s' = (store_data s)(i \<mapsto> (v, c))"
  by (simp add: store_data_def fun_eq_iff)

lemma store_data_merase: "vs_store s' = merase i (vs_store s) \<Longrightarrow> store_data s' = (store_data s)(i := None)"
  by (simp add: store_data_def fun_eq_iff)

lemma store_data_same: "vs_store s' = vs_store s \<Longrightarrow> store_data s' = store_data s"
  by (simp add: store_data_def)

text \<open>The store takes the vector exactly when the id is new and the size is right.\<close>

definition takes :: "VectorStore \<Rightarrow> Id \<Rightarrow> vector \<Rightarrow> bool" where
  "takes s i v \<longleftrightarrow> \<not> contains (vs_store s) i \<and> length v = size_of_int (vs_vector_dimensionality s)"

lemma store_Insert_takes:
  assumes "store_inv rl s" and "finite_vec v"
  shows "\<exists>s'. store_Insert rl s i v c = Some (takes s i v, s') \<and> store_inv rl s' \<and>
    store_data s' = (if takes s i v then (store_data s)(i \<mapsto> (v, c)) else store_data s) \<and>
    length (vs_store s') = (if takes s i v then Suc (length (vs_store s)) else length (vs_store s)) \<and>
    vs_vector_dimensionality s' = vs_vector_dimensionality s"
proof (cases "takes s i v")
  case True
  then have n: "\<not> contains (vs_store s) i" "length v = size_of_int (vs_vector_dimensionality s)"
    by (simp_all add: takes_def)
  obtain s' where "store_Insert rl s i v c = Some (True, s')" "store_inv rl s'"
    "vs_store s' = mput i \<lparr>d_id = i, d_vector = v, d_content = c\<rparr> (vs_store s)"
    "vs_vector_dimensionality s' = vs_vector_dimensionality s"
    using store_Insert_ok [OF assms n] by blast
  with True n store_data_mput [of s' i v c s] show ?thesis by (simp add: length_mput)
next
  case False
  then have "store_Insert rl s i v c = Some (False, s)"
    by (intro store_Insert_rejected) (simp add: takes_def)
  with False assms show ?thesis by simp
qed

lemma store_Remove_data:
  assumes "store_inv rl s" and "store_Remove s i = (ok, s')"
  shows "store_inv rl s' \<and> ok = contains (vs_store s) i \<and> store_data s' = (store_data s)(i := None) \<and>
    length (vs_store s) = (if ok then Suc (length (vs_store s')) else length (vs_store s')) \<and>
    vs_vector_dimensionality s' = vs_vector_dimensionality s"
proof -
  have ok: "store_inv rl s'" "ok = contains (vs_store s) i" "vs_store s' = merase i (vs_store s)"
    "vs_vector_dimensionality s' = vs_vector_dimensionality s"
    using store_Remove_ok [OF assms(1), of i] assms(2) by auto
  moreover have "\<not> contains (vs_store s) i \<Longrightarrow> merase i (vs_store s) = vs_store s"
    by (auto simp: merase_filter contains_iff intro!: filter_True)
  moreover have "distinct (keys (vs_store s))" using assms(1) by (simp add: store_inv_def)
  ultimately show ?thesis using store_data_merase [of s' i s] length_merase [of "vs_store s" i] by auto
qed

text \<open>What \<open>insert_step\<close> does to the engine, on a table that exists.\<close>

lemma insert_step_ok:
  assumes "engine_inv rl e" and "map_of (en_store_map e) t = Some s" and "finite_vec v"
  shows "\<exists>e' s'. insert_step rl t i v content e = Some (takes s i v, e') \<and>
    store_Insert rl s i v content = Some (takes s i v, s') \<and> engine_inv rl e' \<and>
    en_metadata e' = en_metadata e \<and> en_shutdown e' = en_shutdown e \<and>
    en_store_map e' = mput t s' (en_store_map e) \<and>
    store_data s' = (if takes s i v then (store_data s)(i \<mapsto> (v, content)) else store_data s) \<and>
    (\<forall>u. u \<noteq> t \<longrightarrow> table_view e' u = table_view e u) \<and>
    (takes s i v \<longrightarrow> sm_modified (mref (en_stats_manager_map e') t)) \<and>
    wal_of (en_disk e') t = wal_AppendInsert (wal_of (en_disk e) t) i v content"
proof -
  obtain pm st me c where p: "map_of (en_persistence_manager_map e) t = Some pm"
    "map_of (en_stats_manager_map e) t = Some st" "map_of (en_metrics_manager_map e) t = Some me"
    "map_of (en_cache_map e) t = Some c" and inv: "table_inv rl t s pm st c"
    using assms(1) by (rule engine_inv_cases [of rl e t]) (use assms(2) in auto)
  have pm: "pm_table_name pm = t" "store_inv rl s" using inv by (simp_all add: table_inv_def)
  obtain s' where s': "store_Insert rl s i v content = Some (takes s i v, s')" "store_inv rl s'"
    "store_data s' = (if takes s i v then (store_data s)(i \<mapsto> (v, content)) else store_data s)"
    "length (vs_store s') = (if takes s i v then Suc (length (vs_store s)) else length (vs_store s))"
    using store_Insert_takes [OF pm(2) assms(3)] by blast
  define e2 where "e2 = set_store t s' (upd_disk (pm_AppendInsert pm i v content) e)"
  define e' where "e' = (if takes s i v then upd_metrics t (metrics_Increment INSERT 1)
      (upd_stats t (stats_Increment VECTOR) (upd_stats t (stats_SetModifiedFlag True) e2)) else e2)"
  have step: "insert_step rl t i v content e = Some (takes s i v, e')"
    using s'(1) p(1) assms(2) by (simp add: insert_step_def Let_def e2_def e'_def)
  have frame: "table_view e' u = table_view e u" if "u \<noteq> t" for u
    using that pm by (simp add: table_view_def e'_def e2_def pm_AppendInsert_def set_wal_def)
  have wal: "wal_of (en_disk e') t = wal_AppendInsert (wal_of (en_disk e) t) i v content"
    using pm by (simp add: e'_def e2_def wal_of_Append)
  have "view_inv rl t (table_view e' t)"
  proof (cases "takes s i v")
    case True
    let ?st = "stats_Increment VECTOR (stats_SetModifiedFlag True st)"
    have "table_inv rl t s' pm ?st c"
      using inv s' True same_kind_Insert [OF s'(1)] by (simp add: table_inv_def)
    with True show ?thesis
      using p by (simp add: view_inv_def table_view_def e'_def e2_def)
  next
    case False
    have "table_inv rl t s' pm st c"
      using inv s' False same_kind_Insert [OF s'(1)] by (simp add: table_inv_def)
    with False show ?thesis using p by (simp add: view_inv_def table_view_def e'_def e2_def)
  qed
  with engine_inv_upd [OF assms(1)] frame have "engine_inv rl e'" by blast
  moreover have "takes s i v \<longrightarrow> sm_modified (mref (en_stats_manager_map e') t)" by (simp add: e'_def e2_def p)
  moreover have "en_metadata e' = en_metadata e \<and> en_shutdown e' = en_shutdown e \<and> en_store_map e' = mput t s' (en_store_map e)"
    by (simp add: e'_def e2_def)
  ultimately show ?thesis using step s' frame wal by blast
qed

lemma remove_step_ok:
  assumes "engine_inv rl e" and "map_of (en_store_map e) t = Some s"
  shows "\<exists>e' s'. remove_step t i e = (contains (vs_store s) i, e') \<and>
    store_Remove s i = (contains (vs_store s) i, s') \<and> engine_inv rl e' \<and>
    en_metadata e' = en_metadata e \<and> en_shutdown e' = en_shutdown e \<and>
    en_store_map e' = mput t s' (en_store_map e) \<and>
    store_data s' = (store_data s)(i := None) \<and>
    (\<forall>u. u \<noteq> t \<longrightarrow> table_view e' u = table_view e u) \<and>
    (contains (vs_store s) i \<longrightarrow> sm_modified (mref (en_stats_manager_map e') t)) \<and>
    wal_of (en_disk e') t = wal_AppendRemove (wal_of (en_disk e) t) i"
proof -
  obtain pm st me c where p: "map_of (en_persistence_manager_map e) t = Some pm"
    "map_of (en_stats_manager_map e) t = Some st" "map_of (en_metrics_manager_map e) t = Some me"
    "map_of (en_cache_map e) t = Some c" and inv: "table_inv rl t s pm st c"
    using assms(1) by (rule engine_inv_cases [of rl e t]) (use assms(2) in auto)
  have pm: "pm_table_name pm = t" "store_inv rl s" using inv by (simp_all add: table_inv_def)
  obtain ok s' where sr: "store_Remove s i = (ok, s')" by fastforce
  note rd = store_Remove_data [OF pm(2) sr]
  define e2 where "e2 = set_store t s' (upd_disk (pm_AppendRemove pm i) e)"
  define e' where "e' = (if ok then upd_metrics t (metrics_Increment REMOVE 1)
      (upd_stats t (stats_Increment STALE) (upd_stats t (stats_Increment DELETED)
        (upd_stats t (stats_SetRemovedFlag True) (upd_stats t (stats_SetModifiedFlag True) e2)))) else e2)"
  have step: "remove_step t i e = (ok, e')"
    using sr p(1) assms(2) by (simp add: remove_step_def Let_def e2_def e'_def)
  have frame: "table_view e' u = table_view e u" if "u \<noteq> t" for u
    using that pm by (simp add: table_view_def e'_def e2_def pm_AppendRemove_def set_wal_def)
  have wal: "wal_of (en_disk e') t = wal_AppendRemove (wal_of (en_disk e) t) i"
    using pm by (simp add: e'_def e2_def wal_of_Append)
  have kind: "same_kind pm s'" using same_kind_Remove [of pm s i] sr inv by (simp add: table_inv_def)
  have "view_inv rl t (table_view e' t)"
  proof (cases ok)
    case True
    let ?st = "stats_Increment STALE (stats_Increment DELETED (stats_SetRemovedFlag True (stats_SetModifiedFlag True st)))"
    have "table_inv rl t s' pm ?st c"
      using inv rd True kind by (simp add: table_inv_def)
    with True show ?thesis using p by (simp add: view_inv_def table_view_def e'_def e2_def)
  next
    case False
    have "table_inv rl t s' pm st c" using inv rd False kind by (simp add: table_inv_def)
    with False show ?thesis using p by (simp add: view_inv_def table_view_def e'_def e2_def)
  qed
  with engine_inv_upd [OF assms(1)] frame have "engine_inv rl e'" by blast
  moreover have "ok \<longrightarrow> sm_modified (mref (en_stats_manager_map e') t)" by (simp add: e'_def e2_def p)
  moreover have "en_metadata e' = en_metadata e \<and> en_shutdown e' = en_shutdown e \<and> en_store_map e' = mput t s' (en_store_map e)"
    by (simp add: e'_def e2_def)
  ultimately show ?thesis using step sr rd frame wal by blast
qed

end
