(* ===== verification/EngineOps.thy ===== *)
theory EngineOps
  imports EngineInv
begin

text \<open>
  The client operations of the engine keep its invariant, return what their guards and the
  table decide, and change the data of their table only as they say; the answers of a search
  are stored data.
\<close>

section \<open>The stale cache\<close>

lemma invalidate_cache_simps [simp]:
  "en_metadata (invalidate_cache t e) = en_metadata e" "en_shutdown (invalidate_cache t e) = en_shutdown e"
  "en_store_map (invalidate_cache t e) = en_store_map e"
  "en_persistence_manager_map (invalidate_cache t e) = en_persistence_manager_map e"
  "en_stats_manager_map (invalidate_cache t e) = en_stats_manager_map e"
  "en_metrics_manager_map (invalidate_cache t e) = en_metrics_manager_map e"
  "en_disk (invalidate_cache t e) = en_disk e" "en_wal_offsets (invalidate_cache t e) = en_wal_offsets e"
  by (simp_all add: invalidate_cache_alt)

lemma invalidate_cache_view: "u \<noteq> t \<Longrightarrow> table_view (invalidate_cache t e) u = table_view e u"
  by (simp add: table_view_def invalidate_cache_alt)

lemma set_cache_inv:
  assumes "engine_inv rl e" and "contains (en_cache_map e) t" and "lru_inv c"
  shows "engine_inv rl (set_cache t c e)"
proof (rule engine_inv_upd [OF assms(1), where t = t])
  show "\<forall>u. u \<noteq> t \<longrightarrow> table_view (set_cache t c e) u = table_view e u" by (simp add: table_view_def)
  show "view_inv rl t (table_view (set_cache t c e) t)"
    using assms(1)
  proof (cases rule: engine_inv_cases [of rl e t])
    case absent
    with assms(2) show ?thesis by (simp add: contains_def)
  next
    case (present s pm st me c0)
    then have "table_inv rl t s pm st c" using assms(3) by (simp add: table_inv_def)
    with present show ?thesis by (simp add: view_inv_def table_view_def)
  qed
qed

lemma cache_of_inv:
  "engine_inv rl e \<Longrightarrow> map_of (en_cache_map e) t = Some c \<Longrightarrow> lru_inv c"
  by (cases rule: engine_inv_cases [of rl e t]) (auto simp: table_inv_def)

lemma invalidate_cache_inv: "engine_inv rl e \<Longrightarrow> engine_inv rl (invalidate_cache t e)"
  using set_cache_inv [of rl e t "lru_InvalidateAll (mref (en_cache_map e) t)"] cache_of_inv [of rl e t]
    lru.invalidate_all_law
  by (auto simp: invalidate_cache_alt contains_map_of)

section \<open>Insert and remove\<close>

lemma writable_store: "writable e t \<Longrightarrow> \<exists>s. map_of (en_store_map e) t = Some s"
  by (simp add: writable_def contains_map_of)

definition stores :: "Engine \<Rightarrow> string \<Rightarrow> Id \<Rightarrow> vector \<Rightarrow> string \<Rightarrow> bool" where
  "stores e t i v content \<longleftrightarrow> writable e t \<and> ValidateInsert t i v content \<and> takes (mref (en_store_map e) t) i v"

lemma table_data_mput: "en_store_map e' = mput t s' (en_store_map e) \<Longrightarrow> table_data e' = (table_data e)(t \<mapsto> store_data s')"
  by (simp add: table_data_def fun_eq_iff)

lemma table_data_same: "en_store_map e' = en_store_map e \<Longrightarrow> table_data e' = table_data e"
  by (simp add: table_data_def fun_eq_iff)

lemma engine_Insert_ok:
  assumes "engine_inv rl e" and "finite_vec v"
  shows "\<exists>e'. engine_Insert rl e t i v content = Some (stores e t i v content, e') \<and> engine_inv rl e' \<and>
    en_metadata e' = en_metadata e \<and> en_shutdown e' = en_shutdown e \<and>
    table_data e' = (if stores e t i v content
      then (table_data e)(t \<mapsto> (the (table_data e t))(i \<mapsto> (v, content))) else table_data e) \<and>
    (\<forall>u. u \<noteq> t \<longrightarrow> table_view e' u = table_view e u)"
proof (cases "writable e t \<and> ValidateInsert t i v content")
  case False
  then show ?thesis using assms(1) by (auto simp: engine_Insert_def stores_def)
next
  case True
  then obtain s where s: "map_of (en_store_map e) t = Some s" using writable_store by blast
  obtain e1 s1 where e1: "insert_step rl t i v content e = Some (takes s i v, e1)" "engine_inv rl e1"
    "en_metadata e1 = en_metadata e" "en_shutdown e1 = en_shutdown e" "en_store_map e1 = mput t s1 (en_store_map e)"
    "store_data s1 = (if takes s i v then (store_data s)(i \<mapsto> (v, content)) else store_data s)"
    "\<forall>u. u \<noteq> t \<longrightarrow> table_view e1 u = table_view e u"
    using insert_step_ok [OF assms(1) s assms(2), of i content] by metis
  have st: "stores e t i v content = takes s i v" using True s by (simp add: stores_def)
  have "table_data (invalidate_cache t e1) = (table_data e)(t \<mapsto> store_data s1)"
    using e1(5) by (intro table_data_mput) simp
  moreover have "table_data e t = Some (store_data s)" using s by (simp add: table_data_def)
  ultimately have "table_data (invalidate_cache t e1) = (if takes s i v
      then (table_data e)(t \<mapsto> (the (table_data e t))(i \<mapsto> (v, content))) else table_data e)"
    using e1(6) by (auto simp: fun_upd_idem)
  then show ?thesis
    using True e1 st invalidate_cache_inv [OF e1(2)] by (simp add: engine_Insert_def invalidate_cache_view)
qed

definition removes :: "Engine \<Rightarrow> string \<Rightarrow> Id \<Rightarrow> bool" where
  "removes e t i \<longleftrightarrow> writable e t \<and> ValidateRemove t i \<and> contains (vs_store (mref (en_store_map e) t)) i"

lemma store_data_None: "store_data s i = None \<longleftrightarrow> \<not> contains (vs_store s) i"
  by (simp add: store_data_def contains_def)

lemma engine_Remove_ok:
  assumes "engine_inv rl e"
  shows "\<exists>e'. engine_Remove e t i = (removes e t i, e') \<and> engine_inv rl e' \<and>
    en_metadata e' = en_metadata e \<and> en_shutdown e' = en_shutdown e \<and>
    table_data e' = (if removes e t i
      then (table_data e)(t \<mapsto> (the (table_data e t))(i := None)) else table_data e) \<and>
    (\<forall>u. u \<noteq> t \<longrightarrow> table_view e' u = table_view e u)"
proof (cases "writable e t \<and> ValidateRemove t i")
  case False
  then show ?thesis using assms(1) by (auto simp: engine_Remove_def removes_def)
next
  case True
  then obtain s where s: "map_of (en_store_map e) t = Some s" using writable_store by blast
  obtain e1 s1 where e1: "remove_step t i e = (contains (vs_store s) i, e1)" "engine_inv rl e1"
    "en_metadata e1 = en_metadata e" "en_shutdown e1 = en_shutdown e" "en_store_map e1 = mput t s1 (en_store_map e)"
    "store_data s1 = (store_data s)(i := None)"
    "\<forall>u. u \<noteq> t \<longrightarrow> table_view e1 u = table_view e u"
    using remove_step_ok [OF assms(1) s, of i] by metis
  have st: "removes e t i = contains (vs_store s) i" using True s by (simp add: removes_def)
  have "table_data (invalidate_cache t e1) = (table_data e)(t \<mapsto> store_data s1)"
    using e1(5) by (intro table_data_mput) simp
  moreover have "table_data e t = Some (store_data s)" using s by (simp add: table_data_def)
  moreover have "\<not> contains (vs_store s) i \<Longrightarrow> store_data s1 = store_data s"
    using e1(6) store_data_None [of s i] by (simp add: fun_upd_idem)
  ultimately have "table_data (invalidate_cache t e1) = (if contains (vs_store s) i
      then (table_data e)(t \<mapsto> (the (table_data e t))(i := None)) else table_data e)"
    using e1(6) by (auto simp: fun_upd_idem)
  then show ?thesis
    using True e1 st invalidate_cache_inv [OF e1(2)] by (simp add: engine_Remove_def invalidate_cache_view)
qed

section \<open>Batches\<close>

text \<open>The data a batch leaves, one vector after another.\<close>

definition put_data :: "nat \<Rightarrow> Id \<times> vector \<times> string \<Rightarrow> (Id \<rightharpoonup> vector \<times> string) \<Rightarrow> (Id \<rightharpoonup> vector \<times> string)" where
  "put_data dim x m = (case x of (i, v, content) \<Rightarrow>
     if m i = None \<and> length v = dim then m(i \<mapsto> (v, content)) else m)"

definition store_dim :: "VectorStore \<Rightarrow> nat" where
  "store_dim s = size_of_int (vs_vector_dimensionality s)"

lemma takes_data: "takes s i v \<longleftrightarrow> store_data s i = None \<and> length v = store_dim s"
  by (simp add: takes_def store_data_None store_dim_def)

lemma insert_steps_ok:
  assumes "engine_inv rl e" and "map_of (en_store_map e) t = Some s" and "\<forall>(i, v, content) \<in> set xs. finite_vec v"
  shows "\<exists>oks e' s'. insert_steps rl t xs e = Some (oks, e') \<and> length oks = length xs \<and> engine_inv rl e' \<and>
    en_metadata e' = en_metadata e \<and> en_shutdown e' = en_shutdown e \<and> map_of (en_store_map e') t = Some s' \<and>
    store_dim s' = store_dim s \<and> store_data s' = fold (put_data (store_dim s)) xs (store_data s) \<and>
    (\<forall>u. u \<noteq> t \<longrightarrow> table_view e' u = table_view e u)"
  using assms
proof (induction xs arbitrary: e s)
  case (Cons x xs)
  obtain i v content where x: "x = (i, v, content)" by (metis prod_cases3)
  with Cons.prems(3) have fv: "finite_vec v" by simp
  obtain e1 s1 where e1: "insert_step rl t i v content e = Some (takes s i v, e1)" "engine_inv rl e1"
    and si: "store_Insert rl s i v content = Some (takes s i v, s1)"
    and m1: "en_metadata e1 = en_metadata e" "en_shutdown e1 = en_shutdown e" "en_store_map e1 = mput t s1 (en_store_map e)"
    and d1: "store_data s1 = (if takes s i v then (store_data s)(i \<mapsto> (v, content)) else store_data s)"
    and v1: "\<forall>u. u \<noteq> t \<longrightarrow> table_view e1 u = table_view e u"
    using insert_step_ok [OF Cons.prems(1,2) fv, of i content] by metis
  have dim: "store_dim s1 = store_dim s"
    using si by (auto simp: store_Insert_def store_dim_def split: if_splits)
  have s1: "map_of (en_store_map e1) t = Some s1" using m1(3) by simp
  obtain oks e' s' where r: "insert_steps rl t xs e1 = Some (oks, e')" "length oks = length xs" "engine_inv rl e'"
    "en_metadata e' = en_metadata e1" "en_shutdown e' = en_shutdown e1" "map_of (en_store_map e') t = Some s'"
    "store_dim s' = store_dim s1" "store_data s' = fold (put_data (store_dim s1)) xs (store_data s1)"
    "\<forall>u. u \<noteq> t \<longrightarrow> table_view e' u = table_view e1 u"
    using Cons.IH [OF e1(2) s1] Cons.prems(3) by auto
  have "put_data (store_dim s) x (store_data s) = store_data s1"
    using x d1 by (simp add: put_data_def takes_data)
  with r x e1(1) m1 v1 dim show ?case
    by (intro exI [of _ "takes s i v # oks"] exI [of _ e'] exI [of _ s']) simp
qed simp

lemma remove_steps_ok:
  assumes "engine_inv rl e" and "map_of (en_store_map e) t = Some s"
  shows "\<exists>oks e' s'. remove_steps t is e = (oks, e') \<and> length oks = length is \<and> engine_inv rl e' \<and>
    en_metadata e' = en_metadata e \<and> en_shutdown e' = en_shutdown e \<and> map_of (en_store_map e') t = Some s' \<and>
    store_data s' = (store_data s) |` (- set is) \<and>
    (\<forall>u. u \<noteq> t \<longrightarrow> table_view e' u = table_view e u)"
  using assms
proof (induction "is" arbitrary: e s)
  case (Cons i js)
  obtain e1 s1 where e1: "remove_step t i e = (contains (vs_store s) i, e1)" "engine_inv rl e1"
    and m1: "en_metadata e1 = en_metadata e" "en_shutdown e1 = en_shutdown e" "en_store_map e1 = mput t s1 (en_store_map e)"
    and d1: "store_data s1 = (store_data s)(i := None)"
    and v1: "\<forall>u. u \<noteq> t \<longrightarrow> table_view e1 u = table_view e u"
    using remove_step_ok [OF Cons.prems, of i] by metis
  have s1: "map_of (en_store_map e1) t = Some s1" using m1(3) by simp
  obtain oks e' s' where r: "remove_steps t js e1 = (oks, e')" "length oks = length js" "engine_inv rl e'"
    "en_metadata e' = en_metadata e1" "en_shutdown e' = en_shutdown e1" "map_of (en_store_map e') t = Some s'"
    "store_data s' = (store_data s1) |` (- set js)" "\<forall>u. u \<noteq> t \<longrightarrow> table_view e' u = table_view e1 u"
    using Cons.IH [OF e1(2) s1] by blast
  have "store_data s' = (store_data s) |` (- set (i # js))"
    using r(7) d1 by (auto simp: restrict_map_def fun_eq_iff)
  with r e1(1) m1 v1 show ?case
    by (intro exI [of _ "contains (vs_store s) i # oks"] exI [of _ e'] exI [of _ s']) simp
qed (simp add: restrict_map_def)

lemma engine_BatchInsert_ok:
  assumes "engine_inv rl e" and "\<forall>(i, v, content) \<in> set xs. finite_vec v"
  shows "\<exists>oks e'. engine_BatchInsert rl e t xs = Some (oks, e') \<and> length oks = length xs \<and> engine_inv rl e' \<and>
    table_data e' = (if writable e t \<and> (\<forall>(i, v, content) \<in> set xs. ValidateInsert t i v content)
      then (table_data e)(t \<mapsto> fold (put_data (store_dim (mref (en_store_map e) t))) xs (the (table_data e t)))
      else table_data e) \<and>
    (\<forall>u. u \<noteq> t \<longrightarrow> table_view e' u = table_view e u)"
proof (cases "writable e t \<and> (\<forall>(i, v, content) \<in> set xs. ValidateInsert t i v content)")
  case False
  then show ?thesis using assms(1) by (auto simp: engine_BatchInsert_def split: if_splits)
next
  case True
  then obtain s where s: "map_of (en_store_map e) t = Some s" using writable_store by blast
  obtain oks e1 s1 where e1: "insert_steps rl t xs e = Some (oks, e1)" "length oks = length xs" "engine_inv rl e1"
    "map_of (en_store_map e1) t = Some s1" "store_data s1 = fold (put_data (store_dim s)) xs (store_data s)"
    "\<forall>u. u \<noteq> t \<longrightarrow> table_view e1 u = table_view e u"
    using insert_steps_ok [OF assms(1) s assms(2)] by blast
  have "table_data (invalidate_cache t e1) = (table_data e)(t \<mapsto> store_data s1)"
    using e1(4,6) by (auto simp: table_data_def fun_eq_iff table_view_def)
  moreover have "\<not> (\<exists>(i, v, content) \<in> set xs. \<not> ValidateInsert t i v content)" using True by auto
  ultimately show ?thesis
    using True s e1 invalidate_cache_inv [OF e1(3)]
    by (simp add: engine_BatchInsert_def invalidate_cache_view) (simp add: table_data_def)
qed

lemma engine_BatchRemove_ok:
  assumes "engine_inv rl e"
  shows "\<exists>oks e'. engine_BatchRemove e t is = (oks, e') \<and> length oks = length is \<and> engine_inv rl e' \<and>
    table_data e' = (if writable e t \<and> (\<forall>i \<in> set is. ValidateRemove t i)
      then (table_data e)(t \<mapsto> the (table_data e t) |` (- set is)) else table_data e) \<and>
    (\<forall>u. u \<noteq> t \<longrightarrow> table_view e' u = table_view e u)"
proof (cases "writable e t \<and> (\<forall>i \<in> set is. ValidateRemove t i)")
  case False
  then show ?thesis using assms(1) by (auto simp: engine_BatchRemove_def)
next
  case True
  then obtain s where s: "map_of (en_store_map e) t = Some s" using writable_store by blast
  obtain oks e1 s1 where e1: "remove_steps t is e = (oks, e1)" "length oks = length is" "engine_inv rl e1"
    "map_of (en_store_map e1) t = Some s1" "store_data s1 = (store_data s) |` (- set is)"
    "\<forall>u. u \<noteq> t \<longrightarrow> table_view e1 u = table_view e u"
    using remove_steps_ok [OF assms(1) s] by blast
  have "table_data (invalidate_cache t e1) = (table_data e)(t \<mapsto> store_data s1)"
    using e1(4,6) by (auto simp: table_data_def fun_eq_iff table_view_def)
  then show ?thesis
    using True s e1 invalidate_cache_inv [OF e1(3)]
    by (simp add: engine_BatchRemove_def invalidate_cache_view) (simp add: table_data_def)
qed

section \<open>Search\<close>

lemma upd_metrics_inv:
  assumes "engine_inv rl e" and "contains (en_metrics_manager_map e) t"
  shows "engine_inv rl (upd_metrics t f e)"
proof (rule engine_inv_upd [OF assms(1), where t = t])
  show "\<forall>u. u \<noteq> t \<longrightarrow> table_view (upd_metrics t f e) u = table_view e u" by (simp add: table_view_def)
  show "view_inv rl t (table_view (upd_metrics t f e) t)"
    using assms(1)
  proof (cases rule: engine_inv_cases [of rl e t])
    case absent
    with assms(2) show ?thesis by (simp add: contains_def)
  next
    case (present s pm st me c)
    then show ?thesis by (simp add: view_inv_def table_view_def)
  qed
qed

lemma searchable_parts: "searchable_table e t \<Longrightarrow> contains (en_store_map e) t \<and> contains (en_metrics_manager_map e) t"
  by (simp add: searchable_table_def)

lemma engine_store_inv: "engine_inv rl e \<Longrightarrow> map_of (en_store_map e) t = Some s \<Longrightarrow> store_inv rl s"
  by (cases rule: engine_inv_cases [of rl e t]) (auto simp: table_inv_def)

lemma engine_Search_ok:
  assumes "engine_inv rl e" and "finite_vec q"
  shows "\<exists>r e'. engine_Search e latency t q k p = Some (r, e') \<and> engine_inv rl e' \<and> table_data e' = table_data e \<and>
    distinct (map d_id r) \<and> length r \<le> k \<and>
    (\<forall>d \<in> set r. the (table_data e t) (d_id d) = Some (d_vector d, d_content d))"
proof (cases "searchable_table e t \<and> ValidateSearch t q k p")
  case False
  then show ?thesis using assms(1) by (auto simp: engine_Search_def)
next
  case True
  then have c: "contains (en_metrics_manager_map e) t" using searchable_parts by blast
  obtain s where s: "map_of (en_store_map e) t = Some s"
    using True searchable_parts contains_map_of by metis
  obtain r where r: "store_Search s q k p = Some r" "distinct (map d_id r)" "length r \<le> k"
    "\<forall>d \<in> set r. map_of (vs_store s) (d_id d) = Some d"
    using store_Search_ok [OF engine_store_inv [OF assms(1) s] assms(2)] by blast
  let ?e = "upd_metrics t (metrics_Increment SEARCH 1) (upd_metrics t (metrics_CalculateSearchLatency latency) e)"
  have "engine_inv rl ?e" using upd_metrics_inv [OF upd_metrics_inv [OF assms(1) c]] c by simp
  moreover have "table_data ?e = table_data e" by (simp add: table_data_def fun_eq_iff)
  moreover have "\<forall>d \<in> set r. the (table_data e t) (d_id d) = Some (d_vector d, d_content d)"
    using r(4) s by (simp add: table_data_def store_data_def)
  ultimately show ?thesis using True s r by (simp add: engine_Search_def)
qed

text \<open>A search of a flat table is exact.\<close>

lemma engine_Search_flat:
  assumes "engine_inv rl e" and "finite_vec q" and "searchable_table e t" and "ValidateSearch t q k p"
    and "map_of (en_store_map e) t = Some s" and "flat_store s" and "length q = store_dim s"
  shows "\<exists>e'. engine_Search e latency t q k p = Some (nearest (vs_store s) L2 q k, e')"
proof -
  have "store_Search s q k p = Some (nearest (vs_store s) L2 q k)"
    by (rule store_Search_flat [OF engine_store_inv [OF assms(1,5)] assms(6,2)])
      (use assms(7) in \<open>simp add: store_dim_def\<close>)
  with assms(3-5) show ?thesis by (simp add: engine_Search_def)
qed

end
