(* ===== verification/EngineTables.thy ===== *)
theory EngineTables
  imports EngineOps
begin

text \<open>
  Cleanup, creation and removal of tables: cleanup changes no data and no live count; a created
  table is empty and a dropped one leaves nothing, also on disk.
\<close>

section \<open>Cleanup\<close>

lemma engine_Cleanup_ok:
  assumes "engine_inv rl e"
  shows "\<exists>e'. engine_Cleanup rl latency t force e = Some e' \<and> engine_inv rl e' \<and>
    en_metadata e' = en_metadata e \<and> en_shutdown e' = en_shutdown e \<and> en_disk e' = en_disk e \<and>
    table_data e' = table_data e \<and> (\<forall>u. u \<noteq> t \<longrightarrow> table_view e' u = table_view e u) \<and>
    ((force \<or> \<not> en_shutdown e) \<and> contains (en_store_map e) t \<longrightarrow>
       \<not> sm_removed (mref (en_stats_manager_map e') t) \<and>
       deleted_count (sm_stats (mref (en_stats_manager_map e') t)) = 0 \<and>
       vector_count (sm_stats (mref (en_stats_manager_map e') t)) = of_nat (length (vs_store (mref (en_store_map e) t))))"
  using assms
proof (cases rule: engine_inv_cases [of rl e t])
  case absent
  then show ?thesis using assms by (simp add: engine_Cleanup_def contains_def)
next
  case (present s pm st me c)
  note p = present
  show ?thesis
  proof (cases "en_shutdown e \<and> \<not> force")
    case True
    then show ?thesis using assms by (simp add: engine_Cleanup_def)
  next
    case False
    define reindex where "reindex = flt (md_reindex_threshold (en_metadata e)) (cleanup_ratio (sm_stats st))"
    have si: "store_inv rl s" using p(6) by (simp add: table_inv_def)
    obtain s' where s': "store_Cleanup rl s reindex = Some s'" "store_inv rl s'" "vs_store s' = vs_store s"
      using store_Cleanup_ok [OF si] by blast
    let ?st = "stats_Reset DELETED (stats_AdjustForDeletions (stats_SetRemovedFlag False st))"
    let ?st' = "if reindex then stats_Reset STALE ?st else ?st"
    define e1 where "e1 = upd_metrics t (metrics_Increment CLEANUP 1)
        (upd_metrics t (metrics_CalculateCleanupLatency latency) (set_store t s' e))"
    define e2 where "e2 = upd_stats t (stats_Reset DELETED)
        (upd_stats t stats_AdjustForDeletions (upd_stats t (stats_SetRemovedFlag False) e1))"
    define e' where "e' = (if reindex
        then upd_stats t (stats_Reset STALE) (upd_metrics t (metrics_Increment REINDEX 1) e2) else e2)"
    have run: "engine_Cleanup rl latency t force e = Some e'"
      using p False s'(1) if_not_P [OF False]
      by (simp add: engine_Cleanup_def contains_def Let_def e'_def e2_def e1_def reindex_def [symmetric]) blast
    have live: "live_count ?st' = live_count st" by simp
    have "table_inv rl t s' pm ?st' c"
      using p(6) s' same_kind_Cleanup [OF s'(1)] live by (simp add: table_inv_def)
    then have "view_inv rl t (table_view e' t)"
      using p by (cases reindex) (simp_all add: view_inv_def table_view_def e'_def e2_def e1_def)
    moreover have frame: "\<forall>u. u \<noteq> t \<longrightarrow> table_view e' u = table_view e u"
      by (simp add: table_view_def e'_def e2_def e1_def)
    ultimately have "engine_inv rl e'" using engine_inv_upd [OF assms] by blast
    moreover have "table_data e' = table_data e"
      using p(1) s'(3) by (simp add: table_data_def fun_eq_iff e'_def e2_def e1_def store_data_def)
    moreover have stats: "mref (en_stats_manager_map e') t = ?st'"
      using p(3) by (simp add: e'_def e2_def e1_def)
    moreover have "deleted_count (sm_stats ?st') = 0" "\<not> sm_removed ?st'"
      by (simp_all add: stats_Reset_def stats_Set.simps stats_AdjustForDeletions_def stats_SetRemovedFlag_def)
    moreover have "vector_count (sm_stats ?st') = live_count ?st'"
      using calculation(4) by (simp only: live_count_def diff_zero)
    moreover have "en_metadata e' = en_metadata e \<and> en_shutdown e' = en_shutdown e \<and> en_disk e' = en_disk e"
      by (simp add: e'_def e2_def e1_def)
    ultimately show ?thesis
      using run frame p(1,6) live by (auto simp: table_inv_def)
  qed
qed

section \<open>Creating a table\<close>

text \<open>The configurations for which the invariant is claimed.\<close>

definition good_config :: "level_fun \<Rightarrow> int \<Rightarrow> HNSWIndexConfig \<Rightarrow> FlatIndexConfig \<Rightarrow> bool" where
  "good_config rl dim hc fc \<longleftrightarrow>
     (if wants_hnsw hc then hc_metric hc = L2 \<and> hc_vector_dimensionality hc = dim \<and> (\<forall>i. 0 \<le> rl i (hc_ml hc))
      else fc_metric fc = L2 \<and> fc_vector_dimensionality fc = dim)"

lemma store_inv_new:
  assumes "good_config rl dim hc fc" and "make_index hc fc = (it, stored, ix)"
  shows "store_inv rl (store_new it ix dim)" "same_kind \<lparr>pm_table_name = t, pm_stored_index_type = stored\<rparr> (store_new it ix dim)"
proof -
  have "index_inv rl ix \<and> index_dim ix = size_of_int dim \<and> index_vec ix = Map.empty"
    using assms hnsw_inv_new [of hc rl] flat_inv_new [of fc]
    by (auto simp: good_config_def make_index_def hnsw_dim_def flat_dim_def hnsw_vec_def flat_vec_def
        is_active_def hnsw_new_def flat_new_def fun_eq_iff split: if_splits)
  then show "store_inv rl (store_new it ix dim)"
    by (auto simp: store_inv_def store_new_def store_vec_def in_sync_def fun_eq_iff map_le_def)
  show "same_kind \<lparr>pm_table_name = t, pm_stored_index_type = stored\<rparr> (store_new it ix dim)"
    using assms(2) by (auto simp: make_index_def same_kind_def store_new_def split: if_splits)
qed

lemma add_table_views:
  assumes "make_index hc fc = (it, stored, ix)"
  shows "u \<noteq> t \<Longrightarrow> table_view (add_table t dim hc fc cs e) u = table_view e u"
    "table_view (add_table t dim hc fc cs e) t =
      (Some (store_new it ix dim), Some \<lparr>pm_table_name = t, pm_stored_index_type = stored\<rparr>, Some stats_new,
       Some metrics_new, Some (lru_new (unat cs)), (files_of (en_disk e) t)\<lparr>tf_wal := Some (wal_of (en_disk e) t)\<rparr>)"
    "en_metadata (add_table t dim hc fc cs e) = en_metadata e" "en_shutdown (add_table t dim hc fc cs e) = en_shutdown e"
    "en_store_map (add_table t dim hc fc cs e) = mput t (store_new it ix dim) (en_store_map e)"
  using assms by (simp_all add: add_table_def pm_new_def table_view_def set_wal_def Let_def)

lemma add_table_inv:
  assumes "engine_inv rl e" and "good_config rl dim hc fc" and "0 < cs"
  shows "engine_inv rl (add_table t dim hc fc cs e)"
proof (rule engine_inv_upd [OF assms(1), where t = t])
  obtain it stored ix where mi: "make_index hc fc = (it, stored, ix)" by (metis prod_cases3)
  show "\<forall>u. u \<noteq> t \<longrightarrow> table_view (add_table t dim hc fc cs e) u = table_view e u"
    using add_table_views(1) [OF mi] by blast
  have "0 < unat cs" using assms(3) by (simp add: word_gt_0 unat_gt_0)
  then have "table_inv rl t (store_new it ix dim) \<lparr>pm_table_name = t, pm_stored_index_type = stored\<rparr> stats_new (lru_new (unat cs))"
    using store_inv_new [OF assms(2) mi] lru_inv_new by (simp add: table_inv_def) (simp add: store_new_def)
  then show "view_inv rl t (table_view (add_table t dim hc fc cs e) t)"
    by (simp add: view_inv_def add_table_views(2) [OF mi])
qed

lemma upd_stats_flag_inv:
  assumes "engine_inv rl e" and "contains (en_stats_manager_map e) t"
  shows "engine_inv rl (upd_stats t (stats_SetModifiedFlag b) e)"
proof (rule engine_inv_upd [OF assms(1), where t = t])
  show "\<forall>u. u \<noteq> t \<longrightarrow> table_view (upd_stats t (stats_SetModifiedFlag b) e) u = table_view e u"
    by (simp add: table_view_def)
  show "view_inv rl t (table_view (upd_stats t (stats_SetModifiedFlag b) e) t)"
    using assms(1)
  proof (cases rule: engine_inv_cases [of rl e t])
    case absent
    with assms(2) show ?thesis by (simp add: contains_def)
  next
    case (present s pm st me c)
    then show ?thesis by (simp add: view_inv_def table_view_def table_inv_def)
  qed
qed

text \<open>The log of a new table starts with its \<open>create\<close> entry, after what the file held.\<close>

definition created_log :: "HNSWIndexConfig \<Rightarrow> FlatIndexConfig \<Rightarrow> u64 \<Rightarrow> string \<Rightarrow> string" where
  "created_log hc fc cs wal = wal_AppendCreate (fst (snd (make_index hc fc))) wal hc fc cs"

lemma engine_CreateTable_shape:
  assumes "md_primary (en_metadata e)" and "\<not> en_shutdown e" and "ValidateCreateTable t dim hc fc (unat cs)"
    and "table_absent e t"
  shows "\<exists>e1. engine_CreateTable e t dim hc fc cs =
      (True, upd_stats t (stats_SetModifiedFlag True) (add_table t dim hc fc cs e1)) \<and>
    (\<forall>u. u \<noteq> t \<longrightarrow> table_view e1 u = table_view e u) \<and> en_metadata e1 = en_metadata e \<and>
    en_shutdown e1 = en_shutdown e \<and> en_store_map e1 = en_store_map e \<and>
    files_of (en_disk e1) t = (files_of (en_disk e) t)\<lparr>tf_wal := Some (created_log hc fc cs (wal_of (en_disk e) t))\<rparr> \<and>
    (\<forall>rl. engine_inv rl e \<longrightarrow> engine_inv rl e1)"
proof -
  obtain pm d where pm: "pm_new (fst (snd (make_index hc fc))) t (en_disk e) = (pm, d)" by fastforce
  then have pn: "pm_table_name pm = t" "pm_stored_index_type pm = fst (snd (make_index hc fc))"
    "d = set_wal t (wal_of (en_disk e) t) (en_disk e)" by (auto simp: pm_new_def)
  define e1 where "e1 = e\<lparr>en_disk := pm_AppendCreate pm hc fc cs d\<rparr>"
  have c: "engine_CreateTable e t dim hc fc cs =
      (True, upd_stats t (stats_SetModifiedFlag True) (add_table t dim hc fc cs e1))"
    using assms pm by (simp add: engine_CreateTable_def e1_def)
  have f: "files_of (pm_AppendCreate pm hc fc cs d) t =
      (files_of (en_disk e) t)\<lparr>tf_wal := Some (created_log hc fc cs (wal_of (en_disk e) t))\<rparr>"
    by (simp add: pm_AppendCreate_def created_log_def pn set_wal_def wal_of_def)
  have v: "table_view e1 u = table_view e u" if "u \<noteq> t" for u
    using that by (simp add: table_view_def e1_def pm_AppendCreate_def pn set_wal_def)
  have inv: "engine_inv rl e1" if i: "engine_inv rl e" for rl
  proof (rule engine_inv_upd [OF i, where t = t])
    show "\<forall>u. u \<noteq> t \<longrightarrow> table_view e1 u = table_view e u" using v by blast
    show "view_inv rl t (table_view e1 t)"
      using assms(4) by (simp add: view_inv_def table_view_def e1_def table_absent_def contains_def)
  qed
  show ?thesis
    by (rule exI [of _ e1]) (use c f v inv in \<open>simp add: e1_def\<close>)
qed

lemma engine_CreateTable_ok:
  assumes "engine_inv rl e" and "good_config rl dim hc fc" and "0 < cs"
  shows "\<exists>ok e'. engine_CreateTable e t dim hc fc cs = (ok, e') \<and> engine_inv rl e' \<and>
    (ok \<longleftrightarrow> md_primary (en_metadata e) \<and> \<not> en_shutdown e \<and> ValidateCreateTable t dim hc fc (unat cs) \<and>
      table_data e t = None) \<and>
    table_data e' = (if ok then (table_data e)(t \<mapsto> Map.empty) else table_data e) \<and>
    (\<forall>u. u \<noteq> t \<longrightarrow> table_view e' u = table_view e u) \<and>
    (ok \<longrightarrow> wal_of (en_disk e') t = created_log hc fc cs (wal_of (en_disk e) t))"
proof -
  have ab: "table_absent e t \<longleftrightarrow> table_data e t = None"
    using assms(1) by (cases rule: engine_inv_cases [of rl e t]) (simp_all add: table_absent_def contains_def table_data_def)
  show ?thesis
  proof (cases "md_primary (en_metadata e) \<and> \<not> en_shutdown e \<and> ValidateCreateTable t dim hc fc (unat cs) \<and> table_absent e t")
    case False
    then have "engine_CreateTable e t dim hc fc cs = (False, e)" by (auto simp: engine_CreateTable_def)
    with False ab assms(1) show ?thesis by auto
  next
    case True
    obtain it stored ix where mi: "make_index hc fc = (it, stored, ix)" by (metis prod_cases3)
    obtain e1 where c: "engine_CreateTable e t dim hc fc cs =
        (True, upd_stats t (stats_SetModifiedFlag True) (add_table t dim hc fc cs e1))"
      and e1: "\<forall>u. u \<noteq> t \<longrightarrow> table_view e1 u = table_view e u" "en_store_map e1 = en_store_map e"
        "files_of (en_disk e1) t = (files_of (en_disk e) t)\<lparr>tf_wal := Some (created_log hc fc cs (wal_of (en_disk e) t))\<rparr>"
        "engine_inv rl e1"
      using engine_CreateTable_shape [of e t dim hc fc cs] True assms(1) by blast
    let ?e = "upd_stats t (stats_SetModifiedFlag True) (add_table t dim hc fc cs e1)"
    note av = add_table_views [OF mi, where t = t and dim = dim and cs = cs and e = e1]
    have st: "contains (en_stats_manager_map (add_table t dim hc fc cs e1)) t"
      using av(2) by (simp add: table_view_def contains_def)
    have "engine_inv rl ?e"
      by (rule upd_stats_flag_inv [OF add_table_inv [OF e1(4) assms(2,3)] st])
    moreover have "store_data (store_new it ix dim) = Map.empty" by (simp add: store_data_def store_new_def fun_eq_iff)
    then have "table_data ?e = (table_data e)(t \<mapsto> Map.empty)"
      using av(5) e1(2) by (simp add: table_data_def fun_eq_iff)
    moreover have "\<forall>u. u \<noteq> t \<longrightarrow> table_view ?e u = table_view e u"
      using av(1) e1(1) by (simp add: table_view_def)
    moreover have "wal_of (en_disk ?e) t = created_log hc fc cs (wal_of (en_disk e) t)"
    proof -
      have "files_of (en_disk ?e) t = (files_of (en_disk e1) t)\<lparr>tf_wal := Some (wal_of (en_disk e1) t)\<rparr>"
        using av(2) by (simp add: table_view_def)
      then show ?thesis using e1(3) by (simp add: wal_of_def)
    qed
    ultimately show ?thesis using c True ab by auto
  qed
qed

section \<open>Dropping a table\<close>

text \<open>A sync changes flags and offsets only.\<close>

definition flags_only :: "(string, StatsManager) umap \<Rightarrow> (string, StatsManager) umap \<Rightarrow> bool" where
  "flags_only m m' \<longleftrightarrow> (\<forall>u. (map_of m' u = None) = (map_of m u = None)) \<and>
     (\<forall>u x x'. map_of m u = Some x \<longrightarrow> map_of m' u = Some x' \<longrightarrow>
        sm_stats x' = sm_stats x \<and> sm_removed x' = sm_removed x)"

lemma flags_only_refl [simp]: "flags_only m m"
  by (simp add: flags_only_def)

lemma flags_onlyD:
  assumes "flags_only m m'"
  shows "map_of m' u = None \<longleftrightarrow> map_of m u = None"
    "map_of m u = Some x \<Longrightarrow> map_of m' u = Some y \<Longrightarrow> sm_stats y = sm_stats x \<and> sm_removed y = sm_removed x"
  using assms unfolding flags_only_def by blast+

lemma flags_only_trans:
  assumes "flags_only a b" and "flags_only b c"
  shows "flags_only a c"
  unfolding flags_only_def
proof (intro conjI allI impI)
  fix u
  show "(map_of c u = None) = (map_of a u = None)"
    by (simp only: flags_onlyD(1) [OF assms(1)] flags_onlyD(1) [OF assms(2)])
  fix x z assume xz: "map_of a u = Some x" "map_of c u = Some z"
  then have "map_of b u \<noteq> None" using flags_onlyD(1) [OF assms(1), of u] by simp
  then obtain y where y: "map_of b u = Some y" by blast
  show "sm_stats z = sm_stats x" "sm_removed z = sm_removed x"
    using flags_onlyD(2) [OF assms(1) xz(1) y] flags_onlyD(2) [OF assms(2) y xz(2)] by simp_all
qed

lemma sync_attempts_total: "(\<forall>off. pm_SerializeWALEntries pm d off \<noteq> None) \<Longrightarrow>
    sync_attempts net pm d s table r is st \<noteq> None"
proof (induction "is" arbitrary: st)
  case (Cons i js)
  obtain off f w where st: "st = (off, f, w)" by (metis prod_cases3)
  obtain es where "pm_SerializeWALEntries pm d off = Some es" using Cons.prems by blast
  moreover obtain cs where "ComputeChecksum s = Some cs" using ComputeChecksum_total [of s] by blast
  ultimately show ?case using Cons.IH [OF Cons.prems] st by (simp add: Let_def split_beta)
qed simp

lemma sync_replicas_total: "(\<forall>off. pm_SerializeWALEntries pm d off \<noteq> None) \<Longrightarrow>
    sync_replicas net pm d s table rs st \<noteq> None"
proof (induction rs arbitrary: st)
  case (Cons r rs)
  obtain off f w where st: "st = (off, f, w)" by (metis prod_cases3)
  obtain x where x: "sync_attempts net pm d s table r [0..<kRetryCount + 1] (offset_of off table r, f, w) = Some x"
    using sync_attempts_total [OF Cons.prems] by blast
  obtain a b c where "x = (a, b, c)" by (metis prod_cases3)
  with Cons st x show ?case by simp
qed simp

text \<open>Every log can be parsed: no line leaves a variable unset.\<close>

definition logs_ok :: "(string, PersistenceManager) umap \<Rightarrow> disk \<Rightarrow> bool" where
  "logs_ok pm_map d \<longleftrightarrow> (\<forall>(t, pm) \<in> set pm_map. \<forall>off. pm_SerializeWALEntries pm d off \<noteq> None)"

lemma sync_table_ok:
  assumes "\<forall>off. pm_SerializeWALEntries pm d off \<noteq> None"
  shows "\<exists>offs' m' w'. sync_table net rs d store_map (t, pm) (offs, m, w) = Some (offs', m', w') \<and> flags_only m m'"
proof (cases "map_of store_map t")
  case None
  then show ?thesis by (simp add: sync_table_def)
next
  case (Some s)
  obtain x where x: "sync_replicas net pm d s t rs (offs, False, w) = Some x"
    using sync_replicas_total [OF assms] by blast
  obtain a b c where "x = (a, b, c)" by (metis prod_cases3)
  note x = x [unfolded this]
  show ?thesis
  proof (cases "map_of m t")
    case None
    with Some x show ?thesis by (simp add: sync_table_def)
  next
    case (Some st)
    with \<open>map_of store_map t = Some s\<close> x show ?thesis
      by (cases b) (auto simp: sync_table_def flags_only_def stats_SetModifiedFlag_def)
  qed
qed

lemma rm_Sync_ok:
  fixes net :: "'w Net"
  assumes "logs_ok pm_map d"
  shows "\<exists>offs' m' w'. rm_Sync net sh force rs d store_map pm_map (offs, m, w) = Some (offs', m', w') \<and> flags_only m m'"
proof -
  have "\<exists>st'. for_each (sync_table net rs d store_map) pm_map (offs, m, w) = Some st' \<and> flags_only m (fst (snd st'))"
  proof (rule for_each_invar)
    fix tp :: "string \<times> PersistenceManager" and st :: "offsets \<times> (string, StatsManager) umap \<times> 'w"
    assume tp: "tp \<in> set pm_map" and st: "flags_only m (fst (snd st))"
    obtain t pm where t: "tp = (t, pm)" by fastforce
    obtain o1 m1 w1 where s: "st = (o1, m1, w1)" by (metis prod_cases3)
    have "\<forall>off. pm_SerializeWALEntries pm d off \<noteq> None" using assms tp t by (auto simp: logs_ok_def)
    from sync_table_ok [OF this, of net rs store_map t o1 m1 w1] obtain o2 m2 w2
      where r: "sync_table net rs d store_map (t, pm) (o1, m1, w1) = Some (o2, m2, w2)" "flags_only m1 m2" by blast
    moreover have "flags_only m m2" using flags_only_trans [OF _ r(2)] st s by simp
    ultimately show "\<exists>s'. sync_table net rs d store_map tp st = Some s' \<and> flags_only m (fst (snd s'))"
      using s t by simp
  qed simp
  then show ?thesis by (auto simp: rm_Sync_def)
qed

lemma engine_Sync_ok:
  fixes net :: "'w Net" and w :: 'w
  assumes "engine_inv rl e" and "logs_ok (en_persistence_manager_map e) (en_disk e)"
  shows "\<exists>e' w'. engine_Sync net force (e, w) = Some (e', w') \<and> engine_inv rl e' \<and>
    en_metadata e' = en_metadata e \<and> en_shutdown e' = en_shutdown e \<and> en_store_map e' = en_store_map e \<and>
    en_persistence_manager_map e' = en_persistence_manager_map e \<and> en_metrics_manager_map e' = en_metrics_manager_map e \<and>
    en_cache_map e' = en_cache_map e \<and> en_disk e' = en_disk e \<and>
    flags_only (en_stats_manager_map e) (en_stats_manager_map e')"
proof -
  obtain offs m w' where r: "rm_Sync net (en_shutdown e) force (md_replicas (en_metadata e)) (en_disk e) (en_store_map e)
      (en_persistence_manager_map e) (en_wal_offsets e, en_stats_manager_map e, w) = Some (offs, m, w')"
    and f: "flags_only (en_stats_manager_map e) m"
    using rm_Sync_ok [OF assms(2), of net "en_shutdown e" force "md_replicas (en_metadata e)" "en_store_map e"
        "en_wal_offsets e" "en_stats_manager_map e" w] by blast
  define e' where "e' = e\<lparr>en_wal_offsets := offs, en_stats_manager_map := m\<rparr>"
  have "view_inv rl t (table_view e' t)" for t
    using assms(1)
  proof (cases rule: engine_inv_cases [of rl e t])
    case absent
    then show ?thesis using f by (simp add: view_inv_def table_view_def e'_def flags_only_def)
  next
    case (present s pm st me c)
    then have "map_of m t \<noteq> None" using flags_onlyD(1) [OF f, of t] by simp
    then obtain st' where st': "map_of m t = Some st'" by blast
    then have "sm_stats st' = sm_stats st" using flags_onlyD(2) [OF f present(3) st'] by simp
    then have "table_inv rl t s pm st' c" using present(6) by (simp add: table_inv_def live_count_def)
    with present st' show ?thesis by (simp add: view_inv_def table_view_def e'_def)
  qed
  then have "engine_inv rl e'" by (simp add: engine_inv_def)
  moreover have "engine_Sync net force (e, w) = Some (e', w')" using r by (simp add: engine_Sync_def e'_def)
  ultimately show ?thesis using f by (simp add: e'_def)
qed

lemma drop_maps_inv:
  assumes "engine_inv rl e" and "table_exists e t"
  shows "engine_inv rl (drop_maps t e)" "table_data (drop_maps t e) = (table_data e)(t := None)"
    "files_of (en_disk (drop_maps t e)) t = no_files" "\<And>u. u \<noteq> t \<Longrightarrow> table_view (drop_maps t e) u = table_view e u"
proof -
  have pm: "pm_table_name (mref (en_persistence_manager_map e) t) = t"
    using assms(1)
  proof (cases rule: engine_inv_cases [of rl e t])
    case absent
    then show ?thesis using assms(2) by (simp add: table_exists_def contains_def)
  qed (simp add: table_inv_def)
  show v: "table_view (drop_maps t e) u = table_view e u" if "u \<noteq> t" for u
    using that pm by (simp add: table_view_def drop_maps_def files_of_Clear)
  show "engine_inv rl (drop_maps t e)"
  proof (rule engine_inv_upd [OF assms(1), where t = t])
    show "\<forall>u. u \<noteq> t \<longrightarrow> table_view (drop_maps t e) u = table_view e u" using v by blast
    show "view_inv rl t (table_view (drop_maps t e) t)"
      by (simp add: view_inv_def table_view_def drop_maps_def)
  qed
  show "table_data (drop_maps t e) = (table_data e)(t := None)"
    by (simp add: table_data_def drop_maps_def fun_eq_iff)
  show "files_of (en_disk (drop_maps t e)) t = no_files"
    using pm by (simp add: drop_maps_def files_of_Clear)
qed

text \<open>The engine the log sees while a table is dropped: the \<open>drop\<close> entry is written, the flag set.\<close>

definition dropping :: "string \<Rightarrow> Engine \<Rightarrow> Engine" where
  "dropping t e = upd_disk (pm_AppendDrop (mref (en_persistence_manager_map e) t))
     (upd_stats t (stats_SetModifiedFlag True) e)"

lemma dropping_inv:
  assumes "engine_inv rl e" and "table_exists e t"
  shows "engine_inv rl (dropping t e)" "table_data (dropping t e) = table_data e"
    "table_exists (dropping t e) t" "\<And>u. u \<noteq> t \<Longrightarrow> table_view (dropping t e) u = table_view e u"
proof -
  have pm: "pm_table_name (mref (en_persistence_manager_map e) t) = t"
    using assms(1)
  proof (cases rule: engine_inv_cases [of rl e t])
    case absent
    then show ?thesis using assms(2) by (simp add: table_exists_def contains_def)
  qed (simp add: table_inv_def)
  show v: "table_view (dropping t e) u = table_view e u" if "u \<noteq> t" for u
    using that pm by (simp add: table_view_def dropping_def pm_AppendDrop_def set_wal_def)
  show "engine_inv rl (dropping t e)"
  proof (rule engine_inv_upd [OF assms(1), where t = t])
    show "\<forall>u. u \<noteq> t \<longrightarrow> table_view (dropping t e) u = table_view e u" using v by blast
    show "view_inv rl t (table_view (dropping t e) t)"
      using assms(1)
    proof (cases rule: engine_inv_cases [of rl e t])
      case absent
      then show ?thesis using assms(2) by (simp add: table_exists_def contains_def)
    next
      case (present s pm st me c)
      then show ?thesis by (simp add: view_inv_def table_view_def dropping_def table_inv_def)
    qed
  qed
  show "table_data (dropping t e) = table_data e"
    by (simp add: table_data_def dropping_def fun_eq_iff)
  show "table_exists (dropping t e) t"
    using assms(2) by (simp add: table_exists_def dropping_def contains_def)
qed

lemma flags_only_contains: "flags_only m m' \<Longrightarrow> contains m' t = contains m t"
  using flags_onlyD(1) [of m m' t] by (simp add: contains_def)

lemma engine_DropTable_dropped:
  fixes net :: "'w Net" and w :: 'w
  assumes "engine_inv rl e" and "md_primary (en_metadata e)" and "\<not> en_shutdown e" and "ValidateDropTable t"
    and "table_exists e t" and "logs_ok (en_persistence_manager_map e) (en_disk (dropping t e))"
  shows "\<exists>e' w'. engine_DropTable net t (e, w) = Some (True, e', w') \<and> engine_inv rl e' \<and>
    table_data e' = (table_data e)(t := None) \<and> files_of (en_disk e') t = no_files \<and>
    en_metadata e' = en_metadata e \<and> en_shutdown e' = en_shutdown e \<and> en_store_map e' = merase t (en_store_map e) \<and>
    en_persistence_manager_map e' = merase t (en_persistence_manager_map e) \<and> en_cache_map e' = merase t (en_cache_map e) \<and>
    (distinct (keys (en_disk e)) \<longrightarrow> distinct (keys (en_disk e'))) \<and>
    (\<forall>u. u \<noteq> t \<longrightarrow> files_of (en_disk e') u = files_of (en_disk e) u \<and>
       contains (en_stats_manager_map e') u = contains (en_stats_manager_map e) u)"
proof -
  note d = dropping_inv [OF assms(1,5)]
  have l: "logs_ok (en_persistence_manager_map (dropping t e)) (en_disk (dropping t e))"
    using assms(6) by (simp add: dropping_def)
  from engine_Sync_ok [OF d(1) l, of net True w] obtain e1 w1 where
    s: "engine_Sync net True (dropping t e, w) = Some (e1, w1)" and i: "engine_inv rl e1"
    and g: "en_metadata e1 = en_metadata (dropping t e)" "en_shutdown e1 = en_shutdown (dropping t e)"
      "en_disk e1 = en_disk (dropping t e)"
    and m: "en_store_map e1 = en_store_map (dropping t e)"
      "en_persistence_manager_map e1 = en_persistence_manager_map (dropping t e)"
      "en_metrics_manager_map e1 = en_metrics_manager_map (dropping t e)" "en_cache_map e1 = en_cache_map (dropping t e)"
    and f: "flags_only (en_stats_manager_map (dropping t e)) (en_stats_manager_map e1)"
    by blast
  have ex: "table_exists e1 t"
    using d(3) m flags_only_contains [OF f, of t] by (simp add: table_exists_def)
  note r = drop_maps_inv [OF i ex]
  have "table_data e1 = table_data e"
    using m(1) d(2) by (simp add: table_data_def fun_eq_iff)
  moreover have "engine_DropTable net t (e, w) = Some (True, drop_maps t e1, w1)"
    using assms(2-5) s by (simp add: engine_DropTable_def Let_def dropping_def)
  moreover have "en_metadata (drop_maps t e1) = en_metadata e" "en_shutdown (drop_maps t e1) = en_shutdown e"
    "en_store_map (drop_maps t e1) = merase t (en_store_map e)"
    "en_persistence_manager_map (drop_maps t e1) = merase t (en_persistence_manager_map e)"
    "en_cache_map (drop_maps t e1) = merase t (en_cache_map e)"
    "distinct (keys (en_disk e)) \<longrightarrow> distinct (keys (en_disk (drop_maps t e1)))"
    using g m by (simp_all add: drop_maps_def dropping_def pm_Clear_def pm_AppendDrop_def set_wal_def upd_files_def)
  moreover have "files_of (en_disk (drop_maps t e1)) u = files_of (en_disk e) u \<and>
      contains (en_stats_manager_map (drop_maps t e1)) u = contains (en_stats_manager_map e) u" if "u \<noteq> t" for u
  proof -
    have "table_view (dropping t e) u = table_view e u" by (rule d(4) [OF that])
    moreover have "table_view (drop_maps t e1) u = table_view e1 u" by (rule r(4) [OF that])
    ultimately show ?thesis using g(3) flags_only_contains [OF f, of u]
      by (simp add: table_view_def contains_def)
  qed
  ultimately show ?thesis using r(1-3) by (intro exI [of _ "drop_maps t e1"] exI [of _ w1]) simp
qed

end
