(* ===== verification/Samples.thy ===== *)
theory Samples
  imports EngineTables
begin

text \<open>
  Small concrete indexes, stores and engines on which the properties are instantiated, with
  their invariants: two vectors of one component, in a flat and in an HNSW index.
\<close>

section \<open>Indexes\<close>

definition sample_fc :: FlatIndexConfig where
  "sample_fc = \<lparr>fc_vector_dimensionality = 1, fc_metric = L2\<rparr>"

definition sample_hc :: HNSWIndexConfig where
  "sample_hc = \<lparr>hc_m = 2, hc_m0 = 4, hc_ef_construction = 8, hc_ml = f32_one, hc_metric = L2,
     hc_vector_dimensionality = 1\<rparr>"

definition ground_level :: level_fun where
  "ground_level i ml = 0"

definition sample_flat :: FlatIndex where
  "sample_flat = \<lparr>fi_config = sample_fc, fi_vectors = [(1, [f32_one]), (2, [f32_zero])]\<rparr>"

definition sample_node :: "vector \<Rightarrow> (int, Id list) umap \<Rightarrow> Node" where
  "sample_node v nbs = \<lparr>n_vector = v, n_level = 0, n_neighbors = nbs, n_active = True\<rparr>"

definition sample_hnsw1 :: HNSWIndex where
  "sample_hnsw1 = \<lparr>hx_config = sample_hc, hx_nodes = [(1, sample_node [f32_one] [])],
     hx_node_levels = [(0, [1])], hx_max_level = 0, hx_entry_point = Some 1\<rparr>"

definition sample_hnsw :: HNSWIndex where
  "sample_hnsw = \<lparr>hx_config = sample_hc,
     hx_nodes = [(1, sample_node [f32_one] [(0, [2])]), (2, sample_node [f32_zero] [(0, [1])])],
     hx_node_levels = [(0, [1, 2])], hx_max_level = 0, hx_entry_point = Some 1\<rparr>"

lemma sample_distances [simp]:
  "ComputeDistance L2 [f32_one] [f32_one] = f32_zero" "ComputeDistance L2 [f32_zero] [f32_zero] = f32_zero"
  "ComputeDistance L2 [f32_one] [f32_zero] = f32_one" "ComputeDistance L2 [f32_zero] [f32_one] = f32_one"
proof -
  have "l2_loop f32_zero [f32_one] [f32_zero] = f32_one" by (simp add: float_eval Let_def)
  then show "ComputeDistance L2 [f32_one] [f32_zero] = f32_one"
    by (simp add: ComputeDistance.simps fsqrt_one del: fsqrt.simps l2_loop.simps)
  then show "ComputeDistance L2 [f32_zero] [f32_one] = f32_one" by (simp only: ComputeDistance_sym)
qed (simp_all add: ComputeDistance_L2_self f32_one_def)

lemma sample_finite [simp]: "finite_vec [f32_one]" "finite_vec [f32_zero]" "is_finite f32_one"
  by (simp_all add: f32_one_def)

lemma f32_one_order [simp]: "flt f32_zero f32_one" "\<not> flt f32_one f32_zero" "\<not> is_nan f32_one" "feq f32_one f32_one"
  "\<not> feq f32_one f32_zero" "\<not> feq f32_zero f32_one"
  by (simp_all add: f32_one_def sval_def)

lemma f32_key_sample [simp]: "f32_key f32_one = (0, 2 ^ 149)" "sval False 0 = 0"
  by (simp_all add: f32_one_def sval_def)

lemma sample_wal_stable: "wal_stable f32_one"
  by (simp add: text_eval f32_one_def)

lemma sample_size [simp]: "size_of_int 1 = 1"
  by simp

lemmas sample_eval = sample_fc_def sample_hc_def ground_level_def sample_flat_def sample_node_def sample_hnsw1_def sample_hnsw_def

lemma sample_insert1: "hnsw_Insert ground_level (hnsw_new sample_hc) 1 [f32_one] = Some sample_hnsw1"
  by (simp add: sample_eval hnsw_Insert_def hnsw_InsertNoLock_def hnsw_new_def add_node_def sinsert_def set_ref_def)

lemma sample_levels: "levels_down 0 0 = []" "levels_down 0 (- 1) = [0]"
  by (simp_all add: levels_down_def upto.simps)

lemma sample_insert2: "hnsw_Insert ground_level sample_hnsw1 2 [f32_zero] = Some sample_hnsw"
  by (simp add: sample_eval hnsw_Insert_def hnsw_InsertNoLock_def add_node_def sinsert_def set_ref_def contains_iff
      SearchLevel_def emplace_def comparable_def pair_ok_def hnsw_ComputeDistance_def SelectNeighbors_def max_neighbors_def
      ConnectNeighbors_def connect_one_def add_edge_def upd_node_def node_ref_def set_neighbors_def sample_levels Let_def
      sort_key_def)

lemma sample_flat_inv: "flat_inv sample_flat"
  by (simp add: flat_inv_def flat_wf_def flat_finite_def sample_eval)

lemma sample_hnsw_inv: "hnsw_inv ground_level sample_hnsw1" "hnsw_inv ground_level sample_hnsw"
proof -
  have "hnsw_inv ground_level (hnsw_new sample_hc)" by (rule hnsw_inv_new) (simp_all add: sample_eval)
  then show i1: "hnsw_inv ground_level sample_hnsw1"
    using hnsw_Insert_ok [of ground_level "hnsw_new sample_hc" 1 "[f32_one]"] sample_insert1
    by (simp add: accepts_def sample_hc_def hnsw_new_def)
  show "hnsw_inv ground_level sample_hnsw"
    using hnsw_Insert_ok [OF i1, of 2 "[f32_zero]"] sample_insert2
    by (simp add: accepts_def sample_hnsw1_def sample_hc_def contains_iff)
qed

lemma sample_active [simp]: "is_active sample_hnsw i \<longleftrightarrow> i = 1 \<or> i = 2"
  by (simp add: is_active_def sample_eval)

lemma sample_node_ref [simp]: "n_vector (node_ref sample_hnsw 1) = [f32_one]" "n_vector (node_ref sample_hnsw 2) = [f32_zero]"
  by (simp_all add: node_ref_def sample_eval)

lemma sample_keys [simp]: "keys (hx_nodes sample_hnsw) = [1, 2]" "hc_metric (hx_config sample_hnsw) = L2"
  by (simp_all add: sample_eval)

lemma sample_connected: "connected sample_hnsw"
proof -
  have n: "neighbors_at sample_hnsw 1 0 = [2]" "neighbors_at sample_hnsw 2 0 = [1]"
    by (simp_all add: neighbors_at_def node_ref_def set_ref_def sample_eval)
  have "reach sample_hnsw 0 1 2" by (rule reach.step [OF reach.start]) (simp_all add: n)
  moreover have "reach sample_hnsw 0 2 1" by (rule reach.step [OF reach.start]) (simp_all add: n)
  ultimately show ?thesis by (auto simp: connected_def intro: reach.start)
qed

section \<open>Stores\<close>

definition sample_data :: "(Id, Data) umap" where
  "sample_data = [(1, \<lparr>d_id = 1, d_vector = [f32_one], d_content = ''a''\<rparr>),
     (2, \<lparr>d_id = 2, d_vector = [f32_zero], d_content = ''b''\<rparr>)]"

definition sample_store :: VectorStore where
  "sample_store = \<lparr>vs_index_type = FLAT, vs_store = sample_data, vs_index = FlatIx sample_flat,
     vs_vector_dimensionality = 1\<rparr>"

definition sample_graph_store :: VectorStore where
  "sample_graph_store = \<lparr>vs_index_type = HNSW, vs_store = sample_data, vs_index = HnswIx sample_hnsw,
     vs_vector_dimensionality = 1\<rparr>"

lemma sample_sync: "in_sync sample_store" "in_sync sample_graph_store"
proof -
  show "in_sync sample_store"
    by (simp add: in_sync_def sample_store_def store_vec_def sample_data_def sample_flat_def flat_vec_def fun_eq_iff)
  show "in_sync sample_graph_store"
    by (auto simp: in_sync_def sample_graph_store_def store_vec_def sample_data_def hnsw_vec_def fun_eq_iff)
qed

lemma sample_store_inv: "store_inv rl sample_store" "store_inv ground_level sample_graph_store"
proof -
  show "store_inv rl sample_store"
    using sample_sync(1) sample_flat_inv
    by (simp add: store_inv_def in_sync_def)
      (simp add: sample_store_def sample_data_def flat_dim_def sample_flat_def sample_fc_def)
  show "store_inv ground_level sample_graph_store"
    using sample_sync(2) sample_hnsw_inv(2)
    by (simp add: store_inv_def in_sync_def)
      (simp add: sample_graph_store_def sample_data_def hnsw_dim_def sample_hnsw_def sample_hc_def flat_store_def)
qed

section \<open>An engine\<close>

text \<open>A primary with the flat table \<open>t\<close> and its two records, and one with no table.\<close>

definition sample_pm :: PersistenceManager where
  "sample_pm = \<lparr>pm_table_name = ''t'', pm_stored_index_type = STORED_FLAT\<rparr>"

definition sample_md :: Metadata where
  "sample_md = \<lparr>md_name = ''n'', md_primary = True, md_sync_server_address = [], md_replicas = [''r''],
     md_reindex_threshold = f32_zero, md_use_cache = True, md_cleanup_interval = 1, md_sync_interval = 1,
     md_logger_type = SILENT\<rparr>"

definition sample_stats :: StatsManager where
  "sample_stats = stats_Increment VECTOR (stats_Increment VECTOR stats_new)"

definition sample_engine :: Engine where
  "sample_engine = \<lparr>en_metadata = sample_md, en_shutdown = False, en_store_map = [(''t'', sample_store)],
     en_persistence_manager_map = [(''t'', sample_pm)], en_stats_manager_map = [(''t'', sample_stats)],
     en_metrics_manager_map = [(''t'', metrics_new)], en_cache_map = [(''t'', lru_new 2)], en_disk = [],
     en_wal_offsets = []\<rparr>"

definition empty_engine :: Engine where
  "empty_engine = engine_init sample_md []"

lemma sample_engine_inv: "engine_inv rl sample_engine" "engine_inv rl empty_engine"
proof -
  have "table_inv rl ''t'' sample_store sample_pm sample_stats (lru_new 2)"
    using sample_store_inv(1) [of rl] lru_inv_new [of 2]
    by (simp add: table_inv_def sample_stats_def) (simp add: sample_pm_def same_kind_def sample_store_def sample_data_def)
  then show "engine_inv rl sample_engine"
    by (simp add: engine_inv_def view_inv_def table_view_def sample_engine_def)
  show "engine_inv rl empty_engine" unfolding empty_engine_def by (rule engine_inv_init)
qed

lemma sample_engine_simps [simp]:
  "en_metadata sample_engine = sample_md" "\<not> en_shutdown sample_engine" "en_store_map sample_engine = [(''t'', sample_store)]"
  "md_primary sample_md" "writable sample_engine ''t''" "searchable_table sample_engine ''t''" "table_exists sample_engine ''t''"
  by (simp_all add: sample_engine_def writable_def searchable_table_def table_exists_def contains_iff sample_md_def)

lemma sample_store_simps [simp]:
  "vs_store sample_store = sample_data" "store_dim sample_store = 1" "flat_store sample_store"
  "map_of sample_data 1 = Some \<lparr>d_id = 1, d_vector = [f32_one], d_content = ''a''\<rparr>"
  "map_of sample_data 2 = Some \<lparr>d_id = 2, d_vector = [f32_zero], d_content = ''b''\<rparr>"
  by (simp_all add: sample_store_def store_dim_def flat_store_def sample_data_def)

lemma sample_table_data: "table_data sample_engine ''t'' = Some [1 \<mapsto> ([f32_one], ''a''), 2 \<mapsto> ([f32_zero], ''b'')]"
  by (simp add: table_data_def store_data_def sample_data_def fun_eq_iff)

text \<open>A network on which every call fails.\<close>

definition sample_silent_net :: "unit Net" where
  "sample_silent_net = \<lparr>net_Sync = \<lambda>r es w. ((False, 0), w), net_GetChecksum = \<lambda>r t w. ((False, 0), w)\<rparr>"

lemma sample_drop_log: "pm_SerializeWALEntries sample_pm (en_disk (dropping ''t'' sample_engine)) off \<noteq> None"
proof -
  have "wal_of (en_disk (dropping ''t'' sample_engine)) ''t'' = ''drop'' @ [newline]"
    by (simp add: dropping_def sample_engine_def sample_pm_def pm_AppendDrop_def wal_AppendDrop_def)
      (simp add: wal_of_def files_of_def no_files_def)
  moreover have "lines (''drop'' @ [newline]) = [''drop'']"
    using lines_line [of "''drop''" "[]"] by simp
  ultimately have "wal_entries STORED_FLAT ''t'' (wal_of (en_disk (dropping ''t'' sample_engine)) ''t'') =
      Some [\<lparr>we_type = WAL_DROP, we_table = ''t'', we_config = NoConfig\<rparr>]"
    by (simp only: wal_entries_def list.map parse_drop_line those.simps option.case option.map)
  from SerializeWALEntries_offset [OF this] show ?thesis
    by (simp add: pm_SerializeWALEntries_def sample_pm_def)
qed

end
