(* ===== verification/IndexProperties.thy ===== *)
theory IndexProperties
  imports Samples
begin

text \<open>
  The properties of the distance, of the two indexes and of the store, each with an instance on
  the samples.
\<close>

section \<open>Distance\<close>

text \<open>C40: the Euclidean distance of vectors with finite components is symmetric, never NaN, never
  negative and never \<open>-0\<close>, representable in single precision, and zero from a vector to itself.\<close>

theorem l2_distance_metric:
  assumes "finite_vec a" and "finite_vec b"
  shows "ComputeDistance L2 a b = ComputeDistance L2 b a \<and> nonneg (ComputeDistance L2 a b) \<and>
    \<not> is_nan (ComputeDistance L2 a b) \<and> f32_ok (ComputeDistance L2 a b) \<and>
    ComputeDistance L2 a a = f32_zero"
  using assms ComputeDistance_sym ComputeDistance_L2_nonneg ComputeDistance_L2_not_nan ComputeDistance_ok
    ComputeDistance_L2_self by simp

lemma l2_distance_metric_witness:
  "\<not> is_nan (ComputeDistance L2 [f32_one] [f32_zero]) \<and>
   ComputeDistance L2 [f32_one] [f32_zero] = ComputeDistance L2 [f32_zero] [f32_one]"
  using l2_distance_metric [of "[f32_one]" "[f32_zero]"] by simp

section \<open>The flat index\<close>

text \<open>C23: a search of a flat index returns exactly the \<open>k\<close> nearest vectors, nearest first, equal
  distances by id.\<close>

theorem flat_search_exact:
  assumes "flat_inv ix" and "finite_vec q" and "length q = flat_dim ix"
  shows "flat_Search ix q k p = Some (knn ix q k)"
  using assms by (intro flat_Search_knn) (simp_all add: flat_inv_def scored_ok flat_dim_def)

lemma flat_search_exact_witness: "flat_Search sample_flat [f32_zero] 1 0 = Some [2]"
proof -
  have "knn sample_flat [f32_zero] 1 = [2]"
    by (simp add: knn_def sample_eval flat_ComputeDistance_def sort_key_def dkey_def)
  then show ?thesis
    using flat_search_exact [OF sample_flat_inv sample_finite(2)]
    by (simp add: flat_dim_def sample_flat_def sample_fc_def)
qed

text \<open>The result of a flat search does not depend on the order in which the hash map holds the
  vectors.\<close>

theorem flat_search_order_independent:
  assumes "flat_inv ix" and "finite_vec q" and "length q = flat_dim ix"
    and "mset (fi_vectors jx) = mset (fi_vectors ix)" and "fi_config jx = fi_config ix"
  shows "flat_Search jx q k p = flat_Search ix q k p"
proof -
  have s: "set (fi_vectors jx) = set (fi_vectors ix)" using assms(4) by (rule mset_eq_setD)
  have "mset (keys (fi_vectors jx)) = mset (keys (fi_vectors ix))" using assms(4) by simp
  then have "distinct (keys (fi_vectors jx)) = distinct (keys (fi_vectors ix))" by (rule mset_eq_imp_distinct_iff)
  then have "flat_inv jx" using assms(1,5) s by (simp add: flat_inv_def flat_wf_def flat_finite_def)
  then have "flat_Search jx q k p = Some (knn jx q k)"
    using assms(2,3,5) by (intro flat_Search_knn) (simp_all add: flat_inv_def scored_ok flat_dim_def)
  moreover have "flat_Search ix q k p = Some (knn ix q k)"
    using assms(1-3) by (intro flat_Search_knn) (simp_all add: flat_inv_def scored_ok flat_dim_def)
  moreover have "knn ix q k = knn jx q k"
    using assms(1,4,5) by (intro knn_order_independent) (simp_all add: flat_inv_def flat_wf_def)
  ultimately show ?thesis by simp
qed

lemma flat_search_order_independent_witness:
  "flat_Search (sample_flat\<lparr>fi_vectors := rev (fi_vectors sample_flat)\<rparr>) [f32_zero] 2 0 =
   flat_Search sample_flat [f32_zero] 2 0"
  by (rule flat_search_order_independent [OF sample_flat_inv sample_finite(2)])
    (simp_all add: flat_dim_def sample_flat_def sample_fc_def)

section \<open>The HNSW index\<close>

text \<open>C19: inserting a new vector of the right size into an HNSW index returns, keeps the invariant
  (edges symmetric and inside the graph, degrees within the limits, levels and entry point in
  step) and makes exactly that vector active.\<close>

theorem hnsw_insert_invariant:
  assumes "hnsw_inv rl h" and "accepts h i v" and "finite_vec v"
  shows "\<exists>h'. hnsw_Insert rl h i v = Some h' \<and> hnsw_inv rl h' \<and> hnsw_vec h' = (hnsw_vec h)(i \<mapsto> v)"
proof -
  have "hnsw_fresh h i" "length v = hnsw_dim h" using assms(2) by (simp_all add: accepts_def hnsw_fresh_def hnsw_dim_def)
  then show ?thesis using hnsw.insert_law [OF assms(1,3), of i] by auto
qed

lemma hnsw_insert_invariant_witness:
  "\<exists>h'. hnsw_Insert ground_level sample_hnsw1 2 [f32_zero] = Some h' \<and> hnsw_vec h' 2 = Some [f32_zero]"
  using hnsw_insert_invariant [OF sample_hnsw_inv(1), of 2 "[f32_zero]"]
  by (auto simp: accepts_def sample_hnsw1_def sample_hc_def contains_iff)

text \<open>C20: a removal is soft: it keeps the invariant and every node, makes exactly that vector
  inactive, and moves the entry point when it was the one removed.\<close>

theorem hnsw_remove_invariant:
  assumes "hnsw_inv rl h"
  shows "hnsw_inv rl (hnsw_Remove h i) \<and> hnsw_vec (hnsw_Remove h i) = (hnsw_vec h)(i := None) \<and>
    keys (hx_nodes (hnsw_Remove h i)) = keys (hx_nodes h) \<and> hx_entry_point (hnsw_Remove h i) \<noteq> Some i"
proof -
  have v: "hnsw_vec (hnsw_Remove h i) = (hnsw_vec h)(i := None)" using hnsw.remove_law [OF assms, of i] by simp
  have "hnsw_inv rl (hnsw_Remove h i)" using hnsw_Remove_ok [OF assms] by blast
  then have "entry_ok (hnsw_Remove h i)" by (rule hnsw_invD)
  moreover have "\<not> is_active (hnsw_Remove h i) i" using hnsw_Remove_ok [OF assms] by blast
  ultimately show ?thesis using v hnsw_Remove_ok [OF assms] by (auto simp: entry_ok_def)
qed

lemma hnsw_remove_invariant_witness:
  "hnsw_vec (hnsw_Remove sample_hnsw 1) 1 = None \<and> hx_entry_point (hnsw_Remove sample_hnsw 1) \<noteq> Some 1"
  using hnsw_remove_invariant [OF sample_hnsw_inv(2), of 1] by simp

text \<open>C21: a search of an HNSW index that keeps its invariant, for a query of finite numbers, returns (with a
  NaN its distances have no order and nothing is said); its result holds distinct active ids, at most
  \<open>k\<close>, nearest first, and is not empty when the index holds a vector and both \<open>k\<close> and
  \<open>ef\<close> are positive.\<close>

theorem hnsw_search_sound:
  assumes "hnsw_inv rl h" and "finite_vec q"
  shows "\<exists>r. hnsw_Search h q k ef = Some r \<and> distinct r \<and> (\<forall>i \<in> set r. is_active h i) \<and> length r \<le> k \<and>
    sorted (map (\<lambda>i. dkey (score h q i)) r) \<and>
    (hx_entry_point h \<noteq> None \<and> 0 < ef \<and> 0 < k \<longrightarrow> r \<noteq> [])"
  by (rule hnsw_Search_ok) (use hnsw_invD [OF assms(1)] assms(2) in auto)

lemma hnsw_search_sound_witness: "\<exists>r. hnsw_Search sample_hnsw [f32_zero] 1 4 = Some r \<and> length r = 1"
proof -
  have e: "hx_entry_point sample_hnsw \<noteq> None" by (simp add: sample_hnsw_def)
  obtain r where r: "hnsw_Search sample_hnsw [f32_zero] 1 4 = Some r" "length r \<le> 1" "r \<noteq> []"
    using hnsw_search_sound [OF sample_hnsw_inv(2) sample_finite(2), of 1 4] e by auto
  then show ?thesis by (cases r) auto
qed

text \<open>Without that condition: the validation takes a NaN, every distance to it is one, and on a sample index of
  two vectors the order that the heaps and sorts of the library ask for is broken.\<close>

lemma nan_distance: "ComputeDistance L2 [NaN] [x] = NaN" "ComputeDistance L2 [x] [NaN] = NaN"
  by (cases x; simp add: ComputeDistance.simps Let_def fsub_def)+

theorem nan_breaks_order:
  "ValidateInsert ''t'' 3 [NaN] ''c'' \<and> hnsw_Insert ground_level sample_hnsw 3 [NaN] = None \<and>
   ValidateSearch ''t'' [NaN] 2 4 \<and> hnsw_Search sample_hnsw [NaN] 2 4 = None \<and> flat_Search sample_flat [NaN] 2 4 = None"
proof (intro conjI)
  note order = emplace_def comparable_def pair_ok_def nan_distance
  show "flat_Search sample_flat [NaN] 2 4 = None"
    by (simp add: flat_Search_def flat_ComputeDistance_def sample_eval order)
  show "hnsw_Search sample_hnsw [NaN] 2 4 = None"
    by (simp add: sample_eval order hnsw_Search_def SearchLevel_def hnsw_ComputeDistance_def sample_levels Let_def
        contains_iff is_active_def node_ref_def set_ref_def)
  show "hnsw_Insert ground_level sample_hnsw 3 [NaN] = None"
    by (simp add: sample_eval order hnsw_Insert_def hnsw_InsertNoLock_def add_node_def sinsert_def set_ref_def contains_iff
        SearchLevel_def hnsw_ComputeDistance_def SelectNeighbors_def max_neighbors_def ConnectNeighbors_def connect_one_def
        add_edge_def upd_node_def node_ref_def set_neighbors_def sample_levels Let_def is_active_def sort_key_def)
qed (simp_all add: ValidateInsert_def ValidateSearch_def)

text \<open>C18: on an index whose ground layer is connected, a search whose \<open>ef\<close> is at least the
  number of nodes returns exactly the \<open>k\<close> nearest active vectors, nearest first.\<close>

theorem hnsw_search_exact:
  assumes "hnsw_inv rl h" and "finite_vec q" and "connected h" and "hx_entry_point h \<noteq> None"
    and "length (hx_nodes h) \<le> ef"
  shows "hnsw_Search h q k ef = Some (hnsw_knn h q k)"
  by (rule hnsw_Search_exact) (use hnsw_invD [OF assms(1)] assms(2-5) in auto)

lemma hnsw_search_exact_witness: "hnsw_Search sample_hnsw [f32_zero] 1 2 = Some [2]"
proof -
  have "hnsw_knn sample_hnsw [f32_zero] 1 = [2]"
    by (simp add: hnsw_knn_def active_ids_def score_def dist_to_def hnsw_ComputeDistance_def sort_key_def dkey_def)
  then show ?thesis
    using hnsw_search_exact [OF sample_hnsw_inv(2) sample_finite(2) sample_connected, of 2 1]
    by (simp add: sample_hnsw_def)
qed

text \<open>C22: cleanup of an HNSW index, with or without a reindex, returns, keeps the invariant and the
  active vectors, and leaves no inactive node.\<close>

theorem hnsw_cleanup_invariant:
  assumes "hnsw_inv rl h"
  shows "\<exists>h'. (if reindex then hnsw_Reindex rl (hnsw_Cleanup h) else Some (hnsw_Cleanup h)) = Some h' \<and>
    hnsw_inv rl h' \<and> hnsw_vec h' = hnsw_vec h \<and> (\<forall>j. contains (hx_nodes h') j = is_active h j)"
proof -
  obtain h' where h': "hnsw_maintain rl h reindex = Some h'" "hnsw_inv rl h'" "\<forall>j. is_active h' j = is_active h j"
    "\<forall>j. contains (hx_nodes h') j = is_active h j"
    "\<forall>j. is_active h j \<longrightarrow> n_vector (node_ref h' j) = n_vector (node_ref h j)"
    using hnsw_maintain_ok [OF assms] by blast
  then have "hnsw_vec h' = hnsw_vec h" by (auto simp: hnsw_vec_def fun_eq_iff)
  with h' show ?thesis by (simp add: hnsw_maintain_def)
qed

lemma hnsw_cleanup_invariant_witness:
  "\<exists>h'. hnsw_Reindex ground_level (hnsw_Cleanup (hnsw_Remove sample_hnsw 1)) = Some h' \<and> \<not> contains (hx_nodes h') 1"
proof -
  have "\<not> is_active (hnsw_Remove sample_hnsw 1) 1" using hnsw_Remove_ok [OF sample_hnsw_inv(2)] by blast
  moreover have "hnsw_inv ground_level (hnsw_Remove sample_hnsw 1)" using hnsw_Remove_ok [OF sample_hnsw_inv(2)] by blast
  ultimately show ?thesis
    using hnsw_cleanup_invariant [of ground_level "hnsw_Remove sample_hnsw 1" True] by auto
qed

section \<open>The store\<close>

text \<open>An insertion into a store returns; it is taken exactly when the id is new and the vector
  has the table's size, it then changes the data at that id only, and it keeps the invariant that
  the index holds no vector the store does not.\<close>

theorem store_insert_effect:
  assumes "store_inv rl s" and "finite_vec v"
  shows "\<exists>s'. store_Insert rl s i v c = Some (takes s i v, s') \<and> store_inv rl s' \<and>
    store_data s' = (if takes s i v then (store_data s)(i \<mapsto> (v, c)) else store_data s)"
  using store_Insert_takes [OF assms, of i c] by blast

lemma store_insert_effect_witness:
  "\<exists>s'. store_Insert ground_level sample_store 7 [f32_zero] ''c'' = Some (True, s') \<and>
    store_data s' 7 = Some ([f32_zero], ''c'') \<and> store_data s' 1 = Some ([f32_one], ''a'')"
proof -
  have "takes sample_store 7 [f32_zero]" by (simp add: takes_def sample_store_def sample_data_def contains_iff)
  moreover have "store_data sample_store 1 = Some ([f32_one], ''a'')" by (simp add: store_data_def sample_store_def sample_data_def)
  ultimately show ?thesis
    using store_insert_effect [OF sample_store_inv(1) [of ground_level] sample_finite(2), of 7 "''c''"] by auto
qed

text \<open>A search of a store returns distinct stored records, at most \<open>k\<close>; on a flat store,
  exactly the nearest ones.\<close>

theorem store_search_effect:
  assumes "store_inv rl s" and "finite_vec q"
  shows "\<exists>r. store_Search s q k p = Some r \<and> distinct (map d_id r) \<and> length r \<le> k \<and>
    (\<forall>d \<in> set r. map_of (vs_store s) (d_id d) = Some d) \<and>
    (flat_store s \<and> length q = store_dim s \<longrightarrow> r = nearest (vs_store s) L2 q k)"
proof -
  obtain r where "store_Search s q k p = Some r" "distinct (map d_id r)" "length r \<le> k"
    "\<forall>d \<in> set r. map_of (vs_store s) (d_id d) = Some d"
    using store_Search_ok [OF assms] by blast
  then show ?thesis
    using store_Search_flat [OF assms(1) _ assms(2), of k p] by (auto simp: store_dim_def)
qed

lemma store_search_effect_witness:
  "store_Search sample_store [f32_zero] 1 0 = Some [\<lparr>d_id = 2, d_vector = [f32_zero], d_content = ''b''\<rparr>]"
proof -
  have "nearest (vs_store sample_store) L2 [f32_zero] 1 = [\<lparr>d_id = 2, d_vector = [f32_zero], d_content = ''b''\<rparr>]"
    by (simp add: nearest_def sample_store_def sample_data_def sort_key_def dist_key_def dkey_def)
  then show ?thesis
    using store_search_effect [OF sample_store_inv(1) [of ground_level] sample_finite(2), of 1 0]
    by (auto simp: flat_store_def sample_store_def store_dim_def)
qed

text \<open>C37: removing a vector from an HNSW table and inserting the same id again before a cleanup is
  answered with success, the store holds the new record, and no search finds it, before or after a
  cleanup: the index still holds the inactive node and ignores the insertion.\<close>

theorem reinserted_not_found:
  assumes "store_inv rl s" and "in_sync s" and "\<not> flat_store s" and "contains (vs_store s) i"
    and "finite_vec v" and "length v = store_dim s" and "finite_vec q"
  shows "\<exists>s1 s2 s3 r r'. store_Remove s i = (True, s1) \<and> store_Insert rl s1 i v c = Some (True, s2) \<and>
    store_data s2 i = Some (v, c) \<and> store_Search s2 q k p = Some r \<and> i \<notin> d_id ` set r \<and>
    store_Cleanup rl s2 reindex = Some s3 \<and> store_data s3 i = Some (v, c) \<and>
    store_Search s3 q k p = Some r' \<and> i \<notin> d_id ` set r'"
proof -
  obtain h where h: "vs_index s = HnswIx h" using assms(3) by (cases "vs_index s") (auto simp: flat_store_def)
  define s1 where "s1 = snd (store_Remove s i)"
  have r1: "store_Remove s i = (True, s1)" "store_inv rl s1" "\<not> contains (vs_store s1) i"
    "vs_vector_dimensionality s1 = vs_vector_dimensionality s"
    using store_Remove_ok [OF assms(1), of i] assms(4) by (simp_all add: s1_def prod_eq_iff)
  obtain s2 where s2: "store_Insert rl s1 i v c = Some (True, s2)" "store_inv rl s2"
    "vs_store s2 = mput i \<lparr>d_id = i, d_vector = v, d_content = c\<rparr> (vs_store s1)"
    using store_Insert_ok [OF r1(2) assms(5) r1(3)] assms(6) r1(4) by (auto simp: store_dim_def)
  have "index_vec (vs_index s2) i = None"
    using index_reinsert [OF assms(1,2) h assms(4)] s2(1) r1(1) by auto
  moreover obtain s3 where s3: "store_Cleanup rl s2 reindex = Some s3" "store_inv rl s3" "vs_store s3 = vs_store s2"
    using store_Cleanup_ok [OF s2(2)] by blast
  moreover have "index_vec (vs_index s3) = index_vec (vs_index s2)"
    using s3(1) index.cleanup_law [of rl "vs_index s2" reindex] s2(2) by (auto simp: store_Cleanup_alt store_inv_def)
  moreover have "store_data s2 i = Some (v, c)" using s2(3) by (simp add: store_data_def)
  moreover obtain r where "store_Search s2 q k p = Some r" "d_id ` set r \<subseteq> dom (index_vec (vs_index s2))"
    using store_Search_indexed [OF s2(2) assms(7)] by blast
  moreover obtain r' where "store_Search s3 q k p = Some r'" "d_id ` set r' \<subseteq> dom (index_vec (vs_index s3))"
    using store_Search_indexed [OF s3(2) assms(7)] by blast
  ultimately show ?thesis
    using r1(1) s2(1)
    by (intro exI [of _ s1] exI [of _ s2] exI [of _ s3] exI [of _ r] exI [of _ r']) (auto simp: store_data_def)
qed

lemma reinserted_not_found_witness:
  "\<exists>s1 s2 r. store_Remove sample_graph_store 2 = (True, s1) \<and>
    store_Insert ground_level s1 2 [f32_zero] ''c'' = Some (True, s2) \<and>
    store_Search s2 [f32_zero] 2 4 = Some r \<and> 2 \<notin> d_id ` set r"
  using reinserted_not_found [OF sample_store_inv(2) sample_sync(2), of 2 "[f32_zero]" "[f32_zero]" "''c''" 2 4 False]
  by (auto simp: flat_store_def sample_graph_store_def sample_data_def contains_iff store_dim_def)

text \<open>The checksum of a table always exists and depends on its ids and contents only, not on the
  order in which the hash map holds them: equal replicas have equal checksums.\<close>

theorem checksum_content_only:
  assumes "distinct (keys (vs_store s))" and "distinct (keys (vs_store t))"
    and "map_option d_content \<circ> map_of (vs_store s) = map_option d_content \<circ> map_of (vs_store t)"
  shows "ComputeChecksum s = ComputeChecksum t \<and> ComputeChecksum s \<noteq> None"
  using ComputeChecksum_cong [OF assms] ComputeChecksum_total [of t] by simp

lemma checksum_content_only_witness:
  "ComputeChecksum sample_store = ComputeChecksum (sample_store\<lparr>vs_store := rev sample_data\<rparr>)"
proof -
  have "map_of (rev sample_data) = map_of sample_data" by (simp add: sample_data_def fun_eq_iff)
  then show ?thesis
    using checksum_content_only [of sample_store "sample_store\<lparr>vs_store := rev sample_data\<rparr>"]
    by (simp add: sample_store_def) (simp add: sample_data_def)
qed

text \<open>C38: the checksum changes when one byte of one record's content changes, whatever the size of
  the table.\<close>

theorem checksum_detects_byte:
  assumes "distinct (keys (vs_store s))" and "map_of (vs_store s) i = Some d"
    and "d_content d = pre @ a # post" and "a \<noteq> b"
  shows "ComputeChecksum (s\<lparr>vs_store := mput i (d\<lparr>d_content := pre @ b # post\<rparr>) (vs_store s)\<rparr>) \<noteq> ComputeChecksum s"
  by (rule ComputeChecksum_detects [OF assms])

lemma checksum_detects_byte_witness:
  "ComputeChecksum (sample_store\<lparr>vs_store := mput 1 \<lparr>d_id = 1, d_vector = [f32_one], d_content = ''b''\<rparr>
     (vs_store sample_store)\<rparr>) \<noteq> ComputeChecksum sample_store"
  using checksum_detects_byte [of sample_store 1 "\<lparr>d_id = 1, d_vector = [f32_one], d_content = ''a''\<rparr>" "[]" "CHR ''a''" "[]"
      "CHR ''b''"]
  by (simp add: sample_store_def) (simp add: sample_data_def)

text \<open>The checksum does not see a record of id 0 with an empty content: a replica that lost it is
  taken for equal.\<close>

theorem checksum_blind_to_zero:
  assumes "distinct (keys (vs_store s))" and "\<not> contains (vs_store s) 0" and "d_content d = []"
  shows "ComputeChecksum (s\<lparr>vs_store := mput 0 d (vs_store s)\<rparr>) = ComputeChecksum s"
  by (rule ComputeChecksum_blind [OF assms])

lemma checksum_blind_to_zero_witness:
  "ComputeChecksum (sample_store\<lparr>vs_store := mput 0 \<lparr>d_id = 0, d_vector = [f32_one], d_content = []\<rparr>
     (vs_store sample_store)\<rparr>) = ComputeChecksum sample_store"
  using checksum_blind_to_zero [of sample_store "\<lparr>d_id = 0, d_vector = [f32_one], d_content = []\<rparr>"]
  by (simp add: sample_store_def contains_iff) (simp add: sample_data_def)

end
