(* ===== verification/StorageProperties.thy ===== *)
theory StorageProperties
  imports Samples
begin

text \<open>
  The properties of the cache, the log, the snapshots, the replication loop, the validator and
  the counters.
\<close>

section \<open>Cache\<close>

text \<open>\<open>Get\<close> of the linked cache is \<open>Get\<close> of a list kept in order of use: the same answer, the
  entry moved to the end, and the links stay consistent.\<close>

theorem cache_get_refines:
  assumes "lru_inv c" and "lru_Get c key = (r, c')"
  shows "lru_inv c' \<and> r = fst (spec_get key (lru_abs c)) \<and> lru_abs c' = snd (spec_get key (lru_abs c))"
proof -
  have "lru_wf c" using assms(1) by (simp add: lru_inv_def)
  from lru_Get_refines [OF this, of key] lru_inv_Get [OF assms(1), of key] assms(2) show ?thesis by simp
qed

definition sample_cache :: LRUCache where
  "sample_cache = push_key 8 [] (push_key 7 [] (lru_new 2))"

lemma sample_cache_eq: "sample_cache = \<lparr>lc_cache = [(7, [], 0), (8, [], 1)], lc_keys = [(0, 7), (1, 8)], lc_next = 2,
    lc_max_cache_size = 2\<rparr>"
  by (simp add: sample_cache_def push_key_def lru_new_def)

lemma sample_cache_inv: "lru_inv sample_cache"
proof -
  have "lru_wf (lru_new 2)" using lru_inv_new [of 2] by (simp add: lru_inv_def)
  then have "lru_wf (push_key 7 [] (lru_new 2))" by (rule lru_wf_push_new) (simp add: lru_new_def)
  then have "lru_wf sample_cache" unfolding sample_cache_def
    by (rule lru_wf_push_new) (simp add: push_key_def lru_new_def)
  then show ?thesis by (simp add: lru_inv_def sample_cache_eq)
qed

lemma sample_cache_abs: "lru_abs sample_cache = [(7, []), (8, [])]"
  by (simp add: lru_abs_def sample_cache_eq)

lemma cache_get_refines_witness: "lru_abs (snd (lru_Get sample_cache 7)) = [(8, []), (7, [])]"
  using cache_get_refines [OF sample_cache_inv, of 7 "fst (lru_Get sample_cache 7)" "snd (lru_Get sample_cache 7)"]
  by (simp add: spec_get_def sample_cache_abs)

text \<open>C36: \<open>Store\<close> of the linked cache is \<open>Store\<close> of the list: it returns, the new entry comes last,
  the least recently used one goes exactly when the cache is full, and the size stays within the
  capacity.\<close>

theorem cache_store_refines:
  assumes "lru_inv c"
  shows "\<exists>c'. lru_Store c key entry = Some c' \<and> lru_inv c' \<and> length (lc_cache c') \<le> lc_max_cache_size c \<and>
    lru_abs c' = spec_store (lc_max_cache_size c) key entry (lru_abs c)"
proof -
  obtain c' where c': "lru_Store c key entry = Some c'" "lru_inv c'" "lc_max_cache_size c' = lc_max_cache_size c"
    "lru_abs c' = spec_store (lc_max_cache_size c) key entry (lru_abs c)"
    using lru_Store_refines [OF assms] by blast
  then have "length (lc_cache c') \<le> lc_max_cache_size c" by (simp add: lru_inv_def)
  with c' show ?thesis by blast
qed

lemma cache_store_refines_witness: "\<exists>c'. lru_Store sample_cache 9 [] = Some c' \<and> lru_abs c' = [(8, []), (9, [])]"
  using cache_store_refines [OF sample_cache_inv, of 9 "[]"]
  by (simp add: spec_store_def sample_cache_abs contains_iff) (auto simp: sample_cache_eq)

text \<open>A cache created with capacity 0, which table creation accepts, has no defined first store:
  it reads the front of an empty list.\<close>

theorem cache_capacity_zero:
  "lru_Store (lru_new 0) key entry = None \<and>
   ValidateCreateTable ''t'' 1 default_hnsw_config sample_fc 0"
  using lru_Store_capacity_0
  by (simp add: ValidateCreateTable_iff hnsw_config_empty_def default_hnsw_config_def sample_fc_def)

section \<open>Log\<close>










text \<open>A newline in the content of an insertion ends its log line: what follows is parsed as an
  entry of its own, so that one insertion can log a removal the client never asked for.\<close>

theorem wal_newline_injection:
  assumes "list_all wal_stable v" and "newline \<notin> set content"
  shows "SerializeWALEntries stored table (wal_AppendInsert [] i v (content @ newline # remove_line j)) 0 =
    Some [\<lparr>we_type = WAL_INSERT, we_table = table, we_config = InsertConfig i v content\<rparr>,
          \<lparr>we_type = WAL_REMOVE, we_table = table, we_config = RemoveConfig j\<rparr>]"
  using wal_injection [OF terminated_append(2) wal_entries_Nil assms] by (simp only: SerializeWALEntries_0 append_Nil)

lemma wal_newline_injection_witness:
  "SerializeWALEntries STORED_FLAT ''t'' (wal_AppendInsert [] 5 [] (''x'' @ newline # remove_line 6)) 0 =
    Some [\<lparr>we_type = WAL_INSERT, we_table = ''t'', we_config = InsertConfig 5 [] ''x''\<rparr>,
          \<lparr>we_type = WAL_REMOVE, we_table = ''t'', we_config = RemoveConfig 6\<rparr>]"
  by (rule wal_newline_injection) simp_all

section \<open>Snapshots\<close>

text \<open>C35: loading the snapshot of a table that is not empty gives back its store and its index, if no
  container of the index has a key twice and a graph has an entry point (\<open>snapshot_ok\<close>); a graph without
  one comes back with the entry point 0 (\<open>snapshot_loses_entry_point\<close>).\<close>

theorem snapshot_round_trip:
  assumes "store_inv rl s" and "vs_store s \<noteq> []" and "same_kind pm s" and "snapshot_ok s"
  shows "pm_LoadSnapshot pm (pm_SaveSnapshot pm s d) = Some s"
  using assms by (intro LoadSnapshot_SaveSnapshot) (simp_all add: store_inv_def)

lemma snapshot_round_trip_witness:
  "pm_LoadSnapshot \<lparr>pm_table_name = ''t'', pm_stored_index_type = STORED_HNSW\<rparr>
     (pm_SaveSnapshot \<lparr>pm_table_name = ''t'', pm_stored_index_type = STORED_HNSW\<rparr> sample_graph_store []) =
   Some sample_graph_store"
  by (rule snapshot_round_trip [OF sample_store_inv(2)])
    (simp_all add: sample_graph_store_def sample_data_def same_kind_def snapshot_ok_def hnsw_containers_ok_def
      usets_ok_def sample_eval)

text \<open>An HNSW index without an entry point is loaded with entry point 0, whether a node 0 exists
  or not: the search for another entry in the loading constructor never runs.\<close>

theorem snapshot_loses_entry_point:
  "hx_entry_point (load_hnsw (hnsw_snapshot_of (hnsw_Remove sample_hnsw1 1))) = Some 0 \<and>
   hx_entry_point (hnsw_Remove sample_hnsw1 1) = None \<and>
   hnsw_Search (load_hnsw (hnsw_snapshot_of (hnsw_Remove sample_hnsw1 1))) [f32_zero] 1 1 = None"
proof -
  define h where "h = hnsw_Remove sample_hnsw1 1"
  have "hx_entry_point h = None"
    by (simp add: h_def hnsw_Remove_def is_active_def upd_node_def node_ref_def drop_level_def serase_def set_ref_def
        pick_entry.simps sample_eval Let_def)
  then have e: "hx_entry_point (load_hnsw (hnsw_snapshot_of h)) = Some 0" by (rule load_hnsw_no_entry)
  have "\<not> contains (hx_nodes (load_hnsw (hnsw_snapshot_of h))) 0"
    by (simp add: h_def hnsw_Remove_def is_active_def upd_node_def node_ref_def drop_level_def serase_def set_ref_def
        pick_entry.simps sample_eval Let_def load_hnsw_def hnsw_load_def hnsw_snapshot_of_def to_umap_def contains_iff)
  moreover have "hx_max_level (load_hnsw (hnsw_snapshot_of h)) = -1"
    by (simp add: h_def hnsw_Remove_def is_active_def upd_node_def node_ref_def drop_level_def serase_def set_ref_def
        pick_entry.simps sample_eval Let_def load_hnsw_def hnsw_load_def hnsw_snapshot_of_def)
  ultimately show ?thesis
    using e \<open>hx_entry_point h = None\<close>
    by (simp add: h_def [symmetric] hnsw_Search_def SearchLevel_def contains_def levels_down_def)
qed

section \<open>Replication\<close>










section \<open>Validation\<close>

text \<open>A request to create a table passes validation only with a name, a dimension and exactly one
  complete index configuration, and the index made is the one configured.\<close>

theorem create_table_picks_index:
  assumes "ValidateCreateTable name dim hc fc cache_size"
  shows "name \<noteq> [] \<and> dim \<noteq> 0 \<and> make_index hc fc =
    (if fc_vector_dimensionality fc = 0 then (HNSW, STORED_HNSW, HnswIx (hnsw_new hc))
     else (FLAT, STORED_FLAT, FlatIx (flat_new fc)))"
  using assms ValidateCreateTable_index [OF assms] by (simp add: ValidateCreateTable_iff make_index_def)

lemma create_table_picks_index_witness:
  "make_index default_hnsw_config sample_fc = (FLAT, STORED_FLAT, FlatIx (flat_new sample_fc))"
  using create_table_picks_index [of "''t''" 1 default_hnsw_config sample_fc 4]
  by (simp add: ValidateCreateTable_iff hnsw_config_empty_def default_hnsw_config_def sample_fc_def)

text \<open>Validation does not compare the table's dimension with the index's: such a table takes
  every vector of its own dimension, and no search of that dimension finds one.\<close>

theorem dimension_mismatch_unsearchable:
  assumes "length v = 2" and "length q = 2"
  shows "ValidateCreateTable ''t'' 2 default_hnsw_config sample_fc 4 \<and>
    (\<exists>s. store_Insert rl (store_new FLAT (FlatIx (flat_new sample_fc)) 2) i v c = Some (True, s) \<and>
      contains (vs_store s) i \<and> store_Search s q k p = Some [])"
  using assms
  by (simp add: ValidateCreateTable_iff hnsw_config_empty_def default_hnsw_config_def sample_fc_def store_Insert_def
      store_new_def contains_iff flat_Insert_def flat_new_def store_Search_def flat_Search_def)

lemma dimension_mismatch_unsearchable_witness:
  "\<exists>s. store_Insert ground_level (store_new FLAT (FlatIx (flat_new sample_fc)) 2) 1 [f32_one, f32_one] ''a'' = Some (True, s) \<and>
     store_Search s [f32_one, f32_one] 1 0 = Some []"
  using dimension_mismatch_unsearchable [of "[f32_one, f32_one]" "[f32_one, f32_one]" ground_level 1 "''a''" 1 0] by auto

end
