(* ===== verification/EngineProperties.thy ===== *)
theory EngineProperties
  imports Samples
begin

text \<open>
  What the operations of the engine do to the data of the tables, to the counters and to the
  other tables, and that none of them breaks the invariant.
\<close>

section \<open>Writes\<close>

text \<open>C4: on an engine that keeps its invariant, \<open>Insert\<close> of a vector of finite numbers returns; it
  succeeds exactly when the engine is a running primary with the table, the arguments are valid, the id
  is new and the vector has the table's size; then it adds exactly that record to that table, otherwise
  no data changes; no other table changes. Nothing is said of a vector with a NaN or an infinity, which
  the validation lets through: on a graph it breaks the order that the library's heaps ask for
  (\<open>nan_breaks_order\<close>).\<close>

theorem insert_effect:
  assumes "engine_inv rl e" and "finite_vec v"
  shows "\<exists>e'. engine_Insert rl e t i v content = Some (stores e t i v content, e') \<and> engine_inv rl e' \<and>
    table_data e' = (if stores e t i v content
      then (table_data e)(t \<mapsto> (the (table_data e t))(i \<mapsto> (v, content))) else table_data e) \<and>
    (\<forall>u. u \<noteq> t \<longrightarrow> table_view e' u = table_view e u)"
  using engine_Insert_ok [OF assms] by blast

lemma insert_effect_witness:
  "\<exists>e'. engine_Insert ground_level sample_engine ''t'' 7 [f32_one] ''c'' = Some (True, e') \<and>
    the (table_data e' ''t'') 7 = Some ([f32_one], ''c'')"
proof -
  have "stores sample_engine ''t'' 7 [f32_one] ''c''"
    by (simp add: stores_def ValidateInsert_def takes_data store_data_def sample_data_def)
  with insert_effect [OF sample_engine_inv(1) [of ground_level] sample_finite(1), of "''t''" 7 "''c''"]
  show ?thesis by auto
qed

text \<open>C5: \<open>Remove\<close> succeeds exactly when the engine is a running primary with the table and the table
  has the id; then exactly that record goes.\<close>

theorem remove_effect:
  assumes "engine_inv rl e"
  shows "\<exists>e'. engine_Remove e t i = (removes e t i, e') \<and> engine_inv rl e' \<and>
    table_data e' = (if removes e t i
      then (table_data e)(t \<mapsto> (the (table_data e t))(i := None)) else table_data e) \<and>
    (\<forall>u. u \<noteq> t \<longrightarrow> table_view e' u = table_view e u)"
  using engine_Remove_ok [OF assms] by blast

lemma remove_effect_witness:
  "\<exists>e'. engine_Remove sample_engine ''t'' 1 = (True, e') \<and> the (table_data e' ''t'') 1 = None"
proof -
  have "removes sample_engine ''t'' 1" by (simp add: removes_def ValidateRemove_def sample_data_def contains_iff)
  with remove_effect [OF sample_engine_inv(1) [of ground_level], of "''t''" 1] show ?thesis by auto
qed

text \<open>A batch of insertions answers one flag per vector and leaves what inserting them one after
  another leaves: the first vector of an id counts, one invalid request refuses them all.\<close>

theorem batch_insert_effect:
  assumes "engine_inv rl e" and "\<forall>(i, v, content) \<in> set xs. finite_vec v"
  shows "\<exists>oks e'. engine_BatchInsert rl e t xs = Some (oks, e') \<and> length oks = length xs \<and> engine_inv rl e' \<and>
    table_data e' = (if writable e t \<and> (\<forall>(i, v, content) \<in> set xs. ValidateInsert t i v content)
      then (table_data e)(t \<mapsto> fold (put_data (store_dim (mref (en_store_map e) t))) xs (the (table_data e t)))
      else table_data e) \<and>
    (\<forall>u. u \<noteq> t \<longrightarrow> table_view e' u = table_view e u)"
  using engine_BatchInsert_ok [OF assms] by blast

lemma batch_insert_effect_witness:
  "\<exists>oks e'. engine_BatchInsert ground_level sample_engine ''t'' [(7, [f32_one], ''c''), (7, [f32_zero], ''d'')] = Some (oks, e') \<and>
    the (table_data e' ''t'') 7 = Some ([f32_one], ''c'')"
  using batch_insert_effect [OF sample_engine_inv(1) [of ground_level], of "[(7, [f32_one], ''c''), (7, [f32_zero], ''d'')]" "''t''"]
  by (auto simp: ValidateInsert_def put_data_def sample_table_data)

text \<open>A batch of removals leaves the table without exactly those ids.\<close>

theorem batch_remove_effect:
  assumes "engine_inv rl e"
  shows "\<exists>oks e'. engine_BatchRemove e t is = (oks, e') \<and> length oks = length is \<and> engine_inv rl e' \<and>
    table_data e' = (if writable e t \<and> (\<forall>i \<in> set is. ValidateRemove t i)
      then (table_data e)(t \<mapsto> the (table_data e t) |` (- set is)) else table_data e) \<and>
    (\<forall>u. u \<noteq> t \<longrightarrow> table_view e' u = table_view e u)"
  using engine_BatchRemove_ok [OF assms] by blast

lemma batch_remove_effect_witness:
  "\<exists>oks e'. engine_BatchRemove sample_engine ''t'' [1, 9] = (oks, e') \<and> the (table_data e' ''t'') = [2 \<mapsto> ([f32_zero], ''b'')]"
  using batch_remove_effect [OF sample_engine_inv(1) [of ground_level], of "''t''" "[1, 9]"]
  by (auto simp: ValidateRemove_def sample_table_data restrict_map_def fun_eq_iff)

section \<open>Searches\<close>

text \<open>C6: on an engine that keeps its invariant, \<open>Search\<close> for a query of finite numbers returns, changes
  no data, and answers distinct records the table holds, at most \<open>k\<close>; on a flat table, for a valid
  query of the table's size, exactly the nearest ones. Nothing is said of a query with a NaN or an
  infinity: its distances may have no order
  (\<open>nan_breaks_order\<close>).\<close>

theorem search_effect:
  assumes "engine_inv rl e" and "finite_vec q"
  shows "\<exists>r e'. engine_Search e latency t q k p = Some (r, e') \<and> engine_inv rl e' \<and> table_data e' = table_data e \<and>
    distinct (map d_id r) \<and> length r \<le> k \<and>
    (\<forall>d \<in> set r. the (table_data e t) (d_id d) = Some (d_vector d, d_content d)) \<and>
    (searchable_table e t \<and> ValidateSearch t q k p \<and> flat_store (mref (en_store_map e) t) \<and>
      length q = store_dim (mref (en_store_map e) t) \<longrightarrow> r = nearest (vs_store (mref (en_store_map e) t)) L2 q k)"
proof -
  obtain r e' where r: "engine_Search e latency t q k p = Some (r, e')" "engine_inv rl e'" "table_data e' = table_data e"
    "distinct (map d_id r)" "length r \<le> k" "\<forall>d \<in> set r. the (table_data e t) (d_id d) = Some (d_vector d, d_content d)"
    using engine_Search_ok [OF assms] by blast
  moreover have "r = nearest (vs_store (mref (en_store_map e) t)) L2 q k"
    if sr: "searchable_table e t" "ValidateSearch t q k p" "flat_store (mref (en_store_map e) t)"
      "length q = store_dim (mref (en_store_map e) t)"
  proof -
    obtain s where s: "map_of (en_store_map e) t = Some s" using searchable_parts [OF sr(1)] by (auto simp: contains_map_of)
    from engine_Search_flat [OF assms sr(1,2) s, of latency] sr(3,4) s r(1) show ?thesis by auto
  qed
  ultimately show ?thesis by blast
qed

lemma search_effect_witness:
  "\<exists>e'. engine_Search sample_engine f32_zero ''t'' [f32_zero] 1 0 =
     Some ([\<lparr>d_id = 2, d_vector = [f32_zero], d_content = ''b''\<rparr>], e')"
proof -
  have "nearest sample_data L2 [f32_zero] 1 = [\<lparr>d_id = 2, d_vector = [f32_zero], d_content = ''b''\<rparr>]"
    by (simp add: nearest_def sample_data_def sort_key_def dist_key_def dkey_def)
  then show ?thesis
    using search_effect [OF sample_engine_inv(1) [of ground_level] sample_finite(2), of f32_zero "''t''" 1 0]
    by (auto simp: ValidateSearch_def)
qed

section \<open>Cleanup\<close>

text \<open>C24: \<open>Cleanup\<close> always returns and changes no data, no other table and nothing on disk; when it
  runs, the deletion counter is back at zero and the vector counter is the size of the table.\<close>

theorem cleanup_effect:
  assumes "engine_inv rl e"
  shows "\<exists>e'. engine_Cleanup rl latency t force e = Some e' \<and> engine_inv rl e' \<and> en_disk e' = en_disk e \<and>
    table_data e' = table_data e \<and> (\<forall>u. u \<noteq> t \<longrightarrow> table_view e' u = table_view e u) \<and>
    ((force \<or> \<not> en_shutdown e) \<and> contains (en_store_map e) t \<longrightarrow>
       deleted_count (sm_stats (mref (en_stats_manager_map e') t)) = 0 \<and>
       vector_count (sm_stats (mref (en_stats_manager_map e') t)) = of_nat (length (vs_store (mref (en_store_map e) t))))"
  using engine_Cleanup_ok [OF assms, of latency t force] by blast

lemma cleanup_effect_witness:
  "\<exists>e'. engine_Cleanup ground_level f32_zero ''t'' False sample_engine = Some e' \<and>
    vector_count (sm_stats (mref (en_stats_manager_map e') ''t'')) = 2 \<and> table_data e' = table_data sample_engine"
  using cleanup_effect [OF sample_engine_inv(1) [of ground_level], of f32_zero "''t''" False]
  by (auto simp: contains_iff sample_data_def)

section \<open>Tables\<close>

text \<open>C25: for a configuration with the metric L2 and the dimension of the table, levels that are not
  negative and a cache that holds something, \<open>CreateTable\<close> succeeds exactly on a running primary, for
  a valid request and a new name; the new table is empty and no other table changes. The \<open>create\<close> entry
  is appended to the log: if a log file of that name is there, what it holds stays before the entry.\<close>

theorem create_table_effect:
  assumes "engine_inv rl e" and "good_config rl dim hc fc" and "0 < cs"
  shows "\<exists>ok e'. engine_CreateTable e t dim hc fc cs = (ok, e') \<and> engine_inv rl e' \<and>
    (ok \<longleftrightarrow> md_primary (en_metadata e) \<and> \<not> en_shutdown e \<and> ValidateCreateTable t dim hc fc (unat cs) \<and>
      table_data e t = None) \<and>
    table_data e' = (if ok then (table_data e)(t \<mapsto> Map.empty) else table_data e) \<and>
    (\<forall>u. u \<noteq> t \<longrightarrow> table_view e' u = table_view e u) \<and>
    (ok \<longrightarrow> wal_of (en_disk e') t = created_log hc fc cs (wal_of (en_disk e) t))"
  using engine_CreateTable_ok [OF assms] by blast

lemma create_table_effect_witness:
  "\<exists>e'. engine_CreateTable empty_engine ''u'' 1 default_hnsw_config sample_fc 4 = (True, e') \<and>
    table_data e' = [''u'' \<mapsto> Map.empty]"
proof -
  have g: "good_config ground_level 1 default_hnsw_config sample_fc"
    by (simp add: good_config_def wants_hnsw_def default_hnsw_config_def sample_fc_def)
  have v: "ValidateCreateTable ''u'' 1 default_hnsw_config sample_fc 4"
    by (simp add: ValidateCreateTable_iff hnsw_config_empty_def default_hnsw_config_def sample_fc_def)
  have "table_data empty_engine = Map.empty" by (simp add: table_data_def empty_engine_def engine_init_def fun_eq_iff)
  then show ?thesis
    using create_table_effect [OF sample_engine_inv(2) [of ground_level] g, of 4 "''u''"] v
    by (auto simp: empty_engine_def engine_init_def sample_md_def)
qed

text \<open>C26: \<open>DropTable\<close> of a table on a running primary, with logs that can be parsed, returns whatever the
  replicas answer, removes exactly that table, and leaves no file of it.\<close>

theorem drop_table_effect:
  assumes "engine_inv rl e" and "md_primary (en_metadata e)" and "\<not> en_shutdown e" and "ValidateDropTable t"
    and "table_exists e t" and "logs_ok (en_persistence_manager_map e) (en_disk (dropping t e))"
  shows "\<exists>e' w'. engine_DropTable net t (e, w) = Some (True, e', w') \<and> engine_inv rl e' \<and>
    table_data e' = (table_data e)(t := None) \<and> files_of (en_disk e') t = no_files"
  using engine_DropTable_dropped [OF assms, of net w] by blast

lemma drop_table_effect_witness:
  "\<exists>e' w'. engine_DropTable sample_silent_net ''t'' (sample_engine, ()) = Some (True, e', w') \<and> table_data e' ''t'' = None"
proof -
  have "logs_ok (en_persistence_manager_map sample_engine) (en_disk (dropping ''t'' sample_engine))"
    using sample_drop_log by (simp add: logs_ok_def sample_engine_def)
  then obtain e' w' where "engine_DropTable sample_silent_net ''t'' (sample_engine, ()) = Some (True, e', w')"
    "table_data e' = (table_data sample_engine)(''t'' := None)"
    using drop_table_effect [OF sample_engine_inv(1) [of ground_level], of "''t''" sample_silent_net "()"] by (auto simp: ValidateDropTable_def)
  then show ?thesis by auto
qed

section \<open>Counters\<close>

text \<open>At every moment the vector counter less the deletion counter of a table is the number of its
  records, as 64-bit numbers.\<close>

theorem stats_count_records:
  assumes "engine_inv rl e" and "contains (en_store_map e) t" and "\<not> en_shutdown e" and "t \<noteq> []"
  shows "vector_count (engine_GetStats e t) - deleted_count (engine_GetStats e t) =
    of_nat (length (vs_store (mref (en_store_map e) t)))"
  using assms(1)
proof (cases rule: engine_inv_cases [of rl e t])
  case absent
  with assms(2) show ?thesis by (simp add: contains_def)
next
  case (present s pm st me c)
  then have "live_count st = of_nat (length (vs_store s))" by (simp add: table_inv_def)
  with present assms(3,4) show ?thesis
    by (simp add: engine_GetStats_def contains_def ValidateStats_def live_count_def)
qed

lemma stats_count_records_witness:
  "vector_count (engine_GetStats sample_engine ''t'') - deleted_count (engine_GetStats sample_engine ''t'') = 2"
  using stats_count_records [OF sample_engine_inv(1) [of ground_level], of "''t''"] by (simp add: contains_iff sample_data_def)

end
