(* ===== verification/EngineLog.thy ===== *)
theory EngineLog
  imports EngineTables
begin

text \<open>
  What a log means: the data it leaves, entry after entry. Applying the entries of a log to a
  table leaves exactly that data, on a primary that replays its own log and on a replica.
\<close>

section \<open>The meaning of a log\<close>

definition log_step :: "nat \<Rightarrow> WALEntry \<Rightarrow> (Id \<rightharpoonup> vector \<times> string) \<Rightarrow> (Id \<rightharpoonup> vector \<times> string)" where
  "log_step dim entry m =
     (case we_type entry of
        WAL_INSERT \<Rightarrow> put_data dim (insert_args (we_config entry)) m
      | WAL_REMOVE \<Rightarrow> m(remove_args (we_config entry) := None)
      | _ \<Rightarrow> m)"

definition log_data :: "nat \<Rightarrow> WALEntry list \<Rightarrow> (Id \<rightharpoonup> vector \<times> string) \<Rightarrow> (Id \<rightharpoonup> vector \<times> string)" where
  "log_data dim entries m = fold (log_step dim) entries m"

lemma log_data_simps [simp]:
  "log_data dim [] m = m" "log_data dim (entry # entries) m = log_data dim entries (log_step dim entry m)"
  "log_data dim (as @ bs) m = log_data dim bs (log_data dim as m)"
  by (simp_all add: log_data_def)

text \<open>An entry a replay gets past: of the table, no \<open>drop\<close>, numbers in its vector.\<close>

definition entry_fine :: "string \<Rightarrow> WALEntry \<Rightarrow> bool" where
  "entry_fine t entry \<longleftrightarrow> we_table entry = t \<and> we_type entry \<noteq> WAL_DROP \<and>
     (we_type entry = WAL_INSERT \<longrightarrow> finite_vec (fst (snd (insert_args (we_config entry)))))"

section \<open>Applying entries\<close>

text \<open>The engine apart from the stores and the counters, and the tables apart from one.\<close>

definition frame :: "string \<Rightarrow> Engine \<Rightarrow> Engine \<Rightarrow> bool" where
  "frame t e e' \<longleftrightarrow> en_metadata e' = en_metadata e \<and> en_shutdown e' = en_shutdown e \<and> en_disk e' = en_disk e \<and>
     en_persistence_manager_map e' = en_persistence_manager_map e \<and> en_metrics_manager_map e' = en_metrics_manager_map e \<and>
     en_cache_map e' = en_cache_map e \<and> en_wal_offsets e' = en_wal_offsets e \<and>
     contains (en_stats_manager_map e') = contains (en_stats_manager_map e) \<and>
     (\<forall>u. u \<noteq> t \<longrightarrow> map_of (en_store_map e') u = map_of (en_store_map e) u \<and>
        map_of (en_stats_manager_map e') u = map_of (en_stats_manager_map e) u)"

lemma frame_refl [simp]: "frame t e e"
  by (simp add: frame_def)

lemma frame_trans: "frame t a b \<Longrightarrow> frame t b c \<Longrightarrow> frame t a c"
  by (simp add: frame_def)

lemma frame_set_store [simp]: "frame t e (set_store t s e)"
  by (simp add: frame_def)

lemma frame_upd_stats [simp]: "contains (en_stats_manager_map e) t \<Longrightarrow> frame t e (upd_stats t f e)"
  by (auto simp: frame_def fun_eq_iff)

lemma frame_other_data: "frame t e e' \<Longrightarrow> u \<noteq> t \<Longrightarrow> table_data e' u = table_data e u"
  by (simp add: frame_def table_data_def)

text \<open>A table in memory: its store, in good order, and counters for it.\<close>

definition loaded :: "level_fun \<Rightarrow> Engine \<Rightarrow> string \<Rightarrow> VectorStore \<Rightarrow> bool" where
  "loaded rl e t s \<longleftrightarrow> map_of (en_store_map e) t = Some s \<and> store_inv rl s \<and> contains (en_stats_manager_map e) t"

lemma loaded_not_absent: "loaded rl e t s \<Longrightarrow> \<not> table_absent e t"
  by (simp add: loaded_def table_absent_def contains_def)

lemma loaded_upd_stats [simp]: "loaded rl (upd_stats t f e) t s = loaded rl e t s" if "contains (en_stats_manager_map e) t"
  using that by (simp add: loaded_def)

lemma apply_insert_data:
  assumes "loaded rl e t s" and "finite_vec v"
  shows "\<exists>e' s'. apply_insert rl t i v c e = Some (takes s i v, e') \<and> loaded rl e' t s' \<and> frame t e e' \<and>
    store_data s' = put_data (store_dim s) (i, v, c) (store_data s) \<and> store_dim s' = store_dim s"
proof -
  have l: "map_of (en_store_map e) t = Some s" "store_inv rl s" "contains (en_stats_manager_map e) t"
    using assms(1) by (simp_all add: loaded_def)
  obtain s' where s': "store_Insert rl s i v c = Some (takes s i v, s')" "store_inv rl s'"
    "store_data s' = (if takes s i v then (store_data s)(i \<mapsto> (v, c)) else store_data s)"
    "vs_vector_dimensionality s' = vs_vector_dimensionality s"
    using store_Insert_takes [OF l(2) assms(2)] by blast
  define e' where "e' = (if takes s i v then upd_stats t (stats_Increment VECTOR) (set_store t s' e) else set_store t s' e)"
  have "apply_insert rl t i v c e = Some (takes s i v, e')" using l s'(1) by (simp add: apply_insert_def e'_def)
  moreover have "loaded rl e' t s'" using l s'(2) by (simp add: loaded_def e'_def)
  moreover have "frame t e e'"
    using l frame_trans [OF frame_set_store [of t e s'] frame_upd_stats] by (simp add: e'_def)
  moreover have "store_data s' = put_data (store_dim s) (i, v, c) (store_data s)"
    using s'(3) by (simp add: put_data_def takes_data)
  ultimately show ?thesis using s'(4) by (auto simp: store_dim_def)
qed

lemma apply_remove_data:
  assumes "loaded rl e t s"
  shows "\<exists>e' s'. apply_remove t i e = (contains (vs_store s) i, e') \<and> loaded rl e' t s' \<and> frame t e e' \<and>
    store_data s' = (store_data s)(i := None) \<and> store_dim s' = store_dim s"
proof -
  have l: "map_of (en_store_map e) t = Some s" "store_inv rl s" "contains (en_stats_manager_map e) t"
    using assms(1) by (simp_all add: loaded_def)
  obtain ok s' where r: "store_Remove s i = (ok, s')" by fastforce
  note s' = store_Remove_data [OF l(2) r]
  define e' where "e' = (if ok then upd_stats t (stats_Increment STALE) (upd_stats t (stats_Increment DELETED)
      (upd_stats t (stats_SetRemovedFlag True) (set_store t s' e))) else set_store t s' e)"
  have "apply_remove t i e = (ok, e')" using l r by (simp add: apply_remove_def e'_def)
  moreover have "loaded rl e' t s'" using l s' by (simp add: loaded_def e'_def)
  moreover have "frame t e e'" using l(3) by (auto simp: e'_def frame_def fun_eq_iff)
  ultimately show ?thesis using s' by (auto simp: store_dim_def)
qed

text \<open>What a client could see of an entry: whether it was taken.\<close>

definition entry_taken :: "VectorStore \<Rightarrow> WALEntry \<Rightarrow> bool" where
  "entry_taken s entry \<longleftrightarrow>
     (case we_type entry of
        WAL_INSERT \<Rightarrow> (case insert_args (we_config entry) of (i, v, _) \<Rightarrow> takes s i v)
      | WAL_REMOVE \<Rightarrow> contains (vs_store s) (remove_args (we_config entry))
      | _ \<Rightarrow> False)"

lemma engine_CreateTable_exists: "\<not> table_absent e t \<Longrightarrow> engine_CreateTable e t dim hc fc cs = (False, e)"
  by (simp add: engine_CreateTable_def)

lemma engine_CreateTableOnReplica_exists:
  "\<not> table_absent e t \<Longrightarrow> engine_CreateTableOnReplica e t dim hc fc cs = (False, e)"
  by (simp add: engine_CreateTableOnReplica_def)

lemma ApplyWALEntry_data:
  fixes net :: "'w Net" and w :: 'w
  assumes "loaded rl e t s" and "entry_fine t entry"
  shows "\<exists>e' s'. engine_ApplyWALEntry rl net entry (e, w) = Some (entry_taken s entry, e', w) \<and> loaded rl e' t s' \<and>
    frame t e e' \<and> store_data s' = log_step (store_dim s) entry (store_data s) \<and> store_dim s' = store_dim s"
proof -
  have t: "we_table entry = t" "we_type entry \<noteq> WAL_DROP" using assms(2) by (simp_all add: entry_fine_def)
  have c: "contains (en_store_map e) t" "contains (en_stats_manager_map e) t"
    using assms(1) by (simp_all add: loaded_def contains_def)
  note absent = loaded_not_absent [OF assms(1)]
  show ?thesis
  proof (cases "we_type entry")
    case WAL_INSERT
    obtain i v content where a: "insert_args (we_config entry) = (i, v, content)" by (metis prod_cases3)
    then have "finite_vec v" using assms(2) WAL_INSERT by (simp add: entry_fine_def)
    from apply_insert_data [OF assms(1) this, of i content] show ?thesis
      using WAL_INSERT t c a by (auto simp: engine_ApplyWALEntry_def entry_taken_def log_step_def)
  next
    case WAL_REMOVE
    from apply_remove_data [OF assms(1), of "remove_args (we_config entry)"] show ?thesis
      using WAL_REMOVE t c by (auto simp: engine_ApplyWALEntry_def entry_taken_def log_step_def)
  next
    case WAL_CREATE
    then have "engine_ApplyWALEntry rl net entry (e, w) = Some (False, e, w)"
      using t absent by (simp add: engine_ApplyWALEntry_def engine_CreateTable_exists engine_CreateTableOnReplica_exists
          split: prod.splits)
    with WAL_CREATE assms(1) show ?thesis by (auto simp: entry_taken_def log_step_def)
  next
    case WAL_DROP
    with t show ?thesis by simp
  qed
qed

section \<open>Replay\<close>

lemma replay_entry_data:
  fixes net :: "'w Net" and w :: 'w
  assumes "loaded rl e t s" and "entry_fine t entry"
  shows "\<exists>e' s'. replay_entry rl net entry (e, w) = Some (e', w) \<and> loaded rl e' t s' \<and> frame t e e' \<and>
    store_data s' = log_step (store_dim s) entry (store_data s) \<and> store_dim s' = store_dim s"
  using ApplyWALEntry_data [OF assms, of net w] assms(2) by (auto simp: replay_entry_def entry_fine_def)

lemma replay_data:
  fixes net :: "'w Net" and w :: 'w
  assumes "loaded rl e t s" and "list_all (entry_fine t) es"
  shows "\<exists>e' s'. for_each (replay_entry rl net) es (e, w) = Some (e', w) \<and> loaded rl e' t s' \<and> frame t e e' \<and>
    store_data s' = log_data (store_dim s) es (store_data s) \<and> store_dim s' = store_dim s"
  using assms
proof (induction es arbitrary: e s)
  case Nil
  then show ?case by auto
next
  case (Cons entry es)
  then have "entry_fine t entry" by simp
  from replay_entry_data [OF Cons.prems(1) this, of net w] obtain e1 s1 where
    e1: "replay_entry rl net entry (e, w) = Some (e1, w)" "loaded rl e1 t s1" "frame t e e1"
    "store_data s1 = log_step (store_dim s) entry (store_data s)" "store_dim s1 = store_dim s" by blast
  from Cons.IH [OF e1(2)] Cons.prems(2) obtain e' s' where
    e': "for_each (replay_entry rl net) es (e1, w) = Some (e', w)" "loaded rl e' t s'" "frame t e1 e'"
    "store_data s' = log_data (store_dim s1) es (store_data s1)" "store_dim s' = store_dim s1" by auto
  show ?case
    by (rule exI [of _ e'], rule exI [of _ s']) (use e1 e' frame_trans [OF e1(3) e'(3)] in simp)
qed

end
