(* ===== verification/EngineSteps.thy ===== *)
theory EngineSteps
  imports EngineLog
begin

text \<open>
  The operations of clients and of the cleaner as steps on one table: what each does to the
  store, to the log, and to the rest of the engine. The locale \<open>table_invariant\<close> says when a
  property of a table survives all of them.
\<close>

lemma set_wal_distinct [simp]: "distinct (keys d) \<Longrightarrow> distinct (keys (set_wal t w d))"
  by (simp add: set_wal_def upd_files_def)

lemma files_of_set_wal: "files_of (set_wal t w d) t = (files_of d t)\<lparr>tf_wal := Some w\<rparr>"
  by (simp add: set_wal_def)

lemma files_of_set_wal_other: "u \<noteq> t \<Longrightarrow> files_of (set_wal t w d) u = files_of d u"
  by (simp add: set_wal_def)

section \<open>What other tables see\<close>

text \<open>An operation of one table leaves the others and the saved metadata alone.\<close>

definition only_table :: "string \<Rightarrow> Engine \<Rightarrow> Engine \<Rightarrow> bool" where
  "only_table t e e' \<longleftrightarrow> (\<forall>u. u \<noteq> t \<longrightarrow> table_view e' u = table_view e u) \<and>
     tf_metadata (files_of (en_disk e') t) = tf_metadata (files_of (en_disk e) t) \<and>
     (distinct (keys (en_disk e)) \<longrightarrow> distinct (keys (en_disk e')))"

lemma only_table_refl [simp]: "only_table t e e"
  by (simp add: only_table_def)

lemma only_table_trans: "only_table t a b \<Longrightarrow> only_table t b c \<Longrightarrow> only_table t a c"
  by (simp add: only_table_def)

lemma only_table_upd [simp]:
  "only_table t e (set_store t s x) = only_table t e x" "only_table t e (upd_stats t f x) = only_table t e x"
  "only_table t e (upd_metrics t g x) = only_table t e x" "only_table t e (invalidate_cache t x) = only_table t e x"
  by (simp_all add: only_table_def table_view_def invalidate_cache_alt)

lemma only_table_append [simp]:
  "only_table t e (upd_disk (pm_AppendInsert \<lparr>pm_table_name = t, pm_stored_index_type = k\<rparr> i v content) e)"
  "only_table t e (upd_disk (pm_AppendRemove \<lparr>pm_table_name = t, pm_stored_index_type = k\<rparr> i) e)"
  by (simp_all add: only_table_def table_view_def pm_AppendInsert_def pm_AppendRemove_def files_of_set_wal_other files_of_set_wal)

section \<open>One write\<close>

lemma wal_stable_finite: "list_all wal_stable v \<Longrightarrow> finite_vec v"
proof (induction v)
  case (Cons x v)
  then show ?case by (cases x) (simp_all add: finite_vec_def)
qed (simp add: finite_vec_def)

text \<open>The manager of the table writes to the files of the table.\<close>

definition pm_named :: "Engine \<Rightarrow> string \<Rightarrow> bool" where
  "pm_named e t \<longleftrightarrow> (\<exists>k. map_of (en_persistence_manager_map e) t = Some \<lparr>pm_table_name = t, pm_stored_index_type = k\<rparr>)"

text \<open>A step on a table in memory: what it does to the store, to the log, to the rest.\<close>

definition wrote :: "string \<Rightarrow> Engine \<Rightarrow> VectorStore \<Rightarrow> string \<Rightarrow> WALEntry \<Rightarrow> Engine \<Rightarrow> VectorStore \<Rightarrow> bool" where
  "wrote t e s l entry e' s' \<longleftrightarrow> store_data s' = log_step (store_dim s) entry (store_data s) \<and> store_dim s' = store_dim s \<and>
     en_persistence_manager_map e' = en_persistence_manager_map e \<and> only_table t e e' \<and>
     files_of (en_disk e') t = (files_of (en_disk e) t)\<lparr>tf_wal := Some (wal_of (en_disk e) t @ l @ [newline])\<rparr>"

lemma insert_step_wrote:
  assumes "loaded rl e t s" and "pm_named e t" and "finite_vec v"
  shows "\<exists>ok e' s'. insert_step rl t i v content e = Some (ok, e') \<and> loaded rl e' t s' \<and>
    wrote t e s (insert_line i v content) \<lparr>we_type = WAL_INSERT, we_table = t, we_config = InsertConfig i v content\<rparr> e' s'"
proof -
  obtain k where pm: "map_of (en_persistence_manager_map e) t = Some \<lparr>pm_table_name = t, pm_stored_index_type = k\<rparr>"
    using assms(2) by (auto simp: pm_named_def)
  have l: "map_of (en_store_map e) t = Some s" "store_inv rl s" "contains (en_stats_manager_map e) t"
    using assms(1) by (simp_all add: loaded_def)
  obtain s' where s': "store_Insert rl s i v content = Some (takes s i v, s')" "store_inv rl s'"
    "store_data s' = (if takes s i v then (store_data s)(i \<mapsto> (v, content)) else store_data s)"
    "vs_vector_dimensionality s' = vs_vector_dimensionality s"
    using store_Insert_takes [OF l(2) assms(3)] by blast
  define e0 where "e0 = set_store t s' (upd_disk (pm_AppendInsert (mref (en_persistence_manager_map e) t) i v content) e)"
  define e' where "e' = (if takes s i v then upd_metrics t (metrics_Increment INSERT 1)
      (upd_stats t (stats_Increment VECTOR) (upd_stats t (stats_SetModifiedFlag True) e0)) else e0)"
  have "insert_step rl t i v content e = Some (takes s i v, e')"
    using l(1) s'(1) by (simp add: insert_step_def Let_def e'_def e0_def)
  moreover have "loaded rl e' t s'" using l(3) s'(2) by (simp add: loaded_def e'_def e0_def)
  moreover have "store_dim s' = store_dim s" using s'(4) by (simp add: store_dim_def)
  moreover have "only_table t e e'" "en_persistence_manager_map e' = en_persistence_manager_map e" "files_of (en_disk e') t =
      (files_of (en_disk e) t)\<lparr>tf_wal := Some (wal_of (en_disk e) t @ insert_line i v content @ [newline])\<rparr>"
    using pm by (simp_all add: e'_def e0_def pm_AppendInsert_def wal_AppendInsert_line files_of_set_wal)
  ultimately show ?thesis using s'(3)
    by (intro exI [of _ "takes s i v"] exI [of _ e'] exI [of _ s'])
      (simp add: wrote_def log_step_def insert_args_def put_data_def takes_data)
qed

lemma remove_step_wrote:
  assumes "loaded rl e t s" and "pm_named e t"
  shows "\<exists>ok e' s'. remove_step t i e = (ok, e') \<and> loaded rl e' t s' \<and>
    wrote t e s (remove_line i) \<lparr>we_type = WAL_REMOVE, we_table = t, we_config = RemoveConfig i\<rparr> e' s'"
proof -
  obtain k where pm: "map_of (en_persistence_manager_map e) t = Some \<lparr>pm_table_name = t, pm_stored_index_type = k\<rparr>"
    using assms(2) by (auto simp: pm_named_def)
  have l: "map_of (en_store_map e) t = Some s" "store_inv rl s" "contains (en_stats_manager_map e) t"
    using assms(1) by (simp_all add: loaded_def)
  obtain ok s' where r: "store_Remove s i = (ok, s')" by fastforce
  note s' = store_Remove_data [OF l(2) r]
  define e0 where "e0 = set_store t s' (upd_disk (pm_AppendRemove (mref (en_persistence_manager_map e) t) i) e)"
  define e' where "e' = (if ok then upd_metrics t (metrics_Increment REMOVE 1) (upd_stats t (stats_Increment STALE)
      (upd_stats t (stats_Increment DELETED) (upd_stats t (stats_SetRemovedFlag True)
      (upd_stats t (stats_SetModifiedFlag True) e0)))) else e0)"
  have "remove_step t i e = (ok, e')" using l(1) r by (simp add: remove_step_def Let_def e'_def e0_def)
  moreover have "loaded rl e' t s'" using l(3) s' by (simp add: loaded_def e'_def e0_def)
  moreover have "store_dim s' = store_dim s" using s' by (simp add: store_dim_def)
  moreover have "only_table t e e'" "en_persistence_manager_map e' = en_persistence_manager_map e" "files_of (en_disk e') t =
      (files_of (en_disk e) t)\<lparr>tf_wal := Some (wal_of (en_disk e) t @ remove_line i @ [newline])\<rparr>"
    using pm by (simp_all add: e'_def e0_def pm_AppendRemove_def wal_AppendRemove_line files_of_set_wal)
  ultimately show ?thesis using s'
    by (intro exI [of _ ok] exI [of _ e'] exI [of _ s']) (simp add: wrote_def log_step_def remove_args_def)
qed

text \<open>The maintenance of a table in memory.\<close>

lemma engine_Cleanup_loaded:
  assumes "loaded rl e t s"
  shows "\<exists>e' s'. engine_Cleanup rl latency t force e = Some e' \<and> loaded rl e' t s' \<and> only_table t e e' \<and>
    (s' = s \<or> (\<exists>b. store_Cleanup rl s b = Some s')) \<and> vs_store s' = vs_store s \<and>
    vs_vector_dimensionality s' = vs_vector_dimensionality s \<and> en_disk e' = en_disk e \<and> en_shutdown e' = en_shutdown e \<and>
    en_metadata e' = en_metadata e \<and> en_persistence_manager_map e' = en_persistence_manager_map e \<and>
    en_cache_map e' = en_cache_map e \<and> keys (en_store_map e') = keys (en_store_map e)"
proof -
  have l: "map_of (en_store_map e) t = Some s" "store_inv rl s" "contains (en_stats_manager_map e) t"
    using assms by (simp_all add: loaded_def)
  have in_keys: "contains (en_store_map e) t" using l(1) by (simp add: contains_def)
  define reindex where "reindex = flt (md_reindex_threshold (en_metadata e)) (cleanup_ratio (sm_stats (mref (en_stats_manager_map e) t)))"
  obtain s' where s': "store_Cleanup rl s reindex = Some s'" "store_inv rl s'" "vs_store s' = vs_store s"
    "vs_vector_dimensionality s' = vs_vector_dimensionality s"
    using store_Cleanup_ok [OF l(2)] by blast
  define e1 where "e1 = upd_stats t (stats_Reset DELETED) (upd_stats t stats_AdjustForDeletions
      (upd_stats t (stats_SetRemovedFlag False) (upd_metrics t (metrics_Increment CLEANUP 1)
      (upd_metrics t (metrics_CalculateCleanupLatency latency) (set_store t s' e)))))"
  define e' where "e' = (if reindex then upd_stats t (stats_Reset STALE) (upd_metrics t (metrics_Increment REINDEX 1) e1) else e1)"
  show ?thesis
  proof (cases "(en_shutdown e \<and> \<not> force) \<or> \<not> contains (en_metrics_manager_map e) t")
    case True
    then show ?thesis using assms by (intro exI [of _ e] exI [of _ s]) (auto simp: engine_Cleanup_def)
  next
    case False
    then have "\<not> (en_shutdown e \<and> \<not> force)" "contains (en_metrics_manager_map e) t" by blast+
    then have "engine_Cleanup rl latency t force e = Some e'"
      using l s'(1) by (simp add: engine_Cleanup_def Let_def contains_def [of "en_store_map e"] reindex_def [symmetric]
          e'_def e1_def del: de_Morgan_conj)
    moreover have "loaded rl e' t s'" using l(3) s'(2) by (simp add: loaded_def e'_def e1_def)
    moreover have "only_table t e e'" by (simp add: e'_def e1_def)
    moreover have "en_disk e' = en_disk e" "en_persistence_manager_map e' = en_persistence_manager_map e"
      "en_cache_map e' = en_cache_map e" "en_shutdown e' = en_shutdown e" "en_metadata e' = en_metadata e"
      "keys (en_store_map e') = keys (en_store_map e)"
      using keys_mput_old [OF in_keys] by (simp_all add: e'_def e1_def)
    ultimately show ?thesis using s' by blast
  qed
qed

section \<open>Operations\<close>

text \<open>What clients and the cleaner call.\<close>

datatype EngineOp =
    OpInsert string Id vector string
  | OpRemove string Id
  | OpBatchInsert string "(Id \<times> vector \<times> string) list"
  | OpBatchRemove string "Id list"
  | OpSearch string vector nat nat f32
  | OpCleanup string f32
  | OpCreate string int HNSWIndexConfig FlatIndexConfig u64

fun run_op :: "level_fun \<Rightarrow> EngineOp \<Rightarrow> Engine \<Rightarrow> Engine option" where
  "run_op rl (OpInsert t i v content) e = map_option snd (engine_Insert rl e t i v content)"
| "run_op rl (OpRemove t i) e = Some (snd (engine_Remove e t i))"
| "run_op rl (OpBatchInsert t xs) e = map_option snd (engine_BatchInsert rl e t xs)"
| "run_op rl (OpBatchRemove t is) e = Some (snd (engine_BatchRemove e t is))"
| "run_op rl (OpSearch t q k p latency) e = map_option snd (engine_Search e latency t q k p)"
| "run_op rl (OpCleanup t latency) e = engine_Cleanup rl latency t False e"
| "run_op rl (OpCreate t dim hc fc cs) e = Some (snd (engine_CreateTable e t dim hc fc cs))"

fun op_table :: "EngineOp \<Rightarrow> string" where
  "op_table (OpInsert t i v content) = t"
| "op_table (OpRemove t i) = t"
| "op_table (OpBatchInsert t xs) = t"
| "op_table (OpBatchRemove t is) = t"
| "op_table (OpSearch t q k p latency) = t"
| "op_table (OpCleanup t latency) = t"
| "op_table (OpCreate t dim hc fc cs) = t"

text \<open>What the operation logs can be read back; a new table measures with L2.\<close>

fun op_fine :: "level_fun \<Rightarrow> EngineOp \<Rightarrow> bool" where
  "op_fine rl (OpInsert t i v content) = (list_all wal_stable v \<and> newline \<notin> set content)"
| "op_fine rl (OpBatchInsert t xs) = (\<forall>(i, v, content) \<in> set xs. list_all wal_stable v \<and> newline \<notin> set content)"
| "op_fine rl (OpSearch t q k p latency) = finite_vec q"
| "op_fine rl (OpCreate t dim hc fc cs) = good_config rl dim hc fc"
| "op_fine rl _ = True"

definition creates :: "EngineOp \<Rightarrow> bool" where
  "creates x \<longleftrightarrow> (case x of OpCreate t dim hc fc cs \<Rightarrow> True | _ \<Rightarrow> False)"

section \<open>What survives every operation\<close>

text \<open>
  A property of a table in memory that survives a readable write, which appends a line to the
  log and does to the store what the line says, and whatever leaves store, manager and files.
\<close>

locale table_invariant =
  fixes rl :: level_fun and P :: "Engine \<Rightarrow> string \<Rightarrow> bool"
  assumes loaded_law: "P e t \<Longrightarrow> \<exists>s. loaded rl e t s"
    and named_law: "P e t \<Longrightarrow> pm_named e t"
    and wrote_law: "P e t \<Longrightarrow> loaded rl e t s \<Longrightarrow> wrote t e s l entry e' s' \<Longrightarrow> loaded rl e' t s' \<Longrightarrow>
      newline \<notin> set l \<Longrightarrow> (\<And>k. parse_line k t l = Some entry) \<Longrightarrow> entry_fine t entry \<Longrightarrow> P e' t"
    and same_law: "P e t \<Longrightarrow> loaded rl e t s \<Longrightarrow> loaded rl e' t s' \<Longrightarrow> store_data s' = store_data s \<Longrightarrow>
      store_dim s' = store_dim s \<Longrightarrow>
      map_of (en_persistence_manager_map e') t = map_of (en_persistence_manager_map e) t \<Longrightarrow>
      files_of (en_disk e') t = files_of (en_disk e) t \<Longrightarrow> P e' t"
begin

lemma same_step:
  assumes "P e t" and "map_of (en_store_map e') t = map_of (en_store_map e) t"
    and "map_of (en_persistence_manager_map e') t = map_of (en_persistence_manager_map e) t"
    and "contains (en_stats_manager_map e') t = contains (en_stats_manager_map e) t"
    and "files_of (en_disk e') t = files_of (en_disk e) t"
  shows "P e' t"
proof -
  obtain s where s: "loaded rl e t s" using loaded_law [OF assms(1)] by blast
  then have "loaded rl e' t s" using assms(2,4) by (simp add: loaded_def)
  from same_law [OF assms(1) s this _ _ assms(3,5)] show ?thesis by simp
qed

lemma other_step:
  assumes "P e u" and "only_table t e e'" and "u \<noteq> t"
  shows "P e' u"
proof -
  have "table_view e' u = table_view e u" using assms(2,3) by (simp add: only_table_def)
  then show ?thesis by (intro same_step [OF assms(1)]) (simp_all add: table_view_def contains_def)
qed

lemma insert_step_inv:
  assumes "P e t" and "list_all wal_stable v" and "newline \<notin> set content"
  shows "\<exists>ok e'. insert_step rl t i v content e = Some (ok, e') \<and> P e' t \<and> only_table t e e'"
proof -
  obtain s where s: "loaded rl e t s" using loaded_law [OF assms(1)] by blast
  have fin: "finite_vec v" by (rule wal_stable_finite [OF assms(2)])
  obtain ok e' s' where st: "insert_step rl t i v content e = Some (ok, e')" "loaded rl e' t s'"
    and wr: "wrote t e s (insert_line i v content) \<lparr>we_type = WAL_INSERT, we_table = t, we_config = InsertConfig i v content\<rparr> e' s'"
    using insert_step_wrote [OF s named_law [OF assms(1)] fin, of i content] by blast
  have "entry_fine t \<lparr>we_type = WAL_INSERT, we_table = t, we_config = InsertConfig i v content\<rparr>"
    using fin by (simp add: entry_fine_def insert_args_def)
  from wrote_law [OF assms(1) s wr st(2) insert_line_no_newline [OF assms(3)] parse_insert_line [OF assms(2)] this] st(1) wr
  show ?thesis by (simp add: wrote_def)
qed

lemma remove_step_inv:
  assumes "P e t"
  shows "P (snd (remove_step t i e)) t \<and> only_table t e (snd (remove_step t i e))"
proof -
  obtain s where s: "loaded rl e t s" using loaded_law [OF assms] by blast
  obtain ok e' s' where st: "remove_step t i e = (ok, e')" "loaded rl e' t s'"
    and wr: "wrote t e s (remove_line i) \<lparr>we_type = WAL_REMOVE, we_table = t, we_config = RemoveConfig i\<rparr> e' s'"
    using remove_step_wrote [OF s named_law [OF assms], of i] by blast
  have "entry_fine t \<lparr>we_type = WAL_REMOVE, we_table = t, we_config = RemoveConfig i\<rparr>" by (simp add: entry_fine_def)
  from wrote_law [OF assms s wr st(2) remove_line_no_newline parse_remove_line this] st(1) wr
  show ?thesis by (simp add: wrote_def)
qed

lemma insert_steps_inv:
  assumes "P e t" and "\<forall>(i, v, content) \<in> set xs. list_all wal_stable v \<and> newline \<notin> set content"
  shows "\<exists>oks e'. insert_steps rl t xs e = Some (oks, e') \<and> P e' t \<and> only_table t e e'"
  using assms
proof (induction xs arbitrary: e)
  case (Cons x xs)
  obtain i v content where x: "x = (i, v, content)" by (metis prod_cases3)
  then obtain ok e1 where e1: "insert_step rl t i v content e = Some (ok, e1)" "P e1 t" "only_table t e e1"
    using insert_step_inv [OF Cons.prems(1)] Cons.prems(2) by fastforce
  moreover from Cons.IH [OF e1(2)] Cons.prems(2) obtain oks e' where
    "insert_steps rl t xs e1 = Some (oks, e')" "P e' t" "only_table t e1 e'" by auto
  ultimately show ?case using x only_table_trans [OF e1(3)] by simp
qed simp

lemma remove_steps_inv: "P e t \<Longrightarrow> P (snd (remove_steps t is e)) t \<and> only_table t e (snd (remove_steps t is e))"
proof (induction "is" arbitrary: e)
  case (Cons i "is")
  note one = remove_step_inv [OF Cons.prems, of i]
  obtain ok e1 where e1: "remove_step t i e = (ok, e1)" by fastforce
  with one have "P e1 t" "only_table t e e1" by simp_all
  with Cons.IH [of e1] e1 only_table_trans [of t e e1] show ?case by (auto split: prod.splits)
qed simp

lemma forget_cache_inv: "P e t \<Longrightarrow> P (invalidate_cache u e) t"
  by (erule same_step) simp_all

lemma engine_Search_inv:
  assumes "P e t" and "finite_vec q"
  shows "\<exists>r e'. engine_Search e latency t q k p = Some (r, e') \<and> P e' t \<and> only_table t e e'"
proof -
  obtain s where s: "map_of (en_store_map e) t = Some s" "store_inv rl s" using loaded_law [OF assms(1)] by (auto simp: loaded_def)
  obtain r where r: "store_Search s q k p = Some r" using store_Search_ok [OF s(2) assms(2), of k p] by blast
  have "P (upd_metrics t f (upd_metrics t g e)) t" for f g by (rule same_step [OF assms(1)]) simp_all
  with s r assms(1) show ?thesis by (simp add: engine_Search_def)
qed

lemma engine_Cleanup_inv:
  assumes "P e t"
  shows "\<exists>e'. engine_Cleanup rl latency t force e = Some e' \<and> P e' t \<and> only_table t e e'"
proof -
  obtain s where s: "loaded rl e t s" using loaded_law [OF assms] by blast
  obtain e' s' where e': "engine_Cleanup rl latency t force e = Some e'" "loaded rl e' t s'" "only_table t e e'"
    "vs_store s' = vs_store s" "vs_vector_dimensionality s' = vs_vector_dimensionality s" "en_disk e' = en_disk e"
    "en_persistence_manager_map e' = en_persistence_manager_map e"
    using engine_Cleanup_loaded [OF s, of latency force] by blast
  from same_law [OF assms s e'(2)] e' show ?thesis by (simp add: store_data_def store_dim_def)
qed

lemma run_op_inv:
  assumes "P e t" and "op_table x = t" and "op_fine rl x" and "\<not> creates x"
  shows "\<exists>e'. run_op rl x e = Some e' \<and> P e' t \<and> only_table t e e'"
proof (cases x)
  case (OpInsert t' i v content)
  then show ?thesis
    using assms insert_step_inv [OF assms(1), of v content i] forget_cache_inv by (auto simp: engine_Insert_def)
next
  case (OpRemove t' i)
  then show ?thesis
    using assms remove_step_inv [OF assms(1), of i] forget_cache_inv by (auto simp: engine_Remove_def split: prod.splits)
next
  case (OpBatchInsert t' xs)
  then show ?thesis
    using assms insert_steps_inv [OF assms(1), of xs] forget_cache_inv by (auto simp: engine_BatchInsert_def)
next
  case (OpBatchRemove t' "is")
  then show ?thesis
    using assms remove_steps_inv [OF assms(1), of "is"] forget_cache_inv
    by (auto simp: engine_BatchRemove_def split: prod.splits)
next
  case (OpSearch t' q k p latency)
  then show ?thesis using assms engine_Search_inv [OF assms(1), of q latency k p] by auto
next
  case (OpCleanup t' latency)
  then show ?thesis using assms engine_Cleanup_inv [OF assms(1), of latency False] by simp
next
  case (OpCreate t' dim hc fc cs)
  with assms(4) show ?thesis by (simp add: creates_def)
qed

lemma run_ops_inv:
  "P e t \<Longrightarrow> \<forall>x \<in> set xs. op_table x = t \<and> op_fine rl x \<and> \<not> creates x \<Longrightarrow>
   \<exists>e'. for_each (run_op rl) xs e = Some e' \<and> P e' t \<and> only_table t e e'"
proof (induction xs arbitrary: e)
  case (Cons x xs)
  then obtain e1 where e1: "run_op rl x e = Some e1" "P e1 t" "only_table t e e1"
    using run_op_inv [OF Cons.prems(1), of x] by auto
  with Cons.IH [of e1] Cons.prems(2) only_table_trans [OF e1(3)] show ?case by auto
qed simp

end

text \<open>An operation on a table that is not there does nothing.\<close>

lemma run_op_absent: "\<not> contains (en_store_map e) (op_table x) \<Longrightarrow> \<not> creates x \<Longrightarrow> run_op rl x e = Some e"
  by (cases x) (simp_all add: engine_Insert_def engine_Remove_def engine_BatchInsert_def engine_BatchRemove_def
      engine_Search_def engine_Cleanup_def writable_def searchable_table_def creates_def)

end
