(* ===== verification/Recovery.thy ===== *)
theory Recovery
  imports EngineSteps
begin

text \<open>
  Durability: what the files of a table must hold for the constructor of the engine to bring
  its data back, that the writes of a client keep it so, and that a restart then gives the
  data of the moment of the crash.
\<close>

section \<open>Recoverable files\<close>

type_synonym table_config = "int \<times> HNSWIndexConfig \<times> FlatIndexConfig \<times> u64"

definition disk_config :: "disk \<Rightarrow> string \<Rightarrow> table_config option" where
  "disk_config d t = map_option (\<lambda>m. load_metadata (0, 0) (Some m)) (tf_metadata (files_of d t))"

lemma load_metadata_config: "disk_config d t = Some c \<Longrightarrow> load_metadata junk (tf_metadata (files_of d t)) = c"
  by (auto simp: disk_config_def load_metadata_def)

text \<open>The store a restart begins with: the snapshot's, or an empty one.\<close>

definition base_store :: "string \<Rightarrow> table_config \<Rightarrow> disk \<Rightarrow> VectorStore" where
  "base_store t c d = (case c of (dim, hc, fc, cs) \<Rightarrow> case make_index hc fc of (it, stored, ix) \<Rightarrow>
     case pm_LoadSnapshot \<lparr>pm_table_name = t, pm_stored_index_type = stored\<rparr> d of
       None \<Rightarrow> store_new it ix dim
     | Some s \<Rightarrow> s)"

definition fresh_store :: "table_config \<Rightarrow> VectorStore" where
  "fresh_store c = (case c of (dim, hc, fc, cs) \<Rightarrow> case make_index hc fc of (it, stored, ix) \<Rightarrow> store_new it ix dim)"

definition config_kind :: "table_config \<Rightarrow> StoredIndexType" where
  "config_kind c = (case c of (dim, hc, fc, cs) \<Rightarrow> fst (snd (make_index hc fc)))"

definition config_line :: "table_config \<Rightarrow> string" where
  "config_line c = (case c of (dim, hc, fc, cs) \<Rightarrow> create_line (config_kind c) hc fc cs)"

definition config_valid :: "string \<Rightarrow> table_config \<Rightarrow> bool" where
  "config_valid t c \<longleftrightarrow> (case c of (dim, hc, fc, cs) \<Rightarrow> ValidateCreateTable t dim hc fc (unat cs)) \<and>
     newline \<notin> set (config_line c) \<and>
     (\<exists>entry. parse_line (config_kind c) t (config_line c) = Some entry \<and> we_type entry = WAL_CREATE \<and> we_table entry = t)"

definition recoverable :: "level_fun \<Rightarrow> disk \<Rightarrow> string \<Rightarrow> table_config \<Rightarrow> WALEntry list \<Rightarrow> bool" where
  "recoverable rl d t c es \<longleftrightarrow> disk_config d t = Some c \<and> config_valid t c \<and> store_inv rl (base_store t c d) \<and>
     tf_wal (files_of d t) \<noteq> None \<and> terminated (wal_of d t) \<and> wal_entries (config_kind c) t (wal_of d t) = Some es \<and> list_all (entry_fine t) es"

text \<open>The data such files hold.\<close>

definition recovered_data :: "disk \<Rightarrow> string \<Rightarrow> table_config \<Rightarrow> WALEntry list \<Rightarrow> (Id \<rightharpoonup> vector \<times> string)" where
  "recovered_data d t c es = log_data (store_dim (base_store t c d)) es (store_data (base_store t c d))"

text \<open>Only the files of the table matter.\<close>

lemma LoadSnapshot_cong:
  assumes "tf_store_snapshot (files_of d' t) = tf_store_snapshot (files_of d t)"
    and "tf_index_snapshot (files_of d' t) = tf_index_snapshot (files_of d t)" and "pm_table_name pm = t"
  shows "pm_LoadSnapshot pm d' = pm_LoadSnapshot pm d"
  unfolding pm_LoadSnapshot_def Let_def assms ..

lemma base_store_cong:
  assumes "tf_store_snapshot (files_of d' t) = tf_store_snapshot (files_of d t)"
    and "tf_index_snapshot (files_of d' t) = tf_index_snapshot (files_of d t)"
  shows "base_store t c d' = base_store t c d"
  using LoadSnapshot_cong [OF assms] by (simp add: base_store_def split: prod.splits)

definition same_saved :: "string \<Rightarrow> disk \<Rightarrow> disk \<Rightarrow> bool" where
  "same_saved t d d' \<longleftrightarrow> tf_store_snapshot (files_of d' t) = tf_store_snapshot (files_of d t) \<and>
     tf_index_snapshot (files_of d' t) = tf_index_snapshot (files_of d t) \<and>
     tf_metadata (files_of d' t) = tf_metadata (files_of d t)"

lemma same_saved_base:
  assumes "same_saved t d d'"
  shows "base_store t c d' = base_store t c d" "disk_config d' t = disk_config d t"
  using assms base_store_cong [of d' t d c] by (simp_all add: same_saved_def disk_config_def)

lemma recovered_data_cong: "same_saved t d d' \<Longrightarrow> recovered_data d' t c es = recovered_data d t c es"
  by (simp add: recovered_data_def same_saved_base)

lemma recoverable_files: "files_of d' t = files_of d t \<Longrightarrow> recoverable rl d' t c es = recoverable rl d t c es"
  using same_saved_base [of t d d'] by (simp add: same_saved_def recoverable_def wal_of_def)

text \<open>One more line in the log.\<close>

lemma recoverable_line:
  assumes "recoverable rl d t c es" and "same_saved t d d'" and "tf_wal (files_of d' t) = Some (wal_of d t @ l @ [newline])"
    and "newline \<notin> set l" and "parse_line (config_kind c) t l = Some entry" and "entry_fine t entry"
  shows "recoverable rl d' t c (es @ [entry])"
  using assms same_saved_base [OF assms(2)] wal_entries_line [of "wal_of d t" l "config_kind c" t es entry]
  by (simp add: recoverable_def wal_of_def)

text \<open>A table whose files, replayed, give what is in memory.\<close>

definition durable :: "level_fun \<Rightarrow> Engine \<Rightarrow> string \<Rightarrow> bool" where
  "durable rl e t \<longleftrightarrow> (\<exists>c es s. loaded rl e t s \<and> recoverable rl (en_disk e) t c es \<and>
     store_data s = recovered_data (en_disk e) t c es \<and> store_dim s = store_dim (base_store t c (en_disk e)) \<and>
     map_of (en_persistence_manager_map e) t = Some \<lparr>pm_table_name = t, pm_stored_index_type = config_kind c\<rparr>)"

lemma durableE:
  assumes "durable rl e t" and "loaded rl e t s"
  obtains c es where "recoverable rl (en_disk e) t c es" "store_data s = recovered_data (en_disk e) t c es"
    "store_dim s = store_dim (base_store t c (en_disk e))"
    "map_of (en_persistence_manager_map e) t = Some \<lparr>pm_table_name = t, pm_stored_index_type = config_kind c\<rparr>"
  using assms unfolding durable_def loaded_def by auto

text \<open>Counters, metrics, caches and the other tables do not matter.\<close>

lemma durable_cong:
  assumes "map_of (en_store_map e') t = map_of (en_store_map e) t"
    and "map_of (en_persistence_manager_map e') t = map_of (en_persistence_manager_map e) t"
    and "contains (en_stats_manager_map e') t = contains (en_stats_manager_map e) t"
    and "files_of (en_disk e') t = files_of (en_disk e) t"
  shows "durable rl e' t = durable rl e t"
proof -
  have saved: "same_saved t (en_disk e) (en_disk e')" using assms(4) by (simp add: same_saved_def)
  show ?thesis
    unfolding durable_def loaded_def assms(1-3) recoverable_files [OF assms(4)] recovered_data_cong [OF saved]
      same_saved_base(1) [OF saved] ..
qed

lemma durable_view: "table_view e' t = table_view e t \<Longrightarrow> durable rl e' t = durable rl e t"
  by (rule durable_cong) (simp_all add: table_view_def contains_def)

text \<open>A request that passed validation, with a dimension that is an \<open>int\<close>, has such a configuration.\<close>

lemma show_int_no_newline: "newline \<notin> set (show_int i)"
  using show_nat_no_newline by (simp add: show_int_def)

lemma show_f32_no_newline: "newline \<notin> set (show_f32 v)"
  using show_floats_no_newline [of "[v]"] by (simp add: show_floats_def)

lemma metric_name_no_newline: "newline \<notin> set (metric_name m)"
  by (simp add: metric_name_def)

lemma config_line_no_newline: "newline \<notin> set (config_line c)"
  by (cases c; cases "config_kind c")
    (simp_all add: config_line_def create_line_def wal_AppendCreate_def butlast_append show_int_no_newline
      show_nat_no_newline show_f32_no_newline metric_name_no_newline)

lemma config_valid_flat:
  assumes "ValidateCreateTable t dim hc fc (unat cs)" and "\<not> wants_hnsw hc"
    and "- (2 ^ 31) \<le> fc_vector_dimensionality fc" and "fc_vector_dimensionality fc < 2 ^ 31"
  shows "config_valid t (dim, hc, fc, cs)"
  using assms(1,2) parse_create_flat [OF assms(3,4), of t hc cs] config_line_no_newline [of "(dim, hc, fc, cs)"]
  by (simp add: config_valid_def config_kind_def config_line_def make_index_def)

lemma config_valid_hnsw:
  assumes "ValidateCreateTable t dim hc fc (unat cs)" and "wants_hnsw hc"
    and "- (2 ^ 31) \<le> hc_vector_dimensionality hc" and "hc_vector_dimensionality hc < 2 ^ 31"
    and "hc_m hc < 2 ^ 64" and "hc_m0 hc < 2 ^ 64" and "hc_ef_construction hc < 2 ^ 64" and "wal_stable (hc_ml hc)"
  shows "config_valid t (dim, hc, fc, cs)"
  using assms(1,2) parse_create_hnsw [OF assms(3-8), of t fc cs] config_line_no_newline [of "(dim, hc, fc, cs)"]
  by (simp add: config_valid_def config_kind_def config_line_def make_index_def)

section \<open>Restoring tables\<close>

lemma created_log_line: "created_log hc fc cs wal = wal @ config_line (dim, hc, fc, cs) @ [newline]"
  by (simp add: created_log_def config_line_def config_kind_def wal_AppendCreate_line)

lemma engine_CreateTable_offsets: "en_wal_offsets (snd (engine_CreateTable e t dim hc fc cs)) = en_wal_offsets e"
  by (simp add: engine_CreateTable_def add_table_def pm_new_def split: prod.splits)

lemma engine_CreateTable_maps:
  "distinct (keys (en_store_map e)) \<Longrightarrow> distinct (keys (en_store_map (snd (engine_CreateTable e t dim hc fc cs))))"
  "distinct (keys (en_persistence_manager_map e)) \<Longrightarrow>
   distinct (keys (en_persistence_manager_map (snd (engine_CreateTable e t dim hc fc cs))))"
  by (simp_all add: engine_CreateTable_def add_table_def pm_new_def split: prod.splits)

lemma engine_CreateTable_disk:
  assumes "distinct (keys (en_disk e))"
  shows "distinct (keys (en_disk (snd (engine_CreateTable e t dim hc fc cs))))"
  using assms by (simp add: engine_CreateTable_def add_table_def pm_new_def pm_AppendCreate_def split: prod.splits)

text \<open>The tables a start looks for.\<close>

lemma tables_on_disk_iff:
  assumes "distinct (keys d)"
  shows "t \<in> set (tables_on_disk d) \<longleftrightarrow> t \<noteq> [] \<and> tf_wal (files_of d t) \<noteq> None"
proof (cases "map_of d t")
  case None
  then have "(t, f) \<notin> set d" for f using map_of_eq_None_iff [of d t] by force
  then show ?thesis using None by (auto simp: tables_on_disk_def files_of_def no_files_def)
next
  case (Some f)
  have "(t, g) \<in> set d \<longleftrightarrow> g = f" for g using Some map_of_eq_Some_iff [OF assms, of t g] by auto
  then have "t \<in> set (tables_on_disk d) \<longleftrightarrow> t \<noteq> [] \<and> tf_wal f \<noteq> None" by (force simp: tables_on_disk_def)
  with Some show ?thesis by (simp add: files_of_def)
qed

text \<open>Up to the replay: the engine with the new table, its snapshot loaded, its log longer by a \<open>create\<close>.\<close>

definition restoring :: "level_fun \<Rightarrow> string \<Rightarrow> table_config \<Rightarrow> Engine \<Rightarrow> Engine \<Rightarrow> bool" where
  "restoring rl t c e e2 \<longleftrightarrow> loaded rl e2 t (base_store t c (en_disk e)) \<and> table_exists e2 t \<and>
     map_of (en_persistence_manager_map e2) t = Some \<lparr>pm_table_name = t, pm_stored_index_type = config_kind c\<rparr> \<and>
     en_metadata e2 = en_metadata e \<and> en_shutdown e2 = en_shutdown e \<and> en_wal_offsets e2 = en_wal_offsets e \<and>
     (\<forall>u. u \<noteq> t \<longrightarrow> table_view e2 u = table_view e u) \<and> same_saved t (en_disk e) (en_disk e2) \<and>
     tf_wal (files_of (en_disk e2) t) = Some (wal_of (en_disk e) t @ config_line c @ [newline]) \<and>
     (distinct (keys (en_disk e)) \<longrightarrow> distinct (keys (en_disk e2))) \<and>
     map_of (en_stats_manager_map e2) t = Some (stats_SetModifiedFlag True stats_new) \<and>
     map_of (en_cache_map e2) t = Some (lru_new (unat (snd (snd (snd c))))) \<and>
     (distinct (keys (en_store_map e)) \<longrightarrow> distinct (keys (en_store_map e2))) \<and>
     (distinct (keys (en_persistence_manager_map e)) \<longrightarrow> distinct (keys (en_persistence_manager_map e2)))"

definition is_create :: "table_config \<Rightarrow> string \<Rightarrow> WALEntry \<Rightarrow> bool" where
  "is_create c t ce \<longleftrightarrow> parse_line (config_kind c) t (config_line c) = Some ce \<and> we_type ce = WAL_CREATE \<and> we_table ce = t"

lemma create_entry: "is_create c t ce \<Longrightarrow> entry_fine t ce" "is_create c t ce \<Longrightarrow> log_step n ce m = m"
  by (simp_all add: is_create_def entry_fine_def log_step_def)

lemma restore_table_begins:
  fixes net :: "'w Net" and w :: 'w
  assumes "disk_config (en_disk e) t = Some c" and "config_valid t c" and "store_inv rl (base_store t c (en_disk e))"
    and "terminated (wal_of (en_disk e) t)" and "wal_entries (config_kind c) t (wal_of (en_disk e) t) = Some es"
    and "table_absent e t" and "md_primary (en_metadata e)" and "\<not> en_shutdown e"
  shows "\<exists>ce e2. is_create c t ce \<and> restoring rl t c e e2 \<and> restore_table rl net junk t (e, w) =
    map_option (\<lambda>(e3, w'). (upd_stats t (stats_Set VECTOR (int_of_size (length (vs_store (mref (en_store_map e3) t))))) e3, w'))
      (for_each (replay_entry rl net) (es @ [ce]) (e2, w))"
proof -
  obtain dim hc fc cs where c: "c = (dim, hc, fc, cs)" by (metis prod_cases4)
  obtain it stored ix where mi: "make_index hc fc = (it, stored, ix)" by (metis prod_cases3)
  have kind: "config_kind c = stored" by (simp add: config_kind_def c mi)
  have valid: "ValidateCreateTable t dim hc fc (unat cs)" using assms(2) by (simp add: config_valid_def c)
  obtain ce where ce: "is_create c t ce" and nl: "newline \<notin> set (config_line c)"
    using assms(2) by (auto simp: config_valid_def is_create_def)
  obtain e0 where create: "engine_CreateTable e t dim hc fc cs = (True, upd_stats t (stats_SetModifiedFlag True) (add_table t dim hc fc cs e0))"
    and e0: "\<forall>u. u \<noteq> t \<longrightarrow> table_view e0 u = table_view e u" "en_metadata e0 = en_metadata e" "en_shutdown e0 = en_shutdown e"
      "files_of (en_disk e0) t = (files_of (en_disk e) t)\<lparr>tf_wal := Some (created_log hc fc cs (wal_of (en_disk e) t))\<rparr>"
    using engine_CreateTable_shape [OF assms(7,8) valid assms(6)] by blast
  define e1 where "e1 = upd_stats t (stats_SetModifiedFlag True) (add_table t dim hc fc cs e0)"
  define pm where "pm = \<lparr>pm_table_name = t, pm_stored_index_type = stored\<rparr>"
  note av = add_table_views [OF mi, where t = t and dim = dim and cs = cs and e = e0]
  have e1: "map_of (en_store_map e1) t = Some (store_new it ix dim)" "map_of (en_persistence_manager_map e1) t = Some pm"
      "table_exists e1 t" "en_metadata e1 = en_metadata e" "en_shutdown e1 = en_shutdown e"
      "\<forall>u. u \<noteq> t \<longrightarrow> table_view e1 u = table_view e u"
      "files_of (en_disk e1) t = (files_of (en_disk e) t)\<lparr>tf_wal := Some (wal_of (en_disk e) t @ config_line c @ [newline])\<rparr>"
    using av e0 by (simp_all add: e1_def pm_def table_view_def table_exists_def contains_def wal_of_def
        created_log_line [of hc fc cs _ dim] c)
  have saved: "same_saved t (en_disk e) (en_disk e1)" using e1(7) by (simp add: same_saved_def)
  define e2 where "e2 = (case pm_LoadSnapshot pm (en_disk e1) of None \<Rightarrow> e1 | Some s \<Rightarrow> set_store t s e1)"
  have "base_store t c (en_disk e1) = base_store t c (en_disk e)" by (rule same_saved_base [OF saved])
  then have store2: "map_of (en_store_map e2) t = Some (base_store t c (en_disk e))"
    using e1(1) by (auto simp: e2_def base_store_def c mi pm_def split: option.splits)
  have f12: "frame t e1 e2" "table_exists e2 t"
    using e1(3) by (simp_all add: e2_def table_exists_def split: option.splits)
  have "contains (en_stats_manager_map e2) t" using f12(2) by (simp add: table_exists_def)
  with store2 assms(3) have "loaded rl e2 t (base_store t c (en_disk e))" by (simp add: loaded_def)
  moreover have "distinct (keys (en_disk e)) \<Longrightarrow> distinct (keys (en_disk e2))"
    using f12(1) engine_CreateTable_disk [of e t dim hc fc cs] create by (simp add: frame_def e1_def)
  moreover have "\<forall>u. u \<noteq> t \<longrightarrow> table_view e2 u = table_view e u"
    using f12(1) e1(6) by (simp add: frame_def table_view_def)
  moreover have "en_wal_offsets e2 = en_wal_offsets e"
    using f12(1) engine_CreateTable_offsets [of e t dim hc fc cs] create by (simp add: frame_def e1_def)
  moreover have "map_of (en_stats_manager_map e2) t = Some (stats_SetModifiedFlag True stats_new)"
    "map_of (en_cache_map e2) t = Some (lru_new (unat (snd (snd (snd c)))))"
    using av(2) by (simp_all add: e2_def e1_def table_view_def c split: option.splits)
  moreover have "distinct (keys (en_store_map e)) \<Longrightarrow> distinct (keys (en_store_map e2))"
    using engine_CreateTable_maps(1) [of e t dim hc fc cs] create by (simp add: e2_def e1_def split: option.splits)
  moreover have "distinct (keys (en_persistence_manager_map e)) \<Longrightarrow> distinct (keys (en_persistence_manager_map e2))"
    using engine_CreateTable_maps(2) [of e t dim hc fc cs] create by (simp add: e2_def e1_def split: option.splits)
  ultimately have "restoring rl t c e e2"
    using f12 e1 saved kind by (simp add: restoring_def frame_def pm_def)
  moreover have "restore_table rl net junk t (e, w) =
    map_option (\<lambda>(e3, w'). (upd_stats t (stats_Set VECTOR (int_of_size (length (vs_store (mref (en_store_map e3) t))))) e3, w'))
      (for_each (replay_entry rl net) (es @ [ce]) (e2, w))"
  proof -
    have "parse_line stored t (config_line c) = Some ce" using ce kind by (simp add: is_create_def)
    from wal_entries_line [OF assms(4) nl _ this] assms(5) kind e1(7)
    have "wal_entries stored t (wal_of (en_disk e1) t) = Some (es @ [ce])" by (simp add: wal_of_def)
    from ReplayWAL_entries [OF this] have "pm_ReplayWAL pm (en_disk e2) (replay_entry rl net) (e2, w) =
        for_each (replay_entry rl net) (es @ [ce]) (e2, w)"
      using f12(1) by (simp add: pm_ReplayWAL_def pm_def frame_def)
    then show ?thesis
      using create load_metadata_config [OF assms(1), of junk] e1(2)
      by (simp add: restore_table_def c e1_def [symmetric] e2_def [symmetric] split: option.split)
  qed
  ultimately show ?thesis using ce by blast
qed

lemma restore_table_ok:
  fixes net :: "'w Net" and w :: 'w
  assumes "recoverable rl (en_disk e) t c es" and "table_absent e t" and "md_primary (en_metadata e)" and "\<not> en_shutdown e"
  shows "\<exists>e'. restore_table rl net junk t (e, w) = Some (e', w) \<and> durable rl e' t \<and>
    table_data e' t = Some (recovered_data (en_disk e) t c es) \<and> en_metadata e' = en_metadata e \<and>
    en_shutdown e' = en_shutdown e \<and> (\<forall>u. u \<noteq> t \<longrightarrow> table_view e' u = table_view e u) \<and>
    (distinct (keys (en_disk e)) \<longrightarrow> distinct (keys (en_disk e'))) \<and> en_wal_offsets e' = en_wal_offsets e \<and>
    (\<exists>ce. is_create c t ce \<and> recoverable rl (en_disk e') t c (es @ [ce]))"
proof -
  let ?b = "base_store t c (en_disk e)"
  note rec = assms(1) [unfolded recoverable_def]
  obtain ce e2 where ce: "is_create c t ce" and r: "restoring rl t c e e2"
    and restore: "restore_table rl net junk t (e, w) =
      map_option (\<lambda>(e3, w'). (upd_stats t (stats_Set VECTOR (int_of_size (length (vs_store (mref (en_store_map e3) t))))) e3, w'))
        (for_each (replay_entry rl net) (es @ [ce]) (e2, w))"
    using restore_table_begins [of e t c rl es net junk w] rec assms(2-4) by blast
  note fine = create_entry [OF ce]
  have l2: "loaded rl e2 t ?b" and saved: "same_saved t (en_disk e) (en_disk e2)"
    and wal2: "tf_wal (files_of (en_disk e2) t) = Some (wal_of (en_disk e) t @ config_line c @ [newline])"
    using r by (simp_all add: restoring_def)
  have nl: "newline \<notin> set (config_line c)" "parse_line (config_kind c) t (config_line c) = Some ce"
    using rec ce by (simp_all add: config_valid_def is_create_def)
  have rec2: "recoverable rl (en_disk e2) t c (es @ [ce])" by (rule recoverable_line [OF assms(1) saved wal2 nl fine(1)])
  have "list_all (entry_fine t) (es @ [ce])" using rec fine(1) by simp
  from replay_data [OF l2 this, of net w] obtain e3 s where
    e3: "for_each (replay_entry rl net) (es @ [ce]) (e2, w) = Some (e3, w)" "loaded rl e3 t s" "frame t e2 e3"
    "store_data s = log_data (store_dim ?b) (es @ [ce]) (store_data ?b)" "store_dim s = store_dim ?b" by blast
  define e' where "e' = upd_stats t (stats_Set VECTOR (int_of_size (length (vs_store (mref (en_store_map e3) t))))) e3"
  have ct: "contains (en_stats_manager_map e3) t" using e3(2) by (simp add: loaded_def)
  have fr: "frame t e2 e'" using frame_trans [OF e3(3) frame_upd_stats [OF ct]] by (simp add: e'_def)
  then have disk: "en_disk e' = en_disk e2" "en_persistence_manager_map e' = en_persistence_manager_map e2"
    by (simp_all add: frame_def)
  have ld: "loaded rl e' t s" using e3(2) ct by (simp add: e'_def)
  have data: "store_data s = recovered_data (en_disk e) t c es"
    using e3(4) fine(2) by (simp add: recovered_data_def)
  have "recovered_data (en_disk e2) t c (es @ [ce]) = store_data s"
    using data fine(2) recovered_data_cong [OF saved, of c es] same_saved_base(1) [OF saved, of c] by (simp add: recovered_data_def)
  then have "durable rl e' t"
    using ld rec2 r e3(5) same_saved_base(1) [OF saved, of c] unfolding durable_def disk
    by (intro exI [of _ c] exI [of _ "es @ [ce]"] exI [of _ s]) (simp add: restoring_def)
  moreover have "restore_table rl net junk t (e, w) = Some (e', w)" using restore e3(1) by (simp add: e'_def)
  moreover have "table_data e' t = Some (recovered_data (en_disk e) t c es)"
    using ld data by (simp add: loaded_def table_data_def)
  moreover have "\<forall>u. u \<noteq> t \<longrightarrow> table_view e' u = table_view e u"
    using fr r by (simp add: frame_def table_view_def restoring_def)
  moreover have "en_metadata e' = en_metadata e" "en_shutdown e' = en_shutdown e" using fr r by (simp_all add: frame_def restoring_def)
  moreover have "en_wal_offsets e' = en_wal_offsets e" using fr r by (simp add: frame_def restoring_def)
  moreover have "\<exists>ce. is_create c t ce \<and> recoverable rl (en_disk e') t c (es @ [ce])" using ce rec2 disk by auto
  ultimately show ?thesis using r disk by (intro exI [of _ e']) (simp add: restoring_def)
qed

text \<open>
  A \<open>drop\<close> in the log of a saved table: the replay calls \<open>DropTable\<close>, which waits in \<open>AppendDrop\<close>
  for the mutex that \<open>ReplayWAL\<close> holds.
\<close>

lemma restore_table_drop:
  fixes net :: "'w Net" and w :: 'w
  assumes "recoverable rl (en_disk e) t c es" and "table_absent e t" and "md_primary (en_metadata e)" and "\<not> en_shutdown e"
    and "same_saved t (en_disk e) (en_disk e')" and "wal_of (en_disk e') t = wal_AppendDrop (wal_of (en_disk e) t)"
    and "table_absent e' t" and "en_metadata e' = en_metadata e" and "\<not> en_shutdown e'"
  shows "restore_table rl net junk t (e', w) = None"
proof -
  let ?drop = "\<lparr>we_type = WAL_DROP, we_table = t, we_config = NoConfig\<rparr>"
  note rec = assms(1) [unfolded recoverable_def] and sv = same_saved_base [OF assms(5)]
  have wal: "wal_of (en_disk e') t = wal_of (en_disk e) t @ ''drop'' @ [newline]" using assms(6) by (simp add: wal_AppendDrop_def)
  have entries: "wal_entries (config_kind c) t (wal_of (en_disk e') t) = Some (es @ [?drop])"
    unfolding wal using rec by (intro wal_entries_line parse_drop_line) simp_all
  have ends: "terminated (wal_of (en_disk e') t)" unfolding wal by (rule terminated_append)
  have conf: "disk_config (en_disk e') t = Some c" "config_valid t c" "store_inv rl (base_store t c (en_disk e'))"
    using rec sv by simp_all
  have prim: "md_primary (en_metadata e')" using assms(3,8) by simp
  obtain ce e2 where r: "restoring rl t c e' e2"
    and restore: "restore_table rl net junk t (e', w) =
      map_option (\<lambda>(e3, w'). (upd_stats t (stats_Set VECTOR (int_of_size (length (vs_store (mref (en_store_map e3) t))))) e3, w'))
        (for_each (replay_entry rl net) ((es @ [?drop]) @ [ce]) (e2, w))"
    using restore_table_begins [OF conf ends entries assms(7) prim assms(9), of net junk w] by blast
  have "list_all (entry_fine t) es" using rec by simp
  moreover have "loaded rl e2 t (base_store t c (en_disk e'))" using r by (simp add: restoring_def)
  ultimately obtain e3 s where e3: "for_each (replay_entry rl net) es (e2, w) = Some (e3, w)" "frame t e2 e3" "loaded rl e3 t s"
    using replay_data [of rl e2 t _ es net w] by blast
  have "table_exists e3 t" using e3(2,3) r by (simp add: restoring_def table_exists_def frame_def loaded_def contains_def)
  moreover have "md_primary (en_metadata e3)" "\<not> en_shutdown e3" using e3(2) r assms(3,8,9) by (simp_all add: frame_def restoring_def)
  moreover have "ValidateDropTable t"
    using rec by (cases c) (auto simp: config_valid_def ValidateCreateTable_def ValidateDropTable_def)
  ultimately have "replay_entry rl net ?drop (e3, w) = None" by (simp add: replay_entry_def)
  then show ?thesis using restore e3(1) by (simp add: for_each_append)
qed

lemma table_absent_view: "table_view e' u = table_view e u \<Longrightarrow> table_absent e' u = table_absent e u"
  by (simp add: table_view_def table_absent_def contains_def)

lemma table_data_view: "table_view e' u = table_view e u \<Longrightarrow> table_data e' u = table_data e u"
  by (simp add: table_view_def table_data_def)

text \<open>A table without saved metadata is skipped: both configurations are empty, which \<open>CreateTable\<close> refuses.\<close>

definition unsaved :: "disk \<Rightarrow> string \<Rightarrow> bool" where
  "unsaved d t \<longleftrightarrow> tf_metadata (files_of d t) = None"

lemma restore_unsaved: "unsaved (en_disk e) t \<Longrightarrow> restore_table rl net junk t (e, w) = Some (e, w)"
  by (simp add: unsaved_def restore_table_def load_metadata_def engine_CreateTable_def ValidateCreateTable_iff
      hnsw_config_empty_def hnsw_config_valid_def default_hnsw_config_def default_flat_config_def)

lemma recoverable_saved: "recoverable rl d t c es \<Longrightarrow> \<not> unsaved d t"
  by (auto simp: recoverable_def disk_config_def unsaved_def)

lemma restore_tables:
  fixes net :: "'w Net" and w :: 'w
  assumes "distinct ts"
    and "\<forall>t \<in> set ts. \<not> unsaved (en_disk e) t \<longrightarrow> recoverable rl (en_disk e) t (cf t) (lg t) \<and> table_absent e t"
    and "md_primary (en_metadata e)" and "\<not> en_shutdown e"
  shows "\<exists>e'. for_each (restore_table rl net junk) ts (e, w) = Some (e', w) \<and> en_metadata e' = en_metadata e \<and> en_shutdown e' = en_shutdown e \<and>
    en_wal_offsets e' = en_wal_offsets e \<and>
    (distinct (keys (en_disk e)) \<longrightarrow> distinct (keys (en_disk e'))) \<and>
    (\<forall>t \<in> set ts. \<not> unsaved (en_disk e) t \<longrightarrow>
       durable rl e' t \<and> table_data e' t = Some (recovered_data (en_disk e) t (cf t) (lg t)) \<and>
       (\<exists>ce. is_create (cf t) t ce \<and> recoverable rl (en_disk e') t (cf t) (lg t @ [ce]))) \<and>
    (\<forall>u. (u \<in> set ts \<longrightarrow> unsaved (en_disk e) u) \<longrightarrow> table_view e' u = table_view e u)"
  using assms
proof (induction ts arbitrary: e)
  case (Cons t ts)
  show ?case
  proof (cases "unsaved (en_disk e) t")
    case True
    from Cons.IH [of e] Cons.prems restore_unsaved [OF True, of rl net junk w] True show ?thesis by auto
  next
    case saved: False
    then have t: "recoverable rl (en_disk e) t (cf t) (lg t)" "table_absent e t" "t \<notin> set ts" using Cons.prems(1,2) by simp_all
    obtain e1 where e1: "restore_table rl net junk t (e, w) = Some (e1, w)" "durable rl e1 t"
      "table_data e1 t = Some (recovered_data (en_disk e) t (cf t) (lg t))" "en_metadata e1 = en_metadata e"
      "en_shutdown e1 = en_shutdown e" "distinct (keys (en_disk e)) \<longrightarrow> distinct (keys (en_disk e1))"
      "en_wal_offsets e1 = en_wal_offsets e" "\<exists>ce. is_create (cf t) t ce \<and> recoverable rl (en_disk e1) t (cf t) (lg t @ [ce])"
      and v1: "\<And>u. u \<noteq> t \<Longrightarrow> table_view e1 u = table_view e u"
      using restore_table_ok [OF t(1,2) Cons.prems(3,4), of net junk w] by blast
    have files: "files_of (en_disk e1) u = files_of (en_disk e) u" if "u \<noteq> t" for u
      using v1 [OF that] by (simp add: table_view_def)
    then have un: "unsaved (en_disk e1) u = unsaved (en_disk e) u" if "u \<noteq> t" for u using that by (simp add: unsaved_def)
    have nt: "u \<noteq> t" if "u \<in> set ts" for u using that t(3) by auto
    have "\<forall>u \<in> set ts. \<not> unsaved (en_disk e1) u \<longrightarrow> recoverable rl (en_disk e1) u (cf u) (lg u) \<and> table_absent e1 u"
      using Cons.prems(2) recoverable_files [OF files [OF nt]] table_absent_view [OF v1 [OF nt]] un [OF nt] by simp
    note IH = Cons.IH [OF _ this]
    have "distinct ts" "md_primary (en_metadata e1)" "\<not> en_shutdown e1" using Cons.prems(1,3,4) e1(4,5) by simp_all
    from IH [OF this] obtain e' where
      e': "for_each (restore_table rl net junk) ts (e1, w) = Some (e', w)" "en_metadata e' = en_metadata e1" "en_shutdown e' = en_shutdown e1"
      "en_wal_offsets e' = en_wal_offsets e1"
      "distinct (keys (en_disk e1)) \<longrightarrow> distinct (keys (en_disk e'))"
      "\<forall>u \<in> set ts. \<not> unsaved (en_disk e1) u \<longrightarrow>
         durable rl e' u \<and> table_data e' u = Some (recovered_data (en_disk e1) u (cf u) (lg u)) \<and>
         (\<exists>ce. is_create (cf u) u ce \<and> recoverable rl (en_disk e') u (cf u) (lg u @ [ce]))"
        "\<forall>u. (u \<in> set ts \<longrightarrow> unsaved (en_disk e1) u) \<longrightarrow> table_view e' u = table_view e1 u" by blast
    note v' = e'(7) [rule_format]
    have data: "recovered_data (en_disk e1) u (cf u) (lg u) = recovered_data (en_disk e) u (cf u) (lg u)" if "u \<in> set ts" for u
      using files [OF nt [OF that]] by (intro recovered_data_cong) (simp add: same_saved_def)
    have "table_view e' t = table_view e1 t" using t(3) by (intro v') simp
    then have "durable rl e' t" "table_data e' t = Some (recovered_data (en_disk e) t (cf t) (lg t))"
      using e1(2,3) durable_view [of e' t e1 rl] table_data_view [of e' t e1] by simp_all
    moreover have "\<exists>ce. is_create (cf t) t ce \<and> recoverable rl (en_disk e') t (cf t) (lg t @ [ce])"
      using e1(8) \<open>table_view e' t = table_view e1 t\<close> recoverable_files [of "en_disk e'" t "en_disk e1" rl]
      by (simp add: table_view_def)
    moreover have "table_view e' u = table_view e u" if u: "u \<in> set (t # ts) \<longrightarrow> unsaved (en_disk e) u" for u
    proof -
      have "u \<noteq> t" using u saved by auto
      with u v' [of u] v1 [of u] un [of u] show ?thesis by simp
    qed
    ultimately show ?thesis using e' e1 data un nt saved by (intro exI [of _ e']) simp
  qed
qed simp

section \<open>Restarting the engine\<close>

text \<open>A table that the log files bring back, or one whose metadata was never saved.\<close>

definition settled_table :: "level_fun \<Rightarrow> Engine \<Rightarrow> string \<Rightarrow> bool" where
  "settled_table rl e t \<longleftrightarrow> (if contains (en_store_map e) t
     then durable rl e t \<or> unsaved (en_disk e) t \<and> (\<exists>s. loaded rl e t s) \<and> pm_named e t
     else unsaved (en_disk e) t)"

definition settled :: "level_fun \<Rightarrow> Engine \<Rightarrow> bool" where
  "settled rl e \<longleftrightarrow> distinct (keys (en_disk e)) \<and> (\<forall>t. settled_table rl e t)"

text \<open>The data of the tables that have been saved at least once.\<close>

definition saved_data :: "Engine \<Rightarrow> string \<rightharpoonup> (Id \<rightharpoonup> vector \<times> string)" where
  "saved_data e t = (if unsaved (en_disk e) t then None else table_data e t)"

lemma recoverable_on_disk: "distinct (keys d) \<Longrightarrow> recoverable rl d t c es \<Longrightarrow> t \<in> set (tables_on_disk d)"
  by (auto simp: tables_on_disk_iff recoverable_def config_valid_def ValidateCreateTable_def split: prod.splits)

lemma durable_stored: "durable rl e t \<Longrightarrow> contains (en_store_map e) t"
  by (auto simp: durable_def loaded_def contains_def)

lemma stored_data: "contains (en_store_map e) t \<longleftrightarrow> table_data e t \<noteq> None"
  by (auto simp: contains_def table_data_def)

lemma engine_start_ok:
  fixes net :: "'w Net" and w :: 'w
  assumes "distinct (keys d)" and "md_primary md"
    and "\<forall>t. \<not> unsaved d t \<longrightarrow> recoverable rl d t (cf t) (lg t)"
  shows "\<exists>e'. engine_start rl net junk md d w = Some (e', w) \<and> settled rl e' \<and> en_metadata e' = md \<and> en_wal_offsets e' = [] \<and>
    (\<forall>t. \<not> unsaved d t \<longrightarrow> (\<exists>ce. is_create (cf t) t ce \<and> recoverable rl (en_disk e') t (cf t) (lg t @ [ce]))) \<and>
    (\<forall>t. table_data e' t = (if unsaved d t then None else Some (recovered_data d t (cf t) (lg t))))"
proof -
  have ts: "distinct (tables_on_disk d)" using assms(1) by (auto simp: tables_on_disk_def distinct_map inj_on_def)
  have on: "t \<in> set (tables_on_disk d)" if "\<not> unsaved d t" for t
    using assms(3) that recoverable_on_disk [OF assms(1)] by blast
  have absent: "table_absent (engine_init md d) t" for t by (simp add: table_absent_def engine_init_def)
  have init: "en_disk (engine_init md d) = d" "en_metadata (engine_init md d) = md" "\<not> en_shutdown (engine_init md d)"
    "en_wal_offsets (engine_init md d) = []"
    by (simp_all add: engine_init_def)
  obtain e' where e': "engine_start rl net junk md d w = Some (e', w)" "en_metadata e' = md"
    "distinct (keys (en_disk e'))"
    "\<forall>t \<in> set (tables_on_disk d). \<not> unsaved d t \<longrightarrow> durable rl e' t \<and> table_data e' t = Some (recovered_data d t (cf t) (lg t)) \<and>
       (\<exists>ce. is_create (cf t) t ce \<and> recoverable rl (en_disk e') t (cf t) (lg t @ [ce]))"
    "\<And>u. (u \<in> set (tables_on_disk d) \<longrightarrow> unsaved d u) \<Longrightarrow> table_view e' u = table_view (engine_init md d) u"
    "en_wal_offsets e' = []"
    using restore_tables [OF ts, of "engine_init md d" rl cf lg net junk w, unfolded init] assms init absent
    by (auto simp: engine_start_def)
  have "settled_table rl e' t \<and> table_data e' t = (if unsaved d t then None else Some (recovered_data d t (cf t) (lg t)))" for t
  proof (cases "unsaved d t")
    case True
    then have v: "table_view e' t = table_view (engine_init md d) t" using e'(5) by simp
    then have "files_of (en_disk e') t = files_of d t" by (simp add: table_view_def engine_init_def)
    with True have "unsaved (en_disk e') t" by (simp add: unsaved_def)
    moreover have "table_data (engine_init md d) t = None" by (simp add: table_data_def engine_init_def)
    ultimately show ?thesis using True table_data_view [OF v] by (simp add: settled_table_def stored_data)
  next
    case False
    with e'(4) on [OF False] have "durable rl e' t" "table_data e' t = Some (recovered_data d t (cf t) (lg t))" by blast+
    with False show ?thesis by (simp add: settled_table_def durable_stored)
  qed
  with e' on show ?thesis by (auto simp: settled_def)
qed

text \<open>A crash at any moment: only the disk is left.\<close>

lemma settled_recoverable:
  assumes "settled rl e" and "\<not> unsaved (en_disk e) t"
  shows "\<exists>c es. recoverable rl (en_disk e) t c es \<and> table_data e t = Some (recovered_data (en_disk e) t c es)"
proof -
  have "durable rl e t" using assms by (auto simp: settled_def settled_table_def split: if_splits)
  then show ?thesis unfolding durable_def loaded_def table_data_def by fastforce
qed

lemma settled_restart:
  fixes net :: "'w Net" and w :: 'w
  assumes "settled rl e" and "md_primary md"
  shows "\<exists>e'. engine_start rl net junk md (en_disk e) w = Some (e', w) \<and> settled rl e' \<and> en_metadata e' = md \<and>
    table_data e' = saved_data e \<and> en_wal_offsets e' = [] \<and>
    (\<forall>t. \<not> unsaved (en_disk e) t \<longrightarrow> (\<exists>c es ce. recoverable rl (en_disk e) t c es \<and> is_create c t ce \<and>
       recoverable rl (en_disk e') t c (es @ [ce])))"
proof -
  let ?d = "en_disk e"
  have d: "distinct (keys ?d)" using assms(1) by (simp add: settled_def)
  have "\<forall>t. \<exists>p. \<not> unsaved ?d t \<longrightarrow> recoverable rl ?d t (fst p) (snd p) \<and> table_data e t = Some (recovered_data ?d t (fst p) (snd p))"
    using settled_recoverable [OF assms(1)] by (metis fst_conv snd_conv)
  from choice [OF this] obtain f where f: "\<forall>t. \<not> unsaved ?d t \<longrightarrow> recoverable rl ?d t (fst (f t)) (snd (f t)) \<and>
      table_data e t = Some (recovered_data ?d t (fst (f t)) (snd (f t)))" by blast
  then obtain e' where e': "engine_start rl net junk md ?d w = Some (e', w)" "settled rl e'" "en_metadata e' = md" "en_wal_offsets e' = []"
    "\<forall>t. \<not> unsaved ?d t \<longrightarrow> (\<exists>ce. is_create (fst (f t)) t ce \<and> recoverable rl (en_disk e') t (fst (f t)) (snd (f t) @ [ce]))"
    "\<And>t. table_data e' t = (if unsaved ?d t then None else Some (recovered_data ?d t (fst (f t)) (snd (f t))))"
    using engine_start_ok [OF d assms(2), of rl "fst \<circ> f" "snd \<circ> f" net junk w] by auto
  have "table_data e' = saved_data e" using e'(6) f by (auto simp: fun_eq_iff saved_data_def)
  moreover have "\<forall>t. \<not> unsaved ?d t \<longrightarrow> (\<exists>c es ce. recoverable rl ?d t c es \<and> is_create c t ce \<and>
       recoverable rl (en_disk e') t c (es @ [ce]))" using e'(5) f by blast
  ultimately show ?thesis using e' by (intro exI [of _ e']) simp
qed

text \<open>
  A crash while \<open>DropTable\<close> waits for the replicas: its log entry is written, its files are
  still there. The next start never ends.
\<close>

lemma dropping_start_hangs:
  fixes net :: "'w Net" and w :: 'w
  assumes "settled rl e" and "durable rl e t" and "md_primary md"
  shows "engine_start rl net junk md (en_disk (dropping t e)) w = None"
proof -
  let ?d = "en_disk e" and ?d' = "en_disk (dropping t e)"
  obtain c es s where rec: "recoverable rl ?d t c es"
    and pm: "map_of (en_persistence_manager_map e) t = Some \<lparr>pm_table_name = t, pm_stored_index_type = config_kind c\<rparr>"
    using assms(2) unfolding durable_def by blast
  have d': "?d' = set_wal t (wal_AppendDrop (wal_of ?d t)) ?d" by (simp add: dropping_def pm pm_AppendDrop_def)
  have dd: "distinct (keys ?d')" using assms(1) by (simp add: d' settled_def)
  have other: "files_of ?d' u = files_of ?d u" if "u \<noteq> t" for u using that by (simp add: d' set_wal_def)
  have on: "t \<in> set (tables_on_disk ?d')"
    using recoverable_on_disk [OF _ rec] assms(1)
    by (simp add: tables_on_disk_iff [OF dd] settled_def tables_on_disk_iff) (simp add: d' set_wal_def)
  have "distinct (tables_on_disk ?d')" using dd by (auto simp: tables_on_disk_def distinct_map inj_on_def)
  with on obtain as bs where ts: "tables_on_disk ?d' = as @ t # bs" "distinct as" "t \<notin> set as"
    by (metis distinct_append not_distinct_conv_prefix split_list_first)
  let ?e = "engine_init md ?d" and ?e' = "engine_init md ?d'"
  have init: "table_absent ?e' u" "table_absent ?e u" "en_disk ?e' = ?d'" "md_primary (en_metadata ?e')" "\<not> en_shutdown ?e'"
    "en_disk ?e = ?d" "md_primary (en_metadata ?e)" "\<not> en_shutdown ?e" "en_metadata ?e' = en_metadata ?e" for u
    using assms(3) by (simp_all add: table_absent_def engine_init_def)
  have "\<forall>u. \<exists>p. \<not> unsaved ?d u \<longrightarrow> recoverable rl ?d u (fst p) (snd p)"
    using settled_recoverable [OF assms(1)] by (metis fst_conv snd_conv)
  from choice [OF this] obtain f where f: "\<forall>u. \<not> unsaved ?d u \<longrightarrow> recoverable rl ?d u (fst (f u)) (snd (f u))" by blast
  have "\<forall>u \<in> set as. \<not> unsaved (en_disk ?e') u \<longrightarrow>
      recoverable rl (en_disk ?e') u ((fst \<circ> f) u) ((snd \<circ> f) u) \<and> table_absent ?e' u"
  proof
    fix u assume "u \<in> set as"
    then have "u \<noteq> t" using ts(3) by auto
    note o = other [OF this]
    show "\<not> unsaved (en_disk ?e') u \<longrightarrow> recoverable rl (en_disk ?e') u ((fst \<circ> f) u) ((snd \<circ> f) u) \<and> table_absent ?e' u"
      using f recoverable_files [OF o] o init(1,3) by (simp add: unsaved_def)
  qed
  from restore_tables [OF ts(2) this init(4,5), of net junk w] obtain e1 where
    e1: "for_each (restore_table rl net junk) as (?e', w) = Some (e1, w)" "en_metadata e1 = en_metadata ?e'"
      "en_shutdown e1 = en_shutdown ?e'" "table_view e1 t = table_view ?e' t"
    using ts(3) by blast
  have "files_of (en_disk e1) t = files_of ?d' t" using e1(4) init(3) by (simp add: table_view_def)
  then have "same_saved t (en_disk ?e) (en_disk e1)" "wal_of (en_disk e1) t = wal_AppendDrop (wal_of (en_disk ?e) t)"
    using init(6) by (simp_all add: same_saved_def wal_of_def d' set_wal_def)
  moreover have "table_absent e1 t" using table_absent_view [OF e1(4)] init(1) by simp
  moreover have "recoverable rl (en_disk ?e) t c es" using rec init(6) by simp
  ultimately have "restore_table rl net junk t (e1, w) = None"
    using restore_table_drop [of rl ?e t c es e1 net junk w] init e1(2,3) by simp
  then show ?thesis using e1(1) ts(1) by (simp add: engine_start_def for_each_append)
qed

end
