(* ===== verification/Durability.thy ===== *)
theory Durability
  imports Recovery
begin

text \<open>
  Which tables survive a crash: a table that is durable, or was never saved, stays so under
  every operation whose log line can be read back; so an engine stays settled.
\<close>

section \<open>One line more\<close>

text \<open>The new line of the log says what happened to the store.\<close>

lemma durable_line:
  assumes "loaded rl e t s" and "recoverable rl (en_disk e) t c es" and "store_data s = recovered_data (en_disk e) t c es"
    and "store_dim s = store_dim (base_store t c (en_disk e))"
    and "map_of (en_persistence_manager_map e) t = Some \<lparr>pm_table_name = t, pm_stored_index_type = config_kind c\<rparr>"
    and "newline \<notin> set l" and "parse_line (config_kind c) t l = Some entry" and "entry_fine t entry"
    and "loaded rl e' t s'" and "store_data s' = log_step (store_dim s) entry (store_data s)" and "store_dim s' = store_dim s"
    and "en_persistence_manager_map e' = en_persistence_manager_map e"
    and "files_of (en_disk e') t = (files_of (en_disk e) t)\<lparr>tf_wal := Some (wal_of (en_disk e) t @ l @ [newline])\<rparr>"
  shows "durable rl e' t"
proof -
  have saved: "same_saved t (en_disk e) (en_disk e')" using assms(13) by (simp add: same_saved_def)
  have wal: "tf_wal (files_of (en_disk e') t) = Some (wal_of (en_disk e) t @ l @ [newline])" using assms(13) by simp
  have r: "recoverable rl (en_disk e') t c (es @ [entry])" by (rule recoverable_line [OF assms(2) saved wal assms(6-8)])
  have b: "base_store t c (en_disk e') = base_store t c (en_disk e)" by (rule same_saved_base [OF saved])
  have "store_data s' = recovered_data (en_disk e') t c (es @ [entry])"
    using assms(3,4,10) by (simp add: recovered_data_def b)
  with r assms(4,5,9,11,12) show ?thesis unfolding durable_def
    by (intro exI [of _ c] exI [of _ "es @ [entry]"] exI [of _ s']) (simp add: b)
qed

section \<open>Tables that stay settled\<close>

text \<open>A table in memory that a crash does not corrupt: it is durable, or was never saved.\<close>

definition kept :: "level_fun \<Rightarrow> Engine \<Rightarrow> string \<Rightarrow> bool" where
  "kept rl e t \<longleftrightarrow> (durable rl e t \<or> unsaved (en_disk e) t) \<and> (\<exists>s. loaded rl e t s) \<and> pm_named e t"

lemma durable_kept: "durable rl e t \<Longrightarrow> kept rl e t"
  by (auto simp: kept_def durable_def pm_named_def)

lemma settled_table_kept: "settled_table rl e t \<longleftrightarrow> (if contains (en_store_map e) t then kept rl e t else unsaved (en_disk e) t)"
  using durable_kept [of rl e t] by (auto simp: settled_table_def kept_def)

lemma kept_wrote:
  assumes "kept rl e t" and "loaded rl e t s" and "wrote t e s l entry e' s'" and "loaded rl e' t s'"
    and "newline \<notin> set l" and "\<And>k. parse_line k t l = Some entry" and "entry_fine t entry"
  shows "kept rl e' t"
proof -
  note w = assms(3) [unfolded wrote_def]
  have "pm_named e' t" using assms(1) w by (simp add: kept_def pm_named_def)
  moreover have "unsaved (en_disk e') t" if "unsaved (en_disk e) t"
    using that w by (simp add: only_table_def unsaved_def)
  moreover have "durable rl e' t" if dur: "durable rl e t"
  proof -
    obtain c es where d: "recoverable rl (en_disk e) t c es"
      "store_data s = recovered_data (en_disk e) t c es" "store_dim s = store_dim (base_store t c (en_disk e))"
      "map_of (en_persistence_manager_map e) t = Some \<lparr>pm_table_name = t, pm_stored_index_type = config_kind c\<rparr>"
      by (rule durableE [OF dur assms(2)])
    then show ?thesis using durable_line [OF assms(2) d assms(5) assms(6) assms(7) assms(4)] w by simp
  qed
  ultimately show ?thesis using assms(1,4) by (auto simp: kept_def)
qed

lemma kept_same:
  assumes "kept rl e t" and "loaded rl e t s" and "loaded rl e' t s'" and "store_data s' = store_data s" and "store_dim s' = store_dim s"
    and "map_of (en_persistence_manager_map e') t = map_of (en_persistence_manager_map e) t"
    and "files_of (en_disk e') t = files_of (en_disk e) t"
  shows "kept rl e' t"
proof -
  have saved: "same_saved t (en_disk e) (en_disk e')" using assms(7) by (simp add: same_saved_def)
  have "durable rl e' t" if dur: "durable rl e t"
  proof -
    obtain c es where d: "recoverable rl (en_disk e) t c es"
      "store_data s = recovered_data (en_disk e) t c es" "store_dim s = store_dim (base_store t c (en_disk e))"
      "map_of (en_persistence_manager_map e) t = Some \<lparr>pm_table_name = t, pm_stored_index_type = config_kind c\<rparr>"
      by (rule durableE [OF dur assms(2)])
    have "recoverable rl (en_disk e') t c es" unfolding recoverable_files [OF assms(7)] by (rule d(1))
    with d assms(3-6) show ?thesis unfolding durable_def recovered_data_cong [OF saved] same_saved_base(1) [OF saved]
      by (intro exI [of _ c] exI [of _ es] exI [of _ s']) simp
  qed
  moreover have "pm_named e' t = pm_named e t" "unsaved (en_disk e') t = unsaved (en_disk e) t"
    using assms(6,7) by (simp_all add: pm_named_def unsaved_def)
  ultimately show ?thesis using assms(1,3) unfolding kept_def by blast
qed

interpretation keeping: table_invariant rl "kept rl" for rl
proof
  fix e t assume "kept rl e t"
  then show "\<exists>s. loaded rl e t s" "pm_named e t" by (simp_all add: kept_def)
next
  fix e t s l entry e' s'
  assume "kept rl e t" "loaded rl e t s" "wrote t e s l entry e' s'" "loaded rl e' t s'" "newline \<notin> set l"
    "\<And>k. parse_line k t l = Some entry" "entry_fine t entry"
  then show "kept rl e' t" by (rule kept_wrote)
next
  fix e t s e' s'
  assume "kept rl e t" "loaded rl e t s" "loaded rl e' t s'" "store_data s' = store_data s" "store_dim s' = store_dim s"
    "map_of (en_persistence_manager_map e') t = map_of (en_persistence_manager_map e) t"
    "files_of (en_disk e') t = files_of (en_disk e) t"
  then show "kept rl e' t" by (rule kept_same)
qed

section \<open>The engine stays settled\<close>

lemma settled_step:
  assumes "settled rl e" and "only_table t e e'" and "kept rl e' t"
  shows "settled rl e'"
proof -
  have "settled_table rl e' u" for u
  proof (cases "u = t")
    case True
    have "contains (en_store_map e') t" using assms(3) by (auto simp: kept_def loaded_def contains_def)
    with True assms(3) show ?thesis by (simp add: settled_table_kept)
  next
    case False
    then have v: "table_view e' u = table_view e u" using assms(2) by (simp add: only_table_def)
    then have f: "contains (en_store_map e') u = contains (en_store_map e) u"
      "files_of (en_disk e') u = files_of (en_disk e) u" by (simp_all add: table_view_def contains_def)
    have "settled_table rl e u" using assms(1) by (simp add: settled_def)
    then show ?thesis unfolding settled_table_kept f(1)
      using keeping.other_step [OF _ assms(2) False] f(2) by (simp add: unsaved_def split: if_splits)
  qed
  with assms(1,2) show ?thesis by (simp add: settled_def only_table_def)
qed

text \<open>A new table is in memory at once, and unsaved until the engine shuts down.\<close>

lemma engine_CreateTable_added:
  assumes "md_primary (en_metadata e)" and "\<not> en_shutdown e" and "ValidateCreateTable t dim hc fc (unat cs)"
    and "table_absent e t" and "good_config rl dim hc fc"
  shows "\<exists>e' s. engine_CreateTable e t dim hc fc cs = (True, e') \<and> only_table t e e' \<and> loaded rl e' t s \<and>
    s = fresh_store (dim, hc, fc, cs) \<and> map_of (en_cache_map e') t = Some (lru_new (unat cs)) \<and> tf_wal (files_of (en_disk e') t) \<noteq> None \<and>
    map_of (en_persistence_manager_map e') t = Some \<lparr>pm_table_name = t, pm_stored_index_type = config_kind (dim, hc, fc, cs)\<rparr> \<and>
    wal_of (en_disk e') t = wal_of (en_disk e) t @ config_line (dim, hc, fc, cs) @ [newline]"
proof -
  obtain e1 where e1: "engine_CreateTable e t dim hc fc cs = (True, upd_stats t (stats_SetModifiedFlag True) (add_table t dim hc fc cs e1))"
    and o: "\<forall>u. u \<noteq> t \<longrightarrow> table_view e1 u = table_view e u"
      "files_of (en_disk e1) t = (files_of (en_disk e) t)\<lparr>tf_wal := Some (created_log hc fc cs (wal_of (en_disk e) t))\<rparr>"
    using engine_CreateTable_shape [OF assms(1-4)] by blast
  define e' where "e' = upd_stats t (stats_SetModifiedFlag True) (add_table t dim hc fc cs e1)"
  obtain it stored ix where mi: "make_index hc fc = (it, stored, ix)" by (metis prod_cases3)
  note av = add_table_views [OF mi, where t = t and dim = dim and cs = cs and e = e1]
  have "distinct (keys (en_disk e)) \<longrightarrow> distinct (keys (en_disk e'))"
    using engine_CreateTable_disk [of e t dim hc fc cs] e1 by (simp add: e'_def)
  moreover have "\<forall>u. u \<noteq> t \<longrightarrow> table_view e' u = table_view e u" using av(1) o(1) by (simp add: e'_def table_view_def)
  moreover have "tf_metadata (files_of (en_disk e') t) = tf_metadata (files_of (en_disk e) t)"
    using av(2) o(2) by (simp add: e'_def table_view_def)
  ultimately have "only_table t e e'" by (simp add: only_table_def)
  moreover have "loaded rl e' t (store_new it ix dim)"
    using av(2) store_inv_new(1) [OF assms(5) mi] by (simp add: loaded_def e'_def table_view_def)
  moreover have "map_of (en_persistence_manager_map e') t = Some \<lparr>pm_table_name = t, pm_stored_index_type = config_kind (dim, hc, fc, cs)\<rparr>"
    using av(2) by (simp add: e'_def table_view_def config_kind_def mi)
  moreover have "wal_of (en_disk e') t = wal_of (en_disk e) t @ config_line (dim, hc, fc, cs) @ [newline]"
    using av(2) o(2) created_log_line [of hc fc cs _ dim] by (simp add: e'_def table_view_def wal_of_def)
  moreover have "map_of (en_cache_map e') t = Some (lru_new (unat cs))" "tf_wal (files_of (en_disk e') t) \<noteq> None"
    using av(2) by (simp_all add: e'_def table_view_def)
  moreover have "store_new it ix dim = fresh_store (dim, hc, fc, cs)" by (simp add: fresh_store_def mi)
  ultimately show ?thesis using e1 by (auto simp: e'_def)
qed

lemma engine_CreateTable_refused:
  assumes "\<not> (md_primary (en_metadata e) \<and> \<not> en_shutdown e \<and> ValidateCreateTable t dim hc fc (unat cs) \<and> table_absent e t)"
  shows "engine_CreateTable e t dim hc fc cs = (False, e)"
  using assms by (auto simp: engine_CreateTable_def)

lemma engine_CreateTable_kept:
  assumes "settled rl e" and "good_config rl dim hc fc"
  shows "\<exists>e'. snd (engine_CreateTable e t dim hc fc cs) = e' \<and> (e' = e \<or> kept rl e' t \<and> only_table t e e')"
proof (cases "md_primary (en_metadata e) \<and> \<not> en_shutdown e \<and> ValidateCreateTable t dim hc fc (unat cs) \<and> table_absent e t")
  case False
  from engine_CreateTable_refused [OF this] show ?thesis by simp
next
  case True
  obtain e' s where e': "engine_CreateTable e t dim hc fc cs = (True, e')" "only_table t e e'" "loaded rl e' t s"
    "map_of (en_persistence_manager_map e') t = Some \<lparr>pm_table_name = t, pm_stored_index_type = config_kind (dim, hc, fc, cs)\<rparr>"
    using engine_CreateTable_added [OF _ _ _ _ assms(2)] True by blast
  have "\<not> contains (en_store_map e) t" using True by (simp add: table_absent_def)
  moreover have "settled_table rl e t" using assms(1) by (simp add: settled_def)
  ultimately have "unsaved (en_disk e') t" using e'(2) by (simp add: settled_table_def only_table_def unsaved_def)
  with e' show ?thesis by (auto simp: kept_def pm_named_def)
qed

lemma run_op_settled:
  assumes "settled rl e" and "op_fine rl x"
  shows "\<exists>e'. run_op rl x e = Some e' \<and> settled rl e' \<and> (\<forall>t. unsaved (en_disk e') t = unsaved (en_disk e) t)"
proof -
  have same: "unsaved (en_disk e') u = unsaved (en_disk e) u" if "only_table t e e'" for e' t u
    using that by (cases "u = t") (simp_all add: only_table_def table_view_def unsaved_def)
  have "\<exists>e'. run_op rl x e = Some e' \<and> (e' = e \<or> kept rl e' (op_table x) \<and> only_table (op_table x) e e')"
  proof (cases x)
    case (OpCreate t dim hc fc cs)
    with engine_CreateTable_kept [OF assms(1), of dim hc fc t cs] assms(2) show ?thesis by simp
  qed (use assms run_op_absent [of e x rl] keeping.run_op_inv [of rl e "op_table x" x] in
    \<open>auto simp: creates_def settled_def settled_table_kept split: if_splits\<close>)
  with settled_step [OF assms(1)] same assms(1) show ?thesis by metis
qed

lemma run_ops_settled:
  "settled rl e \<Longrightarrow> list_all (op_fine rl) xs \<Longrightarrow>
   \<exists>e'. for_each (run_op rl) xs e = Some e' \<and> settled rl e' \<and> (\<forall>t. unsaved (en_disk e') t = unsaved (en_disk e) t)"
proof (induction xs arbitrary: e)
  case (Cons x xs)
  then obtain e1 where "run_op rl x e = Some e1" "settled rl e1" "\<forall>t. unsaved (en_disk e1) t = unsaved (en_disk e) t"
    using run_op_settled [OF Cons.prems(1), of x] by auto
  with Cons.IH [of e1] Cons.prems(2) show ?case by simp
qed simp

end
