(* ===== verification/Shutdown.thy ===== *)
theory Shutdown
  imports Durability
begin

text \<open>
  The destructor of the engine: for every table it cleans up, replicates, saves a snapshot and
  the metadata and clears the log. Shown: every table it leaves is durable, with the data it
  had, so that a restart finds all of it.
\<close>

section \<open>Readable logs\<close>

definition logs_readable :: "(string, PersistenceManager) umap \<Rightarrow> disk \<Rightarrow> bool" where
  "logs_readable pm_map d \<longleftrightarrow> (\<forall>(t, pm) \<in> set pm_map.
     \<exists>es. wal_entries (pm_stored_index_type pm) (pm_table_name pm) (wal_of d (pm_table_name pm)) = Some es)"

lemma logs_readable_ok: "logs_readable pm_map d \<Longrightarrow> logs_ok pm_map d"
  using SerializeWALEntries_offset by (fastforce simp: logs_readable_def logs_ok_def pm_SerializeWALEntries_def)

lemma logs_readable_cong:
  assumes "logs_readable pm_map d" and "\<And>u. wal_of d' u = wal_of d u \<or> wal_of d' u = []"
  shows "logs_readable pm_map d'"
  unfolding logs_readable_def
proof (intro ballI, clarify)
  fix t pm assume "(t, pm) \<in> set pm_map"
  with assms(1) obtain es where
    "wal_entries (pm_stored_index_type pm) (pm_table_name pm) (wal_of d (pm_table_name pm)) = Some es"
    by (auto simp: logs_readable_def)
  with assms(2) [of "pm_table_name pm"]
  show "\<exists>es. wal_entries (pm_stored_index_type pm) (pm_table_name pm) (wal_of d' (pm_table_name pm)) = Some es"
    by (auto simp: wal_entries_def)
qed

text \<open>What a replication changes.\<close>

lemma engine_Sync_frame:
  fixes net :: "'w Net" and w :: 'w
  assumes "logs_readable (en_persistence_manager_map e) (en_disk e)"
  shows "\<exists>e' w'. engine_Sync net force (e, w) = Some (e', w') \<and> en_metadata e' = en_metadata e \<and>
    en_shutdown e' = en_shutdown e \<and> en_store_map e' = en_store_map e \<and>
    en_persistence_manager_map e' = en_persistence_manager_map e \<and> en_cache_map e' = en_cache_map e \<and>
    en_disk e' = en_disk e \<and> contains (en_stats_manager_map e') = contains (en_stats_manager_map e)"
proof -
  obtain offs m w' where r: "rm_Sync net (en_shutdown e) force (md_replicas (en_metadata e)) (en_disk e) (en_store_map e)
      (en_persistence_manager_map e) (en_wal_offsets e, en_stats_manager_map e, w) = Some (offs, m, w')"
    and f: "flags_only (en_stats_manager_map e) m"
    using rm_Sync_ok [OF logs_readable_ok [OF assms], of net "en_shutdown e" force "md_replicas (en_metadata e)" "en_store_map e"
        "en_wal_offsets e" "en_stats_manager_map e" w] by blast
  define e' where "e' = e\<lparr>en_wal_offsets := offs, en_stats_manager_map := m\<rparr>"
  have "engine_Sync net force (e, w) = Some (e', w')" using r by (simp add: engine_Sync_def e'_def)
  then show ?thesis using flags_only_contains [OF f] by (intro exI [of _ e'] exI [of _ w']) (simp add: e'_def fun_eq_iff)
qed

section \<open>Saving a table\<close>

text \<open>The configuration saved with a table.\<close>

definition saved_config :: "Engine \<Rightarrow> string \<Rightarrow> VectorStore \<Rightarrow> table_config" where
  "saved_config e t s = (vs_vector_dimensionality s, fst (store_configs s), snd (store_configs s),
     (case map_of (en_cache_map e) t of None \<Rightarrow> 32 | Some c \<Rightarrow> of_nat (lc_max_cache_size c)))"

text \<open>A snapshot of the store reads back, now and after a cleanup.\<close>

definition saveable :: "level_fun \<Rightarrow> VectorStore \<Rightarrow> bool" where
  "saveable rl s \<longleftrightarrow> vs_store s \<noteq> [] \<longrightarrow> snapshot_ok s \<and> (\<forall>b s'. store_Cleanup rl s b = Some s' \<longrightarrow> snapshot_ok s')"

lemma flat_Cleanup_same:
  assumes "vs_index s = FlatIx f" and "store_Cleanup rl s b = Some s'"
  shows "s' = s"
proof -
  have "s' = s\<lparr>vs_index := FlatIx f\<rparr>"
    using assms by (simp add: store_Cleanup_def Let_def flat_Cleanup_def flat_Reindex_def split: if_splits)
  then show ?thesis using assms(1) by simp
qed

lemma flat_saveable:
  assumes "store_inv rl s" and "flat_store s"
  shows "saveable rl s"
proof -
  obtain f where f: "vs_index s = FlatIx f" using assms(2) by (auto simp: flat_store_def)
  with assms(1) have "snapshot_ok s" by (simp add: store_inv_def snapshot_ok_def flat_inv_def flat_wf_def)
  then show ?thesis using flat_Cleanup_same [OF f, of rl] by (auto simp: saveable_def)
qed

definition shut_ok :: "level_fun \<Rightarrow> Engine \<Rightarrow> string \<Rightarrow> bool" where
  "shut_ok rl e t \<longleftrightarrow> (\<exists>s pm. loaded rl e t s \<and> map_of (en_persistence_manager_map e) t = Some pm \<and> pm_table_name pm = t \<and>
     same_kind pm s \<and> pm_stored_index_type pm = config_kind (saved_config e t s) \<and> config_valid t (saved_config e t s) \<and>
     good_config rl (vs_vector_dimensionality s) (fst (store_configs s)) (snd (store_configs s)) \<and> saveable rl s \<and>
     tf_wal (files_of (en_disk e) t) \<noteq> None)"

lemma shut_ok_cong:
  assumes "map_of (en_store_map e') t = map_of (en_store_map e) t"
    and "map_of (en_persistence_manager_map e') t = map_of (en_persistence_manager_map e) t"
    and "map_of (en_cache_map e') t = map_of (en_cache_map e) t"
    and "contains (en_stats_manager_map e') t = contains (en_stats_manager_map e) t"
    and "files_of (en_disk e') t = files_of (en_disk e) t"
  shows "shut_ok rl e' t = shut_ok rl e t"
  unfolding shut_ok_def loaded_def saved_config_def assms ..

text \<open>A cleanup keeps the kind and the configuration of the index.\<close>

lemma store_Cleanup_config:
  assumes "store_inv rl s" and "store_Cleanup rl s b = Some s'"
  shows "store_configs s' = store_configs s" "same_kind pm s' = same_kind pm s"
proof -
  have "vs_index_type s' = vs_index_type s \<and> store_configs s' = store_configs s \<and> same_kind pm s' = same_kind pm s"
  proof (cases "vs_index s")
    case (HnswIx h)
    then have "hnsw_inv rl h" using assms(1) by (simp add: store_inv_def)
    from hnsw_maintain_ok [OF this, of b] obtain h' where h': "hnsw_maintain rl h b = Some h'" "hx_config h' = hx_config h"
      by blast
    then have "s' = s\<lparr>vs_index := HnswIx h'\<rparr>"
      using assms(2) HnswIx by (auto simp: store_Cleanup_def hnsw_maintain_def split: if_splits)
    with HnswIx h' show ?thesis by (simp add: store_configs_def same_kind_def)
  next
    case (FlatIx f)
    then have "s' = s" using assms(2) flat_Cleanup_same by blast
    then show ?thesis by simp
  qed
  then show "store_configs s' = store_configs s" "same_kind pm s' = same_kind pm s" by simp_all
qed

text \<open>The files of a table after the save.\<close>

definition save_table :: "PersistenceManager \<Rightarrow> VectorStore \<Rightarrow> table_config \<Rightarrow> disk \<Rightarrow> disk" where
  "save_table pm s c d = (case c of (dim, hc, fc, cs) \<Rightarrow>
     pm_ClearWAL pm (pm_SaveMetadata pm dim hc fc cs (pm_SaveSnapshot pm s d)))"

lemma files_of_ClearWAL: "files_of (pm_ClearWAL pm d) u =
    (if u = pm_table_name pm \<and> wal_of d u \<noteq> [] then (files_of d u)\<lparr>tf_wal := Some []\<rparr> else files_of d u)"
  by (auto simp: pm_ClearWAL_def set_wal_def)

lemma files_of_SaveSnapshot_other: "u \<noteq> pm_table_name pm \<Longrightarrow> files_of (pm_SaveSnapshot pm s d) u = files_of d u"
  by (simp add: pm_SaveSnapshot_def Let_def split: StoredIndexType.splits Index.splits)

lemma wal_SaveSnapshot: "tf_wal (files_of (pm_SaveSnapshot pm s d) u) = tf_wal (files_of d u)"
  by (simp add: pm_SaveSnapshot_def Let_def split: StoredIndexType.splits Index.splits)

lemma files_of_SaveMetadata: "files_of (pm_SaveMetadata pm dim hc fc cs d) u =
    (if u = pm_table_name pm then (files_of d u)\<lparr>tf_metadata := Some \<lparr>tm_table_name = u, tm_vector_dimensionality = dim,
       tm_index = (if wants_hnsw hc then MetaHnsw hc else MetaFlat fc), tm_cache_size = cs\<rparr>\<rparr> else files_of d u)"
  by (simp add: pm_SaveMetadata_def)

lemma save_table_other: "u \<noteq> pm_table_name pm \<Longrightarrow> files_of (save_table pm s c d) u = files_of d u"
  by (cases c) (simp add: save_table_def files_of_ClearWAL files_of_SaveMetadata files_of_SaveSnapshot_other)

lemma save_table_wal: "wal_of (save_table pm s c d) u = (if u = pm_table_name pm then [] else wal_of d u)"
proof -
  have "wal_of (pm_SaveMetadata pm dim hc fc cs (pm_SaveSnapshot pm s d)) u = wal_of d u" for dim hc fc cs
    by (simp add: wal_of_def files_of_SaveMetadata wal_SaveSnapshot)
  then show ?thesis by (cases c) (simp add: save_table_def wal_of_ClearWAL)
qed

lemma save_table_log:
  assumes "tf_wal (files_of d u) \<noteq> None"
  shows "tf_wal (files_of (save_table pm s c d) u) \<noteq> None"
proof -
  have "tf_wal (files_of (pm_SaveMetadata pm dim hc fc cs (pm_SaveSnapshot pm s d)) u) \<noteq> None" for dim hc fc cs
    using assms by (auto simp: files_of_SaveMetadata wal_SaveSnapshot)
  then show ?thesis by (cases c) (simp add: save_table_def files_of_ClearWAL)
qed

lemma save_table_saved:
  assumes "pm_table_name pm = t"
  shows "tf_metadata (files_of (save_table pm s (dim, hc, fc, cs) d) t) = Some \<lparr>tm_table_name = t, tm_vector_dimensionality = dim,
      tm_index = (if wants_hnsw hc then MetaHnsw hc else MetaFlat fc), tm_cache_size = cs\<rparr>"
    "tf_store_snapshot (files_of (save_table pm s c d) t) = tf_store_snapshot (files_of (pm_SaveSnapshot pm s d) t)"
    "tf_index_snapshot (files_of (save_table pm s c d) t) = tf_index_snapshot (files_of (pm_SaveSnapshot pm s d) t)"
  using assms by (cases c; simp add: save_table_def files_of_ClearWAL files_of_SaveMetadata)+

lemma distinct_save_table: "distinct (keys d) \<Longrightarrow> distinct (keys (save_table pm s c d))"
proof -
  have upd: "distinct (keys (upd_files u f x)) = distinct (keys x)" for u f x by (simp add: upd_files_def)
  assume "distinct (keys d)"
  then have "distinct (keys (pm_SaveSnapshot pm s d))"
    by (simp add: pm_SaveSnapshot_def Let_def upd split: StoredIndexType.split Index.split)
  then show ?thesis by (cases c) (simp add: save_table_def pm_ClearWAL_def pm_SaveMetadata_def upd set_wal_def)
qed

lemma LoadSnapshot_empty:
  assumes "vs_store s = []" and "same_kind pm s"
  shows "pm_LoadSnapshot pm (pm_SaveSnapshot pm s d) = None"
  using assms by (cases "vs_index s")
    (simp_all add: same_kind_def pm_LoadSnapshot_def pm_SaveSnapshot_def load_store_def store_snapshot_of_def
      to_umap_def store_load_def)

text \<open>The saved files hold the data of the store, and say how to read it.\<close>

lemma save_table_recoverable:
  fixes d :: disk
  assumes "store_inv rl s" and "pm_table_name pm = t" and "same_kind pm s" and "vs_store s \<noteq> [] \<longrightarrow> snapshot_ok s"
    and "c = (vs_vector_dimensionality s, fst (store_configs s), snd (store_configs s), cs)"
    and "pm_stored_index_type pm = config_kind c" and "config_valid t c"
    and "good_config rl (vs_vector_dimensionality s) (fst (store_configs s)) (snd (store_configs s))"
    and "tf_wal (files_of d t) \<noteq> None"
  shows "recoverable rl (save_table pm s c d) t c []"
    "recovered_data (save_table pm s c d) t c [] = store_data s"
    "store_dim (base_store t c (save_table pm s c d)) = store_dim s"
    "disk_config (save_table pm s c d) t = Some c"
    "base_store t c (save_table pm s c d) = (if vs_store s = [] then fresh_store c else s)"
proof -
  let ?d = "save_table pm s c d"
  obtain hc fc where hf: "store_configs s = (hc, fc)" by fastforce
  obtain it stored ix where mi: "make_index hc fc = (it, stored, ix)" by (metis prod_cases3)
  have c: "c = (vs_vector_dimensionality s, hc, fc, cs)" using assms(5) hf by simp
  have stored: "pm_stored_index_type pm = stored" using assms(6) by (simp add: config_kind_def c mi)
  then have pm: "pm = \<lparr>pm_table_name = t, pm_stored_index_type = stored\<rparr>" using assms(2) by (cases pm) simp
  have wants: "wants_hnsw hc \<longleftrightarrow> (\<exists>h. vs_index s = HnswIx h)"
    using assms(3) mi stored by (auto simp: make_index_def same_kind_def split: if_splits Index.splits)
  have config: "disk_config ?d t = Some c"
    using wants hf save_table_saved(1) [OF assms(2)]
    by (auto simp: disk_config_def c load_metadata_def store_configs_def split: Index.splits)
  have load: "pm_LoadSnapshot pm ?d = pm_LoadSnapshot pm (pm_SaveSnapshot pm s d)"
    by (rule LoadSnapshot_cong [OF save_table_saved(2,3) [OF assms(2)] assms(2)])
  have "store_inv rl (base_store t c ?d) \<and> store_data (base_store t c ?d) = store_data s \<and>
      store_dim (base_store t c ?d) = store_dim s \<and> base_store t c ?d = (if vs_store s = [] then fresh_store c else s)"
  proof (cases "vs_store s = []")
    case True
    then have "base_store t c ?d = store_new it ix (vs_vector_dimensionality s)"
      using load LoadSnapshot_empty [OF True assms(3)] by (simp add: base_store_def c mi pm [symmetric])
    moreover have "store_inv rl (store_new it ix (vs_vector_dimensionality s))"
      using assms(8) mi hf by (intro store_inv_new(1)) simp_all
    ultimately show ?thesis using True mi by (simp add: store_data_def store_dim_def store_new_def fresh_store_def c fun_eq_iff)
  next
    case False
    with assms(1,3,4) have "pm_LoadSnapshot pm (pm_SaveSnapshot pm s d) = Some s"
      by (intro LoadSnapshot_SaveSnapshot) (simp_all add: store_inv_def)
    then have "base_store t c ?d = s" using load by (simp add: base_store_def c mi pm [symmetric])
    with assms(1) False show ?thesis by simp
  qed
  then have base: "store_inv rl (base_store t c ?d)" "store_data (base_store t c ?d) = store_data s"
    "store_dim (base_store t c ?d) = store_dim s" "base_store t c ?d = (if vs_store s = [] then fresh_store c else s)"
    by blast+
  have wal: "wal_of ?d t = []" using assms(2) by (simp add: save_table_wal)
  show "recoverable rl ?d t c []"
    using base(1) config assms(7) wal save_table_log [OF assms(9)] by (simp add: recoverable_def wal_entries_def)
  show "recovered_data ?d t c [] = store_data s" "store_dim (base_store t c ?d) = store_dim s"
    using base(2,3) by (simp_all add: recovered_data_def)
  show "disk_config ?d t = Some c" "base_store t c ?d = (if vs_store s = [] then fresh_store c else s)"
    by (rule config, rule base(4))
qed

text \<open>What a shutdown leaves on disk of a table: its store, perhaps after a cleanup.\<close>

definition saved_store :: "level_fun \<Rightarrow> Engine \<Rightarrow> string \<Rightarrow> disk \<Rightarrow> bool" where
  "saved_store rl e t d \<longleftrightarrow> (\<exists>s s1. loaded rl e t s \<and> store_inv rl s1 \<and> (s1 = s \<or> (\<exists>b. store_Cleanup rl s b = Some s1)) \<and>
     vs_store s1 = vs_store s \<and> disk_config d t = Some (saved_config e t s) \<and> tf_wal (files_of d t) \<noteq> None \<and>
     base_store t (saved_config e t s) d = (if vs_store s1 = [] then fresh_store (saved_config e t s) else s1))"

lemma saved_store_files:
  assumes "saved_store rl e t d" and "files_of d' t = files_of d t"
  shows "saved_store rl e t d'"
proof -
  have "disk_config d' t = disk_config d t" "base_store t c d' = base_store t c d" for c
    using assms(2) base_store_cong [of d' t d] by (simp_all add: disk_config_def)
  with assms show ?thesis by (simp add: saved_store_def)
qed

lemma saved_store_engine:
  assumes "map_of (en_store_map e') t = map_of (en_store_map e) t" and "map_of (en_cache_map e') t = map_of (en_cache_map e) t"
    and "contains (en_stats_manager_map e') t = contains (en_stats_manager_map e) t"
  shows "saved_store rl e' t d = saved_store rl e t d"
  using assms by (simp add: saved_store_def loaded_def saved_config_def)

section \<open>The loop of the destructor\<close>

lemma shutdown_table_ok:
  fixes net :: "'w Net" and w :: 'w
  assumes "shut_ok rl e t" and "logs_readable (en_persistence_manager_map e) (en_disk e)"
  shows "\<exists>e' w'. shutdown_table rl net latency t (e, w) = Some (e', w') \<and> durable rl e' t \<and>
    wal_of (en_disk e') t = [] \<and> table_data e' t = table_data e t \<and> logs_readable (en_persistence_manager_map e') (en_disk e') \<and>
    (distinct (keys (en_disk e)) \<longrightarrow> distinct (keys (en_disk e'))) \<and> saved_store rl e t (en_disk e') \<and>
    (\<forall>u. u \<noteq> t \<longrightarrow> map_of (en_store_map e') u = map_of (en_store_map e) u \<and>
       map_of (en_persistence_manager_map e') u = map_of (en_persistence_manager_map e) u \<and>
       map_of (en_cache_map e') u = map_of (en_cache_map e) u \<and>
       contains (en_stats_manager_map e') u = contains (en_stats_manager_map e) u \<and>
       files_of (en_disk e') u = files_of (en_disk e) u)"
proof -
  obtain s pm where o: "loaded rl e t s" "map_of (en_persistence_manager_map e) t = Some pm" "pm_table_name pm = t"
     "same_kind pm s" "pm_stored_index_type pm = config_kind (saved_config e t s)" "config_valid t (saved_config e t s)"
     "good_config rl (vs_vector_dimensionality s) (fst (store_configs s)) (snd (store_configs s))" "saveable rl s"
     "tf_wal (files_of (en_disk e) t) \<noteq> None"
    using assms(1) unfolding shut_ok_def by blast
  obtain e1 s1 where e1: "engine_Cleanup rl latency t True e = Some e1" "loaded rl e1 t s1" "only_table t e e1"
    "s1 = s \<or> (\<exists>b. store_Cleanup rl s b = Some s1)" "vs_store s1 = vs_store s"
    "vs_vector_dimensionality s1 = vs_vector_dimensionality s" "en_disk e1 = en_disk e"
    "en_persistence_manager_map e1 = en_persistence_manager_map e" "en_cache_map e1 = en_cache_map e"
    using engine_Cleanup_loaded [OF o(1), of latency True] by blast
  have "store_inv rl s" using o(1) by (simp add: loaded_def)
  with e1(4) have s1: "store_configs s1 = store_configs s" "same_kind pm s1" using o(4) store_Cleanup_config by auto
  have "vs_store s1 \<noteq> [] \<longrightarrow> snapshot_ok s1" using o(8) e1(4,5) unfolding saveable_def by metis
  note snap = this
  obtain e2 w' where e2: "engine_Sync net True (e1, w) = Some (e2, w')" "en_store_map e2 = en_store_map e1"
    "en_persistence_manager_map e2 = en_persistence_manager_map e1" "en_cache_map e2 = en_cache_map e1"
    "en_disk e2 = en_disk e1" "contains (en_stats_manager_map e2) = contains (en_stats_manager_map e1)"
    using engine_Sync_frame [of e1 net True w] assms(2) e1(7,8) by auto
  define c where "c = saved_config e t s"
  define e' where "e' = upd_disk (save_table pm s1 c) e2"
  have l1: "map_of (en_store_map e1) t = Some s1" using e1(2) by (simp add: loaded_def)
  have "shutdown_table rl net latency t (e, w) = Some (e', w')"
  proof -
    obtain hc fc where hf: "store_configs s = (hc, fc)" by fastforce
    show ?thesis
      using o(2) e1 e2 l1 s1(1) hf
      by (simp add: shutdown_table_def Let_def contains_def e'_def c_def saved_config_def save_table_def upd_disk_def)
  qed
  moreover have "durable rl e' t \<and> saved_store rl e t (en_disk e')"
  proof -
    have c: "c = (vs_vector_dimensionality s1, fst (store_configs s1), snd (store_configs s1), snd (snd (snd c)))"
      using e1(6) s1(1) by (simp add: c_def saved_config_def)
    have inv: "store_inv rl s1" using e1(2) by (simp add: loaded_def)
    have g: "good_config rl (vs_vector_dimensionality s1) (fst (store_configs s1)) (snd (store_configs s1))"
      using o(7) e1(6) s1(1) by simp
    have wal: "tf_wal (files_of (en_disk e2) t) \<noteq> None" using o(9) e1(7) e2(5) by simp
    have k: "pm_stored_index_type pm = config_kind c" "config_valid t c" using o(5,6) by (simp_all add: c_def)
    note sv = save_table_recoverable [OF inv o(3) s1(2) snap c k g wal]
    have "pm = \<lparr>pm_table_name = t, pm_stored_index_type = config_kind c\<rparr>" using o(3) k(1) by (cases pm) simp
    moreover have "loaded rl e' t s1" using e1(2) e2(2,6) by (simp add: loaded_def e'_def)
    ultimately have "durable rl e' t" using sv o(2) e1(8) e2(3) unfolding durable_def
      by (intro exI [of _ c] exI [of _ "[]"] exI [of _ s1]) (simp add: e'_def)
    moreover have "saved_store rl e t (en_disk e')" unfolding saved_store_def
      using o(1) inv e1(4,5) sv(4,5) save_table_log [OF wal, of pm s1 c]
      by (intro exI [of _ s] exI [of _ s1]) (simp add: e'_def c_def)
    ultimately show ?thesis by blast
  qed
  moreover have "wal_of (en_disk e') t = []" using o(3) by (simp add: e'_def save_table_wal)
  moreover have "table_data e' t = table_data e t"
    using o(1) l1 e1(5) e2(2) by (simp add: table_data_def e'_def loaded_def store_data_def)
  moreover have "logs_readable (en_persistence_manager_map e') (en_disk e')"
    using logs_readable_cong [OF assms(2)] save_table_wal [of pm s1 c "en_disk e"] e1(7,8) e2(3,5) by (simp add: e'_def)
  moreover have "distinct (keys (en_disk e)) \<Longrightarrow> distinct (keys (en_disk e'))"
    using distinct_save_table e1(7) e2(5) by (simp add: e'_def)
  moreover have "\<forall>u. u \<noteq> t \<longrightarrow> map_of (en_store_map e') u = map_of (en_store_map e) u \<and>
       map_of (en_persistence_manager_map e') u = map_of (en_persistence_manager_map e) u \<and>
       map_of (en_cache_map e') u = map_of (en_cache_map e) u \<and>
       contains (en_stats_manager_map e') u = contains (en_stats_manager_map e) u \<and>
       files_of (en_disk e') u = files_of (en_disk e) u"
    using e1(3,7) e2 save_table_other [of _ pm s1 c "en_disk e"] o(3)
    by (simp add: e'_def only_table_def table_view_def contains_def fun_eq_iff)
  ultimately show ?thesis by (intro exI [of _ e'] exI [of _ w']) simp
qed

lemma shutdown_tables:
  fixes net :: "'w Net" and w :: 'w
  assumes "distinct ts" and "\<forall>t \<in> set ts. shut_ok rl e t" and "logs_readable (en_persistence_manager_map e) (en_disk e)"
  shows "\<exists>e' w'. for_each (shutdown_table rl net latency) ts (e, w) = Some (e', w') \<and>
    (\<forall>t \<in> set ts. durable rl e' t \<and> wal_of (en_disk e') t = []) \<and> table_data e' = table_data e \<and>
    (distinct (keys (en_disk e)) \<longrightarrow> distinct (keys (en_disk e'))) \<and> (\<forall>t \<in> set ts. saved_store rl e t (en_disk e')) \<and>
    (\<forall>u. u \<notin> set ts \<longrightarrow> files_of (en_disk e') u = files_of (en_disk e) u \<and> (durable rl e u \<longrightarrow> durable rl e' u))"
  using assms
proof (induction ts arbitrary: e w)
  case (Cons t ts)
  then have t: "shut_ok rl e t" "t \<notin> set ts" by simp_all
  obtain e1 w1 where e1: "shutdown_table rl net latency t (e, w) = Some (e1, w1)" "durable rl e1 t"
    "wal_of (en_disk e1) t = []" "table_data e1 t = table_data e t" "logs_readable (en_persistence_manager_map e1) (en_disk e1)"
    "distinct (keys (en_disk e)) \<longrightarrow> distinct (keys (en_disk e1))" "saved_store rl e t (en_disk e1)"
    and o: "\<And>u. u \<noteq> t \<Longrightarrow> map_of (en_store_map e1) u = map_of (en_store_map e) u"
      "\<And>u. u \<noteq> t \<Longrightarrow> map_of (en_persistence_manager_map e1) u = map_of (en_persistence_manager_map e) u"
      "\<And>u. u \<noteq> t \<Longrightarrow> map_of (en_cache_map e1) u = map_of (en_cache_map e) u"
      "\<And>u. u \<noteq> t \<Longrightarrow> contains (en_stats_manager_map e1) u = contains (en_stats_manager_map e) u"
      "\<And>u. u \<noteq> t \<Longrightarrow> files_of (en_disk e1) u = files_of (en_disk e) u"
    using shutdown_table_ok [OF t(1) Cons.prems(3), of net latency w] by metis
  have "\<forall>u \<in> set ts. shut_ok rl e1 u"
  proof
    fix u assume u: "u \<in> set ts"
    then have "u \<noteq> t" using t(2) by auto
    with shut_ok_cong [OF o(1-5) [OF this], of rl] Cons.prems(2) u show "shut_ok rl e1 u" by simp
  qed
  with Cons.IH [of e1 w1] Cons.prems(1) e1(5) obtain e' w' where
    e': "for_each (shutdown_table rl net latency) ts (e1, w1) = Some (e', w')" "\<forall>u \<in> set ts. durable rl e' u \<and> wal_of (en_disk e') u = []"
      "table_data e' = table_data e1" "distinct (keys (en_disk e1)) \<longrightarrow> distinct (keys (en_disk e'))"
      "\<forall>u \<in> set ts. saved_store rl e1 u (en_disk e')"
    and v: "\<And>u. u \<notin> set ts \<Longrightarrow> files_of (en_disk e') u = files_of (en_disk e1) u \<and> (durable rl e1 u \<longrightarrow> durable rl e' u)"
    by auto
  have d1: "durable rl e1 u = durable rl e u" if "u \<noteq> t" for u
    using o [OF that] by (intro durable_cong)
  have "table_data e1 = table_data e"
  proof
    fix u show "table_data e1 u = table_data e u" using e1(4) o(1) [of u] by (cases "u = t") (simp_all add: table_data_def)
  qed
  moreover have "wal_of (en_disk e') t = []" using v [OF t(2)] e1(3) by (simp add: wal_of_def)
  moreover have "saved_store rl e u (en_disk e')" if "u \<in> set (t # ts)" for u
  proof (cases "u = t")
    case True
    with saved_store_files [OF e1(7), of "en_disk e'"] v [OF t(2)] show ?thesis by simp
  next
    case False
    with that e'(5) saved_store_engine [OF o(1,3,4) [OF False], of rl "en_disk e'"] show ?thesis by simp
  qed
  ultimately show ?case using e1(1-6) e'(1-4) v d1 o(5) t(2) by (intro exI [of _ e'] exI [of _ w']) auto
qed simp

lemma shutdown_settled:
  fixes net :: "'w Net" and w :: 'w
  assumes "distinct (keys (en_disk e))" and "distinct (keys (en_store_map e))"
    and "\<forall>t. if contains (en_store_map e) t then shut_ok rl e t else unsaved (en_disk e) t"
    and "logs_readable (en_persistence_manager_map e) (en_disk e)"
  shows "\<exists>e' w'. engine_shutdown rl net latency (e, w) = Some (e', w') \<and> settled rl e' \<and> saved_data e' = table_data e \<and>
    (\<forall>t. contains (en_store_map e) t \<longrightarrow> \<not> unsaved (en_disk e') t \<and> wal_of (en_disk e') t = [] \<and> saved_store rl e t (en_disk e')) \<and>
    (\<forall>t. \<not> contains (en_store_map e) t \<longrightarrow> files_of (en_disk e') t = files_of (en_disk e) t)"
proof -
  let ?ts = "keys (en_store_map e)" and ?e = "e\<lparr>en_shutdown := True\<rparr>"
  have "\<forall>t \<in> set ?ts. shut_ok rl ?e t"
  proof
    fix t assume "t \<in> set ?ts"
    then have "shut_ok rl e t" using assms(3) contains_iff [of "en_store_map e" t] by metis
    then show "shut_ok rl ?e t" using shut_ok_cong [of ?e t e rl] by simp
  qed
  with shutdown_tables [OF assms(2), of rl ?e net latency w] assms(1,4) obtain e' w' where
    e': "for_each (shutdown_table rl net latency) ?ts (?e, w) = Some (e', w')" "\<forall>t \<in> set ?ts. durable rl e' t \<and> wal_of (en_disk e') t = []"
      "table_data e' = table_data ?e" "distinct (keys (en_disk e'))" "\<forall>t \<in> set ?ts. saved_store rl ?e t (en_disk e')"
      "\<And>u. u \<notin> set ?ts \<Longrightarrow> files_of (en_disk e') u = files_of (en_disk e) u" by auto
  have same: "table_data e' = table_data e" using e'(3) by (simp add: table_data_def fun_eq_iff)
  have saved: "\<not> unsaved (en_disk e') t" if "t \<in> set ?ts" for t
    using e'(2) that recoverable_saved unfolding durable_def by blast
  have "settled_table rl e' t \<and> saved_data e' t = table_data e t" for t
  proof (cases "t \<in> set ?ts")
    case True
    then have "durable rl e' t" using e'(2) by blast
    then show ?thesis using same saved [OF True] by (simp add: settled_table_def durable_stored saved_data_def)
  next
    case False
    then have n: "\<not> contains (en_store_map e) t" by (simp add: contains_iff)
    then have "unsaved (en_disk e) t" using assms(3) by simp
    then have "unsaved (en_disk e') t" using e'(6) [OF False] by (simp add: unsaved_def)
    moreover have "table_data e t = None" using n stored_data by blast
    ultimately show ?thesis using same by (simp add: settled_table_def stored_data saved_data_def)
  qed
  then have "settled rl e'" "saved_data e' = table_data e" using e'(4) by (auto simp: settled_def)
  moreover have "\<forall>t. contains (en_store_map e) t \<longrightarrow> \<not> unsaved (en_disk e') t \<and> wal_of (en_disk e') t = [] \<and> saved_store rl e t (en_disk e')"
    using e'(2,5) saved saved_store_engine [of ?e _ e] by (auto simp: contains_iff)
  moreover have "\<forall>t. \<not> contains (en_store_map e) t \<longrightarrow> files_of (en_disk e') t = files_of (en_disk e) t"
    using e'(6) by (simp add: contains_iff)
  ultimately show ?thesis using e'(1) by (intro exI [of _ e'] exI [of _ w']) (simp add: engine_shutdown_def)
qed

text \<open>A clean shutdown and a restart: the data of every table is back.\<close>

lemma clean_restart_data:
  fixes net :: "'w Net" and w :: 'w
  assumes "distinct (keys (en_disk e))" and "distinct (keys (en_store_map e))"
    and "\<forall>t. if contains (en_store_map e) t then shut_ok rl e t else unsaved (en_disk e) t"
    and "logs_readable (en_persistence_manager_map e) (en_disk e)" and "md_primary md"
  shows "\<exists>e1 w1 e2. engine_shutdown rl net latency (e, w) = Some (e1, w1) \<and>
    engine_start rl net junk md (en_disk e1) w1 = Some (e2, w1) \<and> table_data e2 = table_data e \<and> settled rl e2 \<and>
    en_wal_offsets e2 = [] \<and>
    (\<forall>t. contains (en_store_map e) t \<longrightarrow> (\<exists>c ce. is_create c t ce \<and> recoverable rl (en_disk e2) t c [ce]))"
proof -
  obtain e1 w1 where e1: "engine_shutdown rl net latency (e, w) = Some (e1, w1)" "settled rl e1" "saved_data e1 = table_data e"
    "\<forall>t. contains (en_store_map e) t \<longrightarrow> \<not> unsaved (en_disk e1) t \<and> wal_of (en_disk e1) t = []"
    using shutdown_settled [OF assms(1-4), of net latency w] by blast
  obtain e2 where e2: "engine_start rl net junk md (en_disk e1) w1 = Some (e2, w1)" "settled rl e2" "table_data e2 = saved_data e1"
    "en_wal_offsets e2 = []" "\<forall>t. \<not> unsaved (en_disk e1) t \<longrightarrow> (\<exists>c es ce. recoverable rl (en_disk e1) t c es \<and> is_create c t ce \<and>
       recoverable rl (en_disk e2) t c (es @ [ce]))"
    using settled_restart [OF e1(2) assms(5), of net junk w1] by blast
  have "\<exists>c ce. is_create c t ce \<and> recoverable rl (en_disk e2) t c [ce]" if ct: "contains (en_store_map e) t" for t
  proof -
    obtain c es ce where c: "recoverable rl (en_disk e1) t c es" "is_create c t ce" "recoverable rl (en_disk e2) t c (es @ [ce])"
      using e1(4) e2(5) ct by blast
    have "wal_of (en_disk e1) t = []" using e1(4) ct by blast
    with c(1) have "es = []" by (simp add: recoverable_def wal_entries_def)
    with c(2,3) show ?thesis by (intro exI [of _ c] exI [of _ ce]) simp
  qed
  with e1 e2 show ?thesis by (intro exI [of _ e1] exI [of _ w1] exI [of _ e2]) simp
qed

end
