(* ===== verification/RecoveryProperties.thy ===== *)
theory RecoveryProperties
  imports Shutdown Samples
begin

text \<open>
  The properties of the whole life of an engine: what a crash and what a shutdown leave, and
  what the next start makes of it.
\<close>

section \<open>A start from saved files\<close>

definition sample_saved_disk :: disk where
  "sample_saved_disk = [(''t'', \<lparr>tf_store_snapshot = None, tf_index_snapshot = None, tf_wal = Some [],
     tf_metadata = Some \<lparr>tm_table_name = ''t'', tm_vector_dimensionality = 1, tm_index = MetaFlat sample_fc, tm_cache_size = 4\<rparr>\<rparr>)]"

lemma sample_good_config: "good_config rl 1 default_hnsw_config sample_fc"
  by (simp add: good_config_def wants_hnsw_def default_hnsw_config_def sample_fc_def)

lemma sample_valid: "config_valid ''t'' (1, default_hnsw_config, sample_fc, 4)"
  by (rule config_valid_flat) (simp_all add: ValidateCreateTable_iff hnsw_config_empty_def wants_hnsw_def
      default_hnsw_config_def sample_fc_def)

lemma sample_recoverable: "recoverable rl sample_saved_disk ''t'' (1, default_hnsw_config, sample_fc, 4) []"
proof -
  have mi: "make_index default_hnsw_config sample_fc = (FLAT, STORED_FLAT, FlatIx (flat_new sample_fc))"
    by (simp add: make_index_def wants_hnsw_def default_hnsw_config_def)
  have "base_store ''t'' (1, default_hnsw_config, sample_fc, 4) sample_saved_disk = store_new FLAT (FlatIx (flat_new sample_fc)) 1"
    by (simp add: base_store_def mi pm_LoadSnapshot_def files_of_def sample_saved_disk_def)
  then show ?thesis
    using store_inv_new(1) [OF sample_good_config mi] sample_valid
    by (simp add: recoverable_def disk_config_def files_of_def sample_saved_disk_def load_metadata_def wal_of_def wal_entries_def)
qed

lemma sample_start:
  "\<exists>e. engine_start rl sample_silent_net (0, 0) sample_md sample_saved_disk () = Some (e, ()) \<and> settled rl e \<and>
    durable rl e ''t'' \<and> en_metadata e = sample_md"
proof -
  have saved: "t = ''t''" if "\<not> unsaved sample_saved_disk t" for t
    using that by (simp add: unsaved_def files_of_def sample_saved_disk_def no_files_def split: if_splits)
  have "\<forall>t. \<not> unsaved sample_saved_disk t \<longrightarrow> recoverable rl sample_saved_disk t (1, default_hnsw_config, sample_fc, 4) []"
    using sample_recoverable saved by blast
  moreover have "distinct (keys sample_saved_disk)" by (simp add: sample_saved_disk_def)
  ultimately obtain e where e: "engine_start rl sample_silent_net (0, 0) sample_md sample_saved_disk () = Some (e, ())" "settled rl e"
    "en_metadata e = sample_md" "table_data e ''t'' \<noteq> None"
    using engine_start_ok [of sample_saved_disk sample_md rl "\<lambda>_. (1, default_hnsw_config, sample_fc, 4)" "\<lambda>_. []" sample_silent_net "(0, 0)" "()"]
    by (auto simp: unsaved_def files_of_def sample_saved_disk_def)
  have "durable rl e ''t''"
  proof -
    have d: "distinct (tables_on_disk sample_saved_disk)" "tables_on_disk sample_saved_disk = [''t'']"
      by (simp_all add: tables_on_disk_def sample_saved_disk_def)
    have init: "table_absent (engine_init sample_md sample_saved_disk) ''t''" "md_primary (en_metadata (engine_init sample_md sample_saved_disk))"
      "\<not> en_shutdown (engine_init sample_md sample_saved_disk)" "recoverable rl (en_disk (engine_init sample_md sample_saved_disk)) ''t'' (1, default_hnsw_config, sample_fc, 4) []"
      using sample_recoverable by (simp_all add: table_absent_def engine_init_def)
    from restore_table_ok [OF init(4) init(1-3), of sample_silent_net "(0, 0)" "()"] e(1) d(2)
    show ?thesis by (auto simp: engine_start_def)
  qed
  with e show ?thesis by blast
qed

section \<open>Crashes\<close>

text \<open>C8: after any sequence of insertions, removals (in batches too), searches, cleanups and creations of
  tables on an engine whose tables are settled, a crash and a restart give back every table whose metadata
  was saved, with exactly the data it had; the restart returns and leaves the engine settled again. Tables
  never saved are gone. Asked of the operations (\<open>op_fine\<close>): the numbers of a vector to insert are finite
  and survive the six digits of the log, contents have no line break, queries are finite, new tables
  have the metric L2. Other numbers come back rounded. \<open>DropTable\<close> and \<open>BatchSearch\<close> are not among
  the operations.\<close>

theorem crash_recovery:
  fixes net :: "'w Net" and w :: 'w
  assumes "settled rl e" and "list_all (op_fine rl) xs" and "md_primary md"
  shows "\<exists>e1 e2. for_each (run_op rl) xs e = Some e1 \<and> engine_start rl net junk md (en_disk e1) w = Some (e2, w) \<and>
    settled rl e2 \<and> (\<forall>t. table_data e2 t = (if unsaved (en_disk e) t then None else table_data e1 t))"
proof -
  obtain e1 where e1: "for_each (run_op rl) xs e = Some e1" "settled rl e1" "\<forall>t. unsaved (en_disk e1) t = unsaved (en_disk e) t"
    using run_ops_settled [OF assms(1,2)] by blast
  obtain e2 where "engine_start rl net junk md (en_disk e1) w = Some (e2, w)" "settled rl e2" "table_data e2 = saved_data e1"
    using settled_restart [OF e1(2) assms(3), of net junk w] by blast
  with e1 show ?thesis by (intro exI [of _ e1] exI [of _ e2]) (simp add: saved_data_def)
qed

lemma crash_recovery_witness:
  "\<exists>e e1 e2. engine_start ground_level sample_silent_net (0, 0) sample_md sample_saved_disk () = Some (e, ()) \<and>
    for_each (run_op ground_level) [OpInsert ''t'' 7 [f32_one] ''c'', OpRemove ''t'' 9, OpCleanup ''t'' f32_zero] e = Some e1 \<and>
    engine_start ground_level sample_silent_net (0, 0) sample_md (en_disk e1) () = Some (e2, ()) \<and>
    table_data e2 ''t'' = table_data e1 ''t''"
proof -
  obtain e where e: "engine_start ground_level sample_silent_net (0, 0) sample_md sample_saved_disk () = Some (e, ())"
    "settled ground_level e" "durable ground_level e ''t''" using sample_start by blast
  have "list_all (op_fine ground_level) [OpInsert ''t'' 7 [f32_one] ''c'', OpRemove ''t'' 9, OpCleanup ''t'' f32_zero]" using sample_wal_stable by simp
  from crash_recovery [OF e(2) this, of sample_md sample_silent_net "(0, 0)" "()"] obtain e1 e2 where
    "for_each (run_op ground_level) [OpInsert ''t'' 7 [f32_one] ''c'', OpRemove ''t'' 9, OpCleanup ''t'' f32_zero] e = Some e1"
    "engine_start ground_level sample_silent_net (0, 0) sample_md (en_disk e1) () = Some (e2, ())"
    "table_data e2 ''t'' = (if unsaved (en_disk e) ''t'' then None else table_data e1 ''t'')" by auto
  moreover have "\<not> unsaved (en_disk e) ''t''" using e(3) unfolding durable_def using recoverable_saved by blast
  ultimately show ?thesis using e(1) by (intro exI [of _ e] exI [of _ e1] exI [of _ e2]) simp
qed

text \<open>C30: a table that \<open>CreateTable\<close> made since the last shutdown has no metadata on disk: a crash
  loses it with every write that was acknowledged, although the log holds them all.\<close>

theorem crash_loses_new_table:
  fixes net :: "'w Net" and w :: 'w
  assumes "settled rl e" and "good_config rl dim hc fc" and "engine_CreateTable e t dim hc fc cs = (True, e0)"
    and "list_all (op_fine rl) xs" and "md_primary md"
  shows "\<exists>e1 e2. for_each (run_op rl) xs e0 = Some e1 \<and> engine_start rl net junk md (en_disk e1) w = Some (e2, w) \<and>
    table_data e2 t = None"
proof -
  have "op_fine rl (OpCreate t dim hc fc cs)" using assms(2) by simp
  with run_op_settled [OF assms(1) this] assms(3) have s0: "settled rl e0" "unsaved (en_disk e0) t = unsaved (en_disk e) t" by auto
  have "\<not> contains (en_store_map e) t" using assms(3) by (auto simp: engine_CreateTable_def table_absent_def split: if_splits)
  moreover have "settled_table rl e t" using assms(1) by (simp add: settled_def)
  ultimately have "unsaved (en_disk e0) t" using s0(2) by (simp add: settled_table_def)
  obtain e1 where e1: "for_each (run_op rl) xs e0 = Some e1" "settled rl e1" "\<forall>t. unsaved (en_disk e1) t = unsaved (en_disk e0) t"
    using run_ops_settled [OF s0(1) assms(4)] by blast
  obtain e2 where "engine_start rl net junk md (en_disk e1) w = Some (e2, w)" "table_data e2 = saved_data e1"
    using settled_restart [OF e1(2) assms(5), of net junk w] by blast
  with e1 \<open>unsaved (en_disk e0) t\<close> show ?thesis by (intro exI [of _ e1] exI [of _ e2]) (simp add: saved_data_def)
qed

lemma empty_settled: "settled rl empty_engine"
  by (simp add: settled_def settled_table_def empty_engine_def engine_init_def contains_def unsaved_def files_of_def no_files_def)

lemma crash_loses_new_table_witness:
  "\<exists>e0 e1 e2. engine_CreateTable empty_engine ''u'' 1 default_hnsw_config sample_fc 4 = (True, e0) \<and>
    for_each (run_op ground_level) [OpInsert ''u'' 7 [f32_one] ''c''] e0 = Some e1 \<and>
    engine_start ground_level sample_silent_net (0, 0) sample_md (en_disk e1) () = Some (e2, ()) \<and> table_data e2 ''u'' = None"
proof -
  have "table_absent empty_engine ''u''" by (simp add: table_absent_def empty_engine_def engine_init_def)
  moreover have "ValidateCreateTable ''u'' 1 default_hnsw_config sample_fc (unat (4 :: u64))"
    by (simp add: ValidateCreateTable_iff hnsw_config_empty_def default_hnsw_config_def sample_fc_def)
  moreover have "md_primary (en_metadata empty_engine)" "\<not> en_shutdown empty_engine" by (simp_all add: empty_engine_def engine_init_def sample_md_def)
  ultimately obtain e0 where e0: "engine_CreateTable empty_engine ''u'' 1 default_hnsw_config sample_fc 4 = (True, e0)"
    using engine_CreateTable_shape [of empty_engine "''u''" 1 default_hnsw_config sample_fc 4] by blast
  have "list_all (op_fine ground_level) [OpInsert ''u'' 7 [f32_one] ''c'']" using sample_wal_stable by simp
  from crash_loses_new_table [OF empty_settled sample_good_config e0 this, of sample_md sample_silent_net "(0, 0)" "()"] e0
  show ?thesis by auto
qed

text \<open>C31: a crash while \<open>DropTable\<close> waits for the replicas leaves a \<open>drop\<close> in the log of the table: the
  next start replays it under the mutex of the log and never returns.\<close>

theorem crash_in_drop_hangs:
  fixes net :: "'w Net" and w :: 'w
  assumes "settled rl e" and "durable rl e t" and "md_primary md"
  shows "engine_start rl net junk md (en_disk (dropping t e)) w = None"
  by (rule dropping_start_hangs [OF assms])

lemma crash_in_drop_hangs_witness:
  "\<exists>e. engine_start ground_level sample_silent_net (0, 0) sample_md sample_saved_disk () = Some (e, ()) \<and>
    engine_start ground_level sample_silent_net (0, 0) sample_md (en_disk (dropping ''t'' e)) () = None"
proof -
  obtain e where e: "engine_start ground_level sample_silent_net (0, 0) sample_md sample_saved_disk () = Some (e, ())"
    "settled ground_level e" "durable ground_level e ''t''" using sample_start by blast
  from crash_in_drop_hangs [OF e(2,3), of sample_md sample_silent_net "(0, 0)" "()"] e(1) show ?thesis by auto
qed

section \<open>Shutdown\<close>

text \<open>C7: a shutdown saves every table: the destructor returns, whatever the replicas answer, and the
  next start has the data of all of them. This asks that every log can be parsed, since the destructor
  sends them (\<open>logs_readable\<close>); that there are no saved files of a table the engine does not have; and of
  every table (\<open>shut_ok\<close>) that its configuration is valid, has the metric L2 and is given back by its line
  of the metadata, that its log is open, and that its graph, unless the table is empty, has an entry
  point before and after the cleanup.\<close>

theorem clean_restart:
  fixes net :: "'w Net" and w :: 'w
  assumes "distinct (keys (en_disk e))" and "distinct (keys (en_store_map e))"
    and "\<forall>t. if contains (en_store_map e) t then shut_ok rl e t else unsaved (en_disk e) t"
    and "logs_readable (en_persistence_manager_map e) (en_disk e)" and "md_primary md"
  shows "\<exists>e1 w1 e2. engine_shutdown rl net latency (e, w) = Some (e1, w1) \<and>
    engine_start rl net junk md (en_disk e1) w1 = Some (e2, w1) \<and> table_data e2 = table_data e \<and> settled rl e2"
  using clean_restart_data [OF assms, of net latency w junk] by blast

text \<open>A running primary with one table, its log just opened.\<close>

definition sample_running :: Engine where
  "sample_running = sample_engine\<lparr>en_disk := [(''t'', no_files\<lparr>tf_wal := Some []\<rparr>)]\<rparr>"

lemma sample_shut_ok: "shut_ok rl sample_running ''t''"
proof -
  have c: "saved_config sample_running ''t'' sample_store = (1, default_hnsw_config, sample_fc, 2)"
    by (simp add: saved_config_def store_configs_def sample_running_def sample_store_def sample_flat_def sample_engine_def
        lru_new_def)
  have v: "config_valid ''t'' (1, default_hnsw_config, sample_fc, 2)"
    by (rule config_valid_flat) (simp_all add: ValidateCreateTable_iff hnsw_config_empty_def wants_hnsw_def
        default_hnsw_config_def sample_fc_def)
  have k: "config_kind (1, default_hnsw_config, sample_fc, 2) = STORED_FLAT"
    by (simp add: config_kind_def make_index_def wants_hnsw_def default_hnsw_config_def)
  have "loaded rl sample_running ''t'' sample_store"
    using sample_store_inv(1) by (simp add: loaded_def sample_running_def sample_engine_def contains_iff)
  moreover have "saveable rl sample_store" by (rule flat_saveable [OF sample_store_inv(1)]) simp
  moreover have "good_config rl (vs_vector_dimensionality sample_store) (fst (store_configs sample_store)) (snd (store_configs sample_store))"
    using sample_good_config by (simp add: store_configs_def sample_store_def sample_flat_def)
  moreover have "same_kind sample_pm sample_store" by (simp add: same_kind_def sample_pm_def sample_store_def)
  ultimately show ?thesis using c v k unfolding shut_ok_def
    by (intro exI [of _ sample_store] exI [of _ sample_pm])
      (simp add: sample_running_def sample_engine_def sample_pm_def files_of_def)
qed

lemma clean_restart_witness:
  "\<exists>e1 w1 e2. engine_shutdown ground_level sample_silent_net f32_zero (sample_running, ()) = Some (e1, w1) \<and>
    engine_start ground_level sample_silent_net (0, 0) sample_md (en_disk e1) w1 = Some (e2, w1) \<and>
    table_data e2 ''t'' = Some [1 \<mapsto> ([f32_one], ''a''), 2 \<mapsto> ([f32_zero], ''b'')]"
proof -
  have d: "distinct (keys (en_disk sample_running))" "distinct (keys (en_store_map sample_running))"
    by (simp_all add: sample_running_def)
  have t: "\<forall>t. if contains (en_store_map sample_running) t then shut_ok ground_level sample_running t else unsaved (en_disk sample_running) t"
    using sample_shut_ok [of ground_level] by (auto simp: sample_running_def contains_iff unsaved_def files_of_def no_files_def)
  have l: "logs_readable (en_persistence_manager_map sample_running) (en_disk sample_running)"
    by (simp add: logs_readable_def sample_running_def sample_engine_def sample_pm_def wal_of_def files_of_def wal_entries_def)
  have "table_data sample_running ''t'' = table_data sample_engine ''t''" by (simp add: table_data_def sample_running_def)
  with clean_restart [OF d t l, of sample_md sample_silent_net f32_zero "()" "(0, 0)"] sample_table_data show ?thesis by auto
qed

end
