(* ===== verification/Cluster.thy ===== *)
theory Cluster
  imports Shutdown
begin

text \<open>
  A primary and its replicas as one system: the network of \<open>ReplicaManager\<close> is instantiated
  with the replicas' own \<open>ReplicaManagerServiceImpl\<close>, every message arriving. A replica applies
  the entries it is sent up to the first one it refuses. Shown: a replica that is at some point
  of the log of its primary catches up with it in one attempt when it refuses none of the
  rest; one refused entry stops it there for good.
\<close>

section \<open>The network of the replicas\<close>

text \<open>A replica sends nothing itself.\<close>

definition no_net :: "unit Net" where
  "no_net = \<lparr>net_Sync = \<lambda>r es w. ((False, 0), w), net_GetChecksum = \<lambda>r t w. ((False, 0), w)\<rparr>"

definition replica_net :: "level_fun \<Rightarrow> (string, Engine) umap Net" where
  "replica_net rl = \<lparr>
     net_Sync = \<lambda>r es w.
       (case map_of w r of
          None \<Rightarrow> ((False, 0), w)
        | Some e \<Rightarrow>
            (case service_Sync rl no_net es (e, ()) of
               None \<Rightarrow> ((False, 0), w)
             | Some (n, e', u) \<Rightarrow> ((True, of_nat n), mput r e' w))),
     net_GetChecksum = \<lambda>r t w.
       (case map_of w r of
          None \<Rightarrow> ((False, 0), w)
        | Some e \<Rightarrow> (case service_GetChecksum e t of None \<Rightarrow> ((False, 0), w) | Some c \<Rightarrow> ((True, c), w)))\<rparr>"

section \<open>What a replica accepts\<close>

definition entry_fits :: "nat \<Rightarrow> WALEntry \<Rightarrow> (Id \<rightharpoonup> vector \<times> string) \<Rightarrow> bool" where
  "entry_fits dim entry m \<longleftrightarrow>
     (case we_type entry of
        WAL_INSERT \<Rightarrow> (case insert_args (we_config entry) of (i, v, _) \<Rightarrow> m i = None \<and> length v = dim)
      | WAL_REMOVE \<Rightarrow> m (remove_args (we_config entry)) \<noteq> None
      | _ \<Rightarrow> False)"

fun accepted :: "nat \<Rightarrow> WALEntry list \<Rightarrow> (Id \<rightharpoonup> vector \<times> string) \<Rightarrow> nat" where
  "accepted dim [] m = 0"
| "accepted dim (entry # es) m = (if entry_fits dim entry m then Suc (accepted dim es (log_step dim entry m)) else 0)"

lemma accepted_le: "accepted dim es m \<le> length es"
  by (induction es arbitrary: m) auto

lemma entry_taken_fits: "entry_taken s entry \<longleftrightarrow> entry_fits (store_dim s) entry (store_data s)"
  by (auto simp: entry_taken_def entry_fits_def takes_data store_data_None split: WALType.split prod.split)

lemma log_step_refused: "\<not> entry_fits dim entry m \<Longrightarrow> log_step dim entry m = m"
proof (cases "we_type entry")
  case WAL_REMOVE
  assume "\<not> entry_fits dim entry m"
  with WAL_REMOVE have "m (remove_args (we_config entry)) = None"
    by (cases "m (remove_args (we_config entry))") (auto simp: entry_fits_def)
  with WAL_REMOVE show ?thesis by (simp add: log_step_def fun_upd_idem)
qed (auto simp: entry_fits_def log_step_def put_data_def split: prod.splits)

lemma service_Sync_accepts:
  fixes net :: "'w Net" and w :: 'w
  assumes "loaded rl e t s" and "list_all (entry_fine t) es"
  shows "\<exists>e' s'. service_Sync rl net es (e, w) = Some (accepted (store_dim s) es (store_data s), e', w) \<and> loaded rl e' t s' \<and>
    store_dim s' = store_dim s \<and> frame t e e' \<and>
    store_data s' = log_data (store_dim s) (take (accepted (store_dim s) es (store_data s)) es) (store_data s)"
  using assms
proof (induction es arbitrary: e s)
  case Nil
  then show ?case by auto
next
  case (Cons entry es)
  then have fine: "entry_fine t entry" "list_all (entry_fine t) es" by simp_all
  obtain e1 s1 where e1: "engine_ApplyWALEntry rl net entry (e, w) = Some (entry_taken s entry, e1, w)" "loaded rl e1 t s1"
    "frame t e e1" "store_data s1 = log_step (store_dim s) entry (store_data s)" "store_dim s1 = store_dim s"
    using ApplyWALEntry_data [OF Cons.prems(1) fine(1), of net w] by blast
  show ?case
  proof (cases "entry_fits (store_dim s) entry (store_data s)")
    case False
    with e1 log_step_refused [OF False] show ?thesis
      by (intro exI [of _ e1] exI [of _ s1]) (simp add: entry_taken_fits)
  next
    case True
    from Cons.IH [OF e1(2) fine(2)] obtain e' s' where
      e': "service_Sync rl net es (e1, w) = Some (accepted (store_dim s1) es (store_data s1), e', w)" "loaded rl e' t s'"
      "store_dim s' = store_dim s1" "frame t e1 e'"
      "store_data s' = log_data (store_dim s1) (take (accepted (store_dim s1) es (store_data s1)) es) (store_data s1)" by blast
    with e1 True frame_trans [OF e1(3) e'(4)] show ?thesis
      by (intro exI [of _ e'] exI [of _ s']) (simp add: entry_taken_fits)
  qed
qed

text \<open>The world in which replica \<open>r\<close> holds data \<open>m\<close> of the table.\<close>

definition replica_has :: "level_fun \<Rightarrow> (string, Engine) umap \<Rightarrow> string \<Rightarrow> string \<Rightarrow> nat \<Rightarrow> (Id \<rightharpoonup> vector \<times> string) \<Rightarrow> bool" where
  "replica_has rl w r t dim m \<longleftrightarrow> (\<exists>e s. map_of w r = Some e \<and> loaded rl e t s \<and> store_dim s = dim \<and> store_data s = m)"

lemma replica_Sync:
  assumes "replica_has rl w r t dim m" and "list_all (entry_fine t) es"
  shows "\<exists>w'. net_Sync (replica_net rl) r es w = ((True, of_nat (accepted dim es m)), w') \<and>
    replica_has rl w' r t dim (log_data dim (take (accepted dim es m) es) m)"
proof -
  obtain e s where e: "map_of w r = Some e" "loaded rl e t s" "store_dim s = dim" "store_data s = m"
    using assms(1) by (auto simp: replica_has_def)
  obtain e' s' where e': "service_Sync rl no_net es (e, ()) = Some (accepted dim es m, e', ())" "loaded rl e' t s'"
    "store_dim s' = dim" "store_data s' = log_data dim (take (accepted dim es m) es) m"
    using service_Sync_accepts [OF e(2) assms(2), of no_net "()"] e(3,4) by auto
  have "net_Sync (replica_net rl) r es w = ((True, of_nat (accepted dim es m)), mput r e' w)"
    using e(1) e'(1) by (simp add: replica_net_def)
  moreover have "replica_has rl (mput r e' w) r t dim (log_data dim (take (accepted dim es m) es) m)"
    using e' unfolding replica_has_def by (intro exI [of _ e'] exI [of _ s']) simp
  ultimately show ?thesis by blast
qed

text \<open>Equal data have equal checksums.\<close>

lemma checksum_data:
  assumes "store_inv rl s" and "store_inv rl s'" and "store_data s = store_data s'"
  shows "ComputeChecksum s = ComputeChecksum s'"
proof (rule ComputeChecksum_cong)
  have "map_option d_content \<circ> map_of (vs_store x) = map_option snd \<circ> store_data x" for x
    by (auto simp: store_data_def fun_eq_iff option.map_comp comp_def)
  with assms(3) show "map_option d_content \<circ> map_of (vs_store s) = map_option d_content \<circ> map_of (vs_store s')" by simp
qed (use assms in \<open>simp_all add: store_inv_def\<close>)

lemma replica_checksum:
  assumes "replica_has rl w r t dim (store_data s)" and "store_inv rl s"
  shows "net_GetChecksum (replica_net rl) r t w = ((True, the (ComputeChecksum s)), w)"
proof -
  obtain e s' where e: "map_of w r = Some e" "map_of (en_store_map e) t = Some s'" "store_inv rl s'" "store_data s' = store_data s"
    using assms(1) by (auto simp: replica_has_def loaded_def)
  then have "ComputeChecksum s' = ComputeChecksum s" using checksum_data assms(2) by blast
  with e show ?thesis
    by (simp add: replica_net_def service_GetChecksum_def rm_GetChecksum_def ComputeChecksum_total)
qed

section \<open>Refusing\<close>

text \<open>Whatever the number of attempts: the offset stays, the replica's data too.\<close>

lemma sync_attempts_refused:
  assumes "pm_SerializeWALEntries pm d off = Some (x # es)" and "list_all (entry_fine t) (x # es)"
    and "replica_has rl w r t dim m" and "\<not> entry_fits dim x m"
  shows "\<exists>w'. sync_attempts (replica_net rl) pm d s t r is (off, failed, w) =
      Some (off, failed \<or> kRetryCount - 1 \<in> set is, w') \<and> replica_has rl w' r t dim m"
  using assms(3)
proof (induction "is" arbitrary: failed w)
  case (Cons i "is")
  have a: "accepted dim (x # es) m = 0" using assms(4) by simp
  obtain w1 where w1: "net_Sync (replica_net rl) r (x # es) w = ((True, 0), w1)" "replica_has rl w1 r t dim m"
    using replica_Sync [OF Cons.prems assms(2)] unfolding a by auto
  obtain c where "ComputeChecksum s = Some c" by (simp add: ComputeChecksum_total)
  then have step: "sync_attempts (replica_net rl) pm d s t r (i # is) (off, failed, w) =
      sync_attempts (replica_net rl) pm d s t r is (off, failed \<or> i = kRetryCount - 1, w1)"
    using assms(1) w1(1) by simp
  from Cons.IH [OF w1(2), of "failed \<or> i = kRetryCount - 1"] show ?case
    unfolding step by (auto simp: disj_assoc)
qed simp

section \<open>The primary and its log\<close>

text \<open>What the log of a table in memory says; when \<open>full\<close>, it tells all of its data.\<close>

definition in_log :: "bool \<Rightarrow> level_fun \<Rightarrow> Engine \<Rightarrow> string \<Rightarrow> WALEntry list \<Rightarrow> bool" where
  "in_log full rl e t es \<longleftrightarrow> (\<exists>s k. loaded rl e t s \<and>
     map_of (en_persistence_manager_map e) t = Some \<lparr>pm_table_name = t, pm_stored_index_type = k\<rparr> \<and>
     terminated (wal_of (en_disk e) t) \<and> wal_entries k t (wal_of (en_disk e) t) = Some es \<and>
     list_all (entry_fine t) es \<and> (full \<longrightarrow> store_data s = log_data (store_dim s) es Map.empty))"

lemma in_logE:
  assumes "in_log full rl e t es" and "loaded rl e t s"
  obtains k where "map_of (en_persistence_manager_map e) t = Some \<lparr>pm_table_name = t, pm_stored_index_type = k\<rparr>"
    "terminated (wal_of (en_disk e) t)" "wal_entries k t (wal_of (en_disk e) t) = Some es" "list_all (entry_fine t) es"
    "full \<longrightarrow> store_data s = log_data (store_dim s) es Map.empty"
  using assms by (auto simp: in_log_def loaded_def)

lemma in_log_wrote:
  assumes "in_log full rl e t es" and "loaded rl e t s" and "wrote t e s l entry e' s'" and "loaded rl e' t s'"
    and "newline \<notin> set l" and "\<And>k. parse_line k t l = Some entry" and "entry_fine t entry"
  shows "in_log full rl e' t (es @ [entry])"
proof -
  obtain k where k: "map_of (en_persistence_manager_map e) t = Some \<lparr>pm_table_name = t, pm_stored_index_type = k\<rparr>"
    "terminated (wal_of (en_disk e) t)" "wal_entries k t (wal_of (en_disk e) t) = Some es" "list_all (entry_fine t) es"
    "full \<longrightarrow> store_data s = log_data (store_dim s) es Map.empty" by (rule in_logE [OF assms(1,2)])
  note w = assms(3) [unfolded wrote_def]
  have wal: "wal_of (en_disk e') t = wal_of (en_disk e) t @ l @ [newline]" using w by (simp add: wal_of_def)
  have "wal_entries k t (wal_of (en_disk e') t) = Some (es @ [entry])"
    unfolding wal by (rule wal_entries_line [OF k(2) assms(5) k(3) assms(6)])
  moreover have "terminated (wal_of (en_disk e') t)" unfolding wal by (rule terminated_append)
  ultimately show ?thesis using k w assms(4,7) unfolding in_log_def by (intro exI [of _ s'] exI [of _ k]) simp
qed

interpretation logged: table_invariant rl "\<lambda>e t. \<exists>later. in_log full rl e t (es @ later)" for rl es full
proof
  fix e t assume "\<exists>later. in_log full rl e t (es @ later)"
  then show "\<exists>s. loaded rl e t s" "pm_named e t" by (auto simp: in_log_def pm_named_def)
next
  fix e t s l entry e' s'
  assume "\<exists>later. in_log full rl e t (es @ later)" and w: "loaded rl e t s" "wrote t e s l entry e' s'" "loaded rl e' t s'"
    "newline \<notin> set l" "\<And>k. parse_line k t l = Some entry" "entry_fine t entry"
  then obtain later where "in_log full rl e t (es @ later)" by blast
  from in_log_wrote [OF this w] show "\<exists>later. in_log full rl e' t (es @ later)"
    by (intro exI [of _ "later @ [entry]"]) simp
next
  fix e t s e' s'
  assume "\<exists>later. in_log full rl e t (es @ later)" and s: "loaded rl e t s" "loaded rl e' t s'" "store_data s' = store_data s"
    "store_dim s' = store_dim s" "map_of (en_persistence_manager_map e') t = map_of (en_persistence_manager_map e) t"
    "files_of (en_disk e') t = files_of (en_disk e) t"
  then obtain later where m: "in_log full rl e t (es @ later)" by blast
  obtain k where "map_of (en_persistence_manager_map e) t = Some \<lparr>pm_table_name = t, pm_stored_index_type = k\<rparr>"
    "terminated (wal_of (en_disk e) t)" "wal_entries k t (wal_of (en_disk e) t) = Some (es @ later)"
    "list_all (entry_fine t) (es @ later)" "full \<longrightarrow> store_data s = log_data (store_dim s) (es @ later) Map.empty"
    by (rule in_logE [OF m s(1)])
  with s have "in_log full rl e' t (es @ later)" unfolding in_log_def wal_of_def
    by (intro exI [of _ s'] exI [of _ k]) simp
  then show "\<exists>later. in_log full rl e' t (es @ later)" by blast
qed

lemma in_log_weaken: "in_log full rl e t es \<Longrightarrow> in_log False rl e t es"
  unfolding in_log_def by blast

text \<open>A new table starts its log with its \<open>create\<close> entry and no data.\<close>

lemma in_log_create:
  assumes "engine_CreateTable e t dim hc fc cs = (True, e')" and "good_config rl dim hc fc" and "wal_of (en_disk e) t = []"
    and "newline \<notin> set (create_line (fst (snd (make_index hc fc))) hc fc cs)"
    and "parse_line (fst (snd (make_index hc fc))) t (create_line (fst (snd (make_index hc fc))) hc fc cs) = Some ce"
    and "we_type ce = WAL_CREATE" and "we_table ce = t"
  shows "in_log full rl e' t [ce]"
proof -
  have ok: "md_primary (en_metadata e) \<and> \<not> en_shutdown e \<and> ValidateCreateTable t dim hc fc (unat cs) \<and> table_absent e t"
    using assms(1) by (auto simp: engine_CreateTable_def split: if_splits)
  obtain it stored ix where mi: "make_index hc fc = (it, stored, ix)" by (metis prod_cases3)
  obtain e1 where e1: "engine_CreateTable e t dim hc fc cs = (True, upd_stats t (stats_SetModifiedFlag True) (add_table t dim hc fc cs e1))"
    "files_of (en_disk e1) t = (files_of (en_disk e) t)\<lparr>tf_wal := Some (created_log hc fc cs (wal_of (en_disk e) t))\<rparr>"
    using engine_CreateTable_shape ok by blast
  then have e': "e' = upd_stats t (stats_SetModifiedFlag True) (add_table t dim hc fc cs e1)" using assms(1) by simp
  note av = add_table_views(2) [OF mi, where t = t and dim = dim and cs = cs and e = e1]
  have "wal_of (en_disk e1) t = created_log hc fc cs []" using e1(2) assms(3) by (simp add: wal_of_def)
  then have wal: "wal_of (en_disk e') t = [] @ create_line stored hc fc cs @ [newline]"
    using av e' by (simp add: table_view_def wal_of_def created_log_def mi wal_AppendCreate_line)
  have "wal_entries stored t (wal_of (en_disk e') t) = Some ([] @ [ce])"
    unfolding wal using assms(4,5) mi by (intro wal_entries_line) (simp_all add: wal_entries_def)
  moreover have "terminated (wal_of (en_disk e') t)" unfolding wal by (rule terminated_append)
  moreover have "loaded rl e' t (store_new it ix dim)" "map_of (en_persistence_manager_map e') t = Some \<lparr>pm_table_name = t, pm_stored_index_type = stored\<rparr>"
    using av e' store_inv_new(1) [OF assms(2) mi] by (simp_all add: loaded_def table_view_def)
  moreover have "store_data (store_new it ix dim) = Map.empty" by (simp add: store_data_def store_new_def fun_eq_iff)
  ultimately show ?thesis using assms(6,7) unfolding in_log_def
    by (intro exI [of _ "store_new it ix dim"] exI [of _ stored]) (simp add: entry_fine_def log_step_def)
qed

section \<open>One refused write\<close>

text \<open>A table with one replica: the offset and the modified flag stay, whatever is logged later.\<close>

lemma sync_table_refused:
  assumes "in_log full rl e t (es @ x # later)" and "length es < 2 ^ 64" and "replica_has rl w r t dim m"
    and "\<not> entry_fits dim x m" and "offset_of offs t r = of_nat (length es)"
    and "map_of (en_persistence_manager_map e) t = Some pm"
  shows "\<exists>w'. sync_table (replica_net rl) [r] (en_disk e) (en_store_map e) (t, pm) (offs, st, w) =
      Some (mput (t, r) (of_nat (length es)) offs, st, w') \<and> replica_has rl w' r t dim m"
proof -
  obtain s k where s: "loaded rl e t s" "map_of (en_persistence_manager_map e) t = Some \<lparr>pm_table_name = t, pm_stored_index_type = k\<rparr>"
    "wal_entries k t (wal_of (en_disk e) t) = Some (es @ x # later)" "list_all (entry_fine t) (es @ x # later)"
    using assms(1) unfolding in_log_def by blast
  have pm: "pm = \<lparr>pm_table_name = t, pm_stored_index_type = k\<rparr>" using assms(6) s(2) by simp
  have "unat (of_nat (length es) :: u64) = length es" using assms(2) by (simp add: unat_of_nat)
  with SerializeWALEntries_offset [OF s(3)]
  have ser: "pm_SerializeWALEntries pm (en_disk e) (of_nat (length es)) = Some (x # later)"
    by (simp add: pm_SerializeWALEntries_def pm)
  have "list_all (entry_fine t) (x # later)" using s(4) by simp
  from sync_attempts_refused [OF ser this assms(3,4), of s "[0..<kRetryCount + 1]" False]
  obtain w' where w': "sync_attempts (replica_net rl) pm (en_disk e) s t r [0..<kRetryCount + 1] (of_nat (length es), False, w) =
      Some (of_nat (length es), True, w')" "replica_has rl w' r t dim m"
    by (auto simp: kRetryCount_def)
  have "map_of (en_store_map e) t = Some s" using s(1) by (simp add: loaded_def)
  then have "sync_table (replica_net rl) [r] (en_disk e) (en_store_map e) (t, pm) (offs, st, w) =
      Some (mput (t, r) (of_nat (length es)) offs, st, w')"
    using w'(1) assms(5) by (simp add: sync_table_def del: sync_attempts.simps upt_Suc split: option.split)
  with w'(2) show ?thesis by blast
qed

text \<open>The engine after a restart has such a log: what was there before, and a new \<open>create\<close>.\<close>

lemma restarted_in_log:
  assumes "durable rl e t" and "recoverable rl (en_disk e) t c es"
  shows "in_log False rl e t es"
proof -
  obtain s where s: "loaded rl e t s" using assms(1) by (auto simp: durable_def)
  obtain c' es' where d: "recoverable rl (en_disk e) t c' es'"
    "map_of (en_persistence_manager_map e) t = Some \<lparr>pm_table_name = t, pm_stored_index_type = config_kind c'\<rparr>"
    by (rule durableE [OF assms(1) s])
  then have "c' = c" using assms(2) by (simp add: recoverable_def)
  with d(2) s assms(2) show ?thesis unfolding in_log_def recoverable_def
    by (intro exI [of _ s] exI [of _ "config_kind c"]) simp
qed

lemma create_refused: "is_create c t ce \<Longrightarrow> \<not> entry_fits dim ce m"
  by (simp add: is_create_def entry_fits_def)

section \<open>From any point of the log\<close>

text \<open>
  A replica that has applied the first \<open>n\<close> entries of a log that starts with a \<open>create\<close>; none
  at all when it does not know the table.
\<close>

definition replica_at :: "level_fun \<Rightarrow> (string, Engine) umap \<Rightarrow> string \<Rightarrow> string \<Rightarrow> nat \<Rightarrow> WALEntry list \<Rightarrow> nat \<Rightarrow> bool" where
  "replica_at rl w r t dim ops n \<longleftrightarrow>
     (if n = 0 then \<exists>e. map_of w r = Some e \<and> \<not> md_primary (en_metadata e) \<and> \<not> en_shutdown e \<and> table_absent e t \<and> t \<noteq> []
      else replica_has rl w r t dim (log_data dim (take (n - 1) ops) Map.empty))"

definition makes_table :: "level_fun \<Rightarrow> nat \<Rightarrow> WALEntry \<Rightarrow> bool" where
  "makes_table rl dim ce \<longleftrightarrow> we_type ce = WAL_CREATE \<and>
     (case create_args (we_config ce) of (d, hc, fc, cs) \<Rightarrow> good_config rl d hc fc \<and> size_of_int d = dim)"

lemma accepted_rest:
  "accepted dim ops m = length ops \<Longrightarrow> accepted dim (drop n ops) (log_data dim (take n ops) m) = length ops - n"
proof (induction ops arbitrary: n m)
  case (Cons x ops)
  then have "entry_fits dim x m" "accepted dim ops (log_step dim x m) = length ops" by (auto split: if_splits)
  with Cons.IH [of "log_step dim x m" "n - 1"] Cons.prems show ?case by (cases n) simp_all
qed simp

lemma log_data_rest: "log_data dim (drop n ops) (log_data dim (take n ops) m) = log_data dim ops m"
  using log_data_simps(3) [of dim "take n ops" "drop n ops" m] by simp

lemma replica_create:
  fixes w :: 'w
  assumes "\<not> md_primary (en_metadata e)" and "\<not> en_shutdown e" and "table_absent e t" and "t \<noteq> []"
    and "makes_table rl dim ce" and "we_table ce = t"
  shows "\<exists>e' s. engine_ApplyWALEntry rl net ce (e, w) = Some (True, e', w) \<and> loaded rl e' t s \<and> store_dim s = dim \<and>
    store_data s = Map.empty"
proof -
  obtain d hc fc cs where c: "create_args (we_config ce) = (d, hc, fc, cs)" by (metis prod_cases4)
  obtain it stored ix where mi: "make_index hc fc = (it, stored, ix)" by (metis prod_cases3)
  have m: "we_type ce = WAL_CREATE" "good_config rl d hc fc" "size_of_int d = dim" using assms(5) c by (simp_all add: makes_table_def)
  note av = add_table_views(2) [OF mi, where t = t and dim = d and cs = cs and e = e]
  have "engine_ApplyWALEntry rl net ce (e, w) = Some (True, add_table t d hc fc cs e, w)"
    using assms m c by (simp add: engine_ApplyWALEntry_def engine_CreateTableOnReplica_def)
  moreover have "loaded rl (add_table t d hc fc cs e) t (store_new it ix d)"
    using av store_inv_new(1) [OF m(2) mi] by (simp add: loaded_def table_view_def contains_def)
  moreover have "store_dim (store_new it ix d) = dim" "store_data (store_new it ix d) = Map.empty"
    using m(3) by (simp_all add: store_dim_def store_data_def store_new_def fun_eq_iff)
  ultimately show ?thesis by blast
qed

lemma replica_at_Sync:
  assumes "replica_at rl w r t dim ops n" and "makes_table rl dim ce" and "list_all (entry_fine t) (ce # ops)"
    and "accepted dim ops Map.empty = length ops" and "n \<le> length ops"
  shows "\<exists>w'. net_Sync (replica_net rl) r (drop n (ce # ops)) w = ((True, of_nat (Suc (length ops) - n)), w') \<and>
    replica_has rl w' r t dim (log_data dim ops Map.empty)"
proof (cases n)
  case 0
  then obtain e where e: "map_of w r = Some e" "\<not> md_primary (en_metadata e)" "\<not> en_shutdown e" "table_absent e t" "t \<noteq> []"
    using assms(1) by (auto simp: replica_at_def)
  have ce: "we_table ce = t" "list_all (entry_fine t) ops" using assms(3) by (simp_all add: entry_fine_def)
  obtain e1 s1 where e1: "engine_ApplyWALEntry rl no_net ce (e, ()) = Some (True, e1, ())" "loaded rl e1 t s1" "store_dim s1 = dim"
    "store_data s1 = Map.empty" using replica_create [OF e(2-5) assms(2) ce(1), of no_net "()"] by blast
  obtain e2 s2 where e2: "service_Sync rl no_net ops (e1, ()) = Some (length ops, e2, ())" "loaded rl e2 t s2" "store_dim s2 = dim"
    "store_data s2 = log_data dim ops Map.empty"
    using service_Sync_accepts [OF e1(2) ce(2), of no_net "()"] e1(3,4) assms(4) by auto
  have "net_Sync (replica_net rl) r (drop n (ce # ops)) w = ((True, of_nat (Suc (length ops) - n)), mput r e2 w)"
    using 0 e(1) e1(1) e2(1) by (simp add: replica_net_def)
  moreover have "replica_has rl (mput r e2 w) r t dim (log_data dim ops Map.empty)"
    using e2 unfolding replica_has_def by (intro exI [of _ e2] exI [of _ s2]) simp
  ultimately show ?thesis by blast
next
  case (Suc j)
  have h: "replica_has rl w r t dim (log_data dim (take j ops) Map.empty)" using assms(1) Suc by (simp add: replica_at_def)
  have "list_all (entry_fine t) (drop j ops)" using assms(3) by (auto simp: list_all_iff dest: in_set_dropD)
  from replica_Sync [OF h this] accepted_rest [OF assms(4), of j] Suc
  show ?thesis by (simp add: log_data_rest del: drop_drop)
qed

text \<open>One synchronisation of a table with one replica.\<close>

lemma sync_table_catches_up:
  assumes "in_log True rl e t (ce # ops)" and "loaded rl e t s" and "makes_table rl (store_dim s) ce"
    and "accepted (store_dim s) ops Map.empty = length ops" and "length (ce # ops) < 2 ^ 64"
    and "replica_at rl w r t (store_dim s) ops n" and "n \<le> length ops" and "offset_of offs t r = of_nat n"
    and "map_of (en_persistence_manager_map e) t = Some pm" and "map_of st t = Some m"
  shows "\<exists>w'. sync_table (replica_net rl) [r] (en_disk e) (en_store_map e) (t, pm) (offs, st, w) =
      Some (mput (t, r) (of_nat (length (ce # ops))) offs, mput t (stats_SetModifiedFlag False m) st, w') \<and>
    replica_has rl w' r t (store_dim s) (store_data s)"
proof -
  obtain k where k: "map_of (en_persistence_manager_map e) t = Some \<lparr>pm_table_name = t, pm_stored_index_type = k\<rparr>"
    "wal_entries k t (wal_of (en_disk e) t) = Some (ce # ops)" "list_all (entry_fine t) (ce # ops)"
    "store_data s = log_data (store_dim s) (ce # ops) Map.empty"
    using in_logE [OF assms(1,2)] by metis
  have pm: "pm = \<lparr>pm_table_name = t, pm_stored_index_type = k\<rparr>" using assms(9) k(1) by simp
  let ?es = "drop n (ce # ops)"
  have n: "unat (of_nat n :: u64) = n" using assms(5,7) by (simp add: unat_of_nat)
  have ser: "pm_SerializeWALEntries pm (en_disk e) (of_nat n) = Some ?es"
    using SerializeWALEntries_offset [OF k(2), of "of_nat n"] n by (simp add: pm_SerializeWALEntries_def pm)
  have "log_step (store_dim s) ce m = m" for m using assms(3) by (simp add: makes_table_def log_step_def)
  then have data: "store_data s = log_data (store_dim s) ops Map.empty" using k(4) by simp
  obtain w' where w': "net_Sync (replica_net rl) r ?es w = ((True, of_nat (Suc (length ops) - n)), w')"
    "replica_has rl w' r t (store_dim s) (store_data s)"
    using replica_at_Sync [OF assms(6,3) k(3) assms(4,7)] data by auto
  have len: "length ?es = Suc (length ops) - n" "?es \<noteq> []" using assms(7) by simp_all
  have u: "unat (of_nat (Suc (length ops) - n) :: u64) = Suc (length ops) - n" using assms(5) by (simp add: unat_of_nat)
  have inv: "store_inv rl s" using assms(2) by (simp add: loaded_def)
  obtain c where c: "ComputeChecksum s = Some c" by (simp add: ComputeChecksum_total)
  have sum: "of_nat n + of_nat (Suc (length ops) - n) = (of_nat (Suc (length ops)) :: u64)"
    using assms(7) by (simp flip: of_nat_add)
  have "sync_attempts (replica_net rl) pm (en_disk e) s t r (0 # [1..<kRetryCount + 1]) (of_nat n, False, w) =
      Some (of_nat n + of_nat (Suc (length ops) - n), False, w')"
    using ser len w' u c replica_checksum [OF w'(2) inv] by (simp add: Let_def del: drop_Suc_Cons length_drop)
  moreover have "[0..<kRetryCount + 1] = 0 # [1..<kRetryCount + 1]" by (simp add: kRetryCount_def upt_rec)
  ultimately have "sync_attempts (replica_net rl) pm (en_disk e) s t r [0..<kRetryCount + 1] (of_nat n, False, w) =
      Some (of_nat (Suc (length ops)), False, w')" unfolding sum by simp
  moreover have "map_of (en_store_map e) t = Some s" using assms(2) by (simp add: loaded_def)
  ultimately have "sync_table (replica_net rl) [r] (en_disk e) (en_store_map e) (t, pm) (offs, st, w) =
      Some (mput (t, r) (of_nat (Suc (length ops))) offs, mput t (stats_SetModifiedFlag False m) st, w')"
    using assms(8,10) by (simp add: sync_table_def del: sync_attempts.simps upt_Suc)
  with w'(2) show ?thesis by (intro exI [of _ w']) simp
qed

end
