(* ===== verification/ConcurrentWrites.thy ===== *)
theory ConcurrentWrites
  imports Cluster
begin

text \<open>
  Writers of one table at the same time. \<open>Insert\<close> and \<open>Remove\<close> hold the mutex of the engine shared, so
  two of them interleave between the append to the log, under the mutex of the log, and the
  change of the store, under the mutex of the store: a step relation with these two sections.
  The counters and the cache have mutexes of their own; their updates are with the second.
  Writes of different records may interleave as they like; of one record they may not.
\<close>

section \<open>The two sections of a write\<close>

datatype Write = WriteInsert Id vector string | WriteRemove Id

fun append_write :: "string \<Rightarrow> Write \<Rightarrow> Engine \<Rightarrow> Engine" where
  "append_write t (WriteInsert i v content) e = upd_disk (pm_AppendInsert (mref (en_persistence_manager_map e) t) i v content) e"
| "append_write t (WriteRemove i) e = upd_disk (pm_AppendRemove (mref (en_persistence_manager_map e) t) i) e"

fun store_write :: "level_fun \<Rightarrow> string \<Rightarrow> Write \<Rightarrow> Engine \<Rightarrow> (bool \<times> Engine) option" where
  "store_write rl t (WriteInsert i v content) e =
     (case store_Insert rl (mref (en_store_map e) t) i v content of
        None \<Rightarrow> None
      | Some (ok, s) \<Rightarrow>
          (let e2 = set_store t s e
           in Some (ok, if ok
               then upd_metrics t (metrics_Increment INSERT 1)
                      (upd_stats t (stats_Increment VECTOR) (upd_stats t (stats_SetModifiedFlag True) e2))
               else e2)))"
| "store_write rl t (WriteRemove i) e =
     (let (ok, s) = store_Remove (mref (en_store_map e) t) i; e2 = set_store t s e
      in Some (ok, if ok
          then upd_metrics t (metrics_Increment REMOVE 1)
                 (upd_stats t (stats_Increment STALE) (upd_stats t (stats_Increment DELETED)
                   (upd_stats t (stats_SetRemovedFlag True) (upd_stats t (stats_SetModifiedFlag True) e2))))
          else e2))"

text \<open>One after the other they are the steps of the sequential model.\<close>

lemma write_sections:
  "insert_step rl t i v content e = store_write rl t (WriteInsert i v content) (append_write t (WriteInsert i v content) e)"
  "Some (remove_step t i e) = store_write rl t (WriteRemove i) (append_write t (WriteRemove i) e)"
  by (simp_all add: insert_step_def remove_step_def Let_def split: prod.splits)

section \<open>Interleaving\<close>

datatype Writer = AtLog Write | AtStore Write | Written bool

inductive write_step :: "level_fun \<Rightarrow> string \<Rightarrow> Engine \<times> Writer list \<Rightarrow> Engine \<times> Writer list \<Rightarrow> bool" for rl t where
  log: "j < length ws \<Longrightarrow> ws ! j = AtLog w \<Longrightarrow> write_step rl t (e, ws) (append_write t w e, ws[j := AtStore w])"
| store: "j < length ws \<Longrightarrow> ws ! j = AtStore w \<Longrightarrow> store_write rl t w e = Some (ok, e') \<Longrightarrow>
    write_step rl t (e, ws) (e', ws[j := Written ok])"

abbreviation write_steps :: "level_fun \<Rightarrow> string \<Rightarrow> Engine \<times> Writer list \<Rightarrow> Engine \<times> Writer list \<Rightarrow> bool" where
  "write_steps rl t \<equiv> (write_step rl t)\<^sup>*\<^sup>*"

fun write_entry :: "string \<Rightarrow> Write \<Rightarrow> WALEntry" where
  "write_entry t (WriteInsert i v content) = \<lparr>we_type = WAL_INSERT, we_table = t, we_config = InsertConfig i v content\<rparr>"
| "write_entry t (WriteRemove i) = \<lparr>we_type = WAL_REMOVE, we_table = t, we_config = RemoveConfig i\<rparr>"

fun write_line :: "Write \<Rightarrow> string" where
  "write_line (WriteInsert i v content) = insert_line i v content"
| "write_line (WriteRemove i) = remove_line i"

fun write_id :: "Write \<Rightarrow> Id" where
  "write_id (WriteInsert i v content) = i"
| "write_id (WriteRemove i) = i"

fun write_fine :: "Write \<Rightarrow> bool" where
  "write_fine (WriteInsert i v content) \<longleftrightarrow> list_all wal_stable v \<and> newline \<notin> set content"
| "write_fine (WriteRemove i) \<longleftrightarrow> True"

lemma write_line_ok:
  assumes "write_fine w"
  shows "newline \<notin> set (write_line w)" and "parse_line k t (write_line w) = Some (write_entry t w)" and "entry_fine t (write_entry t w)"
  using assms insert_line_no_newline remove_line_no_newline parse_insert_line parse_remove_line wal_stable_finite
  by (cases w; simp add: entry_fine_def insert_args_def)+

lemma append_write_ok:
  assumes "in_log False rl e t es" and "loaded rl e t s" and "write_fine w"
  shows "in_log False rl (append_write t w e) t (es @ [write_entry t w])" and "loaded rl (append_write t w e) t s"
proof -
  show l: "loaded rl (append_write t w e) t s" using assms(2) by (cases w) (simp_all add: loaded_def)
  obtain k where k: "map_of (en_persistence_manager_map e) t = Some \<lparr>pm_table_name = t, pm_stored_index_type = k\<rparr>"
    "terminated (wal_of (en_disk e) t)" "wal_entries k t (wal_of (en_disk e) t) = Some es" "list_all (entry_fine t) es"
    by (rule in_logE [OF assms(1,2)])
  have wal: "wal_of (en_disk (append_write t w e)) t = wal_of (en_disk e) t @ write_line w @ [newline]"
    using k(1) by (cases w) (simp_all add: wal_of_Append wal_AppendInsert_line wal_AppendRemove_line)
  have "wal_entries k t (wal_of (en_disk (append_write t w e)) t) = Some (es @ [write_entry t w])"
    unfolding wal by (rule wal_entries_line [OF k(2) write_line_ok(1) [OF assms(3)] k(3) write_line_ok(2) [OF assms(3)]])
  moreover have "map_of (en_persistence_manager_map (append_write t w e)) t = Some \<lparr>pm_table_name = t, pm_stored_index_type = k\<rparr>"
    using k(1) by (cases w) simp_all
  moreover have "terminated (wal_of (en_disk (append_write t w e)) t)" unfolding wal by (rule terminated_append)
  ultimately show "in_log False rl (append_write t w e) t (es @ [write_entry t w])"
    using l k(4) write_line_ok(3) [OF assms(3)] unfolding in_log_def by (intro exI [of _ s] exI [of _ k]) simp
qed

lemma store_write_ok:
  assumes "in_log False rl e t es" and "loaded rl e t s" and "write_fine w"
  shows "\<exists>ok e' s'. store_write rl t w e = Some (ok, e') \<and> in_log False rl e' t es \<and> loaded rl e' t s' \<and>
    store_dim s' = store_dim s \<and> store_data s' = log_step (store_dim s) (write_entry t w) (store_data s) \<and>
    (\<forall>i v content. w = WriteInsert i v content \<longrightarrow> ok = takes s i v)"
proof -
  have l: "map_of (en_store_map e) t = Some s" "store_inv rl s" "contains (en_stats_manager_map e) t"
    using assms(2) by (simp_all add: loaded_def)
  have "\<exists>ok e' s'. store_write rl t w e = Some (ok, e') \<and> loaded rl e' t s' \<and> en_disk e' = en_disk e \<and>
      en_persistence_manager_map e' = en_persistence_manager_map e \<and>
      store_dim s' = store_dim s \<and> store_data s' = log_step (store_dim s) (write_entry t w) (store_data s) \<and>
      (\<forall>i v content. w = WriteInsert i v content \<longrightarrow> ok = takes s i v)"
  proof (cases w)
    case (WriteInsert i v content)
    have "finite_vec v" using assms(3) WriteInsert by (simp add: wal_stable_finite)
    from store_Insert_takes [OF l(2) this, of i content] obtain s' where
      "store_Insert rl s i v content = Some (takes s i v, s')" "store_inv rl s'"
      "store_data s' = (if takes s i v then (store_data s)(i \<mapsto> (v, content)) else store_data s)"
      "vs_vector_dimensionality s' = vs_vector_dimensionality s" by blast
    moreover define e' where "e' = (if takes s i v then upd_metrics t (metrics_Increment INSERT 1)
        (upd_stats t (stats_Increment VECTOR) (upd_stats t (stats_SetModifiedFlag True) (set_store t s' e))) else set_store t s' e)"
    ultimately show ?thesis using WriteInsert l
      by (intro exI [of _ "takes s i v"] exI [of _ e'] exI [of _ s'])
        (simp add: Let_def e'_def loaded_def log_step_def insert_args_def put_data_def takes_data store_dim_def)
  next
    case (WriteRemove i)
    obtain ok s' where r: "store_Remove s i = (ok, s')" by fastforce
    define e' where "e' = (if ok then upd_metrics t (metrics_Increment REMOVE 1) (upd_stats t (stats_Increment STALE)
        (upd_stats t (stats_Increment DELETED) (upd_stats t (stats_SetRemovedFlag True)
        (upd_stats t (stats_SetModifiedFlag True) (set_store t s' e))))) else set_store t s' e)"
    show ?thesis using WriteRemove l r store_Remove_data [OF l(2) r]
      by (intro exI [of _ ok] exI [of _ e'] exI [of _ s'])
        (simp add: Let_def e'_def loaded_def log_step_def remove_args_def store_dim_def)
  qed
  then obtain ok e' s' where e': "store_write rl t w e = Some (ok, e')" "loaded rl e' t s'" "en_disk e' = en_disk e"
    "en_persistence_manager_map e' = en_persistence_manager_map e" "store_dim s' = store_dim s"
    "store_data s' = log_step (store_dim s) (write_entry t w) (store_data s)"
    "\<forall>i v content. w = WriteInsert i v content \<longrightarrow> ok = takes s i v" by blast
  have "in_log False rl e' t es"
    using in_logE [OF assms(1,2)] e'(2-4) unfolding in_log_def by (metis (no_types, lifting))
  with e' show ?thesis by blast
qed

section \<open>Writes of different records\<close>

fun at_log :: "Writer \<Rightarrow> Write multiset" where
  "at_log (AtLog w) = {#w#}"
| "at_log _ = {#}"

fun at_store :: "Writer \<Rightarrow> Write multiset" where
  "at_store (AtStore w) = {#w#}"
| "at_store _ = {#}"

text \<open>
  \<open>L\<close> are the writes of the log, in its order, and \<open>A\<close> those of the store, in the order they came.
\<close>

definition racing :: "level_fun \<Rightarrow> string \<Rightarrow> WALEntry list \<Rightarrow> VectorStore \<Rightarrow> Write multiset \<Rightarrow> Engine \<times> Writer list \<Rightarrow> bool" where
  "racing rl t es s0 W ew \<longleftrightarrow> (\<exists>L A s. in_log False rl (fst ew) t (es @ map (write_entry t) L) \<and> loaded rl (fst ew) t s \<and>
     store_dim s = store_dim s0 \<and> store_data s = log_data (store_dim s0) (map (write_entry t) A) (store_data s0) \<and>
     mset L = mset A + sum_list (map at_store (snd ew)) \<and> W = mset L + sum_list (map at_log (snd ew)))"

lemma racing_step:
  assumes "write_step rl t ew ew'" and "racing rl t es s0 W ew" and "\<forall>w \<in># W. write_fine w"
  shows "racing rl t es s0 W ew'"
proof -
  obtain L A s where r: "in_log False rl (fst ew) t (es @ map (write_entry t) L)" "loaded rl (fst ew) t s" "store_dim s = store_dim s0"
    "store_data s = log_data (store_dim s0) (map (write_entry t) A) (store_data s0)"
    "mset L = mset A + sum_list (map at_store (snd ew))" "W = mset L + sum_list (map at_log (snd ew))"
    using assms(2) unfolding racing_def by blast
  from assms(1) show ?thesis
  proof cases
    case (log j ws w e)
    note mv = sum_list_moved [OF log(3), of at_log "AtStore w"] sum_list_moved [OF log(3), of at_store "AtStore w"]
    have "w \<in># mset L + sum_list (map at_log ws)" using nth_mem [OF log(3)] log(4) by (auto intro!: bexI [of _ "ws ! j"])
    then have "w \<in># W" using r(6) log(1) by simp
    then have f: "write_fine w" using assms(3) by blast
    note a = append_write_ok [OF r(1,2) f]
    have "racing rl t es s0 W (append_write t w e, ws[j := AtStore w])"
      unfolding racing_def using a r mv log(1,4)
      by (intro exI [of _ "L @ [w]"] exI [of _ A] exI [of _ s]) (simp add: ac_simps)
    then show ?thesis using log(2) by simp
  next
    case (store j ws w e ok e')
    note mv = sum_list_moved [OF store(3), of at_log "Written ok"] sum_list_moved [OF store(3), of at_store "Written ok"]
    have "w \<in># mset A + sum_list (map at_store ws)" using nth_mem [OF store(3)] store(4) by (auto intro!: bexI [of _ "ws ! j"])
    then have "w \<in># mset L" using r(5) store(1) by simp
    then have f: "write_fine w" using assms(3) r(6) by simp
    from store_write_ok [OF r(1,2) f] store(1,5) obtain s' where s': "in_log False rl e' t (es @ map (write_entry t) L)" "loaded rl e' t s'"
      "store_dim s' = store_dim s" "store_data s' = log_step (store_dim s) (write_entry t w) (store_data s)" by auto
    have "racing rl t es s0 W (e', ws[j := Written ok])"
      unfolding racing_def using s' r mv store(1,4)
      by (intro exI [of _ L] exI [of _ "A @ [w]"] exI [of _ s']) (simp add: ac_simps)
    then show ?thesis using store(2) by simp
  qed
qed

lemma racing_steps:
  assumes "write_steps rl t ew ew'" and "racing rl t es s0 W ew" and "\<forall>w \<in># W. write_fine w"
  shows "racing rl t es s0 W ew'"
  using assms by (induction rule: rtranclp_induct) (blast intro: racing_step)+

lemma log_step_commute:
  assumes "write_id x \<noteq> write_id y"
  shows "log_step dim (write_entry t x) (log_step dim (write_entry t y) m) = log_step dim (write_entry t y) (log_step dim (write_entry t x) m)"
  using assms by (cases x; cases y) (auto simp: log_step_def insert_args_def remove_args_def put_data_def fun_upd_twist)

lemma log_data_permuted:
  assumes "mset xs = mset ys" and "distinct (map write_id xs)"
  shows "log_data dim (map (write_entry t) xs) m = log_data dim (map (write_entry t) ys) m"
proof -
  have "fold (log_step dim \<circ> write_entry t) xs = fold (log_step dim \<circ> write_entry t) ys"
  proof (rule fold_multiset_equiv [OF _ assms(1)])
    fix x y assume xy: "x \<in> set xs" "y \<in> set xs"
    show "(log_step dim \<circ> write_entry t) x \<circ> (log_step dim \<circ> write_entry t) y = (log_step dim \<circ> write_entry t) y \<circ> (log_step dim \<circ> write_entry t) x"
    proof (cases "x = y")
      case False
      then have "write_id x \<noteq> write_id y" using assms(2) xy by (auto simp: distinct_map inj_on_def)
      then show ?thesis by (simp add: fun_eq_iff log_step_commute)
    qed simp
  qed
  then show ?thesis by (simp add: log_data_def fold_map)
qed

lemma writers_done:
  assumes "\<forall>x \<in> set ws. \<exists>ok. x = Written ok"
  shows "sum_list (map at_store ws) = {#}" and "sum_list (map at_log ws) = {#}"
  using assms by (auto intro!: sum_list_nothing)

lemma writers_start: "sum_list (map at_store (map AtLog xs)) = {#}" "sum_list (map at_log (map AtLog xs)) = mset xs"
  by (induction xs) simp_all

lemma distinct_writes_agree:
  assumes "in_log full rl e t es" and "loaded rl e t s" and "\<forall>w \<in> set xs. write_fine w" and "distinct (map write_id xs)"
    and "write_steps rl t (e, map AtLog xs) (e', ws)" and "\<forall>x \<in> set ws. \<exists>ok. x = Written ok"
  shows "\<exists>L s'. mset L = mset xs \<and> in_log full rl e' t (es @ map (write_entry t) L) \<and> loaded rl e' t s' \<and>
    store_data s' = log_data (store_dim s) (map (write_entry t) L) (store_data s)"
proof -
  have "in_log False rl e t es" using assms(1) by (auto simp: in_log_def)
  have "racing rl t es s (mset xs) (e, map AtLog xs)"
    unfolding racing_def using \<open>in_log False rl e t es\<close> assms(2) writers_start [of xs]
    by (intro exI [of _ "[]"] exI [of _ "[]"] exI [of _ s]) simp
  from racing_steps [OF assms(5) this] assms(3) obtain L A s' where r: "in_log False rl e' t (es @ map (write_entry t) L)"
    "loaded rl e' t s'" "store_data s' = log_data (store_dim s) (map (write_entry t) A) (store_data s)"
    "mset L = mset A" "mset xs = mset L" "store_dim s' = store_dim s"
    unfolding racing_def using writers_done [OF assms(6)] by auto
  have "distinct (map write_id L)" using assms(4) r(5) by (metis mset_map mset_eq_imp_distinct_iff)
  then have d: "store_data s' = log_data (store_dim s) (map (write_entry t) L) (store_data s)"
    using log_data_permuted [OF r(4)] r(3) by simp
  have "full \<longrightarrow> store_data s = log_data (store_dim s) es Map.empty" using assms(1,2) by (auto simp: in_log_def loaded_def)
  then have "in_log full rl e' t (es @ map (write_entry t) L)" using r(1,2,6) d by (auto simp: in_log_def loaded_def)
  with r(2,5) d show ?thesis by (intro exI [of _ L] exI [of _ s']) simp
qed

section \<open>Two insertions of one record\<close>

lemma four_steps: "r a b \<Longrightarrow> r b c \<Longrightarrow> r c d \<Longrightarrow> r d z \<Longrightarrow> r\<^sup>*\<^sup>* a z"
  by (meson converse_rtranclp_into_rtranclp rtranclp.rtrancl_refl)

text \<open>Log first, first; log second; store second; store first.\<close>

lemma same_record_run:
  assumes "in_log False rl e t es" and "loaded rl e t s" and "store_data s i = None"
    and "write_fine (WriteInsert i v c)" and "write_fine (WriteInsert i v' c')"
    and "length v = store_dim s" and "length v' = store_dim s"
  shows "\<exists>e' s'. write_steps rl t (e, [AtLog (WriteInsert i v c), AtLog (WriteInsert i v' c')]) (e', [Written False, Written True]) \<and>
    in_log False rl e' t (es @ map (write_entry t) [WriteInsert i v c, WriteInsert i v' c']) \<and> loaded rl e' t s' \<and>
    store_data s' i = Some (v', c') \<and>
    log_data (store_dim s) (map (write_entry t) [WriteInsert i v c, WriteInsert i v' c']) (store_data s) i = Some (v, c)"
proof -
  let ?x = "WriteInsert i v c" and ?y = "WriteInsert i v' c'"
  define e1 where "e1 = append_write t ?x e"
  define e2 where "e2 = append_write t ?y e1"
  note a1 = append_write_ok [OF assms(1,2,4), folded e1_def]
  note a2 = append_write_ok [OF a1 assms(5), folded e2_def]
  obtain e3 s3 where e3: "store_write rl t ?y e2 = Some (takes s i v', e3)" "in_log False rl e3 t ((es @ [write_entry t ?x]) @ [write_entry t ?y])"
    "loaded rl e3 t s3" "store_dim s3 = store_dim s" "store_data s3 = log_step (store_dim s) (write_entry t ?y) (store_data s)"
    using store_write_ok [OF a2 assms(5)] by blast
  obtain e4 s4 where e4: "store_write rl t ?x e3 = Some (takes s3 i v, e4)" "in_log False rl e4 t ((es @ [write_entry t ?x]) @ [write_entry t ?y])"
    "loaded rl e4 t s4" "store_data s4 = log_step (store_dim s3) (write_entry t ?x) (store_data s3)"
    using store_write_ok [OF e3(2,3) assms(4)] by blast
  have t: "takes s i v'" "\<not> takes s3 i v"
    using assms(3,7) e3(5) by (auto simp: takes_data log_step_def insert_args_def put_data_def)
  have "write_steps rl t (e, [AtLog ?x, AtLog ?y]) (e4, [Written False, Written True])"
  proof -
    have s1: "write_step rl t (e, [AtLog ?x, AtLog ?y]) (e1, [AtStore ?x, AtLog ?y])"
      using write_step.log [of 0 "[AtLog ?x, AtLog ?y]" ?x rl t e] by (simp add: e1_def)
    have s2: "write_step rl t (e1, [AtStore ?x, AtLog ?y]) (e2, [AtStore ?x, AtStore ?y])"
      using write_step.log [of 1 "[AtStore ?x, AtLog ?y]" ?y rl t e1] by (simp add: e2_def)
    have s3: "write_step rl t (e2, [AtStore ?x, AtStore ?y]) (e3, [AtStore ?x, Written True])"
      using write_step.store [of 1 "[AtStore ?x, AtStore ?y]" ?y rl t e2, OF _ _ e3(1)] t(1) by simp
    have s4: "write_step rl t (e3, [AtStore ?x, Written True]) (e4, [Written False, Written True])"
      using write_step.store [of 0 "[AtStore ?x, Written True]" ?x rl t e3, OF _ _ e4(1)] t(2) by simp
    show ?thesis
      by (rule four_steps [where r = "write_step rl t", OF s1 s2 s3 s4])
  qed
  moreover have "store_data s4 i = Some (v', c')"
    using assms(3,7) e3(4,5) e4(4) by (simp add: log_step_def insert_args_def put_data_def)
  moreover have "log_data (store_dim s) (map (write_entry t) [?x, ?y]) (store_data s) i = Some (v, c)"
    using assms(3,6) by (simp add: log_step_def insert_args_def put_data_def)
  ultimately show ?thesis using e4(2,3) by (intro exI [of _ e4] exI [of _ s4]) simp
qed

end
