(* ===== verification/ClusterProperties.thy ===== *)
theory ClusterProperties
  imports Cluster ConcurrentWrites RecoveryProperties
begin

text \<open>
  The properties of a primary with its replicas: when a replica gets all of the data, and what
  stops it for good.
\<close>

section \<open>A sample primary and a sample replica\<close>


definition sample_entry :: WALEntry where
  "sample_entry = \<lparr>we_type = WAL_INSERT, we_table = ''u'', we_config = InsertConfig 7 [f32_one] ''c''\<rparr>"

definition sample_create :: WALEntry where
  "sample_create = \<lparr>we_type = WAL_CREATE, we_table = ''u'', we_config = CreateConfig 1 (FlatConfig sample_fc) 4\<rparr>"

lemma sample_index: "make_index default_hnsw_config sample_fc = (FLAT, STORED_FLAT, FlatIx (flat_new sample_fc))"
  by (simp add: make_index_def wants_hnsw_def default_hnsw_config_def)

text \<open>The primary that has made the table and inserted one vector.\<close>

lemma sample_primary:
  "\<exists>e0 ok e s. engine_CreateTable empty_engine ''u'' 1 default_hnsw_config sample_fc 4 = (True, e0) \<and>
     insert_step rl ''u'' 7 [f32_one] ''c'' e0 = Some (ok, e) \<and> loaded rl e ''u'' s \<and> store_dim s = 1 \<and>
     store_data s = [7 \<mapsto> ([f32_one], ''c'')] \<and> in_log full rl e ''u'' [sample_create, sample_entry] \<and> pm_named e ''u''"
proof -
  have "table_absent empty_engine ''u''" by (simp add: table_absent_def empty_engine_def engine_init_def)
  moreover have "ValidateCreateTable ''u'' 1 default_hnsw_config sample_fc (unat (4 :: u64))"
    by (simp add: ValidateCreateTable_iff hnsw_config_empty_def default_hnsw_config_def sample_fc_def)
  moreover have "md_primary (en_metadata empty_engine)" "\<not> en_shutdown empty_engine" by (simp_all add: empty_engine_def engine_init_def sample_md_def)
  ultimately obtain e0 where e0: "engine_CreateTable empty_engine ''u'' 1 default_hnsw_config sample_fc 4 = (True, e0)"
    using engine_CreateTable_shape [of empty_engine "''u''" 1 default_hnsw_config sample_fc 4] by blast
  have p: "parse_line STORED_FLAT ''u'' (create_line STORED_FLAT default_hnsw_config sample_fc 4) = Some sample_create"
    using parse_create_flat [of sample_fc "''u''" default_hnsw_config 4] by (simp add: sample_create_def sample_fc_def)
  have n: "newline \<notin> set (create_line STORED_FLAT default_hnsw_config sample_fc 4)"
    using config_line_no_newline [of "(1, default_hnsw_config, sample_fc, 4)"] by (simp add: config_line_def config_kind_def sample_index)
  have "wal_of (en_disk empty_engine) ''u'' = []" by (simp add: wal_of_def files_of_def no_files_def empty_engine_def engine_init_def)
  then have log0: "in_log f rl e0 ''u'' [sample_create]" for f
    using in_log_create [OF e0 sample_good_config] p n by (simp add: sample_index sample_create_def)
  from log0 [of True] obtain s0 where s0: "loaded rl e0 ''u'' s0" "store_data s0 = Map.empty" "pm_named e0 ''u''"
    by (auto simp: in_log_def pm_named_def sample_create_def log_step_def)
  have "map_of (en_store_map e0) ''u'' = Some (store_new FLAT (FlatIx (flat_new sample_fc)) 1)"
    using e0 by (auto simp: engine_CreateTable_def add_table_def sample_index split: prod.splits if_splits)
  then have dim: "store_dim s0 = 1" using s0(1) by (auto simp: loaded_def store_dim_def store_new_def)
  obtain ok e s where st: "insert_step rl ''u'' 7 [f32_one] ''c'' e0 = Some (ok, e)" "loaded rl e ''u'' s"
    and wr: "wrote ''u'' e0 s0 (insert_line 7 [f32_one] ''c'') sample_entry e s"
    using insert_step_wrote [OF s0(1,3) sample_finite(1), of 7 "''c''"] unfolding sample_entry_def by blast
  have stable: "list_all wal_stable [f32_one]" using sample_wal_stable by simp
  have "parse_line k ''u'' (insert_line 7 [f32_one] ''c'') = Some sample_entry" for k
    unfolding sample_entry_def by (rule parse_insert_line [OF stable])
  moreover have "newline \<notin> set (insert_line 7 [f32_one] ''c'')" by (rule insert_line_no_newline) simp
  moreover have "entry_fine ''u'' sample_entry" by (simp add: entry_fine_def sample_entry_def insert_args_def)
  ultimately have "in_log full rl e ''u'' ([sample_create] @ [sample_entry])"
    by (intro in_log_wrote [OF log0 s0(1) wr st(2)])
  moreover have "store_data s = [7 \<mapsto> ([f32_one], ''c'')]" "store_dim s = 1"
    using wr s0(2) dim by (simp_all add: wrote_def log_step_def sample_entry_def insert_args_def put_data_def)
  moreover have "pm_named e ''u''" using wr s0(3) by (simp add: wrote_def pm_named_def)
  ultimately show ?thesis using e0 st by (intro exI [of _ e0] exI [of _ ok] exI [of _ e] exI [of _ s]) simp
qed


section \<open>Catching up\<close>




section \<open>Stopped for good\<close>



text \<open>C33: after a shutdown the offsets of the replicas are forgotten and the log starts with the \<open>create\<close> that
  the next start writes: a replica that has the table refuses it, so that nothing written
  after a restart of the primary ever reaches the replica.\<close>

theorem restart_blocks_replica:
  fixes net :: "'w Net" and w :: 'w
  assumes "distinct (keys (en_disk e))" and "distinct (keys (en_store_map e))"
    and "\<forall>t. if contains (en_store_map e) t then shut_ok rl e t else unsaved (en_disk e) t"
    and "logs_readable (en_persistence_manager_map e) (en_disk e)" and "md_primary md"
    and "contains (en_store_map e) t" and "\<forall>x \<in> set xs. op_table x = t \<and> op_fine rl x \<and> \<not> creates x"
    and "replica_has rl v r t dim m"
  shows "\<exists>e1 w1 e2 e3 pm. engine_shutdown rl net latency (e, w) = Some (e1, w1) \<and>
    engine_start rl net junk md (en_disk e1) w1 = Some (e2, w1) \<and> for_each (run_op rl) xs e2 = Some e3 \<and>
    map_of (en_persistence_manager_map e3) t = Some pm \<and>
    (\<exists>v'. sync_table (replica_net rl) [r] (en_disk e3) (en_store_map e3) (t, pm) (en_wal_offsets e2, st, v) =
       Some ([((t, r), 0)], st, v') \<and> replica_has rl v' r t dim m)"
proof -
  obtain e1 w1 e2 where e12: "engine_shutdown rl net latency (e, w) = Some (e1, w1)"
    "engine_start rl net junk md (en_disk e1) w1 = Some (e2, w1)" "settled rl e2" "en_wal_offsets e2 = []"
    "\<forall>t. contains (en_store_map e) t \<longrightarrow> (\<exists>c ce. is_create c t ce \<and> recoverable rl (en_disk e2) t c [ce])"
    using clean_restart_data [OF assms(1-5), of net latency w junk] by blast
  obtain c ce where c: "is_create c t ce" "recoverable rl (en_disk e2) t c [ce]" using e12(5) assms(6) by blast
  have "durable rl e2 t"
    using e12(3) recoverable_saved [OF c(2)] by (auto simp: settled_def settled_table_def split: if_splits)
  from restarted_in_log [OF this c(2)] have "\<exists>later. in_log False rl e2 t ([ce] @ later)" by (intro exI [of _ "[]"]) simp
  from logged.run_ops_inv [OF this assms(7)] obtain e3 later where
    e3: "for_each (run_op rl) xs e2 = Some e3" "in_log False rl e3 t ([] @ ce # later)" by auto
  then obtain k where k: "map_of (en_persistence_manager_map e3) t = Some \<lparr>pm_table_name = t, pm_stored_index_type = k\<rparr>"
    "wal_entries k t (wal_of (en_disk e3) t) = Some ([] @ ce # later)" unfolding in_log_def by blast
  have o: "offset_of (en_wal_offsets e2) t r = of_nat (length [])" by (simp add: e12(4) offset_of_def)
  have "length [] < (2 ^ 64 :: nat)" by simp
  from sync_table_refused [OF e3(2) this assms(8) create_refused [OF c(1)] o k(1), of st]
  have "\<exists>v'. sync_table (replica_net rl) [r] (en_disk e3) (en_store_map e3) (t, \<lparr>pm_table_name = t, pm_stored_index_type = k\<rparr>)
        (en_wal_offsets e2, st, v) = Some ([((t, r), 0)], st, v') \<and> replica_has rl v' r t dim m"
    by (simp add: e12(4))
  with e12(1,2) e3(1) k(1) show ?thesis by blast
qed

lemma restart_blocks_replica_witness:
  "\<exists>e1 w1 e2 e3 pm v v'. engine_shutdown ground_level sample_silent_net f32_zero (sample_running, ()) = Some (e1, w1) \<and>
    engine_start ground_level sample_silent_net (0, 0) sample_md (en_disk e1) w1 = Some (e2, w1) \<and>
    for_each (run_op ground_level) [OpRemove ''t'' 1] e2 = Some e3 \<and>
    sync_table (replica_net ground_level) [''r''] (en_disk e3) (en_store_map e3) (''t'', pm) (en_wal_offsets e2, [], v) =
      Some ([((''t'', ''r''), 0)], [], v')"
proof -
  have d: "distinct (keys (en_disk sample_running))" "distinct (keys (en_store_map sample_running))"
    by (simp_all add: sample_running_def)
  have t: "\<forall>t. if contains (en_store_map sample_running) t then shut_ok ground_level sample_running t else unsaved (en_disk sample_running) t"
    using sample_shut_ok [of ground_level] by (auto simp: sample_running_def contains_iff unsaved_def files_of_def no_files_def)
  have l: "logs_readable (en_persistence_manager_map sample_running) (en_disk sample_running)"
    by (simp add: logs_readable_def sample_running_def sample_engine_def sample_pm_def wal_of_def files_of_def wal_entries_def)
  have c: "contains (en_store_map sample_running) ''t''" by (simp add: sample_running_def contains_iff)
  have ops: "\<forall>x \<in> set [OpRemove ''t'' 1]. op_table x = ''t'' \<and> op_fine ground_level x \<and> \<not> creates x" by (simp add: creates_def)
  have "loaded ground_level sample_running ''t'' sample_store"
    using sample_store_inv(1) by (simp add: loaded_def sample_running_def sample_engine_def contains_iff)
  then have r: "replica_has ground_level [(''r'', sample_running)] ''r'' ''t'' (store_dim sample_store) (store_data sample_store)"
    by (auto simp: replica_has_def)
  show ?thesis
    using restart_blocks_replica [OF d t l _ c ops r, of sample_md sample_silent_net f32_zero "()" "(0, 0)" "[]"]
    by fastforce
qed

section \<open>Writers at the same time\<close>

text \<open>C16: clients that insert and remove different records of one table at the same time, in any interleaving
  of their appends to the log and their changes of the store: once all have returned, the log has one
  more entry for each of them, in some order, and the store has changed as these entries, replayed in
  that order, say. If the log told the whole table before (\<open>full\<close>), it tells the whole table after. The
  numbers of the vectors are finite and survive the six digits of the log, and contents have no line
  break (\<open>write_fine\<close>); the log up to then can be parsed.\<close>

theorem concurrent_writes_logged:
  assumes "in_log full rl e t es" and "loaded rl e t s" and "\<forall>w \<in> set xs. write_fine w" and "distinct (map write_id xs)"
    and "write_steps rl t (e, map AtLog xs) (e', ws)" and "\<forall>x \<in> set ws. \<exists>ok. x = Written ok"
  shows "\<exists>L s'. mset L = mset xs \<and> in_log full rl e' t (es @ map (write_entry t) L) \<and> loaded rl e' t s' \<and>
    store_data s' = log_data (store_dim s) (map (write_entry t) L) (store_data s)"
  by (rule distinct_writes_agree [OF assms])

lemma concurrent_writes_logged_witness:
  "\<exists>(e :: Engine) e' ws L. write_steps ground_level ''u'' (e, map AtLog [WriteInsert 8 [f32_one] ''d'', WriteRemove 7]) (e', ws) \<and>
    mset L = mset [WriteInsert 8 [f32_one] ''d'', WriteRemove 7] \<and>
    in_log True ground_level e' ''u'' ([sample_create, sample_entry] @ map (write_entry ''u'') L)"
proof -
  let ?x = "WriteInsert 8 [f32_one] ''d''" and ?y = "WriteRemove 7"
  obtain e s where e: "loaded ground_level e ''u'' s" "in_log True ground_level e ''u'' [sample_create, sample_entry]"
    using sample_primary [of ground_level True] by blast
  have weak: "in_log False ground_level e ''u'' [sample_create, sample_entry]" using e(2) by (auto simp: in_log_def)
  have f: "\<forall>w \<in> set [?x, ?y]. write_fine w" using sample_wal_stable by simp
  define e1 where "e1 = append_write ''u'' ?x e"
  note a1 = append_write_ok [OF weak e(1), of ?x, folded e1_def]
  have s1: "write_step ground_level ''u'' (e, [AtLog ?x, AtLog ?y]) (e1, [AtStore ?x, AtLog ?y])"
    using write_step.log [of 0 "[AtLog ?x, AtLog ?y]" ?x ground_level "''u''" e] by (simp add: e1_def)
  define e2 where "e2 = append_write ''u'' ?y e1"
  note a2 = append_write_ok [OF a1, of ?y, folded e2_def]
  have s2: "write_step ground_level ''u'' (e1, [AtStore ?x, AtLog ?y]) (e2, [AtStore ?x, AtStore ?y])"
    using write_step.log [of 1 "[AtStore ?x, AtLog ?y]" ?y ground_level "''u''" e1] by (simp add: e2_def)
  obtain ok e3 s3 where e3: "store_write ground_level ''u'' ?y e2 = Some (ok, e3)"
    "in_log False ground_level e3 ''u'' (([sample_create, sample_entry] @ [write_entry ''u'' ?x]) @ [write_entry ''u'' ?y])"
    "loaded ground_level e3 ''u'' s3" using store_write_ok [OF a2, of ?y] f by auto
  have s3: "write_step ground_level ''u'' (e2, [AtStore ?x, AtStore ?y]) (e3, [AtStore ?x, Written ok])"
    using write_step.store [of 1 "[AtStore ?x, AtStore ?y]" ?y ground_level "''u''" e2, OF _ _ e3(1)] by simp
  obtain ok' e4 where e4: "store_write ground_level ''u'' ?x e3 = Some (ok', e4)" using store_write_ok [OF e3(2,3), of ?x] f by auto
  have s4: "write_step ground_level ''u'' (e3, [AtStore ?x, Written ok]) (e4, [Written ok', Written ok])"
    using write_step.store [of 0 "[AtStore ?x, Written ok]" ?x ground_level "''u''" e3, OF _ _ e4] by simp
  have run: "write_steps ground_level ''u'' (e, map AtLog [?x, ?y]) (e4, [Written ok', Written ok])"
    using four_steps [where r = "write_step ground_level ''u''", OF s1 s2 s3 s4] by simp
  have d: "distinct (map write_id [?x, ?y])" by simp
  have w: "\<forall>x \<in> set [Written ok', Written ok]. \<exists>ok. x = Written ok" by simp
  from concurrent_writes_logged [OF e(2,1) f d run w] run show ?thesis by blast
qed

text \<open>C28: two clients that insert the same new id at the same time: there is an interleaving after which the
  table holds the record of the second, while the log gives the record of the first to a restart
  and to every replica; the first client was told that its insertion failed.\<close>

theorem concurrent_inserts_diverge:
  assumes "in_log False rl e t es" and "loaded rl e t s" and "store_data s i = None"
    and "write_fine (WriteInsert i v c)" and "write_fine (WriteInsert i v' c')"
    and "length v = store_dim s" and "length v' = store_dim s"
  shows "\<exists>e' s'. write_steps rl t (e, [AtLog (WriteInsert i v c), AtLog (WriteInsert i v' c')]) (e', [Written False, Written True]) \<and>
    in_log False rl e' t (es @ map (write_entry t) [WriteInsert i v c, WriteInsert i v' c']) \<and> loaded rl e' t s' \<and>
    store_data s' i = Some (v', c') \<and>
    log_data (store_dim s) (map (write_entry t) [WriteInsert i v c, WriteInsert i v' c']) (store_data s) i = Some (v, c)"
  by (rule same_record_run [OF assms])

lemma concurrent_inserts_diverge_witness:
  "\<exists>(e :: Engine) e' s'. write_steps ground_level ''u'' (e, [AtLog (WriteInsert 8 [f32_one] ''first''), AtLog (WriteInsert 8 [f32_one] ''second'')])
      (e', [Written False, Written True]) \<and> loaded ground_level e' ''u'' s' \<and> store_data s' 8 = Some ([f32_one], ''second'')"
proof -
  obtain e s where e: "loaded ground_level e ''u'' s" "store_dim s = 1" "store_data s = [7 \<mapsto> ([f32_one], ''c'')]"
    "in_log False ground_level e ''u'' [sample_create, sample_entry]"
    using sample_primary [of ground_level False] by blast
  have f: "write_fine (WriteInsert 8 [f32_one] ''first'')" "write_fine (WriteInsert 8 [f32_one] ''second'')"
    using sample_wal_stable by simp_all
  have n: "store_data s 8 = None" "length [f32_one] = store_dim s" using e(2,3) by simp_all
  show ?thesis using concurrent_inserts_diverge [OF e(4,1) n(1) f n(2,2)] by blast
qed

end
