(* ===== verification/Server.thy ===== *)
theory Server
  imports EngineTables
begin

text \<open>
  \<open>VectorDatabaseServiceImpl\<close> (vector_db_service_impl.cc): what each gRPC handler makes of its
  request message, the call of the engine, the response and the status. The messages of
  server.proto are records and an unset field has its default value; the transport is not
  modelled, and \<open>None\<close> is an exception that leaves the handler.
\<close>

section \<open>Messages\<close>

record InsertRequest =
  ins_id :: Id
  ins_vector :: vector
  ins_content :: string
  ins_table :: string

record RemoveRequest =
  rem_id :: Id
  rem_table :: string

record Query =
  qu_query :: vector
  qu_k :: "32 word"
  qu_search_parameter :: "32 word"

record SearchRequest = Query +
  sea_table :: string

record VectorData =
  vd_id :: Id
  vd_vector :: vector
  vd_content :: string

record BatchInsertRequest =
  bi_vector_data :: "VectorData list"
  bi_table :: string

record BatchRemoveRequest =
  br_id :: "Id list"
  br_table :: string

record BatchSearchRequest =
  bs_query :: "Query list"
  bs_table :: string

text \<open>The enumeration \<open>DistanceMetric\<close> is open: a client may send any number.\<close>

datatype RequestConfig =
  RequestHnsw (rq_m: u64) (rq_m0: u64) (rq_ef_construction: u64) (rq_ml: f32) (rq_hnsw_metric: int)
| RequestFlat (rq_flat_metric: int)
| RequestNone

record CreateTableRequest =
  ct_name :: string
  ct_vector_dimensionality :: int
  ct_index_config :: RequestConfig
  ct_cache_size :: u64

datatype Request =
  ReqInsert InsertRequest | ReqRemove RemoveRequest | ReqSearch SearchRequest
| ReqBatchInsert BatchInsertRequest | ReqBatchRemove BatchRemoveRequest | ReqBatchSearch BatchSearchRequest
| ReqStats string | ReqMetrics string | ReqCreateTable CreateTableRequest | ReqDropTable string
| ReqListTables | ReqHealthCheck

datatype Status = StatusOK | INVALID_ARGUMENT string

text \<open>A response holds what the handler has set; records are sent without their vectors.\<close>

datatype Response =
  RespNone
| RespSuccessful bool
| RespFlags "bool list"
| RespData "(Id \<times> string) list"
| RespResults "(Id \<times> string) list list"
| RespStats Stats
| RespMetrics Metrics
| RespTables "string list"
| RespHealth bool string

section \<open>Handlers\<close>

definition missing_table :: Status where
  "missing_table = INVALID_ARGUMENT ''missing table''"

definition add_data :: "Data list \<Rightarrow> (Id \<times> string) list" where
  "add_data results = map (\<lambda>item. (d_id item, d_content item)) results"

definition server_Insert :: "level_fun \<Rightarrow> InsertRequest \<Rightarrow> Engine \<Rightarrow> (Status \<times> Response \<times> Engine) option" where
  "server_Insert rl r e =
     (if ins_table r = [] then Some (missing_table, RespNone, e)
      else map_option (\<lambda>(successful, e').
          (if \<not> successful then INVALID_ARGUMENT ''insert failed (invalid input)'' else StatusOK, RespSuccessful successful, e'))
        (engine_Insert rl e (ins_table r) (ins_id r) (ins_vector r) (ins_content r)))"

definition server_Remove :: "RemoveRequest \<Rightarrow> Engine \<Rightarrow> Status \<times> Response \<times> Engine" where
  "server_Remove r e =
     (if rem_table r = [] then (missing_table, RespNone, e)
      else let (successful, e') = engine_Remove e (rem_table r) (rem_id r)
        in (if \<not> successful then INVALID_ARGUMENT ''remove failed (invalid input)'' else StatusOK, RespSuccessful successful, e'))"

definition server_Search :: "f32 \<Rightarrow> SearchRequest \<Rightarrow> Engine \<Rightarrow> (Status \<times> Response \<times> Engine) option" where
  "server_Search latency r e =
     (if sea_table r = [] then Some (missing_table, RespNone, e)
      else map_option (\<lambda>(results, e'). (StatusOK, RespData (add_data results), e'))
        (engine_Search e latency (sea_table r) (qu_query r) (unat (qu_k r)) (unat (qu_search_parameter r))))"

definition server_BatchInsert :: "level_fun \<Rightarrow> BatchInsertRequest \<Rightarrow> Engine \<Rightarrow> (Status \<times> Response \<times> Engine) option" where
  "server_BatchInsert rl r e =
     (if bi_table r = [] then Some (missing_table, RespNone, e)
      else map_option (\<lambda>(flags, e'). (StatusOK, RespFlags flags, e'))
        (engine_BatchInsert rl e (bi_table r) (map (\<lambda>d. (vd_id d, vd_vector d, vd_content d)) (bi_vector_data r))))"

definition server_BatchRemove :: "BatchRemoveRequest \<Rightarrow> Engine \<Rightarrow> Status \<times> Response \<times> Engine" where
  "server_BatchRemove r e =
     (if br_table r = [] then (missing_table, RespNone, e)
      else let (flags, e') = engine_BatchRemove e (br_table r) (br_id r) in (StatusOK, RespFlags flags, e'))"

definition server_BatchSearch ::
  "(f32 \<Rightarrow> u64) \<Rightarrow> f32 list \<Rightarrow> BatchSearchRequest \<Rightarrow> Engine \<Rightarrow> (Status \<times> Response \<times> Engine) option" where
  "server_BatchSearch hash_float latencies r e =
     (if bs_table r = [] then Some (missing_table, RespNone, e)
      else map_option (\<lambda>(results, e'). (StatusOK, RespResults (map add_data results), e'))
        (engine_BatchSearch hash_float e latencies (bs_table r)
          (map (\<lambda>q. (qu_query q, unat (qu_k q), unat (qu_search_parameter q))) (bs_query r))))"

definition server_Stats :: "string \<Rightarrow> Engine \<Rightarrow> Status \<times> Response" where
  "server_Stats t e = (if t = [] then (missing_table, RespNone) else (StatusOK, RespStats (engine_GetStats e t)))"

definition server_Metrics :: "string \<Rightarrow> Engine \<Rightarrow> Status \<times> Response" where
  "server_Metrics t e = (if t = [] then (missing_table, RespNone) else (StatusOK, RespMetrics (engine_GetMetrics e t)))"

definition request_metric :: "int \<Rightarrow> metric" where
  "request_metric m = (if m = 0 then L2 else Cosine)"

text \<open>The configurations for the engine, \<open>Inl\<close> the message of a refusal.\<close>

definition request_configs :: "CreateTableRequest \<Rightarrow> string + HNSWIndexConfig \<times> FlatIndexConfig" where
  "request_configs r =
     (let dim = ct_vector_dimensionality r in
      case ct_index_config r of
        RequestHnsw m m0 ef_construction ml dm \<Rightarrow>
          (if ct_name r = [] \<or> dim = 0 \<or> m = 0 \<or> m0 = 0 \<or> ef_construction = 0 \<or> feq ml f32_zero then Inl ''missing arguments''
           else Inr (\<lparr>hc_m = unat m, hc_m0 = unat m0, hc_ef_construction = unat ef_construction, hc_ml = ml,
             hc_metric = request_metric dm, hc_vector_dimensionality = dim\<rparr>, default_flat_config))
      | RequestFlat dm \<Rightarrow> Inr (default_hnsw_config, \<lparr>fc_vector_dimensionality = dim, fc_metric = request_metric dm\<rparr>)
      | RequestNone \<Rightarrow> Inl ''missing index config'')"

definition server_CreateTable :: "CreateTableRequest \<Rightarrow> Engine \<Rightarrow> Status \<times> Response \<times> Engine" where
  "server_CreateTable r e =
     (case request_configs r of
        Inl message \<Rightarrow> (INVALID_ARGUMENT message, RespNone, e)
      | Inr (hc, fc) \<Rightarrow>
          let (ok, e') = engine_CreateTable e (ct_name r) (ct_vector_dimensionality r) hc fc (ct_cache_size r)
          in (StatusOK, RespSuccessful ok, e'))"

definition server_DropTable :: "'w Net \<Rightarrow> string \<Rightarrow> Engine \<times> 'w \<Rightarrow> (Status \<times> Response \<times> Engine \<times> 'w) option" where
  "server_DropTable net t ew =
     (if t = [] then Some (INVALID_ARGUMENT ''missing name'', RespNone, ew)
      else map_option (\<lambda>(ok, ew'). (StatusOK, RespSuccessful ok, ew')) (engine_DropTable net t ew))"

definition server_ListTables :: "Engine \<Rightarrow> Status \<times> Response" where
  "server_ListTables e = (StatusOK, RespTables (engine_ListTables e))"

definition server_HealthCheck :: "Status \<times> Response" where
  "server_HealthCheck = (StatusOK, RespHealth True ''Healthy!'')"

text \<open>One request; the measured latencies and the network are arguments.\<close>

definition serve :: "level_fun \<Rightarrow> (f32 \<Rightarrow> u64) \<Rightarrow> 'w Net \<Rightarrow> f32 \<Rightarrow> f32 list \<Rightarrow> Request \<Rightarrow> Engine \<times> 'w \<Rightarrow>
    (Status \<times> Response \<times> Engine \<times> 'w) option" where
  "serve rl hash_float net latency latencies request ew =
     (let (e, w) = ew; keep = map_option (\<lambda>(status, response, e'). (status, response, e', w));
          reading = (\<lambda>(status, response). (status, response, e, w)) in
      case request of
        ReqInsert r \<Rightarrow> keep (server_Insert rl r e)
      | ReqRemove r \<Rightarrow> keep (Some (server_Remove r e))
      | ReqSearch r \<Rightarrow> keep (server_Search latency r e)
      | ReqBatchInsert r \<Rightarrow> keep (server_BatchInsert rl r e)
      | ReqBatchRemove r \<Rightarrow> keep (Some (server_BatchRemove r e))
      | ReqBatchSearch r \<Rightarrow> keep (server_BatchSearch hash_float latencies r e)
      | ReqStats t \<Rightarrow> Some (reading (server_Stats t e))
      | ReqMetrics t \<Rightarrow> Some (reading (server_Metrics t e))
      | ReqCreateTable r \<Rightarrow> keep (Some (server_CreateTable r e))
      | ReqDropTable t \<Rightarrow> server_DropTable net t ew
      | ReqListTables \<Rightarrow> Some (reading (server_ListTables e))
      | ReqHealthCheck \<Rightarrow> Some (reading server_HealthCheck))"

end
