(* ===== verification/SearchAnswers.thy ===== *)
theory SearchAnswers
  imports Server
begin

text \<open>
  The answer of a search as a relation on the records of a table alone: which index the table has
  shows only in whether the answer is exact. A search of a store meets it.
\<close>

section \<open>The answer of a search\<close>

type_synonym table_records = "Id \<rightharpoonup> vector \<times> string"

text \<open>Records are ordered by their distance from the query, then by id.\<close>

definition query_key :: "table_records \<Rightarrow> vector \<Rightarrow> Id \<Rightarrow> (int \<times> int) \<times> Id" where
  "query_key m query i = dkey (ComputeDistance L2 query (fst (the (m i))), i)"

definition nearest_ids :: "table_records \<Rightarrow> vector \<Rightarrow> nat \<Rightarrow> Id list" where
  "nearest_ids m query k = take k (map snd (sorted_list_of_set (query_key m query ` dom m)))"

text \<open>
  Nothing from no table, or for a query of another size, an empty one, or no results asked for.
  Otherwise at most \<open>k\<close> records of the table, none twice, nearest first; from a flat table exactly
  the \<open>k\<close> nearest.
\<close>

definition search_answer :: "(nat \<times> bool \<times> table_records) option \<Rightarrow> vector \<Rightarrow> nat \<Rightarrow> (Id \<times> string) list \<Rightarrow> bool" where
  "search_answer table query k ds \<longleftrightarrow>
     (case table of
        None \<Rightarrow> ds = []
      | Some (dim, flat, m) \<Rightarrow>
          if query = [] \<or> k = 0 \<or> length query \<noteq> dim then ds = []
          else length ds \<le> k \<and> distinct (map fst ds) \<and> (\<forall>(i, content) \<in> set ds. \<exists>v. m i = Some (v, content)) \<and>
            sorted (map (query_key m query \<circ> fst) ds) \<and> (flat \<longrightarrow> map fst ds = nearest_ids m query k))"

section \<open>A store gives such answers\<close>

lemma dist_key_data: "i \<in> dom (store_data s) \<Longrightarrow> dist_key (vs_store s) L2 q i = query_key (store_data s) q i"
  by (auto simp: dist_key_def query_key_def store_data_def)

lemma dom_store_data: "dom (store_data s) = set (keys (vs_store s))"
  by (simp add: store_data_def dom_map_option_comp dom_map_of_conv_image_fst)

lemma query_keys_sorted:
  assumes "distinct (keys (vs_store s))"
  shows "map (dist_key (vs_store s) L2 q) (sort_key (dist_key (vs_store s) L2 q) (keys (vs_store s))) =
    sorted_list_of_set (query_key (store_data s) q ` dom (store_data s))"
proof -
  let ?f = "dist_key (vs_store s) L2 q" and ?is = "sort_key (dist_key (vs_store s) L2 q) (keys (vs_store s))"
  have "set (map ?f ?is) = query_key (store_data s) q ` dom (store_data s)"
    using dist_key_data [of _ s q] by (simp add: dom_store_data)
  moreover have "sorted (map ?f ?is)" by (rule sorted_sort_key)
  moreover have "distinct (map ?f ?is)" using assms by (intro distinct_dist_key) simp
  ultimately show ?thesis by (metis sorted_list_of_set.idem_if_sorted_distinct)
qed

lemma nearest_ids_store:
  assumes "distinct (keys (vs_store s))" and "\<forall>i d. map_of (vs_store s) i = Some d \<longrightarrow> d_id d = i"
  shows "map d_id (nearest (vs_store s) L2 q k) = nearest_ids (store_data s) q k"
proof -
  let ?f = "dist_key (vs_store s) L2 q" and ?is = "sort_key (dist_key (vs_store s) L2 q) (keys (vs_store s))"
  have "d_id (the (map_of (vs_store s) i)) = i" if "i \<in> set ?is" for i
    using that assms(2) in_keys_map_of [of i "vs_store s"] by auto
  then have "map (d_id \<circ> (the \<circ> map_of (vs_store s))) ?is = ?is" by (intro map_idI) simp
  then have "map d_id (nearest (vs_store s) L2 q k) = take k ?is"
    by (simp only: nearest_def map_map take_map [symmetric])
  moreover have "snd \<circ> ?f = id" by (simp add: dist_key_def dkey_def fun_eq_iff)
  then have "map snd (map ?f ?is) = ?is" by (simp only: map_map list.map_id)
  ultimately show ?thesis unfolding nearest_ids_def query_keys_sorted [OF assms(1), symmetric] by (simp only: take_map)
qed

text \<open>The results of a graph are sorted by the distance of what is stored.\<close>

lemma hnsw_results_sorted:
  assumes "store_inv rl s" and "vs_index s = HnswIx h" and "finite_vec q" and "hnsw_Search h q k p = Some r"
  shows "set r \<subseteq> dom (store_data s)" and "sorted (map (query_key (store_data s) q) r)"
proof -
  have h: "hnsw_inv rl h" and sub: "hnsw_vec h \<subseteq>\<^sub>m store_vec s" using assms(1,2) by (simp_all add: store_inv_def)
  have r: "\<forall>i \<in> set r. is_active h i" "sorted (map (\<lambda>i. dkey (score h q i)) r)"
    using hnsw_Search_ok [OF hnsw_invD(1) [OF h] hnsw_invD(9) [OF h assms(3)] hnsw_invD(8) [OF h], of k p] assms(4) by auto
  have d: "\<exists>c. store_data s i = Some (n_vector (node_ref h i), c)" if "i \<in> set r" for i
  proof -
    have "hnsw_vec h i = Some (n_vector (node_ref h i))" using r(1) that by (simp add: hnsw_vec_def)
    then have "store_vec s i = Some (n_vector (node_ref h i))" using sub by (metis domI map_le_def)
    then show ?thesis by (auto simp: store_vec_def store_data_def)
  qed
  then show "set r \<subseteq> dom (store_data s)" by auto
  have "hc_metric (hx_config h) = L2" using hnsw_invD(2) [OF h] by (simp add: l2_finite_def)
  then have "dkey (score h q i) = query_key (store_data s) q i" if "i \<in> set r" for i
    using d [OF that] by (auto simp: score_def dist_to_def hnsw_ComputeDistance_def query_key_def)
  then have "map (\<lambda>i. dkey (score h q i)) r = map (query_key (store_data s) q) r" by simp
  with r(2) show "sorted (map (query_key (store_data s) q) r)" by simp
qed

lemma store_Search_answer:
  assumes "store_inv rl s" and "finite_vec q" and "q \<noteq> []" and "k \<noteq> 0" and "store_Search s q k p = Some r"
  shows "search_answer (Some (store_dim s, flat_store s, store_data s)) q k (add_data r)"
proof (cases "length q = store_dim s")
  case False
  with assms(5) show ?thesis by (simp add: search_answer_def store_Search_def store_dim_def add_data_def)
next
  case True
  have wf: "distinct (keys (vs_store s))" "\<forall>i d. map_of (vs_store s) i = Some d \<longrightarrow> d_id d = i"
    using assms(1) by (simp_all add: store_inv_def)
  have ok: "distinct (map d_id r)" "length r \<le> k" "\<forall>d \<in> set r. map_of (vs_store s) (d_id d) = Some d"
    using store_Search_ok [OF assms(1,2), of k p] assms(5) by auto
  have ids: "map fst (add_data r) = map d_id r" by (simp add: add_data_def)
  have "sorted (map (query_key (store_data s) q) (map d_id r)) \<and> (flat_store s \<longrightarrow> map d_id r = nearest_ids (store_data s) q k)"
  proof (cases "flat_store s")
    case flat: True
    have "store_Search s q k p = Some (nearest (vs_store s) L2 q k)"
      using store_Search_flat [OF assms(1) flat assms(2)] True by (simp add: store_dim_def)
    then have r: "map d_id r = nearest_ids (store_data s) q k" using nearest_ids_store [OF wf] assms(5) by simp
    let ?ks = "sorted_list_of_set (query_key (store_data s) q ` dom (store_data s))"
    have "query_key (store_data s) q (snd x) = x" if "x \<in> set ?ks" for x
      using that by (auto simp: dom_store_data query_key_def dkey_def)
    then have "map (query_key (store_data s) q \<circ> snd) ?ks = ?ks" by (intro map_idI) simp
    then have "map (query_key (store_data s) q) (nearest_ids (store_data s) q k) = take k ?ks"
      by (simp only: nearest_ids_def map_map take_map [symmetric])
    with r show ?thesis by (simp add: sorted_wrt_take)
  next
    case False
    then obtain h where h: "vs_index s = HnswIx h" by (cases "vs_index s") (auto simp: flat_store_def)
    obtain js where js: "hnsw_Search h q k p = Some js" "r = List.map_filter (map_of (vs_store s)) js"
      using assms(5) True h by (auto simp: store_Search_def store_dim_def)
    note sorted = hnsw_results_sorted [OF assms(1) h assms(2) js(1)]
    have "set js \<subseteq> dom (map_of (vs_store s))" using sorted(1) by (auto simp: store_data_def)
    then have "r = map (the \<circ> map_of (vs_store s)) js" using js(2) by (simp add: map_filter_found)
    moreover have "d_id (the (map_of (vs_store s) i)) = i" if "i \<in> set js" for i
      using that sorted(1) wf(2) by (fastforce simp: store_data_def)
    ultimately have "map d_id r = js" by (simp add: map_idI)
    with sorted(2) False show ?thesis by simp
  qed
  moreover have "\<forall>(i, content) \<in> set (add_data r). \<exists>v. store_data s i = Some (v, content)"
    using ok(3) by (auto simp: add_data_def store_data_def)
  ultimately show ?thesis
    using True assms(3,4) ok(1,2) ids by (auto simp: search_answer_def add_data_def comp_def)
qed

end
