(* ===== verification/ServerRefinement.thy ===== *)
theory ServerRefinement
  imports SearchAnswers
begin

text \<open>
  The server as a database: the abstract state is what each table holds, one step of it per
  request, and the answers a client may get. Every handler is a step of it, whatever the
  index, the log, the cache and the counters do meanwhile. What the cache makes of the answers to
  batches of searches is in \<open>BatchAnswers\<close>.
\<close>

section \<open>The abstract database\<close>

text \<open>A table: its dimension, whether its index is flat, its records.\<close>

type_synonym database = "string \<rightharpoonup> nat \<times> bool \<times> table_records"

definition known :: "database \<Rightarrow> string \<Rightarrow> (nat \<times> bool \<times> table_records) option" where
  "known db t = (if t = [] then None else db t)"

text \<open>A record is taken when its id is new and its vector has the dimension of the table.\<close>

fun put_flags :: "nat \<Rightarrow> (Id \<times> vector \<times> string) list \<Rightarrow> (Id \<rightharpoonup> vector \<times> string) \<Rightarrow> bool list" where
  "put_flags dim [] m = []"
| "put_flags dim (x # xs) m = (m (fst x) = None \<and> length (fst (snd x)) = dim) # put_flags dim xs (put_data dim x m)"

fun remove_flags :: "Id list \<Rightarrow> (Id \<rightharpoonup> vector \<times> string) \<Rightarrow> bool list" where
  "remove_flags [] m = []"
| "remove_flags (i # is) m = (m i \<noteq> None) # remove_flags is (m(i := None))"

definition records :: "BatchInsertRequest \<Rightarrow> (Id \<times> vector \<times> string) list" where
  "records r = map (\<lambda>d. (vd_id d, vd_vector d, vd_content d)) (bi_vector_data r)"

definition complete :: "Id \<times> vector \<times> string \<Rightarrow> bool" where
  "complete x \<longleftrightarrow> fst (snd x) \<noteq> [] \<and> snd (snd x) \<noteq> []"

text \<open>What \<open>Insert\<close> of several records makes of a table, and whether it looks at them at all.\<close>

definition db_insert :: "string \<Rightarrow> (Id \<times> vector \<times> string) list \<Rightarrow> database \<Rightarrow> bool list \<times> database" where
  "db_insert t xs db =
     (case known db t of
        Some (dim, flat, m) \<Rightarrow>
          if list_all complete xs then (put_flags dim xs m, db(t \<mapsto> (dim, flat, fold (put_data dim) xs m)))
          else (replicate (length xs) False, db)
      | None \<Rightarrow> (replicate (length xs) False, db))"

definition db_remove :: "string \<Rightarrow> Id list \<Rightarrow> database \<Rightarrow> bool list \<times> database" where
  "db_remove t is db =
     (case known db t of
        Some (dim, flat, m) \<Rightarrow> (remove_flags is m, db(t \<mapsto> (dim, flat, m |` (- set is))))
      | None \<Rightarrow> (replicate (length is) False, db))"

definition flat_requested :: "CreateTableRequest \<Rightarrow> bool" where
  "flat_requested r \<longleftrightarrow> (case request_configs r of Inl message \<Rightarrow> False | Inr (hc, fc) \<Rightarrow> \<not> wants_hnsw hc)"

definition db_create :: "CreateTableRequest \<Rightarrow> database \<Rightarrow> bool \<times> database" where
  "db_create r db =
     (if ct_name r \<noteq> [] \<and> ct_vector_dimensionality r \<noteq> 0 \<and> db (ct_name r) = None
      then (True, db(ct_name r \<mapsto> (size_of_int (ct_vector_dimensionality r), flat_requested r, Map.empty))) else (False, db))"

fun db_step :: "Request \<Rightarrow> database \<Rightarrow> database" where
  "db_step (ReqInsert r) db = snd (db_insert (ins_table r) [(ins_id r, ins_vector r, ins_content r)] db)"
| "db_step (ReqRemove r) db = snd (db_remove (rem_table r) [rem_id r] db)"
| "db_step (ReqBatchInsert r) db = snd (db_insert (bi_table r) (records r) db)"
| "db_step (ReqBatchRemove r) db = snd (db_remove (br_table r) (br_id r) db)"
| "db_step (ReqCreateTable r) db = (if isl (request_configs r) then db else snd (db_create r db))"
| "db_step (ReqDropTable t) db = (if t = [] then db else db(t := None))"
| "db_step _ db = db"

text \<open>
  The answers: determined for writes, for lists of tables and for searches of flat tables; a search of
  a graph may miss records. Counters are those of the table, its metrics are what the operations
  of the process so far have made of them.
\<close>

definition written :: "string \<Rightarrow> bool list \<Rightarrow> Status \<times> Response" where
  "written message flags =
     (if hd flags then (StatusOK, RespSuccessful True) else (INVALID_ARGUMENT message, RespSuccessful False))"

fun db_answers :: "Request \<Rightarrow> database \<Rightarrow> Status \<times> Response \<Rightarrow> bool" where
  "db_answers (ReqInsert r) db a \<longleftrightarrow> a = (if ins_table r = [] then (missing_table, RespNone)
     else written ''insert failed (invalid input)'' (fst (db_insert (ins_table r) [(ins_id r, ins_vector r, ins_content r)] db)))"
| "db_answers (ReqRemove r) db a \<longleftrightarrow> a = (if rem_table r = [] then (missing_table, RespNone)
     else written ''remove failed (invalid input)'' (fst (db_remove (rem_table r) [rem_id r] db)))"
| "db_answers (ReqSearch r) db a \<longleftrightarrow> (if sea_table r = [] then a = (missing_table, RespNone)
     else \<exists>ds. a = (StatusOK, RespData ds) \<and> search_answer (known db (sea_table r)) (qu_query r) (unat (qu_k r)) ds)"
| "db_answers (ReqBatchInsert r) db a \<longleftrightarrow> a = (if bi_table r = [] then (missing_table, RespNone)
     else (StatusOK, RespFlags (fst (db_insert (bi_table r) (records r) db))))"
| "db_answers (ReqBatchRemove r) db a \<longleftrightarrow> a = (if br_table r = [] then (missing_table, RespNone)
     else (StatusOK, RespFlags (fst (db_remove (br_table r) (br_id r) db))))"
| "db_answers (ReqBatchSearch r) db a \<longleftrightarrow> (if bs_table r = [] then a = (missing_table, RespNone)
     else \<exists>results. a = (StatusOK, RespResults results))"
| "db_answers (ReqStats t) db a \<longleftrightarrow> (if t = [] then a = (missing_table, RespNone)
     else \<exists>s. a = (StatusOK, RespStats s) \<and>
       vector_count s - deleted_count s = (case db t of None \<Rightarrow> 0 | Some (dim, flat, m) \<Rightarrow> of_nat (card (dom m))))"
| "db_answers (ReqMetrics t) db a \<longleftrightarrow> (if t = [] then a = (missing_table, RespNone)
     else \<exists>m. a = (StatusOK, RespMetrics m) \<and> (db t = None \<longrightarrow> m = metrics_new))"
| "db_answers (ReqCreateTable r) db a \<longleftrightarrow> a = (case request_configs r of
     Inl message \<Rightarrow> (INVALID_ARGUMENT message, RespNone) | Inr _ \<Rightarrow> (StatusOK, RespSuccessful (fst (db_create r db))))"
| "db_answers (ReqDropTable t) db a \<longleftrightarrow> a = (if t = [] then (INVALID_ARGUMENT ''missing name'', RespNone)
     else (StatusOK, RespSuccessful (db t \<noteq> None)))"
| "db_answers ReqListTables db a \<longleftrightarrow> (\<exists>ts. a = (StatusOK, RespTables ts) \<and> set ts = dom db)"
| "db_answers ReqHealthCheck db a \<longleftrightarrow> a = (StatusOK, RespHealth True ''Healthy!'')"

section \<open>The engine's tables as a database\<close>

definition table_dims :: "Engine \<Rightarrow> string \<rightharpoonup> nat \<times> bool" where
  "table_dims e t = map_option (\<lambda>s. (store_dim s, flat_store s)) (map_of (en_store_map e) t)"

definition db_of :: "Engine \<Rightarrow> database" where
  "db_of e t = map_option (\<lambda>s. (store_dim s, flat_store s, store_data s)) (map_of (en_store_map e) t)"

text \<open>What no operation on records changes.\<close>

definition same_shape :: "Engine \<Rightarrow> Engine \<Rightarrow> bool" where
  "same_shape e e' \<longleftrightarrow> en_metadata e' = en_metadata e \<and> en_shutdown e' = en_shutdown e \<and> table_dims e' = table_dims e"

lemma same_shape_refl [simp]: "same_shape e e"
  by (simp add: same_shape_def)

lemma same_shape_trans: "same_shape a b \<Longrightarrow> same_shape b c \<Longrightarrow> same_shape a c"
  by (simp add: same_shape_def)

lemma same_shape_stores: "en_metadata e' = en_metadata e \<Longrightarrow> en_shutdown e' = en_shutdown e \<Longrightarrow> en_store_map e' = en_store_map e \<Longrightarrow>
    same_shape e e'"
  by (simp add: same_shape_def table_dims_def fun_eq_iff)

lemma db_of_eqI:
  assumes "same_shape e e'" and "table_data e' = f"
  shows "db_of e' = (\<lambda>t. map_option (\<lambda>(dim, flat). (dim, flat, the (f t))) (table_dims e t))"
proof
  fix t
  have "table_dims e' t = table_dims e t" using assms(1) by (simp add: same_shape_def)
  moreover have "table_data e' t = f t" using assms(2) by simp
  ultimately show "db_of e' t = map_option (\<lambda>(dim, flat). (dim, flat, the (f t))) (table_dims e t)"
    by (cases "map_of (en_store_map e') t"; cases "table_dims e t") (auto simp: db_of_def table_dims_def table_data_def dest: arg_cong [of _ _ the])
qed

lemma db_of_same: "same_shape e e' \<Longrightarrow> table_data e' = table_data e \<Longrightarrow> db_of e' = db_of e"
  using db_of_eqI [of e e' "table_data e"] db_of_eqI [of e e "table_data e"] by simp

lemma db_of_one:
  assumes "same_shape e e'" and "table_data e' = (table_data e)(t \<mapsto> m)" and "table_dims e t = Some (dim, flat)"
  shows "db_of e' = (db_of e)(t \<mapsto> (dim, flat, m))"
  using db_of_eqI [OF assms(1,2)] db_of_eqI [of e e "table_data e"] assms(3) by (auto simp: fun_eq_iff)

lemma insert_step_shape:
  assumes "insert_step rl t i v content e = Some (ok, e')" and "contains (en_store_map e) t"
  shows "same_shape e e' \<and> contains (en_store_map e') t"
proof -
  obtain s where s: "map_of (en_store_map e) t = Some s" using assms(2) by (auto simp: contains_def)
  obtain s' where s': "store_Insert rl s i v content = Some (ok, s')" "en_store_map e' = mput t s' (en_store_map e)"
    "en_metadata e' = en_metadata e" "en_shutdown e' = en_shutdown e"
    using assms(1) s by (auto simp: insert_step_def Let_def split: option.splits prod.splits if_splits)
  have "store_dim s' = store_dim s" "flat_store s' = flat_store s"
    using s'(1) by (auto simp: store_Insert_def store_dim_def flat_store_def split: if_splits dest: index_kind(1))
  with s s' show ?thesis by (auto simp: same_shape_def table_dims_def fun_eq_iff contains_def)
qed

lemma remove_step_shape:
  assumes "remove_step t i e = (ok, e')" and "contains (en_store_map e) t"
  shows "same_shape e e' \<and> contains (en_store_map e') t"
proof -
  obtain s where s: "map_of (en_store_map e) t = Some s" using assms(2) by (auto simp: contains_def)
  have "en_store_map e' = mput t (snd (store_Remove s i)) (en_store_map e)"
    "en_metadata e' = en_metadata e" "en_shutdown e' = en_shutdown e"
    using assms(1) s by (auto simp: remove_step_def Let_def split: prod.splits if_splits)
  moreover have "store_dim (snd (store_Remove s i)) = store_dim s" "flat_store (snd (store_Remove s i)) = flat_store s"
    by (simp_all add: store_Remove_def store_dim_def flat_store_def index_kind(2))
  ultimately show ?thesis using s by (auto simp: same_shape_def table_dims_def fun_eq_iff contains_def)
qed

lemma insert_steps_shape:
  "insert_steps rl t xs e = Some (oks, e') \<Longrightarrow> contains (en_store_map e) t \<Longrightarrow> same_shape e e'"
proof (induction xs arbitrary: e oks)
  case (Cons x xs)
  obtain i v content where x: "x = (i, v, content)" by (cases x)
  obtain ok e1 oks' where "insert_step rl t i v content e = Some (ok, e1)" "insert_steps rl t xs e1 = Some (oks', e')"
    using Cons.prems(1) by (auto simp: x split: option.splits)
  with insert_step_shape Cons.prems(2) Cons.IH show ?case by (blast intro: same_shape_trans)
qed simp

lemma remove_steps_shape:
  "remove_steps t is e = (oks, e') \<Longrightarrow> contains (en_store_map e) t \<Longrightarrow> same_shape e e'"
proof (induction "is" arbitrary: e oks)
  case (Cons i "is")
  obtain ok e1 oks' where "remove_step t i e = (ok, e1)" "remove_steps t is e1 = (oks', e')"
    using Cons.prems(1) by (auto split: prod.splits)
  with remove_step_shape Cons.prems(2) Cons.IH show ?case by (blast intro: same_shape_trans)
qed simp

lemma same_shape_invalidate [simp]: "same_shape e (invalidate_cache t e') = same_shape e e'"
  by (simp add: same_shape_def table_dims_def fun_eq_iff)

lemma insert_steps_flags:
  assumes "engine_inv rl e" and "map_of (en_store_map e) t = Some s" and "\<forall>(i, v, content) \<in> set xs. finite_vec v"
    and "insert_steps rl t xs e = Some (oks, e')"
  shows "oks = put_flags (store_dim s) xs (store_data s)"
  using assms
proof (induction xs arbitrary: e s oks)
  case (Cons x xs)
  obtain i v content where x: "x = (i, v, content)" by (cases x)
  have "finite_vec v" using Cons.prems(3) by (simp add: x)
  from insert_step_ok [OF Cons.prems(1,2) this, of i content] obtain e1 s1 where
    e1: "insert_step rl t i v content e = Some (takes s i v, e1)" "store_Insert rl s i v content = Some (takes s i v, s1)"
    "engine_inv rl e1" "en_store_map e1 = mput t s1 (en_store_map e)"
    "store_data s1 = (if takes s i v then (store_data s)(i \<mapsto> (v, content)) else store_data s)" by blast
  have "store_dim s1 = store_dim s" using e1(2) by (auto simp: store_Insert_def store_dim_def split: if_splits)
  moreover have "store_data s1 = put_data (store_dim s) x (store_data s)" using e1(5) by (simp add: put_data_def x takes_data)
  moreover obtain oks' where "insert_steps rl t xs e1 = Some (oks', e')" "oks = takes s i v # oks'"
    using Cons.prems(4) e1(1) by (auto simp: x)
  ultimately show ?case using Cons.IH [OF e1(3), of s1 oks'] Cons.prems(3) e1(4) by (simp add: x takes_data)
qed simp

lemma remove_steps_flags:
  assumes "engine_inv rl e" and "map_of (en_store_map e) t = Some s" and "remove_steps t is e = (oks, e')"
  shows "oks = remove_flags is (store_data s)"
  using assms
proof (induction "is" arbitrary: e s oks)
  case (Cons i "is")
  from remove_step_ok [OF Cons.prems(1,2), of i] obtain e1 s1 where
    e1: "remove_step t i e = (contains (vs_store s) i, e1)" "engine_inv rl e1" "en_store_map e1 = mput t s1 (en_store_map e)"
    "store_data s1 = (store_data s)(i := None)" by blast
  obtain oks' where "remove_steps t is e1 = (oks', e')" "oks = contains (vs_store s) i # oks'"
    using Cons.prems(3) e1(1) by (auto split: prod.splits)
  with Cons.IH [OF e1(2), of s1 oks'] e1(3,4) show ?case by (simp add: store_data_None fun_upd_def)
qed simp

section \<open>Each operation is a step\<close>

text \<open>A running primary.\<close>

definition serving :: "level_fun \<Rightarrow> Engine \<Rightarrow> bool" where
  "serving rl e \<longleftrightarrow> engine_inv rl e \<and> md_primary (en_metadata e) \<and> \<not> en_shutdown e"

lemma serving_kept: "serving rl e \<Longrightarrow> engine_inv rl e' \<Longrightarrow> same_shape e e' \<Longrightarrow> serving rl e'"
  by (simp add: serving_def same_shape_def)

text \<open>A table is in the database when all maps have it; then every guard lets the client through.\<close>

lemma serving_cases:
  assumes "serving rl e"
  obtains (absent) "db_of e t = None" "\<not> writable e t" "\<not> searchable_table e t" "table_absent e t"
  | (present) s where "map_of (en_store_map e) t = Some s" "db_of e t = Some (store_dim s, flat_store s, store_data s)" "writable e t"
      "searchable_table e t" "\<not> table_absent e t" "contains (en_cache_map e) t"
proof -
  have "engine_inv rl e" using assms by (simp add: serving_def)
  then show ?thesis
  proof (cases rule: engine_inv_cases [of rl e t])
    case absent
    then show ?thesis by (intro that(1)) (simp_all add: db_of_def writable_def searchable_table_def table_absent_def contains_def)
  next
    case (present s pm st me c)
    with assms show ?thesis
      by (intro that(2) [of s])
        (simp_all add: db_of_def writable_def searchable_table_def table_absent_def contains_def serving_def)
  qed
qed

lemma engine_BatchInsert_db:
  assumes "serving rl e" and "\<forall>(i, v, content) \<in> set xs. finite_vec v" and "t \<noteq> []"
  shows "\<exists>e'. engine_BatchInsert rl e t xs = Some (fst (db_insert t xs (db_of e)), e') \<and> serving rl e' \<and> same_shape e e' \<and>
    db_of e' = snd (db_insert t xs (db_of e))"
  using assms(1)
proof (cases rule: serving_cases [of rl e t])
  case absent
  then show ?thesis using assms(1,3) by (simp add: engine_BatchInsert_def db_insert_def known_def)
next
  case (present s)
  have v: "(\<exists>(i, v, content) \<in> set xs. \<not> ValidateInsert t i v content) \<longleftrightarrow> \<not> list_all complete xs"
    using assms(3) by (fastforce simp: ValidateInsert_def complete_def list_all_iff)
  show ?thesis
  proof (cases "list_all complete xs")
    case False
    then show ?thesis using assms(1,3) present by (simp add: engine_BatchInsert_def v db_insert_def known_def)
  next
    case True
    have inv: "engine_inv rl e" using assms(1) by (simp add: serving_def)
    obtain oks e1 s1 where e1: "insert_steps rl t xs e = Some (oks, e1)" "engine_inv rl e1"
      "map_of (en_store_map e1) t = Some s1" "store_data s1 = fold (put_data (store_dim s)) xs (store_data s)"
      "\<forall>u. u \<noteq> t \<longrightarrow> table_view e1 u = table_view e u"
      using insert_steps_ok [OF inv present(1) assms(2)] by blast
    have sh: "same_shape e e1" using insert_steps_shape [OF e1(1)] present(1) by (simp add: contains_def)
    have "table_data e1 = (table_data e)(t \<mapsto> store_data s1)" using e1(3,5) by (auto simp: table_data_def fun_eq_iff table_view_def)
    then have "db_of (invalidate_cache t e1) = (db_of e)(t \<mapsto> (store_dim s, flat_store s, store_data s1))"
      by (intro db_of_one) (use sh present(1) in \<open>simp_all add: table_data_def table_dims_def fun_eq_iff\<close>)
    moreover have "engine_BatchInsert rl e t xs = Some (oks, invalidate_cache t e1)"
      using present(3) True e1(1) by (simp add: engine_BatchInsert_def v)
    moreover have "serving rl (invalidate_cache t e1)"
      using serving_kept [OF assms(1) invalidate_cache_inv [OF e1(2)]] sh by simp
    ultimately show ?thesis
      using sh insert_steps_flags [OF inv present(1) assms(2) e1(1)] assms(3) present(2) True e1(4)
      by (intro exI [of _ "invalidate_cache t e1"]) (simp add: db_insert_def known_def)
  qed
qed

lemma engine_BatchRemove_db:
  assumes "serving rl e" and "t \<noteq> []"
  shows "\<exists>e'. engine_BatchRemove e t is = (fst (db_remove t is (db_of e)), e') \<and> serving rl e' \<and> same_shape e e' \<and>
    db_of e' = snd (db_remove t is (db_of e))"
  using assms(1)
proof (cases rule: serving_cases [of rl e t])
  case absent
  then show ?thesis using assms by (simp add: engine_BatchRemove_def db_remove_def known_def)
next
  case (present s)
  have inv: "engine_inv rl e" using assms(1) by (simp add: serving_def)
  obtain oks e1 s1 where e1: "remove_steps t is e = (oks, e1)" "engine_inv rl e1"
    "map_of (en_store_map e1) t = Some s1" "store_data s1 = store_data s |` (- set is)"
    "\<forall>u. u \<noteq> t \<longrightarrow> table_view e1 u = table_view e u"
    using remove_steps_ok [OF inv present(1)] by blast
  have sh: "same_shape e e1" using remove_steps_shape [OF e1(1)] present(1) by (simp add: contains_def)
  have "table_data e1 = (table_data e)(t \<mapsto> store_data s1)" using e1(3,5) by (auto simp: table_data_def fun_eq_iff table_view_def)
  then have "db_of (invalidate_cache t e1) = (db_of e)(t \<mapsto> (store_dim s, flat_store s, store_data s1))"
    by (intro db_of_one) (use sh present(1) in \<open>simp_all add: table_data_def table_dims_def fun_eq_iff\<close>)
  moreover have "engine_BatchRemove e t is = (oks, invalidate_cache t e1)"
    using present(3) assms(2) e1(1) by (simp add: engine_BatchRemove_def ValidateRemove_def)
  moreover have "serving rl (invalidate_cache t e1)"
    using serving_kept [OF assms(1) invalidate_cache_inv [OF e1(2)]] sh by simp
  ultimately show ?thesis
    using sh remove_steps_flags [OF inv present(1) e1(1)] assms(2) present(2) e1(4)
    by (intro exI [of _ "invalidate_cache t e1"]) (simp add: db_remove_def known_def)
qed

text \<open>A single write is a batch of one.\<close>

lemma engine_Insert_batch: "engine_BatchInsert rl e t [(i, v, content)] = map_option (\<lambda>(ok, e'). ([ok], e')) (engine_Insert rl e t i v content)"
  by (cases "insert_step rl t i v content e") (auto simp: engine_BatchInsert_def engine_Insert_def)

lemma engine_Remove_batch: "engine_BatchRemove e t [i] = (\<lambda>(ok, e'). ([ok], e')) (engine_Remove e t i)"
  by (cases "remove_step t i e") (auto simp: engine_BatchRemove_def engine_Remove_def)

section \<open>Searches change no table\<close>

lemma those_total: "\<forall>x \<in> set xs. f x \<noteq> None \<Longrightarrow> \<exists>rs. those (map f xs) = Some rs"
  by (induction xs) auto

lemma same_shape_metrics [simp]: "same_shape e (upd_metrics t f e') = same_shape e e'" "same_shape e (set_cache t c e') = same_shape e e'"
  by (simp_all add: same_shape_def table_dims_def fun_eq_iff)

text \<open>The metrics of the searches do not touch stores, caches and files.\<close>

lemma count_searches_simps [simp]:
  "en_store_map (count_searches t ls e) = en_store_map e" "en_cache_map (count_searches t ls e) = en_cache_map e"
  "en_metadata (count_searches t ls e) = en_metadata e" "en_shutdown (count_searches t ls e) = en_shutdown e"
  "en_stats_manager_map (count_searches t ls e) = en_stats_manager_map e"
  "en_disk (count_searches t ls e) = en_disk e"
  "en_persistence_manager_map (count_searches t ls e) = en_persistence_manager_map e"
  by (induction ls arbitrary: e) (simp_all add: count_searches_def)

lemma contains_count_searches [simp]:
  "contains (en_metrics_manager_map e) u \<Longrightarrow> contains (en_metrics_manager_map (count_searches t ls e)) u"
  by (induction ls arbitrary: e) (simp_all add: count_searches_def)

lemma count_searches_frame:
  "engine_inv rl e \<Longrightarrow> contains (en_metrics_manager_map e) t \<Longrightarrow>
   engine_inv rl (count_searches t ls e) \<and> en_store_map (count_searches t ls e) = en_store_map e \<and>
   en_cache_map (count_searches t ls e) = en_cache_map e \<and> en_metadata (count_searches t ls e) = en_metadata e \<and>
   en_shutdown (count_searches t ls e) = en_shutdown e"
proof (induction ls arbitrary: e)
  case Nil
  then show ?case by (simp add: count_searches_def)
next
  case (Cons l ls)
  let ?e = "upd_metrics t (metrics_Increment SEARCH 1) (upd_metrics t (metrics_CalculateSearchLatency l) e)"
  have "engine_inv rl ?e" using Cons.prems by (intro upd_metrics_inv) simp_all
  moreover have "contains (en_metrics_manager_map ?e) t" by simp
  moreover have "count_searches t (l # ls) e = count_searches t ls ?e" by (simp add: count_searches_def)
  ultimately show ?case using Cons.IH [of ?e] by simp
qed

lemma run_batch_ok:
  assumes "engine_inv rl e" and "searchable_table e t" and "\<forall>(q, k, p) \<in> set qs. finite_vec q"
  shows "\<exists>rs e'. run_batch t ls qs e = Some (rs, e') \<and> engine_inv rl e' \<and> en_store_map e' = en_store_map e \<and>
    en_cache_map e' = en_cache_map e \<and> en_metadata e' = en_metadata e \<and> en_shutdown e' = en_shutdown e"
proof -
  obtain s where s: "map_of (en_store_map e) t = Some s" using searchable_parts [OF assms(2)] by (auto simp: contains_def)
  have "\<forall>x \<in> set qs. (case x of (query, k, search_param) \<Rightarrow> store_Search s query k search_param) \<noteq> None"
  proof
    fix x assume x: "x \<in> set qs"
    obtain q k p where q: "x = (q, k, p)" by (cases x)
    then have "finite_vec q" using assms(3) x by auto
    from store_Search_ok [OF engine_store_inv [OF assms(1) s] this, of k p]
    show "(case x of (query, k, search_param) \<Rightarrow> store_Search s query k search_param) \<noteq> None" by (auto simp: q)
  qed
  from those_total [OF this] obtain rs where "search_requests s qs = Some rs" by (auto simp: search_requests_def)
  then show ?thesis
    using count_searches_frame [OF assms(1), of t ls] searchable_parts [OF assms(2)] s
    by (intro exI [of _ rs] exI [of _ "count_searches t ls e"]) (simp add: run_batch_def)
qed

lemma engine_BatchSearch_ok:
  assumes "engine_inv rl e" and "\<forall>(q, k, p) \<in> set qs. finite_vec q"
  shows "\<exists>rs e'. engine_BatchSearch H e ls t qs = Some (rs, e') \<and> engine_inv rl e' \<and> en_store_map e' = en_store_map e \<and>
    en_metadata e' = en_metadata e \<and> en_shutdown e' = en_shutdown e"
proof (cases "searchable_table e t \<and> (\<forall>(q, k, p) \<in> set qs. ValidateSearch t q k p)")
  case False
  then show ?thesis using assms(1) by (auto simp: engine_BatchSearch_def)
next
  case True
  then have v: "\<not> (\<exists>(q, k, p) \<in> set qs. \<not> ValidateSearch t q k p)" by auto
  show ?thesis
  proof (cases "md_use_cache (en_metadata e) \<and> contains (en_cache_map e) t")
    case False
    then show ?thesis
      using assms(1) True run_batch_ok [OF assms(1) _ assms(2), of t ls] unfolding engine_BatchSearch_def if_not_P [OF v]
      by (cases "md_use_cache (en_metadata e)") auto
  next
    case cached: True
    then obtain c where c: "map_of (en_cache_map e) t = Some c" "lru_inv c"
      using cache_of_inv [OF assms(1)] by (auto simp: contains_def)
    obtain hit c' where g: "lru_Get c (hash_key H qs) = (hit, c')" by fastforce
    have c': "lru_inv c'" using lru.get_law [OF c(2), of "hash_key H qs"] by (simp add: g)
    let ?e1 = "set_cache t c' e"
    have e1: "engine_inv rl ?e1" by (rule set_cache_inv [OF assms(1) _ c']) (use cached in simp)
    have m: "contains (en_metrics_manager_map ?e1) t" using searchable_parts True by simp
    show ?thesis
    proof (cases hit)
      case (Some entry)
      then show ?thesis
        using True cached c(1) g upd_metrics_inv [OF e1 m, of "metrics_Increment CACHE_HIT 1"]
        unfolding engine_BatchSearch_def if_not_P [OF v] by simp
    next
      case None
      let ?e2 = "upd_metrics t (metrics_Increment CACHE_MISS 1) ?e1"
      have e2: "engine_inv rl ?e2" by (rule upd_metrics_inv [OF e1 m])
      have "searchable_table ?e2 t" using True by (simp add: searchable_table_def)
      then obtain rs e3 where e3: "run_batch t ls qs ?e2 = Some (rs, e3)" "engine_inv rl e3" "en_store_map e3 = en_store_map e"
        "en_cache_map e3 = mput t c' (en_cache_map e)" "en_metadata e3 = en_metadata e" "en_shutdown e3 = en_shutdown e"
        using run_batch_ok [OF e2 _ assms(2), of t ls] by auto
      obtain c3 where c3: "lru_Store c' (hash_key H qs) (to_cache rs) = Some c3" "lru_inv c3" using lru.store_law [OF c'] by blast
      have "engine_inv rl (set_cache t c3 e3)" by (rule set_cache_inv [OF e3(2) _ c3(2)]) (simp add: e3(4))
      then show ?thesis
        using True cached c(1) g None e3 c3(1) unfolding engine_BatchSearch_def if_not_P [OF v]
        by (simp add: Let_def)
    qed
  qed
qed

lemma searching_db: "en_store_map e' = en_store_map e \<Longrightarrow> db_of e' = db_of e"
  by (simp add: db_of_def fun_eq_iff)

section \<open>Every request is a step\<close>

text \<open>
  The requests the theorem covers: finite components, the L2 metric, a cache that holds
  something, levels that are not negative. \<open>DropTable\<close> reads the logs: see \<open>DropSession\<close>.
\<close>

definition admissible :: "level_fun \<Rightarrow> Request \<Rightarrow> bool" where
  "admissible rl r \<longleftrightarrow> (case r of
       ReqInsert r \<Rightarrow> finite_vec (ins_vector r)
     | ReqSearch r \<Rightarrow> finite_vec (qu_query r)
     | ReqBatchInsert r \<Rightarrow> (\<forall>x \<in> set (records r). finite_vec (fst (snd x)))
     | ReqBatchSearch r \<Rightarrow> (\<forall>q \<in> set (bs_query r). finite_vec (qu_query q))
     | ReqCreateTable r \<Rightarrow> ct_cache_size r \<noteq> 0 \<and> (case ct_index_config r of
           RequestHnsw m m0 ef_construction ml dm \<Rightarrow> dm = 0 \<and> (\<forall>i. 0 \<le> rl i ml)
         | RequestFlat dm \<Rightarrow> dm = 0
         | RequestNone \<Rightarrow> True)
     | ReqDropTable t \<Rightarrow> False
     | _ \<Rightarrow> True)"

definition serves :: "level_fun \<Rightarrow> Request \<Rightarrow> Engine \<Rightarrow> Status \<times> Response \<Rightarrow> Engine \<Rightarrow> bool" where
  "serves rl r e a e' \<longleftrightarrow> serving rl e' \<and> db_of e' = db_step r (db_of e) \<and> db_answers r (db_of e) a"

lemma serves_Insert:
  assumes "serving rl e" and "finite_vec (ins_vector r)"
  shows "\<exists>a b e'. server_Insert rl r e = Some (a, b, e') \<and> serves rl (ReqInsert r) e (a, b) e'"
proof (cases "ins_table r = []")
  case True
  then show ?thesis using assms(1) by (simp add: server_Insert_def serves_def db_insert_def known_def)
next
  case False
  let ?xs = "[(ins_id r, ins_vector r, ins_content r)]"
  obtain e' where e': "engine_BatchInsert rl e (ins_table r) ?xs = Some (fst (db_insert (ins_table r) ?xs (db_of e)), e')"
    "serving rl e'" "db_of e' = snd (db_insert (ins_table r) ?xs (db_of e))"
    using engine_BatchInsert_db [OF assms(1) _ False, of ?xs] assms(2) by auto
  then obtain ok where "engine_Insert rl e (ins_table r) (ins_id r) (ins_vector r) (ins_content r) = Some (ok, e')"
    "fst (db_insert (ins_table r) ?xs (db_of e)) = [ok]" by (auto simp: engine_Insert_batch)
  with e'(2,3) False show ?thesis by (simp add: server_Insert_def serves_def written_def)
qed

lemma serves_Remove:
  assumes "serving rl e"
  shows "\<exists>a b e'. server_Remove r e = (a, b, e') \<and> serves rl (ReqRemove r) e (a, b) e'"
proof (cases "rem_table r = []")
  case True
  then show ?thesis using assms(1) by (simp add: server_Remove_def serves_def db_remove_def known_def)
next
  case False
  obtain e' where e': "engine_BatchRemove e (rem_table r) [rem_id r] = (fst (db_remove (rem_table r) [rem_id r] (db_of e)), e')"
    "serving rl e'" "db_of e' = snd (db_remove (rem_table r) [rem_id r] (db_of e))"
    using engine_BatchRemove_db [OF assms(1) False] by blast
  then obtain ok where "engine_Remove e (rem_table r) (rem_id r) = (ok, e')"
    "fst (db_remove (rem_table r) [rem_id r] (db_of e)) = [ok]" by (cases "engine_Remove e (rem_table r) (rem_id r)") (auto simp: engine_Remove_batch)
  with e'(2,3) False show ?thesis by (simp add: server_Remove_def serves_def written_def)
qed

lemma serves_batches:
  assumes "serving rl e"
  shows "\<forall>x \<in> set (records r). finite_vec (fst (snd x)) \<Longrightarrow>
      \<exists>a b e'. server_BatchInsert rl r e = Some (a, b, e') \<and> serves rl (ReqBatchInsert r) e (a, b) e'"
    and "\<exists>a b e'. server_BatchRemove r' e = (a, b, e') \<and> serves rl (ReqBatchRemove r') e (a, b) e'"
proof -
  show "\<exists>a b e'. server_BatchInsert rl r e = Some (a, b, e') \<and> serves rl (ReqBatchInsert r) e (a, b) e'"
    if "\<forall>x \<in> set (records r). finite_vec (fst (snd x))"
  proof (cases "bi_table r = []")
    case True
    then show ?thesis using assms by (simp add: server_BatchInsert_def serves_def db_insert_def known_def)
  next
    case False
    have "\<forall>(i, v, content) \<in> set (records r). finite_vec v" using that by auto
    from engine_BatchInsert_db [OF assms this False] False show ?thesis
      by (auto simp: server_BatchInsert_def serves_def records_def)
  qed
  show "\<exists>a b e'. server_BatchRemove r' e = (a, b, e') \<and> serves rl (ReqBatchRemove r') e (a, b) e'"
  proof (cases "br_table r' = []")
    case True
    then show ?thesis using assms by (simp add: server_BatchRemove_def serves_def db_remove_def known_def)
  next
    case False
    from engine_BatchRemove_db [OF assms False, of "br_id r'"] False show ?thesis
      by (auto simp: server_BatchRemove_def serves_def)
  qed
qed

lemma serves_same:
  assumes "serving rl e" and "engine_inv rl e'" and "en_store_map e' = en_store_map e" and "en_metadata e' = en_metadata e"
    and "en_shutdown e' = en_shutdown e" and "db_step r (db_of e) = db_of e" and "db_answers r (db_of e) a"
  shows "serves rl r e a e'"
  using assms searching_db [OF assms(3)] by (simp add: serves_def serving_def)

lemma engine_Search_frame:
  assumes "engine_Search e latency t q k p = Some (r, e')"
  shows "en_store_map e' = en_store_map e \<and> en_metadata e' = en_metadata e \<and> en_shutdown e' = en_shutdown e \<and>
    (\<not> searchable_table e t \<or> t = [] \<longrightarrow> r = [])"
  using assms by (auto simp: engine_Search_def ValidateSearch_def split: if_splits)

lemma serves_Search:
  assumes "serving rl e" and "finite_vec (qu_query r)"
  shows "\<exists>a b e'. server_Search latency r e = Some (a, b, e') \<and> serves rl (ReqSearch r) e (a, b) e'"
proof (cases "sea_table r = []")
  case True
  then show ?thesis using assms(1) by (simp add: server_Search_def serves_def)
next
  case False
  have inv: "engine_inv rl e" using assms(1) by (simp add: serving_def)
  obtain ds e' where s: "engine_Search e latency (sea_table r) (qu_query r) (unat (qu_k r)) (unat (qu_search_parameter r)) = Some (ds, e')"
    "engine_inv rl e'"
    using engine_Search_ok [OF inv assms(2)] by blast
  note frame = engine_Search_frame [OF s(1)]
  have "search_answer (known (db_of e) (sea_table r)) (qu_query r) (unat (qu_k r)) (add_data ds)"
    using assms(1)
  proof (cases rule: serving_cases [of rl e "sea_table r"])
    case absent
    then show ?thesis using frame False by (simp add: search_answer_def known_def add_data_def)
  next
    case (present st)
    show ?thesis
    proof (cases "qu_query r = [] \<or> unat (qu_k r) = 0")
      case True
      then have "ds = []" using s(1) by (auto simp: engine_Search_def ValidateSearch_def split: if_splits)
      with True False present(2) show ?thesis by (auto simp: search_answer_def known_def add_data_def)
    next
      case valid: False
      then have "ValidateSearch (sea_table r) (qu_query r) (unat (qu_k r)) (unat (qu_search_parameter r))"
        using False by (simp add: ValidateSearch_def)
      then have "store_Search st (qu_query r) (unat (qu_k r)) (unat (qu_search_parameter r)) = Some ds"
        using s(1) present(1,4) by (auto simp: engine_Search_def)
      from store_Search_answer [OF engine_store_inv [OF inv present(1)] assms(2) _ _ this] valid False present(2)
      show ?thesis by (simp add: known_def)
    qed
  qed
  then have "serves rl (ReqSearch r) e (StatusOK, RespData (add_data ds)) e'"
    by (intro serves_same [OF assms(1) s(2)]) (use frame False in simp_all)
  with s(1) False show ?thesis by (simp add: server_Search_def)
qed

lemma serves_BatchSearch:
  assumes "serving rl e" and "\<forall>q \<in> set (bs_query r). finite_vec (qu_query q)"
  shows "\<exists>a b e'. server_BatchSearch H ls r e = Some (a, b, e') \<and> serves rl (ReqBatchSearch r) e (a, b) e'"
proof (cases "bs_table r = []")
  case True
  then show ?thesis using assms(1) by (simp add: server_BatchSearch_def serves_def)
next
  case False
  let ?qs = "map (\<lambda>q. (qu_query q, unat (qu_k q), unat (qu_search_parameter q))) (bs_query r)"
  have inv: "engine_inv rl e" using assms(1) by (simp add: serving_def)
  have "\<forall>(q, k, p) \<in> set ?qs. finite_vec q" using assms(2) by auto
  from engine_BatchSearch_ok [OF inv this] obtain rs e' where s: "engine_BatchSearch H e ls (bs_table r) ?qs = Some (rs, e')"
    "engine_inv rl e'" "en_store_map e' = en_store_map e" "en_metadata e' = en_metadata e" "en_shutdown e' = en_shutdown e" by blast
  have "serves rl (ReqBatchSearch r) e (StatusOK, RespResults (map add_data rs)) e'"
    by (rule serves_same [OF assms(1) s(2-5)]) (use False in simp_all)
  with s(1) False show ?thesis by (simp add: server_BatchSearch_def)
qed

text \<open>Live records are counted, so the counters a client reads count the keys of the table.\<close>

lemma counted_records:
  assumes "serving rl e" and "t \<noteq> []"
  shows "vector_count (engine_GetStats e t) - deleted_count (engine_GetStats e t) =
    (case db_of e t of None \<Rightarrow> 0 | Some (dim, flat, m) \<Rightarrow> of_nat (card (dom m)))"
proof -
  have "engine_inv rl e" "\<not> en_shutdown e" using assms(1) by (simp_all add: serving_def)
  then show ?thesis
  proof (cases rule: engine_inv_cases [of rl e t])
    case absent
    then show ?thesis by (simp add: engine_GetStats_def contains_def empty_stats_def db_of_def)
  next
    case (present s pm st me c)
    then have "live_count st = of_nat (length (vs_store s))" "distinct (keys (vs_store s))"
      by (simp_all add: table_inv_def store_inv_def)
    moreover have "card (dom (store_data s)) = card (set (keys (vs_store s)))"
      by (rule arg_cong [of _ _ card]) (auto simp: store_data_def dom_map_of_conv_image_fst dom_def map_of_eq_None_iff)
    ultimately have "of_nat (card (dom (store_data s))) = live_count st" using distinct_card by fastforce
    with present assms(2) \<open>\<not> en_shutdown e\<close> show ?thesis
      by (simp add: engine_GetStats_def contains_def ValidateStats_def live_count_def db_of_def)
  qed
qed

lemma serves_reading:
  assumes "serving rl e"
  shows "serves rl (ReqStats t) e (server_Stats t e) e" and "serves rl (ReqMetrics t) e (server_Metrics t e) e"
    and "serves rl ReqListTables e (server_ListTables e) e" and "serves rl ReqHealthCheck e server_HealthCheck e"
proof -
  show "serves rl (ReqStats t) e (server_Stats t e) e"
    using assms counted_records [OF assms] by (auto simp: serves_def server_Stats_def)
  have "engine_GetMetrics e t = metrics_new" if "db_of e t = None"
    using assms that
    by (cases "contains (en_metrics_manager_map e) t"; cases rule: serving_cases [of rl e t])
      (auto simp: engine_GetMetrics_def table_absent_def)
  then show "serves rl (ReqMetrics t) e (server_Metrics t e) e" using assms by (simp add: serves_def server_Metrics_def)
  have "set (engine_ListTables e) = dom (db_of e)"
    by (force simp: engine_ListTables_def db_of_def dom_def map_of_eq_None_iff)
  then show "serves rl ReqListTables e (server_ListTables e) e" using assms by (simp add: serves_def server_ListTables_def)
  show "serves rl ReqHealthCheck e server_HealthCheck e" using assms by (simp add: serves_def server_HealthCheck_def)
qed

text \<open>Whatever configuration the handler builds, the index has the dimension of the table.\<close>

lemma request_configs_good:
  assumes "request_configs r = Inr (hc, fc)" and "admissible rl (ReqCreateTable r)"
  shows "good_config rl (ct_vector_dimensionality r) hc fc"
    and "ct_name r \<noteq> [] \<Longrightarrow> ct_vector_dimensionality r \<noteq> 0 \<Longrightarrow>
      ValidateCreateTable (ct_name r) (ct_vector_dimensionality r) hc fc cs"
proof -
  have pos: "0 < unat x \<longleftrightarrow> x \<noteq> 0" "unat x = 0 \<longleftrightarrow> x = 0" for x :: u64 by (simp_all add: unat_gt_0 unsigned_eq_0_iff)
  show "good_config rl (ct_vector_dimensionality r) hc fc"
    and "ct_name r \<noteq> [] \<Longrightarrow> ct_vector_dimensionality r \<noteq> 0 \<Longrightarrow>
      ValidateCreateTable (ct_name r) (ct_vector_dimensionality r) hc fc cs"
    using assms
    by (auto simp: pos request_configs_def Let_def admissible_def good_config_def request_metric_def wants_hnsw_def
      ValidateCreateTable_iff hnsw_config_valid_def hnsw_config_empty_def default_hnsw_config_def default_flat_config_def
      split: RequestConfig.splits if_splits)
qed

lemma serves_CreateTable:
  assumes "serving rl e" and "admissible rl (ReqCreateTable r)"
  shows "\<exists>a b e'. server_CreateTable r e = (a, b, e') \<and> serves rl (ReqCreateTable r) e (a, b) e'"
proof (cases "request_configs r")
  case (Inl message)
  then show ?thesis using assms(1) by (simp add: server_CreateTable_def serves_def)
next
  case (Inr configs)
  obtain hc fc where c: "request_configs r = Inr (hc, fc)" using Inr by (cases configs) simp
  let ?t = "ct_name r" and ?dim = "ct_vector_dimensionality r" and ?cs = "ct_cache_size r"
  note good = request_configs_good [OF c assms(2)]
  have s: "engine_inv rl e" "md_primary (en_metadata e)" "\<not> en_shutdown e" using assms(1) by (simp_all add: serving_def)
  have absent: "table_absent e ?t \<longleftrightarrow> db_of e ?t = None"
    using assms(1) by (cases rule: serving_cases [of rl e ?t]) simp_all
  have cs: "0 < ?cs" using assms(2) by (simp add: admissible_def word_gt_0)
  show ?thesis
  proof (cases "ValidateCreateTable ?t ?dim hc fc (unat ?cs) \<and> table_absent e ?t")
    case False
    have "?t = [] \<or> ?dim = 0 \<or> db_of e ?t \<noteq> None" using False good(2) absent by blast
    then have "db_create r (db_of e) = (False, db_of e)" by (auto simp: db_create_def)
    moreover have "engine_CreateTable e ?t ?dim hc fc ?cs = (False, e)" using False by (auto simp: engine_CreateTable_def)
    ultimately show ?thesis using assms(1) c by (simp add: server_CreateTable_def serves_def)
  next
    case True
    obtain e' where e': "engine_CreateTable e ?t ?dim hc fc ?cs = (True, e')" "engine_inv rl e'"
      using engine_CreateTable_ok [OF s(1) good(1) cs, of ?t] engine_CreateTable_shape [OF s(2,3)] True by fastforce
    obtain it stored ix where mi: "make_index hc fc = (it, stored, ix)" by (metis prod_cases3)
    obtain e1 where e1: "e' = upd_stats ?t (stats_SetModifiedFlag True) (add_table ?t ?dim hc fc ?cs e1)"
      "en_store_map e1 = en_store_map e" "en_metadata e1 = en_metadata e" "en_shutdown e1 = en_shutdown e"
      using engine_CreateTable_shape [OF s(2,3), of ?t ?dim hc fc ?cs] True e'(1) by auto
    note views = add_table_views [OF mi, where t = ?t and dim = ?dim and cs = ?cs and e = e1]
    have "en_store_map e' = mput ?t (store_new it ix ?dim) (en_store_map e)" by (simp add: e1(1,2) views(5))
    moreover have "flat_store (store_new it ix ?dim) = flat_requested r"
      using mi c by (auto simp: flat_store_def store_new_def flat_requested_def make_index_def split: if_splits)
    ultimately have "db_of e' = (db_of e)(?t \<mapsto> (size_of_int ?dim, flat_requested r, Map.empty))"
      by (auto simp: db_of_def fun_eq_iff store_new_def store_dim_def store_data_def)
    moreover have "db_create r (db_of e) = (True, (db_of e)(?t \<mapsto> (size_of_int ?dim, flat_requested r, Map.empty)))"
      using True absent by (simp add: db_create_def ValidateCreateTable_iff)
    moreover have "serving rl e'" using e'(2) s(2,3) by (simp add: serving_def e1 views(3,4))
    ultimately show ?thesis using c e'(1) by (simp add: server_CreateTable_def serves_def)
  qed
qed

lemma serve_step:
  assumes "serving rl e" and "admissible rl r"
  shows "\<exists>status response e'. serve rl H net l ls r (e, w) = Some (status, response, e', w) \<and> serves rl r e (status, response) e'"
proof (cases r)
  case (ReqInsert x)
  with serves_Insert [OF assms(1), of x] assms(2) show ?thesis by (force simp: serve_def admissible_def)
next
  case (ReqRemove x)
  with serves_Remove [OF assms(1), of x] show ?thesis by (force simp: serve_def)
next
  case (ReqSearch x)
  with serves_Search [OF assms(1), of x l] assms(2) show ?thesis by (force simp: serve_def admissible_def)
next
  case (ReqBatchInsert x)
  with serves_batches(1) [OF assms(1), of x] assms(2) show ?thesis by (force simp: serve_def admissible_def)
next
  case (ReqBatchRemove x)
  with serves_batches(2) [OF assms(1), of x] show ?thesis by (force simp: serve_def)
next
  case (ReqBatchSearch x)
  with serves_BatchSearch [OF assms(1), of x H ls] assms(2) show ?thesis by (force simp: serve_def admissible_def)
next
  case (ReqCreateTable x)
  with serves_CreateTable [OF assms(1), of x] assms(2) show ?thesis by (force simp: serve_def)
next
  case (ReqDropTable t)
  with assms(2) show ?thesis by (simp add: admissible_def)
next
  case (ReqStats t)
  with serves_reading(1) [OF assms(1), of t] show ?thesis by (cases "server_Stats t e") (simp add: serve_def)
next
  case (ReqMetrics t)
  with serves_reading(2) [OF assms(1), of t] show ?thesis by (cases "server_Metrics t e") (simp add: serve_def)
next
  case ReqListTables
  with serves_reading(3) [OF assms(1)] show ?thesis by (cases "server_ListTables e") (simp add: serve_def)
next
  case ReqHealthCheck
  with serves_reading(4) [OF assms(1)] show ?thesis by (auto simp: serve_def server_HealthCheck_def)
qed

end
