(* ===== verification/CachedSearch.thy ===== *)
theory CachedSearch
  imports EngineLog ServerRefinement
begin

text \<open>
  The cache of \<open>BatchSearch\<close>. On a primary that changes its tables only through its client
  operations every entry is the answer, on the data as they are, to some batch with the same
  hash; so a batch is answered rightly when no batch with another answer shares its hash. The
  hash does not tell apart a batch and its permutations, and a replica does not invalidate.
\<close>

section \<open>Answers\<close>

text \<open>The entry is the answer to a batch of \<open>Q\<close> with this hash, on this store.\<close>

definition answers :: "(f32 \<Rightarrow> u64) \<Rightarrow> request list set \<Rightarrow> VectorStore \<Rightarrow> CacheKey \<Rightarrow> CacheEntry \<Rightarrow> bool" where
  "answers H Q s key entry \<longleftrightarrow> (\<exists>q \<in> Q. hash_key H q = key \<and> (\<exists>rs. search_requests s q = Some rs \<and> entry = to_cache rs))"

definition cache_right :: "(f32 \<Rightarrow> u64) \<Rightarrow> request list set \<Rightarrow> Engine \<Rightarrow> string \<Rightarrow> bool" where
  "cache_right H Q e t \<longleftrightarrow> (\<exists>s c. map_of (en_store_map e) t = Some s \<and> map_of (en_cache_map e) t = Some c \<and> lru_inv c \<and>
     lru.sound (answers H Q s) c)"

lemma from_to_cache [simp]: "from_cache (to_cache rs) = rs"
  by (simp add: from_cache_def to_cache_def comp_def map_idI)

lemma cache_right_cong:
  "map_of (en_store_map e') t = map_of (en_store_map e) t \<Longrightarrow> map_of (en_cache_map e') t = map_of (en_cache_map e) t \<Longrightarrow>
   cache_right H Q e' t = cache_right H Q e t"
  by (simp add: cache_right_def)

lemma answers_mono: "Q \<subseteq> Q' \<Longrightarrow> answers H Q s key entry \<Longrightarrow> answers H Q' s key entry"
  by (auto simp: answers_def)

lemma sound_mono: "(\<And>k e. R k e \<Longrightarrow> R' k e) \<Longrightarrow> lru.sound R c \<Longrightarrow> lru.sound R' c"
  by (auto simp: lru.sound_def)

section \<open>A batch\<close>

definition batch_served :: "Engine \<Rightarrow> string \<Rightarrow> request list \<Rightarrow> bool" where
  "batch_served e t q \<longleftrightarrow> searchable_table e t \<and> (\<forall>(query, k, search_param) \<in> set q. ValidateSearch t query k search_param) \<and>
     md_use_cache (en_metadata e) \<and> contains (en_cache_map e) t"

text \<open>A hit answers with the entry, a miss runs the searches and stores their results.\<close>

lemma engine_BatchSearch_hit:
  assumes "batch_served e t q" and "map_of (en_cache_map e) t = Some c" and "lru_inv c"
    and "lru_content c (hash_key H q) = Some entry"
  shows "engine_BatchSearch H e ls t q = Some (from_cache entry,
    upd_metrics t (metrics_Increment CACHE_HIT 1) (set_cache t (snd (lru_Get c (hash_key H q))) e))"
proof -
  have "fst (lru_Get c (hash_key H q)) = Some entry" using lru.get_law [OF assms(3)] assms(4) by simp
  then obtain c' where "lru_Get c (hash_key H q) = (Some entry, c')" by (cases "lru_Get c (hash_key H q)") simp
  moreover have v: "\<not> (\<exists>(query, k, search_param) \<in> set q. \<not> ValidateSearch t query k search_param)"
    using assms(1) by (auto simp: batch_served_def)
  ultimately show ?thesis
    using assms(1,2) unfolding engine_BatchSearch_def if_not_P [OF v] by (simp add: batch_served_def)
qed

lemma engine_BatchSearch_miss:
  assumes "batch_served e t q" and "map_of (en_cache_map e) t = Some c" and "lru_inv c"
    and "lru_content c (hash_key H q) = None" and "map_of (en_store_map e) t = Some s"
    and "search_requests s q = Some rs"
  shows "\<exists>e' c'. engine_BatchSearch H e ls t q = Some (rs, e') \<and> lru_Store c (hash_key H q) (to_cache rs) = Some c' \<and>
    map_of (en_cache_map e') t = Some c' \<and> en_store_map e' = en_store_map e \<and> en_metadata e' = en_metadata e \<and>
    en_shutdown e' = en_shutdown e \<and> contains (en_metrics_manager_map e') t"
proof -
  have g: "lru_Get c (hash_key H q) = (None, c)"
    using lru.get_law [OF assms(3), of "hash_key H q"] assms(4) by (auto simp: lru_Get_def split: option.splits prod.splits)
  obtain c' where c': "lru_Store c (hash_key H q) (to_cache rs) = Some c'" using lru.store_law [OF assms(3)] by blast
  have v: "\<not> (\<exists>(query, k, search_param) \<in> set q. \<not> ValidateSearch t query k search_param)"
    using assms(1) by (auto simp: batch_served_def)
  define e' where "e' = set_cache t c' (count_searches t ls (upd_metrics t (metrics_Increment CACHE_MISS 1) (set_cache t c e)))"
  have m: "contains (en_metrics_manager_map e) t" using assms(1) by (simp add: batch_served_def searchable_table_def)
  have "engine_BatchSearch H e ls t q = Some (rs, e')"
    using assms(1,2,5,6) g c' unfolding engine_BatchSearch_def if_not_P [OF v]
    by (simp add: batch_served_def run_batch_def Let_def e'_def)
  then show ?thesis using c' m by (intro exI [of _ e'] exI [of _ c']) (simp add: e'_def)
qed

text \<open>Either way: the answer of some batch with the hash, and the cache stays right.\<close>

lemma engine_BatchSearch_right:
  assumes "cache_right H Q e t" and "batch_served e t q" and "map_of (en_store_map e) t = Some s"
    and "search_requests s q = Some rs"
  shows "\<exists>r e'. engine_BatchSearch H e ls t q = Some (r, e') \<and> cache_right H (insert q Q) e' t \<and>
    en_store_map e' = en_store_map e \<and>
    (\<exists>q' \<in> insert q Q. hash_key H q' = hash_key H q \<and> search_requests s q' = Some r)"
proof -
  obtain c where c: "map_of (en_cache_map e) t = Some c" "lru_inv c" "lru.sound (answers H Q s) c"
    using assms(1,3) by (auto simp: cache_right_def)
  have more: "lru.sound (answers H (insert q Q) s) c" by (rule sound_mono [OF _ c(3)]) (rule answers_mono, auto)
  show ?thesis
  proof (cases "lru_content c (hash_key H q)")
    case None
    obtain e' c' where e': "engine_BatchSearch H e ls t q = Some (rs, e')" "lru_Store c (hash_key H q) (to_cache rs) = Some c'"
      "map_of (en_cache_map e') t = Some c'" "en_store_map e' = en_store_map e"
      using engine_BatchSearch_miss [OF assms(2) c(1,2) None assms(3,4), of ls] by blast
    have "answers H (insert q Q) s (hash_key H q) (to_cache rs)" using assms(4) by (auto simp: answers_def)
    with lru.sound_store [OF c(2) more] e'(2) have "lru_inv c' \<and> lru.sound (answers H (insert q Q) s) c'" by fastforce
    with e' assms(3,4) show ?thesis by (auto simp: cache_right_def)
  next
    case (Some entry)
    then have "answers H Q s (hash_key H q) entry" using c(3) by (simp add: lru.sound_def)
    then obtain q' r where q': "q' \<in> Q" "hash_key H q' = hash_key H q" "search_requests s q' = Some r" "entry = to_cache r"
      unfolding answers_def by blast
    obtain r' c' where g: "lru_Get c (hash_key H q) = (r', c')" by fastforce
    note right = lru.sound_get [OF c(2) more g]
    show ?thesis
      using engine_BatchSearch_hit [OF assms(2) c(1,2) Some, of ls] q' g right assms(3) by (auto simp: cache_right_def)
  qed
qed

section \<open>Writes on the primary\<close>

lemma cache_right_invalidate:
  assumes "engine_inv rl e1" and "map_of (en_store_map e1) t = Some s1" and "md_use_cache (en_metadata e1)"
    and "sm_modified (mref (en_stats_manager_map e1) t) \<or> cache_right H Q e1 t"
  shows "cache_right H Q (invalidate_cache t e1) t"
proof (cases "sm_modified (mref (en_stats_manager_map e1) t)")
  case True
  obtain c where c: "map_of (en_cache_map e1) t = Some c" "lru_inv c"
    using assms(1) by (cases rule: engine_inv_cases [of rl e1 t]) (use assms(2) in \<open>simp_all add: table_inv_def\<close>)
  then show ?thesis
    using True assms(2,3) lru.sound_invalidate_all [OF c(2), of "answers H Q s1"]
    by (simp add: cache_right_def invalidate_cache_alt contains_def)
next
  case False
  then show ?thesis using assms(4) by (simp add: invalidate_cache_alt)
qed

lemma insert_step_cache: "insert_step rl t i v content e = Some (ok, e') \<Longrightarrow> en_cache_map e' = en_cache_map e"
  by (auto simp: insert_step_def Let_def split: option.splits if_splits)

lemma remove_step_cache: "remove_step t i e = (ok, e') \<Longrightarrow> en_cache_map e' = en_cache_map e"
  by (auto simp: remove_step_def Let_def split: prod.splits if_splits)

lemma engine_Insert_cache_right:
  assumes "engine_inv rl e" and "cache_right H Q e t" and "map_of (en_store_map e) t = Some s" and "writable e t"
    and "ValidateInsert t i v content" and "finite_vec v" and "md_use_cache (en_metadata e)"
  shows "\<exists>ok e' s'. engine_Insert rl e t i v content = Some (ok, e') \<and> store_Insert rl s i v content = Some (ok, s') \<and>
    engine_inv rl e' \<and> cache_right H Q e' t \<and> map_of (en_store_map e') t = Some s' \<and>
    en_metadata e' = en_metadata e \<and> en_shutdown e' = en_shutdown e"
proof -
  obtain e1 s1 where e1: "insert_step rl t i v content e = Some (takes s i v, e1)" "store_Insert rl s i v content = Some (takes s i v, s1)"
    "engine_inv rl e1" "en_metadata e1 = en_metadata e" "en_shutdown e1 = en_shutdown e" "en_store_map e1 = mput t s1 (en_store_map e)"
    "takes s i v \<longrightarrow> sm_modified (mref (en_stats_manager_map e1) t)"
    using insert_step_ok [OF assms(1,3,6), of i content] by blast
  have "cache_right H Q e1 t" if "\<not> takes s i v"
  proof -
    have "s1 = s" using e1(2) that by (auto simp: store_Insert_def split: if_splits)
    then show ?thesis using assms(2,3) e1(6) insert_step_cache [OF e1(1)] by (auto simp: cache_right_def)
  qed
  then have "cache_right H Q (invalidate_cache t e1) t"
    by (intro cache_right_invalidate [OF e1(3)]) (use e1(4,6,7) assms(7) in auto)
  then show ?thesis
    using assms(4,5) e1 invalidate_cache_inv [OF e1(3)]
    by (intro exI [of _ "takes s i v"] exI [of _ "invalidate_cache t e1"] exI [of _ s1]) (simp add: engine_Insert_def)
qed

lemma engine_Remove_cache_right:
  assumes "engine_inv rl e" and "cache_right H Q e t" and "map_of (en_store_map e) t = Some s" and "writable e t"
    and "ValidateRemove t i" and "md_use_cache (en_metadata e)"
  shows "\<exists>ok e' s'. engine_Remove e t i = (ok, e') \<and> store_Remove s i = (ok, s') \<and>
    engine_inv rl e' \<and> cache_right H Q e' t \<and> map_of (en_store_map e') t = Some s' \<and>
    en_metadata e' = en_metadata e \<and> en_shutdown e' = en_shutdown e"
proof -
  let ?ok = "contains (vs_store s) i"
  obtain e1 s1 where e1: "remove_step t i e = (?ok, e1)" "store_Remove s i = (?ok, s1)"
    "engine_inv rl e1" "en_metadata e1 = en_metadata e" "en_shutdown e1 = en_shutdown e" "en_store_map e1 = mput t s1 (en_store_map e)"
    "?ok \<longrightarrow> sm_modified (mref (en_stats_manager_map e1) t)"
    using remove_step_ok [OF assms(1,3), of i] by blast
  have "cache_right H Q e1 t" if "\<not> ?ok"
  proof -
    have "s1 = s" using e1(2) that by (simp add: store_Remove_def)
    then show ?thesis using assms(2,3) e1(6) remove_step_cache [OF e1(1)] by (auto simp: cache_right_def)
  qed
  then have "cache_right H Q (invalidate_cache t e1) t"
    by (intro cache_right_invalidate [OF e1(3)]) (use e1(4,6,7) assms(6) in auto)
  then show ?thesis
    using assms(4,5) e1 invalidate_cache_inv [OF e1(3)]
    by (intro exI [of _ ?ok] exI [of _ "invalidate_cache t e1"] exI [of _ s1]) (simp add: engine_Remove_def)
qed

section \<open>What the hash does not see\<close>

lemma hash_request_xor: "hash_request H r h = xor h (hash_request H r 0)"
proof -
  have "fold (\<lambda>x hash. xor hash (H x)) xs h = xor h (fold (\<lambda>x hash. xor hash (H x)) xs 0)" for xs h
  proof (induction xs arbitrary: h)
    case (Cons x xs)
    show ?case using Cons.IH [of "xor h (H x)"] Cons.IH [of "xor 0 (H x)"] by (simp add: xor.assoc)
  qed simp
  from this [of _ "xor (xor h (of_nat k)) (of_nat p)" for k p] this [of _ "xor (xor 0 (of_nat k)) (of_nat p)" for k p]
  show ?thesis by (cases r) (simp add: hash_request_def xor.assoc)
qed

lemma hash_key_permuted:
  assumes "mset q = mset q'"
  shows "hash_key H q = hash_key H q'"
proof -
  have "hash_request H x (hash_request H y h) = hash_request H y (hash_request H x h)" for x y h
    using hash_request_xor [of H x "hash_request H y h"] hash_request_xor [of H y h]
      hash_request_xor [of H y "hash_request H x h"] hash_request_xor [of H x h] by (simp add: ac_simps)
  then have "fold (hash_request H) q = fold (hash_request H) q'"
    by (intro fold_multiset_equiv [OF _ assms]) (simp add: fun_eq_iff)
  moreover have "length q = length q'" using assms by (rule mset_eq_length)
  ultimately show ?thesis by (simp add: hash_key_def)
qed

text \<open>The second component of every pair of components, and which of \<open>k\<close> and \<open>search_param\<close> is which.\<close>

lemma hash_request_blind:
  "hash_request H (a # b # v, k, p) h = hash_request H (a # b' # v, k, p) h"
  "hash_request H (v, k, p) h = hash_request H (v, p, k) h"
  by (simp_all add: hash_request_def xor.assoc xor.commute [of "of_nat k"])

text \<open>After a batch the cache holds its answer under its hash, for every batch that has it.\<close>

definition holds_answer :: "Engine \<Rightarrow> string \<Rightarrow> CacheKey \<Rightarrow> Data list list \<Rightarrow> bool" where
  "holds_answer e t key r \<longleftrightarrow> (\<exists>c entry. map_of (en_cache_map e) t = Some c \<and> lru_inv c \<and>
     lru_content c key = Some entry \<and> from_cache entry = r)"

lemma engine_BatchSearch_held:
  assumes "batch_served e t q" and "map_of (en_cache_map e) t = Some c" and "lru_inv c" and "map_of (en_store_map e) t = Some s"
    and "search_requests s q = Some rs" and "engine_BatchSearch H e ls t q = Some (r, e1)"
  shows "en_store_map e1 = en_store_map e \<and> en_metadata e1 = en_metadata e \<and> en_shutdown e1 = en_shutdown e \<and>
      contains (en_metrics_manager_map e1) t \<and> holds_answer e1 t (hash_key H q) r"
proof (cases "lru_content c (hash_key H q)")
  case None
  obtain e' c' where e': "engine_BatchSearch H e ls t q = Some (rs, e')" "lru_Store c (hash_key H q) (to_cache rs) = Some c'"
    "map_of (en_cache_map e') t = Some c'" "en_store_map e' = en_store_map e" "en_metadata e' = en_metadata e"
    "en_shutdown e' = en_shutdown e" "contains (en_metrics_manager_map e') t"
    using engine_BatchSearch_miss [OF assms(1-3) None assms(4,5), of ls] by blast
  have "lru_inv c' \<and> lru_content c' (hash_key H q) = Some (to_cache rs)"
    using lru.store_law [OF assms(3), of "hash_key H q" "to_cache rs"] e'(2) by auto
  with e' assms(6) show ?thesis by (auto simp: holds_answer_def)
next
  case (Some entry)
  note hit = engine_BatchSearch_hit [OF assms(1-3) Some, of ls]
  have m: "contains (en_metrics_manager_map e) t" using assms(1) by (simp add: batch_served_def searchable_table_def)
  have "lru_inv (snd (lru_Get c (hash_key H q))) \<and> lru_content (snd (lru_Get c (hash_key H q))) = lru_content c"
    using lru.get_law [OF assms(3), of "hash_key H q"] by simp
  with hit assms(6) Some m show ?thesis by (auto simp: holds_answer_def)
qed

lemma held_answered:
  assumes "holds_answer e t (hash_key H q) r" and "batch_served e t q"
  shows "\<exists>e'. engine_BatchSearch H e ls t q = Some (r, e')"
proof -
  obtain c entry where "map_of (en_cache_map e) t = Some c" "lru_inv c" "lru_content c (hash_key H q) = Some entry" "from_cache entry = r"
    using assms(1) unfolding holds_answer_def by blast
  with engine_BatchSearch_hit [OF assms(2) this(1-3), of ls] show ?thesis by blast
qed

section \<open>Entries from the primary\<close>

text \<open>A replica's cache survives the entries it applies: the same batch gets the same answer.\<close>

lemma ApplyWALEntry_keeps_cache:
  assumes "engine_ApplyWALEntry rl net entry (e, w) = Some (ok, e', w')" and "we_type entry = WAL_INSERT \<or> we_type entry = WAL_REMOVE"
  shows "en_cache_map e' = en_cache_map e \<and> en_metadata e' = en_metadata e \<and> en_shutdown e' = en_shutdown e \<and>
    en_metrics_manager_map e' = en_metrics_manager_map e \<and> contains (en_store_map e') = contains (en_store_map e)"
  using assms by (auto simp: engine_ApplyWALEntry_def apply_insert_def apply_remove_def contains_def fun_eq_iff Let_def
      split: if_splits prod.splits option.splits)

lemma batch_served_cong:
  "en_cache_map e' = en_cache_map e \<Longrightarrow> en_metadata e' = en_metadata e \<Longrightarrow> en_shutdown e' = en_shutdown e \<Longrightarrow>
   en_metrics_manager_map e' = en_metrics_manager_map e \<Longrightarrow> contains (en_store_map e') = contains (en_store_map e) \<Longrightarrow>
   batch_served e' t q = batch_served e t q"
  by (simp add: batch_served_def searchable_table_def)

section \<open>The cache does not show\<close>

text \<open>What clients of a primary do to one table, and what the store alone makes of it.\<close>

datatype TableOp = TInsert Id vector string | TRemove Id | TBatch "f32 list" "request list"

fun engine_ops :: "level_fun \<Rightarrow> (f32 \<Rightarrow> u64) \<Rightarrow> string \<Rightarrow> TableOp list \<Rightarrow> Engine \<Rightarrow> (Data list list list \<times> Engine) option" where
  "engine_ops rl H t [] e = Some ([], e)"
| "engine_ops rl H t (TInsert i v content # ops) e =
     (case engine_Insert rl e t i v content of None \<Rightarrow> None | Some (_, e') \<Rightarrow> engine_ops rl H t ops e')"
| "engine_ops rl H t (TRemove i # ops) e = engine_ops rl H t ops (snd (engine_Remove e t i))"
| "engine_ops rl H t (TBatch ls q # ops) e =
     (case engine_BatchSearch H e ls t q of
        None \<Rightarrow> None | Some (r, e') \<Rightarrow> map_option (\<lambda>(rs, e''). (r # rs, e'')) (engine_ops rl H t ops e'))"

fun store_ops :: "level_fun \<Rightarrow> TableOp list \<Rightarrow> VectorStore \<Rightarrow> Data list list list option" where
  "store_ops rl [] s = Some []"
| "store_ops rl (TInsert i v content # ops) s =
     (case store_Insert rl s i v content of None \<Rightarrow> None | Some (_, s') \<Rightarrow> store_ops rl ops s')"
| "store_ops rl (TRemove i # ops) s = store_ops rl ops (snd (store_Remove s i))"
| "store_ops rl (TBatch ls q # ops) s =
     (case search_requests s q of None \<Rightarrow> None | Some r \<Rightarrow> map_option (Cons r) (store_ops rl ops s))"

fun table_op_fine :: "string \<Rightarrow> TableOp \<Rightarrow> bool" where
  "table_op_fine t (TInsert i v content) \<longleftrightarrow> ValidateInsert t i v content \<and> finite_vec v"
| "table_op_fine t (TRemove i) \<longleftrightarrow> ValidateRemove t i"
| "table_op_fine t (TBatch ls q) \<longleftrightarrow> (\<forall>(query, k, p) \<in> set q. ValidateSearch t query k p \<and> finite_vec query)"

fun asked :: "TableOp \<Rightarrow> request list set" where
  "asked (TBatch ls q) = {q}"
| "asked _ = {}"

lemma search_requests_total:
  assumes "store_inv rl s" and "\<forall>(query, k, p) \<in> set q. finite_vec query"
  shows "\<exists>rs. search_requests s q = Some rs"
  unfolding search_requests_def
proof (rule those_total, rule ballI)
  fix x assume x: "x \<in> set q"
  obtain query k p where q: "x = (query, k, p)" by (cases x)
  then have "finite_vec query" using assms(2) x by auto
  from store_Search_ok [OF assms(1) this, of k p]
  show "(case x of (query, k, search_param) \<Rightarrow> store_Search s query k search_param) \<noteq> None" by (auto simp: q)
qed

lemma stored_present:
  assumes "engine_inv rl e" and "map_of (en_store_map e) t = Some s" and "\<not> en_shutdown e"
  shows "searchable_table e t" and "contains (en_cache_map e) t" and "md_primary (en_metadata e) \<Longrightarrow> writable e t"
  using assms(1)
  by (cases rule: engine_inv_cases [of rl e t]; use assms(2,3) in \<open>simp add: searchable_table_def writable_def contains_def\<close>)+

lemma engine_ops_store:
  assumes "engine_inv rl e" and "map_of (en_store_map e) t = Some s" and "md_primary (en_metadata e)" and "\<not> en_shutdown e"
    and "md_use_cache (en_metadata e)" and "cache_right H Q e t" and "\<forall>op \<in> set ops. table_op_fine t op"
    and "inj_on (hash_key H) (Q \<union> \<Union> (asked ` set ops))"
  shows "\<exists>rs e'. engine_ops rl H t ops e = Some (rs, e') \<and> store_ops rl ops s = Some rs"
  using assms
proof (induction ops arbitrary: e s Q)
  case (Cons op ops)
  note present = stored_present [OF Cons.prems(1,2,4)]
  show ?case
  proof (cases op)
    case (TInsert i v content)
    then have f: "ValidateInsert t i v content" "finite_vec v" using Cons.prems(7) by simp_all
    obtain ok e1 s1 where "engine_Insert rl e t i v content = Some (ok, e1)" "store_Insert rl s i v content = Some (ok, s1)"
      "engine_inv rl e1" "cache_right H Q e1 t" "map_of (en_store_map e1) t = Some s1"
      "en_metadata e1 = en_metadata e" "en_shutdown e1 = en_shutdown e"
      using engine_Insert_cache_right [OF Cons.prems(1,6,2) present(3) [OF Cons.prems(3)] f Cons.prems(5)] by blast
    with Cons.IH [of e1 s1 Q] Cons.prems TInsert show ?thesis by simp
  next
    case (TRemove i)
    then have f: "ValidateRemove t i" using Cons.prems(7) by simp
    obtain ok e1 s1 where "engine_Remove e t i = (ok, e1)" "store_Remove s i = (ok, s1)"
      "engine_inv rl e1" "cache_right H Q e1 t" "map_of (en_store_map e1) t = Some s1"
      "en_metadata e1 = en_metadata e" "en_shutdown e1 = en_shutdown e"
      using engine_Remove_cache_right [OF Cons.prems(1,6,2) present(3) [OF Cons.prems(3)] f Cons.prems(5)] by blast
    with Cons.IH [of e1 s1 Q] Cons.prems TRemove show ?thesis by simp
  next
    case (TBatch ls q)
    have f: "\<forall>(query, k, p) \<in> set q. ValidateSearch t query k p" "\<forall>(query, k, p) \<in> set q. finite_vec query"
      using Cons.prems(7) TBatch by auto
    have served: "batch_served e t q" using present(1,2) f(1) Cons.prems(5) by (simp add: batch_served_def)
    obtain rs where rs: "search_requests s q = Some rs"
      using search_requests_total [OF engine_store_inv [OF Cons.prems(1,2)] f(2)] by blast
    obtain r e1 q' where e1: "engine_BatchSearch H e ls t q = Some (r, e1)" "cache_right H (insert q Q) e1 t"
      "en_store_map e1 = en_store_map e" "q' \<in> insert q Q" "hash_key H q' = hash_key H q" "search_requests s q' = Some r"
      using engine_BatchSearch_right [OF Cons.prems(6) served Cons.prems(2) rs, of ls] by blast
    have inj: "inj_on (hash_key H) (insert q Q \<union> \<Union> (asked ` set ops))" using Cons.prems(8) TBatch by simp
    have "q' = q" using inj_onD [OF inj e1(5)] e1(4) by blast
    then have "r = rs" using e1(6) rs by simp
    moreover have "engine_inv rl e1" "en_metadata e1 = en_metadata e" "en_shutdown e1 = en_shutdown e"
      using engine_BatchSearch_ok [OF Cons.prems(1) f(2), of H ls t] e1(1) by auto
    ultimately show ?thesis
      using Cons.IH [of e1 s "insert q Q"] Cons.prems(2-5,7) e1(1-3) rs inj TBatch by auto
  qed
qed simp

end
