(* ===== verification/CacheProperties.thy ===== *)
theory CacheProperties
  imports CachedSearch Samples
begin

text \<open>
  The properties of the cache of batch searches: when it does not show, and two cases in which
  it does, a permuted batch and a replica.
\<close>

lemma sample_cache_right: "cache_right H {} sample_engine ''t''"
proof -
  have "lru_inv (lru_new 2)" by (rule lru_inv_new) simp
  moreover have "lru.sound R (lru_new 2)" for R by (simp add: lru.sound_def lru_content_def lru_new_def lru_abs_def)
  ultimately show ?thesis by (simp add: cache_right_def sample_engine_def)
qed

lemma sample_served:
  assumes "\<forall>(query, k, p) \<in> set q. ValidateSearch ''t'' query k p"
  shows "batch_served sample_engine ''t'' q"
  using assms by (simp add: batch_served_def searchable_table_def sample_engine_def sample_md_def contains_def)

section \<open>A cache that does not show\<close>

text \<open>C15: on a primary, for any insertions, removals and batch searches of a table, every batch gets what the
  searches give on the records of that moment, whether it is answered from the cache or not,
  provided no two different batches that are asked have the same hash.\<close>

theorem cache_transparent:
  assumes "engine_inv rl e" and "map_of (en_store_map e) t = Some s" and "md_primary (en_metadata e)" and "\<not> en_shutdown e"
    and "md_use_cache (en_metadata e)" and "cache_right H Q e t" and "\<forall>op \<in> set ops. table_op_fine t op"
    and "inj_on (hash_key H) (Q \<union> \<Union> (asked ` set ops))"
  shows "\<exists>rs e'. engine_ops rl H t ops e = Some (rs, e') \<and> store_ops rl ops s = Some rs"
  by (rule engine_ops_store [OF assms])

lemma cache_transparent_witness:
  "\<exists>rs e'. engine_ops ground_level (\<lambda>_. 0) ''t'' [TBatch [] [([f32_one], 5, 0)], TInsert 7 [f32_one] ''c'', TBatch [] [([f32_one], 5, 0)]]
      sample_engine = Some (rs, e') \<and>
    store_ops ground_level [TBatch [] [([f32_one], 5, 0)], TInsert 7 [f32_one] ''c'', TBatch [] [([f32_one], 5, 0)]] sample_store = Some rs"
proof -
  let ?ops = "[TBatch [] [([f32_one], 5, 0)], TInsert 7 [f32_one] ''c'', TBatch [] [([f32_one], 5, 0)]]"
  have e: "map_of (en_store_map sample_engine) ''t'' = Some sample_store" "md_primary (en_metadata sample_engine)"
    "\<not> en_shutdown sample_engine" "md_use_cache (en_metadata sample_engine)" by (simp_all add: sample_engine_def sample_md_def)
  have f: "\<forall>op \<in> set ?ops. table_op_fine ''t'' op"
    by (simp add: ValidateInsert_def ValidateSearch_def finite_vec_def f32_one_def)
  have i: "inj_on (hash_key (\<lambda>_. 0)) ({} \<union> \<Union> (asked ` set ?ops))" by simp
  show ?thesis by (rule cache_transparent [OF sample_engine_inv(1) e sample_cache_right f i])
qed

section \<open>The hash of a batch\<close>

text \<open>The hash of a batch does not depend on the order of its requests: a batch that permutes one answered
  just before is answered with the results of that one, in the order of that one.\<close>

theorem batch_order_ignored:
  assumes "engine_inv rl e" and "batch_served e t q" and "\<forall>(query, k, p) \<in> set q. finite_vec query" and "mset q' = mset q"
    and "engine_BatchSearch H e ls t q = Some (r, e1)"
  shows "\<exists>e2. engine_BatchSearch H e1 ls' t q' = Some (r, e2)"
proof -
  obtain s c where s: "map_of (en_store_map e) t = Some s" and c: "map_of (en_cache_map e) t = Some c"
    using assms(2) by (auto simp: batch_served_def searchable_table_def contains_def)
  have ci: "lru_inv c" by (rule cache_of_inv [OF assms(1) c])
  obtain rs where rs: "search_requests s q = Some rs" using search_requests_total [OF engine_store_inv [OF assms(1) s] assms(3)] by blast
  note held = engine_BatchSearch_held [OF assms(2) c ci s rs assms(5)]
  have "set q' = set q" by (rule mset_eq_setD [OF assms(4)])
  then have "batch_served e1 t q'"
    using held assms(2) by (auto simp: batch_served_def searchable_table_def holds_answer_def contains_def)
  moreover have "hash_key H q' = hash_key H q" by (rule hash_key_permuted [OF assms(4)])
  ultimately show ?thesis using held by (intro held_answered) simp_all
qed

lemma batch_order_ignored_witness:
  "\<exists>r e1 e2. engine_BatchSearch (\<lambda>_. 0) sample_engine [] ''t'' [([f32_one], 1, 0), ([f32_zero], 1, 0)] = Some (r, e1) \<and>
    engine_BatchSearch (\<lambda>_. 0) e1 [] ''t'' [([f32_zero], 1, 0), ([f32_one], 1, 0)] = Some (r, e2) \<and>
    search_requests sample_store [([f32_zero], 1, 0), ([f32_one], 1, 0)] \<noteq> Some r"
proof -
  let ?a = "([f32_one], 1, 0) :: request" and ?b = "([f32_zero], 1, 0) :: request"
  have inv: "engine_inv ground_level sample_engine" by (rule sample_engine_inv(1))
  have fin: "\<forall>(query, k, p) \<in> set [?a, ?b]. finite_vec query" by (simp add: finite_vec_def f32_one_def)
  have served: "batch_served sample_engine ''t'' [?a, ?b]" by (rule sample_served) (simp add: ValidateSearch_def)
  obtain r e1 where e1: "engine_BatchSearch (\<lambda>_. 0) sample_engine [] ''t'' [?a, ?b] = Some (r, e1)"
    using engine_BatchSearch_ok [OF inv fin] by blast
  have sa: "store_Search sample_store [f32_one] (Suc 0) 0 = Some [\<lparr>d_id = 1, d_vector = [f32_one], d_content = ''a''\<rparr>]"
    by (subst store_Search_flat [OF sample_store_inv(1) [of ground_level]])
      (simp_all add: flat_store_def sample_store_def sample_flat_def nearest_def sample_data_def sort_key_def dist_key_def dkey_def)
  have sb: "store_Search sample_store [f32_zero] (Suc 0) 0 = Some [\<lparr>d_id = 2, d_vector = [f32_zero], d_content = ''b''\<rparr>]"
    by (subst store_Search_flat [OF sample_store_inv(1) [of ground_level]])
      (simp_all add: flat_store_def sample_store_def sample_flat_def nearest_def sample_data_def sort_key_def dist_key_def dkey_def)
  have "search_requests sample_store [?a, ?b] = Some r"
    using engine_BatchSearch_right [OF sample_cache_right served, of sample_store _ "\<lambda>_. 0" "[]"] e1 sa sb
    by (auto simp: search_requests_def sample_engine_def)
  then have "search_requests sample_store [?b, ?a] \<noteq> Some r" by (auto simp: search_requests_def sa sb)
  moreover have "mset [?b, ?a] = mset [?a, ?b]" by simp
  from batch_order_ignored [OF inv served fin this e1, of "[]"]
  obtain e2 where "engine_BatchSearch (\<lambda>_. 0) e1 [] ''t'' [?b, ?a] = Some (r, e2)" by blast
  ultimately show ?thesis using e1 by blast
qed

section \<open>Replicas\<close>

text \<open>C29: a replica applies the primary's insertions and removals without invalidating its cache: a batch it has
  answered once gets the same answer after them, whatever they have changed.\<close>

theorem replica_answers_stale:
  assumes "engine_inv rl e" and "batch_served e t q" and "\<forall>(query, k, p) \<in> set q. finite_vec query"
    and "engine_BatchSearch H e ls t q = Some (r, e1)"
    and "we_type entry = WAL_INSERT \<or> we_type entry = WAL_REMOVE"
    and "engine_ApplyWALEntry rl net entry (e1, w) = Some (ok, e2, w')"
  shows "\<exists>e3. engine_BatchSearch H e2 ls' t q = Some (r, e3)"
proof -
  obtain s c where s: "map_of (en_store_map e) t = Some s" and c: "map_of (en_cache_map e) t = Some c"
    using assms(2) by (auto simp: batch_served_def searchable_table_def contains_def)
  have ci: "lru_inv c" by (rule cache_of_inv [OF assms(1) c])
  obtain rs where rs: "search_requests s q = Some rs" using search_requests_total [OF engine_store_inv [OF assms(1) s] assms(3)] by blast
  note held = engine_BatchSearch_held [OF assms(2) c ci s rs assms(4)]
  have "batch_served e1 t q"
    using held assms(2) by (auto simp: batch_served_def searchable_table_def holds_answer_def contains_def)
  moreover note kept = ApplyWALEntry_keeps_cache [OF assms(6,5)]
  ultimately have "batch_served e2 t q" using batch_served_cong [of e2 e1 t q] by blast
  moreover have "holds_answer e2 t (hash_key H q) r" using held kept by (simp add: holds_answer_def)
  ultimately show ?thesis by (intro held_answered)
qed

definition sample_applied :: WALEntry where
  "sample_applied = \<lparr>we_type = WAL_INSERT, we_table = ''t'', we_config = InsertConfig 7 [f32_one] ''c''\<rparr>"

lemma replica_answers_stale_witness:
  "\<exists>r e1 e2 e3. engine_BatchSearch (\<lambda>_. 0) sample_engine [] ''t'' [([f32_one], 5, 0)] = Some (r, e1) \<and>
    engine_ApplyWALEntry ground_level sample_silent_net sample_applied (e1, ()) = Some (True, e2, ()) \<and>
    engine_BatchSearch (\<lambda>_. 0) e2 [] ''t'' [([f32_one], 5, 0)] = Some (r, e3) \<and> table_data e2 \<noteq> table_data e1"
proof -
  let ?q = "[([f32_one], 5, 0)] :: request list"
  have inv: "engine_inv ground_level sample_engine" by (rule sample_engine_inv(1))
  have v: "finite_vec [f32_one]" by (simp add: finite_vec_def f32_one_def)
  then have fin: "\<forall>(query, k, p) \<in> set ?q. finite_vec query" by simp
  have served: "batch_served sample_engine ''t'' ?q" by (rule sample_served) (simp add: ValidateSearch_def)
  obtain r e1 where e1: "engine_BatchSearch (\<lambda>_. 0) sample_engine [] ''t'' ?q = Some (r, e1)" "engine_inv ground_level e1"
    "en_store_map e1 = en_store_map sample_engine" using engine_BatchSearch_ok [OF inv fin] by blast
  have t: "map_of (en_store_map e1) ''t'' = Some sample_store" "contains (en_store_map e1) ''t''"
    using e1(3) by (simp_all add: sample_engine_def contains_def)
  have st: "contains (en_stats_manager_map e1) ''t''"
    using e1(2) by (cases rule: engine_inv_cases [of ground_level e1 "''t''"]) (use t(1) in \<open>simp_all add: contains_def\<close>)
  have "takes sample_store 7 [f32_one]" by (simp add: takes_def sample_store_def sample_data_def contains_def)
  then obtain s' where s': "store_Insert ground_level sample_store 7 [f32_one] ''c'' = Some (True, s')"
    "store_data s' = (store_data sample_store)(7 \<mapsto> ([f32_one], ''c''))"
    using store_Insert_takes [OF sample_store_inv(1) v, of ground_level 7 "''c''"] by auto
  define e2 where "e2 = upd_stats ''t'' (stats_Increment VECTOR) (set_store ''t'' s' e1)"
  have a: "engine_ApplyWALEntry ground_level sample_silent_net sample_applied (e1, ()) = Some (True, e2, ())"
    using t st s'(1) by (simp add: engine_ApplyWALEntry_def sample_applied_def insert_args_def apply_insert_def e2_def Let_def)
  have "table_data e2 ''t'' \<noteq> table_data e1 ''t''"
    using t(1) s'(2) by (auto simp: table_data_def e2_def store_data_def sample_store_def sample_data_def fun_eq_iff)
  then have "table_data e2 \<noteq> table_data e1" by metis
  moreover have "we_type sample_applied = WAL_INSERT \<or> we_type sample_applied = WAL_REMOVE" by (simp add: sample_applied_def)
  from replica_answers_stale [OF inv served fin e1(1) this a, of "[]"]
  obtain e3 where "engine_BatchSearch (\<lambda>_. 0) e2 [] ''t'' ?q = Some (r, e3)" by blast
  ultimately show ?thesis using e1(1) a by blast
qed

end
