(* ===== verification/ThreadPool.thy ===== *)
theory ThreadPool
  imports Prelude "HOL-Library.Multiset"
begin

text \<open>
  \<open>ThreadPool\<close> (thread_pool.h, thread_pool.cc) as a step relation: the worker threads, the
  threads inside \<open>EnqueueTask\<close> and the destructor interleave at the critical sections of
  \<open>queue_mutex_\<close> and at the notifications of \<open>cv_\<close>. A step is one such section; between two
  steps any thread may be the next to run. Shown: tasks start in the order of the queue, none
  twice; no wake-up is lost; every run ends; what a destructor waits for.
\<close>

section \<open>State\<close>

text \<open>
  Where a worker is: about to lock the queue and test the condition, blocked in \<open>cv_.wait\<close>,
  running a task, or past its loop.
\<close>

datatype 'a Worker = Ready | Waiting | Running 'a | Exited

record 'a ThreadPool =
  tp_threads :: "'a Worker list"
  tp_tasks :: "'a list"
  tp_stop :: bool

text \<open>
  Where a call of \<open>EnqueueTask\<close> is: before its test of \<open>stop_\<close>, before it locks the queue,
  before \<open>notify_one\<close>, or returned, with a future of the task or with an empty one.
\<close>

datatype 'a Caller = AtCheck 'a | AtPush 'a | AtNotify | Returned bool

text \<open>The destructor: never called, or before setting the flag, before \<open>notify_all\<close>, joining, done.\<close>

datatype Destroyer = Absent | AtStop | AtNotifyAll | AtJoin | Destroyed

text \<open>The last three components record what has been put in the queue, started and finished, in order.\<close>

record 'a PoolSystem =
  ps_pool :: "'a ThreadPool"
  ps_callers :: "'a Caller list"
  ps_destroyer :: Destroyer
  ps_pushed :: "'a list"
  ps_started :: "'a list"
  ps_finished :: "'a list"

section \<open>The code\<close>

definition pool_new :: "nat \<Rightarrow> 'a ThreadPool" where
  "pool_new num_threads = \<lparr>tp_threads = replicate num_threads Ready, tp_tasks = [], tp_stop = False\<rparr>"

text \<open>The predicate of \<open>cv_.wait\<close>, and the rest of the critical section when it holds.\<close>

definition wait_over :: "'a ThreadPool \<Rightarrow> bool" where
  "wait_over p \<longleftrightarrow> tp_stop p \<or> tp_tasks p \<noteq> []"

definition worker_locked :: "nat \<Rightarrow> 'a ThreadPool \<Rightarrow> 'a ThreadPool" where
  "worker_locked i p =
     (if \<not> wait_over p then p\<lparr>tp_threads := (tp_threads p)[i := Waiting]\<rparr>
      else if tp_stop p \<and> tp_tasks p = [] then p\<lparr>tp_threads := (tp_threads p)[i := Exited]\<rparr>
      else p\<lparr>tp_threads := (tp_threads p)[i := Running (hd (tp_tasks p))], tp_tasks := tl (tp_tasks p)\<rparr>)"

definition enqueue_check :: "'a ThreadPool \<Rightarrow> 'a \<Rightarrow> 'a Caller" where
  "enqueue_check p task = (if tp_stop p then Returned False else AtPush task)"

definition enqueue_push :: "'a \<Rightarrow> 'a ThreadPool \<Rightarrow> 'a ThreadPool" where
  "enqueue_push task p = p\<lparr>tp_tasks := tp_tasks p @ [task]\<rparr>"

definition wake :: "nat \<Rightarrow> 'a ThreadPool \<Rightarrow> 'a ThreadPool" where
  "wake i p = p\<lparr>tp_threads := (tp_threads p)[i := Ready]\<rparr>"

definition set_stop :: "'a ThreadPool \<Rightarrow> 'a ThreadPool" where
  "set_stop p = p\<lparr>tp_stop := True\<rparr>"

definition wake_all :: "'a ThreadPool \<Rightarrow> 'a ThreadPool" where
  "wake_all p = p\<lparr>tp_threads := map (\<lambda>t. case t of Waiting \<Rightarrow> Ready | _ \<Rightarrow> t) (tp_threads p)\<rparr>"

definition joinable_all :: "'a ThreadPool \<Rightarrow> bool" where
  "joinable_all p \<longleftrightarrow> list_all (\<lambda>t. t = Exited) (tp_threads p)"

section \<open>Steps\<close>

abbreviation worker :: "'a PoolSystem \<Rightarrow> nat \<Rightarrow> 'a Worker \<Rightarrow> bool" where
  "worker s i t \<equiv> i < length (tp_threads (ps_pool s)) \<and> tp_threads (ps_pool s) ! i = t"

abbreviation caller :: "'a PoolSystem \<Rightarrow> nat \<Rightarrow> 'a Caller \<Rightarrow> bool" where
  "caller s j c \<equiv> j < length (ps_callers s) \<and> ps_callers s ! j = c"

abbreviation move_caller :: "nat \<Rightarrow> 'a Caller \<Rightarrow> 'a PoolSystem \<Rightarrow> 'a PoolSystem" where
  "move_caller j c s \<equiv> s\<lparr>ps_callers := (ps_callers s)[j := c]\<rparr>"

text \<open>The task that a worker takes in its critical section, if it takes one.\<close>

definition taken :: "'a ThreadPool \<Rightarrow> 'a list" where
  "taken p = take 1 (tp_tasks p)"

inductive pool_step :: "'a PoolSystem \<Rightarrow> 'a PoolSystem \<Rightarrow> bool" where
  lock_queue: "worker s i Ready \<Longrightarrow>
    pool_step s (s\<lparr>ps_pool := worker_locked i (ps_pool s), ps_started := ps_started s @ taken (ps_pool s)\<rparr>)"
| finish: "worker s i (Running task) \<Longrightarrow>
    pool_step s (s\<lparr>ps_pool := (ps_pool s)\<lparr>tp_threads := (tp_threads (ps_pool s))[i := Ready]\<rparr>,
      ps_finished := ps_finished s @ [task]\<rparr>)"
| check: "caller s j (AtCheck task) \<Longrightarrow> pool_step s (move_caller j (enqueue_check (ps_pool s) task) s)"
| push: "caller s j (AtPush task) \<Longrightarrow>
    pool_step s (move_caller j AtNotify (s\<lparr>ps_pool := enqueue_push task (ps_pool s), ps_pushed := ps_pushed s @ [task]\<rparr>))"
| notify: "caller s j AtNotify \<Longrightarrow> worker s i Waiting \<Longrightarrow>
    pool_step s (move_caller j (Returned True) (s\<lparr>ps_pool := wake i (ps_pool s)\<rparr>))"
| notify_none: "caller s j AtNotify \<Longrightarrow> Waiting \<notin> set (tp_threads (ps_pool s)) \<Longrightarrow>
    pool_step s (move_caller j (Returned True) s)"
| stop: "ps_destroyer s = AtStop \<Longrightarrow> pool_step s (s\<lparr>ps_pool := set_stop (ps_pool s), ps_destroyer := AtNotifyAll\<rparr>)"
| notify_all: "ps_destroyer s = AtNotifyAll \<Longrightarrow> pool_step s (s\<lparr>ps_pool := wake_all (ps_pool s), ps_destroyer := AtJoin\<rparr>)"
| join: "ps_destroyer s = AtJoin \<Longrightarrow> joinable_all (ps_pool s) \<Longrightarrow> pool_step s (s\<lparr>ps_destroyer := Destroyed\<rparr>)"

text \<open>A condition variable may also wake a thread without a notification.\<close>

inductive pool_moves :: "'a PoolSystem \<Rightarrow> 'a PoolSystem \<Rightarrow> bool" where
  start: "pool_moves s s"
| moves: "pool_moves s s1 \<Longrightarrow> pool_step s1 s2 \<Longrightarrow> pool_moves s s2"
| spurious: "pool_moves s s1 \<Longrightarrow> worker s1 i Waiting \<Longrightarrow> pool_moves s (s1\<lparr>ps_pool := wake i (ps_pool s1)\<rparr>)"

definition system_new :: "nat \<Rightarrow> 'a list \<Rightarrow> Destroyer \<Rightarrow> 'a PoolSystem" where
  "system_new num_threads tasks d = \<lparr>ps_pool = pool_new num_threads, ps_callers = map AtCheck tasks,
     ps_destroyer = d, ps_pushed = [], ps_started = [], ps_finished = []\<rparr>"

section \<open>Counting threads and callers\<close>

text \<open>The critical section of a worker, case by case.\<close>

lemma worker_locked_cases:
  obtains (waits) "tp_tasks p = []" "\<not> tp_stop p" "worker_locked i p = p\<lparr>tp_threads := (tp_threads p)[i := Waiting]\<rparr>" "taken p = []"
  | (exits) "tp_tasks p = []" "tp_stop p" "worker_locked i p = p\<lparr>tp_threads := (tp_threads p)[i := Exited]\<rparr>" "taken p = []"
  | (takes) task rest where "tp_tasks p = task # rest" "taken p = [task]"
    "worker_locked i p = p\<lparr>tp_threads := (tp_threads p)[i := Running task], tp_tasks := rest\<rparr>"
  by (cases "tp_tasks p"; cases "tp_stop p") (simp_all add: worker_locked_def wait_over_def taken_def)

text \<open>Weights: every step uses some up.\<close>

fun worker_weight :: "'a Worker \<Rightarrow> nat" where
  "worker_weight Ready = 2"
| "worker_weight Waiting = 1"
| "worker_weight (Running _) = 3"
| "worker_weight Exited = 0"

fun caller_weight :: "'a Caller \<Rightarrow> nat" where
  "caller_weight (AtCheck _) = 6"
| "caller_weight (AtPush _) = 5"
| "caller_weight AtNotify = 2"
| "caller_weight (Returned _) = 0"

fun destroyer_weight :: "nat \<Rightarrow> Destroyer \<Rightarrow> nat" where
  "destroyer_weight n Absent = 0"
| "destroyer_weight n AtStop = n + 3"
| "destroyer_weight n AtNotifyAll = n + 2"
| "destroyer_weight n AtJoin = 1"
| "destroyer_weight n Destroyed = 0"

definition pool_weight :: "'a PoolSystem \<Rightarrow> nat" where
  "pool_weight s = sum_list (map worker_weight (tp_threads (ps_pool s))) + 2 * length (tp_tasks (ps_pool s)) +
     sum_list (map caller_weight (ps_callers s)) + destroyer_weight (length (tp_threads (ps_pool s))) (ps_destroyer s)"

lemma wake_all_weight:
  "sum_list (map worker_weight (tp_threads (wake_all p))) \<le> sum_list (map worker_weight (tp_threads p)) + length (tp_threads p)"
proof -
  have one: "worker_weight (case t of Waiting \<Rightarrow> Ready | _ \<Rightarrow> t) \<le> Suc (worker_weight t)" for t :: "'a Worker" by (cases t) simp_all
  have "sum_list (map (\<lambda>t. worker_weight (case t of Waiting \<Rightarrow> Ready | _ \<Rightarrow> t)) ts) \<le> sum_list (map worker_weight ts) + length ts"
    for ts :: "'a Worker list"
  proof (induction ts)
    case (Cons t ts)
    show ?case using add_mono [OF one [of t] Cons.IH] by simp
  qed simp
  then show ?thesis by (simp add: wake_all_def comp_def)
qed

lemma pool_step_weight: "pool_step s s' \<Longrightarrow> pool_weight s' < pool_weight s"
proof (induction rule: pool_step.induct)
  case (lock_queue s i)
  note moved = sum_list_moved [of i "tp_threads (ps_pool s)" worker_weight]
  show ?case
  proof (cases rule: worker_locked_cases [of "ps_pool s" i])
    case waits
    then show ?thesis using lock_queue moved [of Waiting] by (simp add: pool_weight_def)
  next
    case exits
    then show ?thesis using lock_queue moved [of Exited] by (simp add: pool_weight_def)
  next
    case (takes task rest)
    then show ?thesis using lock_queue moved [of "Running task"] by (simp add: pool_weight_def)
  qed
next
  case (finish s i task)
  then show ?case using sum_list_moved [of i "tp_threads (ps_pool s)" worker_weight Ready] by (simp add: pool_weight_def)
next
  case (check s j task)
  then show ?case using sum_list_moved [of j "ps_callers s" caller_weight "enqueue_check (ps_pool s) task"]
    by (simp add: pool_weight_def enqueue_check_def split: if_splits)
next
  case (push s j task)
  then show ?case using sum_list_moved [of j "ps_callers s" caller_weight AtNotify]
    by (simp add: pool_weight_def enqueue_push_def)
next
  case (notify s j i)
  then show ?case using sum_list_moved [of j "ps_callers s" caller_weight "Returned True"]
      sum_list_moved [of i "tp_threads (ps_pool s)" worker_weight Ready]
    by (simp add: pool_weight_def wake_def)
next
  case (notify_none s j)
  then show ?case using sum_list_moved [of j "ps_callers s" caller_weight "Returned True"] by (simp add: pool_weight_def)
next
  case (stop s)
  then show ?case by (simp add: pool_weight_def set_stop_def)
next
  case (notify_all s)
  then show ?case using wake_all_weight [of "ps_pool s"] by (simp add: pool_weight_def wake_all_def)
next
  case (join s)
  then show ?case by (simp add: pool_weight_def)
qed

text \<open>So no run is infinite, unless threads keep waking up without a notification.\<close>

lemma wf_pool_step: "wf {(s', s). pool_step s s'}"
  by (rule wf_subset [OF wf_measure [of pool_weight]]) (auto intro: pool_step_weight)

section \<open>Invariants\<close>

text \<open>What every step and every spurious wake-up keeps, every run keeps.\<close>

locale pool_invariant =
  fixes I :: "'a PoolSystem \<Rightarrow> bool"
  assumes step_law: "pool_step s s' \<Longrightarrow> I s \<Longrightarrow> I s'"
    and wake_law: "I s \<Longrightarrow> worker s i Waiting \<Longrightarrow> I (s\<lparr>ps_pool := wake i (ps_pool s)\<rparr>)"
begin

lemma moves_inv: "pool_moves s s' \<Longrightarrow> I s \<Longrightarrow> I s'"
  by (induction rule: pool_moves.induct) (auto intro: step_law wake_law)

lemma moves_invE:
  assumes "pool_moves s s'" and "I s"
  obtains "I s'"
  using moves_inv [OF assms] by blast

end

text \<open>Tasks leave the queue in order, and each is with a worker or done.\<close>

fun held :: "'a Worker \<Rightarrow> 'a multiset" where
  "held (Running task) = {#task#}"
| "held _ = {#}"

definition in_order :: "'a PoolSystem \<Rightarrow> bool" where
  "in_order s \<longleftrightarrow> ps_pushed s = ps_started s @ tp_tasks (ps_pool s) \<and>
     mset (ps_started s) = mset (ps_finished s) + sum_list (map held (tp_threads (ps_pool s)))"

lemma held_woken: "sum_list (map held (map (\<lambda>t. case t of Waiting \<Rightarrow> Ready | _ \<Rightarrow> t) ts)) = sum_list (map held ts)"
  by (induction ts) (auto split: Worker.splits)

lemma in_order_wake: "in_order s \<Longrightarrow> worker s i Waiting \<Longrightarrow> in_order (s\<lparr>ps_pool := wake i (ps_pool s)\<rparr>)"
  using sum_list_moved [of i "tp_threads (ps_pool s)" held Ready] by (simp add: in_order_def wake_def)

lemma in_order_step: "pool_step s s' \<Longrightarrow> in_order s \<Longrightarrow> in_order s'"
proof (induction rule: pool_step.induct)
  case (lock_queue s i)
  note moved = sum_list_moved [of i "tp_threads (ps_pool s)" held]
  show ?case
  proof (cases rule: worker_locked_cases [of "ps_pool s" i])
    case waits
    then show ?thesis using lock_queue moved [of Waiting] by (simp add: in_order_def)
  next
    case exits
    then show ?thesis using lock_queue moved [of Exited] by (simp add: in_order_def)
  next
    case (takes task rest)
    then show ?thesis using lock_queue moved [of "Running task"] by (simp add: in_order_def)
  qed
next
  case (finish s i task)
  then show ?case using sum_list_moved [of i "tp_threads (ps_pool s)" held Ready] by (simp add: in_order_def ac_simps)
next
  case (notify s j i)
  then show ?case using in_order_wake [of s i] by (simp add: in_order_def)
next
  case (notify_all s)
  then show ?case using held_woken [of "tp_threads (ps_pool s)"] by (simp add: in_order_def wake_all_def)
qed (simp_all add: in_order_def enqueue_push_def set_stop_def)

interpretation order: pool_invariant in_order
  by unfold_locales (auto intro: in_order_step in_order_wake)

text \<open>The flag is the destructor's; a worker leaves only when it is set and waits only before \<open>notify_all\<close>.\<close>

definition flag_kept :: "'a PoolSystem \<Rightarrow> bool" where
  "flag_kept s \<longleftrightarrow> (tp_stop (ps_pool s) \<longleftrightarrow> ps_destroyer s \<in> {AtNotifyAll, AtJoin, Destroyed}) \<and>
     (Exited \<in> set (tp_threads (ps_pool s)) \<longrightarrow> tp_stop (ps_pool s)) \<and>
     (Waiting \<in> set (tp_threads (ps_pool s)) \<longrightarrow> ps_destroyer s \<notin> {AtJoin, Destroyed})"

lemma flag_kept_wake: "flag_kept s \<Longrightarrow> worker s i Waiting \<Longrightarrow> flag_kept (s\<lparr>ps_pool := wake i (ps_pool s)\<rparr>)"
  by (auto simp: flag_kept_def wake_def dest!: in_update)

lemma flag_kept_step: "pool_step s s' \<Longrightarrow> flag_kept s \<Longrightarrow> flag_kept s'"
proof (induction rule: pool_step.induct)
  case (lock_queue s i)
  show ?case
    by (cases rule: worker_locked_cases [of "ps_pool s" i]) (use lock_queue in \<open>auto simp: flag_kept_def dest!: in_update\<close>)
next
  case (notify_all s)
  then show ?case by (auto simp: flag_kept_def wake_all_def split: Worker.splits)
qed (auto simp: flag_kept_def enqueue_push_def set_stop_def wake_def dest!: in_update)

interpretation flag: pool_invariant flag_kept
  by unfold_locales (auto intro: flag_kept_step flag_kept_wake)

text \<open>
  No wake-up is lost: while a worker waits, every task of the queue has a worker that is about
  to look, or a caller that is about to notify.
\<close>

fun looks :: "'a Worker \<Rightarrow> nat" where
  "looks Ready = 1"
| "looks _ = 0"

fun notifies :: "'a Caller \<Rightarrow> nat" where
  "notifies AtNotify = 1"
| "notifies _ = 0"

definition awake :: "'a PoolSystem \<Rightarrow> bool" where
  "awake s \<longleftrightarrow> (Waiting \<in> set (tp_threads (ps_pool s)) \<longrightarrow> tp_stop (ps_pool s) \<or>
     length (tp_tasks (ps_pool s)) \<le> sum_list (map looks (tp_threads (ps_pool s))) + sum_list (map notifies (ps_callers s)))"

lemma awake_wake: "awake s \<Longrightarrow> worker s i Waiting \<Longrightarrow> awake (s\<lparr>ps_pool := wake i (ps_pool s)\<rparr>)"
  using sum_list_moved [of i "tp_threads (ps_pool s)" looks Ready] by (auto simp: awake_def wake_def dest!: in_update)

lemma awake_step: "pool_step s s' \<Longrightarrow> awake s \<Longrightarrow> awake s'"
proof (induction rule: pool_step.induct)
  case (lock_queue s i)
  note moved = sum_list_moved [of i "tp_threads (ps_pool s)" looks]
  show ?case
  proof (cases rule: worker_locked_cases [of "ps_pool s" i])
    case waits
    then show ?thesis by (simp add: awake_def)
  next
    case exits
    then show ?thesis by (simp add: awake_def)
  next
    case (takes task rest)
    then show ?thesis using lock_queue moved [of "Running task"] by (auto simp: awake_def dest!: in_update)
  qed
next
  case (finish s i task)
  then show ?case using sum_list_moved [of i "tp_threads (ps_pool s)" looks Ready] by (auto simp: awake_def dest!: in_update)
next
  case (check s j task)
  then show ?case using sum_list_moved [of j "ps_callers s" notifies "enqueue_check (ps_pool s) task"]
    by (auto simp: awake_def enqueue_check_def split: if_splits)
next
  case (push s j task)
  then show ?case using sum_list_moved [of j "ps_callers s" notifies AtNotify] by (auto simp: awake_def enqueue_push_def)
next
  case (notify s j i)
  then show ?case using sum_list_moved [of j "ps_callers s" notifies "Returned True"]
      sum_list_moved [of i "tp_threads (ps_pool s)" looks Ready]
    by (auto simp: awake_def wake_def dest!: in_update)
next
  case (notify_all s)
  then show ?case by (auto simp: awake_def wake_all_def split: Worker.splits)
qed (auto simp: awake_def set_stop_def)

interpretation wakeups: pool_invariant awake
  by unfold_locales (auto intro: awake_step awake_wake)

text \<open>While the flag is not set every call gets its future: what was asked for is put or about to be.\<close>

fun owed :: "'a Caller \<Rightarrow> 'a multiset" where
  "owed (AtCheck task) = {#task#}"
| "owed (AtPush task) = {#task#}"
| "owed _ = {#}"

definition accepting :: "'a multiset \<Rightarrow> 'a PoolSystem \<Rightarrow> bool" where
  "accepting T s \<longleftrightarrow> (\<not> tp_stop (ps_pool s) \<longrightarrow>
     mset (ps_pushed s) + sum_list (map owed (ps_callers s)) = T \<and> Returned False \<notin> set (ps_callers s))"

lemma accepting_wake: "accepting T s \<Longrightarrow> accepting T (s\<lparr>ps_pool := wake i (ps_pool s)\<rparr>)"
  by (simp add: accepting_def wake_def)

lemma accepting_step: "pool_step s s' \<Longrightarrow> accepting T s \<Longrightarrow> accepting T s'"
proof (induction rule: pool_step.induct)
  case (lock_queue s i)
  then show ?case by (cases rule: worker_locked_cases [of "ps_pool s" i]) (auto simp: accepting_def)
next
  case (check s j task)
  then show ?case using sum_list_moved [of j "ps_callers s" owed "AtPush task"]
    by (auto simp: accepting_def enqueue_check_def dest!: in_update)
next
  case (push s j task)
  then show ?case using sum_list_moved [of j "ps_callers s" owed AtNotify]
    by (auto simp: accepting_def enqueue_push_def ac_simps dest!: in_update)
next
  case (notify s j i)
  then show ?case using sum_list_moved [of j "ps_callers s" owed "Returned True"]
    by (auto simp: accepting_def wake_def dest!: in_update)
next
  case (notify_none s j)
  then show ?case using sum_list_moved [of j "ps_callers s" owed "Returned True"]
    by (auto simp: accepting_def dest!: in_update)
qed (auto simp: accepting_def set_stop_def wake_all_def)

interpretation accepted: pool_invariant "accepting T" for T
  by unfold_locales (auto intro: accepting_step accepting_wake)

section \<open>Final states\<close>

definition final :: "'a PoolSystem \<Rightarrow> bool" where
  "final s \<longleftrightarrow> (\<forall>s'. \<not> pool_step s s')"

text \<open>From every state the run can be continued to a final one.\<close>

lemma moves_final: "pool_moves s s1 \<Longrightarrow> \<exists>s2. pool_moves s s2 \<and> final s2"
proof (induction s1 rule: wf_induct_rule [OF wf_pool_step])
  case (1 s1)
  then show ?case using pool_moves.moves unfolding final_def by (cases "\<exists>s2. pool_step s1 s2") blast+
qed

lemma finalD: "final s \<Longrightarrow> pool_step s s' \<Longrightarrow> P"
  by (simp add: final_def)

lemma final_callers:
  assumes "final s" and "c \<in> set (ps_callers s)"
  obtains ok where "c = Returned ok"
proof (cases c)
  case (AtCheck task)
  then obtain j where "caller s j (AtCheck task)" using assms(2) by (auto simp: in_set_conv_nth)
  then show ?thesis by (rule finalD [OF assms(1) pool_step.check])
next
  case (AtPush task)
  then obtain j where "caller s j (AtPush task)" using assms(2) by (auto simp: in_set_conv_nth)
  then show ?thesis by (rule finalD [OF assms(1) pool_step.push])
next
  case AtNotify
  then obtain j where j: "caller s j AtNotify" using assms(2) by (auto simp: in_set_conv_nth)
  show ?thesis
  proof (cases "Waiting \<in> set (tp_threads (ps_pool s))")
    case True
    then obtain i where "worker s i Waiting" by (auto simp: in_set_conv_nth)
    then show ?thesis by (rule finalD [OF assms(1) pool_step.notify [OF j]])
  qed (rule finalD [OF assms(1) pool_step.notify_none [OF j]])
qed (rule that)

lemma final_threads:
  assumes "final s" and "t \<in> set (tp_threads (ps_pool s))"
  shows "t = Waiting \<or> t = Exited"
proof (cases t)
  case Ready
  then obtain i where "worker s i Ready" using assms(2) by (auto simp: in_set_conv_nth)
  then show ?thesis by (rule finalD [OF assms(1) pool_step.lock_queue])
next
  case (Running task)
  then obtain i where "worker s i (Running task)" using assms(2) by (auto simp: in_set_conv_nth)
  then show ?thesis by (rule finalD [OF assms(1) pool_step.finish])
qed simp_all

lemma final_destroyer:
  assumes "final s" and "flag_kept s"
  shows "ps_destroyer s = Absent \<or> ps_destroyer s = Destroyed"
proof (cases "ps_destroyer s")
  case AtJoin
  have "Waiting \<notin> set (tp_threads (ps_pool s))" using assms(2) AtJoin by (simp add: flag_kept_def)
  then have "joinable_all (ps_pool s)" using final_threads [OF assms(1)] by (auto simp: joinable_all_def list_all_iff)
  then show ?thesis using assms(1) pool_step.join [OF AtJoin] by (simp add: final_def)
qed (use assms(1) pool_step.stop pool_step.notify_all in \<open>auto simp: final_def\<close>)

lemma final_started:
  assumes "final s" and "in_order s"
  shows "mset (ps_finished s) = mset (ps_started s)"
proof -
  have "sum_list (map held (tp_threads (ps_pool s))) = {#}"
    by (rule sum_list_nothing) (use final_threads [OF assms(1)] in fastforce)
  with assms(2) show ?thesis by (simp add: in_order_def)
qed

lemma final_finished:
  assumes "final s" and "in_order s" and "tp_tasks (ps_pool s) = []"
  shows "mset (ps_finished s) = mset (ps_pushed s)"
  using final_started [OF assms(1,2)] assms(2,3) by (simp add: in_order_def)

lemma final_idle:
  assumes "final s"
  shows "sum_list (map looks (tp_threads (ps_pool s))) = 0" and "sum_list (map notifies (ps_callers s)) = 0"
    and "sum_list (map owed (ps_callers s)) = {#}"
proof -
  show "sum_list (map looks (tp_threads (ps_pool s))) = 0"
    by (rule sum_list_nothing) (use final_threads [OF assms] in fastforce)
  show "sum_list (map notifies (ps_callers s)) = 0"
    by (rule sum_list_nothing) (metis final_callers [OF assms] notifies.simps(4))
  show "sum_list (map owed (ps_callers s)) = {#}"
    by (rule sum_list_nothing) (metis final_callers [OF assms] owed.simps(4))
qed

section \<open>Whole runs\<close>

lemma system_new_inv:
  "in_order (system_new n tasks d)" "awake (system_new n tasks d)" "accepting (mset tasks) (system_new n tasks d)"
  "d = Absent \<or> d = AtStop \<Longrightarrow> flag_kept (system_new n tasks d)"
proof -
  have "sum_list (map held (replicate n (Ready :: 'a Worker))) = {#}" by (induction n) simp_all
  then show "in_order (system_new n tasks d)" by (simp add: in_order_def system_new_def pool_new_def)
  have "sum_list (map owed (map AtCheck tasks)) = mset tasks" by (induction tasks) simp_all
  then show "accepting (mset tasks) (system_new n tasks d)" by (auto simp: accepting_def system_new_def pool_new_def)
qed (auto simp: awake_def flag_kept_def system_new_def pool_new_def)

text \<open>No step changes how many threads there are, and without a destructor none appears.\<close>

definition staffed :: "nat \<Rightarrow> 'a PoolSystem \<Rightarrow> bool" where
  "staffed n s \<longleftrightarrow> length (tp_threads (ps_pool s)) = n"

interpretation staff: pool_invariant "staffed n" for n
proof unfold_locales
  show "pool_step s s' \<Longrightarrow> staffed n s \<Longrightarrow> staffed n s'" for s s' :: "'a PoolSystem"
    by (induction rule: pool_step.induct)
      (auto simp: staffed_def worker_locked_def enqueue_push_def wake_def set_stop_def wake_all_def)
qed (simp add: staffed_def wake_def)

interpretation alive: pool_invariant "\<lambda>s. ps_destroyer s = Absent"
proof unfold_locales
  show "pool_step s s' \<Longrightarrow> ps_destroyer s = Absent \<Longrightarrow> ps_destroyer s' = Absent" for s s' :: "'a PoolSystem"
    by (induction rule: pool_step.induct) auto
qed simp

interpretation leaving: pool_invariant "\<lambda>s. ps_destroyer s \<noteq> Absent"
proof unfold_locales
  show "pool_step s s' \<Longrightarrow> ps_destroyer s \<noteq> Absent \<Longrightarrow> ps_destroyer s' \<noteq> Absent" for s s' :: "'a PoolSystem"
    by (induction rule: pool_step.induct) auto
qed simp

lemma system_new_runs:
  assumes "pool_moves (system_new n tasks d) s" and "d = Absent \<or> d = AtStop"
  shows "in_order s" and "awake s" and "accepting (mset tasks) s" and "flag_kept s" and "staffed n s"
proof -
  have "staffed n (system_new n tasks d)" by (simp add: staffed_def system_new_def pool_new_def)
  then show "staffed n s" by (rule staff.moves_inv [OF assms(1)])
  show "in_order s" by (rule order.moves_inv [OF assms(1) system_new_inv(1)])
  show "awake s" by (rule wakeups.moves_inv [OF assms(1) system_new_inv(2)])
  show "accepting (mset tasks) s" by (rule accepted.moves_inv [OF assms(1) system_new_inv(3)])
  show "flag_kept s" by (rule flag.moves_inv [OF assms(1) system_new_inv(4) [OF assms(2)]])
qed

lemma pool_completes:
  assumes "pool_moves (system_new n tasks Absent) s" and "final s" and "0 < n"
  shows "mset (ps_finished s) = mset tasks" and "ps_callers s = replicate (length (ps_callers s)) (Returned True)"
    and "ps_started s = ps_pushed s" and "tp_threads (ps_pool s) = replicate n Waiting"
proof -
  have inv: "in_order s" "awake s" "accepting (mset tasks) s" "flag_kept s" "staffed n s" "ps_destroyer s = Absent"
    using system_new_runs [OF assms(1)] alive.moves_inv [OF assms(1)] by (simp_all add: system_new_def)
  have stop: "\<not> tp_stop (ps_pool s)" using inv(4,6) by (simp add: flag_kept_def)
  then have "\<forall>t \<in> set (tp_threads (ps_pool s)). t = Waiting" using final_threads [OF assms(2)] inv(4) by (auto simp: flag_kept_def)
  then show w: "tp_threads (ps_pool s) = replicate n Waiting" using inv(5) by (simp add: staffed_def replicate_eqI)
  have "Waiting \<in> set (tp_threads (ps_pool s))" using assms(3) by (simp add: w)
  then have empty: "tp_tasks (ps_pool s) = []" using inv(2) stop unfolding awake_def final_idle(1,2) [OF assms(2)] by simp
  then show "ps_started s = ps_pushed s" using inv(1) by (simp add: in_order_def)
  have a: "mset (ps_pushed s) = mset tasks" "Returned False \<notin> set (ps_callers s)"
    using inv(3) stop final_idle(3) [OF assms(2)] by (simp_all add: accepting_def)
  then show "mset (ps_finished s) = mset tasks" using final_finished [OF assms(2) inv(1) empty] by simp
  have "c = Returned True" if "c \<in> set (ps_callers s)" for c
    using final_callers [OF assms(2) that] a(2) that by (metis (full_types))
  then show "ps_callers s = replicate (length (ps_callers s)) (Returned True)" by (simp add: replicate_eqI)
qed

text \<open>Where a run with a destructor ends, wherever its callers were: nobody is left blocked.\<close>

lemma pool_closed:
  assumes "pool_moves (system_new n tasks AtStop) s" and "final s"
  shows "ps_destroyer s = Destroyed" and "tp_threads (ps_pool s) = replicate n Exited" and "mset (ps_finished s) = mset (ps_started s)"
proof -
  note inv = system_new_runs [OF assms(1), simplified]
  have "ps_destroyer s \<noteq> Absent" by (rule leaving.moves_inv [OF assms(1)]) (simp add: system_new_def)
  then show d: "ps_destroyer s = Destroyed" using final_destroyer [OF assms(2) inv(4)] by simp
  then have "\<forall>t \<in> set (tp_threads (ps_pool s)). t = Exited" using final_threads [OF assms(2)] inv(4) by (auto simp: flag_kept_def)
  then show "tp_threads (ps_pool s) = replicate n Exited" using inv(5) by (simp add: staffed_def replicate_eqI)
  show "mset (ps_finished s) = mset (ps_started s)" by (rule final_started [OF assms(2) inv(1)])
qed

text \<open>A destructor: no caller is between its test and its push when the flag is set.\<close>

definition closing :: "'a PoolSystem \<Rightarrow> bool" where
  "closing s \<longleftrightarrow> tp_stop (ps_pool s) \<and> (\<forall>task. AtPush task \<notin> set (ps_callers s)) \<and>
     (Exited \<in> set (tp_threads (ps_pool s)) \<longrightarrow> tp_tasks (ps_pool s) = [])"

lemma closing_step: "pool_step s s' \<Longrightarrow> closing s \<Longrightarrow> closing s'"
proof (induction rule: pool_step.induct)
  case (lock_queue s i)
  then show ?case by (cases rule: worker_locked_cases [of "ps_pool s" i]) (auto simp: closing_def dest!: in_update)
next
  case (push s j task)
  then show ?case by (auto simp: closing_def in_set_conv_nth)
next
  case (notify_all s)
  then show ?case by (auto simp: closing_def wake_all_def split: Worker.splits)
qed (auto simp: closing_def enqueue_check_def wake_def set_stop_def dest!: in_update)

lemma closing_wake: "closing s \<Longrightarrow> closing (s\<lparr>ps_pool := wake i (ps_pool s)\<rparr>)"
  by (auto simp: closing_def wake_def dest!: in_update)

interpretation closed: pool_invariant closing
  by unfold_locales (rule closing_step, assumption+, rule closing_wake)

lemma pool_drained:
  assumes "pool_moves (system_new n tasks AtStop) s0" and "ps_destroyer s0 = AtStop" and "\<forall>task. AtPush task \<notin> set (ps_callers s0)"
    and "pool_moves (s0\<lparr>ps_pool := set_stop (ps_pool s0), ps_destroyer := AtNotifyAll\<rparr>) s" and "final s" and "0 < n"
  shows "ps_destroyer s = Destroyed" and "tp_threads (ps_pool s) = replicate n Exited" and "ps_started s = ps_pushed s"
    and "mset (ps_finished s) = mset (ps_pushed s)"
proof -
  let ?s1 = "s0\<lparr>ps_pool := set_stop (ps_pool s0), ps_destroyer := AtNotifyAll\<rparr>"
  note inv0 = system_new_runs [OF assms(1), simplified]
  have step: "pool_step s0 ?s1" by (rule pool_step.stop [OF assms(2)])
  have "Exited \<notin> set (tp_threads (ps_pool s0))" using inv0(4) assms(2) by (auto simp: flag_kept_def)
  then have "closing ?s1" using assms(3) by (simp add: closing_def set_stop_def)
  then have c: "closing s" by (rule closed.moves_inv [OF assms(4)])
  have inv: "in_order s" "flag_kept s" "staffed n s"
    by (rule order.moves_inv [OF assms(4) in_order_step [OF step inv0(1)]],
        rule flag.moves_inv [OF assms(4) flag_kept_step [OF step inv0(4)]],
        rule staff.moves_inv [OF assms(4) staff.step_law [OF step inv0(5)]])
  show d: "ps_destroyer s = Destroyed" using final_destroyer [OF assms(5) inv(2)] inv(2) c by (auto simp: flag_kept_def closing_def)
  then have "\<forall>t \<in> set (tp_threads (ps_pool s)). t = Exited" using final_threads [OF assms(5)] inv(2) by (auto simp: flag_kept_def)
  then show x: "tp_threads (ps_pool s) = replicate n Exited" using inv(3) by (simp add: staffed_def replicate_eqI)
  have e: "tp_tasks (ps_pool s) = []" using c assms(6) by (simp add: closing_def x)
  then show "ps_started s = ps_pushed s" using inv(1) by (simp add: in_order_def)
  show "mset (ps_finished s) = mset (ps_pushed s)" by (rule final_finished [OF assms(5) inv(1) e])
qed

text \<open>A pool without threads: \<open>std::thread::hardware_concurrency\<close> may answer 0.\<close>

definition nothing_started :: "'a PoolSystem \<Rightarrow> bool" where
  "nothing_started s \<longleftrightarrow> tp_threads (ps_pool s) = [] \<and> ps_started s = [] \<and> ps_finished s = []"

interpretation unstaffed: pool_invariant nothing_started
proof unfold_locales
  show "pool_step s s' \<Longrightarrow> nothing_started s \<Longrightarrow> nothing_started s'" for s s' :: "'a PoolSystem"
    by (induction rule: pool_step.induct) (auto simp: nothing_started_def enqueue_push_def set_stop_def wake_all_def)
qed (simp add: nothing_started_def)

lemma pool_empty: "pool_moves (system_new 0 tasks d) s \<Longrightarrow> ps_finished s = []"
  using unstaffed.moves_inv [of "system_new 0 tasks d" s] by (simp add: nothing_started_def system_new_def pool_new_def)

end
