(* ===== verification/PoolProperties.thy ===== *)
theory PoolProperties
  imports ThreadPool EngineTables Samples
begin

text \<open>
  The pool at work in \<open>BatchSearch\<close>: a task searches a store and sets its future; whatever the
  interleaving, the futures of a batch hold what the searches give one after the other, so the
  sequential batch of the engine's model is the concurrent one. Also what a destructor of the
  pool waits for.
\<close>

section \<open>The tasks of a batch\<close>

text \<open>A task: the number of its future, and what the lambda captured.\<close>

type_synonym SearchTask = "nat \<times> string \<times> request"

definition run_task :: "Engine \<Rightarrow> SearchTask \<Rightarrow> Data list option" where
  "run_task e = (\<lambda>(_, t, query, k, search_param). store_Search (mref (en_store_map e) t) query k search_param)"

definition batch_tasks :: "nat \<Rightarrow> string \<Rightarrow> request list \<Rightarrow> SearchTask list" where
  "batch_tasks base t requests = List.enumerate base (map (Pair t) requests)"

text \<open>What the futures hold: nothing before the task has run, \<open>Some None\<close> when it threw.\<close>

definition future_of :: "Engine \<Rightarrow> SearchTask list \<Rightarrow> nat \<Rightarrow> Data list option option" where
  "future_of e finished = map_of (map (\<lambda>task. (fst task, run_task e task)) finished)"

text \<open>\<open>data_vector.get()\<close> of one future after the other; \<open>None\<close> when one threw or is never set.\<close>

definition get_all :: "Engine \<Rightarrow> SearchTask list \<Rightarrow> nat \<Rightarrow> nat \<Rightarrow> Data list list option" where
  "get_all e finished base c =
     those (map (\<lambda>i. case future_of e finished i of None \<Rightarrow> None | Some data \<Rightarrow> data) [base..<base + c])"

lemma future_of_finished:
  assumes "distinct (map fst finished)" and "task \<in> set finished"
  shows "future_of e finished (fst task) = Some (run_task e task)"
  using assms unfolding future_of_def by (intro map_of_is_SomeI) (auto simp: comp_def)

lemma get_all_batch:
  assumes "distinct (map fst finished)" and "set (batch_tasks base t requests) \<subseteq> set finished"
  shows "get_all e finished base (length requests) = search_requests (mref (en_store_map e) t) requests"
proof -
  have "(case future_of e finished (base + i) of None \<Rightarrow> None | Some data \<Rightarrow> data) =
      (case requests ! i of (query, k, search_param) \<Rightarrow> store_Search (mref (en_store_map e) t) query k search_param)"
    if "i < length requests" for i
  proof -
    have "batch_tasks base t requests ! i = (base + i, t, requests ! i)" "i < length (batch_tasks base t requests)"
      using that by (simp_all add: batch_tasks_def nth_enumerate_eq)
    then have "(base + i, t, requests ! i) \<in> set finished" using assms(2) nth_mem by (metis subsetD)
    from future_of_finished [OF assms(1) this, of e] show ?thesis by (simp add: run_task_def)
  qed
  then have "map (\<lambda>i. case future_of e finished i of None \<Rightarrow> None | Some data \<Rightarrow> data) [base..<base + length requests] =
      map (\<lambda>(query, k, search_param). store_Search (mref (en_store_map e) t) query k search_param) requests"
    by (intro nth_equalityI) simp_all
  then show ?thesis by (simp add: get_all_def search_requests_def)
qed

section \<open>Properties\<close>

text \<open>C12: a pool with at least one thread never deadlocks and never runs for ever. Without spurious
  wake-ups every sequence of steps is finite, every run can be continued until nothing can move, and where
  nothing can move nobody is left blocked: every call of \<open>EnqueueTask\<close> has returned; without a
  destructor every task has run and all threads wait for the next one; with a destructor, at whatever
  point it came, it has returned, all threads have left their loops and every task a thread took is finished.\<close>

theorem pool_terminates:
  fixes s :: "'a PoolSystem"
  assumes "0 < n" and "d = Absent \<or> d = AtStop" and "pool_moves (system_new n tasks d) s"
  shows "wf {(s', s :: 'a PoolSystem). pool_step s s'} \<and> (\<exists>s'. pool_moves s s' \<and> final s') \<and>
    (final s \<longrightarrow> (\<forall>c \<in> set (ps_callers s). \<exists>ok. c = Returned ok) \<and>
      (if d = Absent then tp_threads (ps_pool s) = replicate n Waiting \<and> mset (ps_finished s) = mset tasks
       else ps_destroyer s = Destroyed \<and> tp_threads (ps_pool s) = replicate n Exited \<and> mset (ps_finished s) = mset (ps_started s)))"
proof (intro conjI impI)
  assume f: "final s"
  show "\<forall>c \<in> set (ps_callers s). \<exists>ok. c = Returned ok" using final_callers [OF f] by blast
  show "if d = Absent then tp_threads (ps_pool s) = replicate n Waiting \<and> mset (ps_finished s) = mset tasks
       else ps_destroyer s = Destroyed \<and> tp_threads (ps_pool s) = replicate n Exited \<and> mset (ps_finished s) = mset (ps_started s)"
  proof (cases "d = Absent")
    case True
    from pool_completes [OF _ f assms(1)] assms(3) True show ?thesis by simp
  next
    case False
    with assms(2,3) pool_closed [OF _ f] show ?thesis by simp
  qed
qed (use wf_pool_step moves_final [OF pool_moves.start] in blast)+

lemma pool_terminates_witness:
  "\<exists>s. pool_moves (system_new 2 [7::nat, 8] AtStop) s \<and> ps_destroyer s = Destroyed \<and>
    tp_threads (ps_pool s) = [Exited, Exited] \<and> mset (ps_finished s) = mset (ps_started s)"
proof -
  have start: "pool_moves (system_new 2 [7::nat, 8] AtStop) (system_new 2 [7, 8] AtStop)" by (rule pool_moves.start)
  obtain s where s: "pool_moves (system_new 2 [7::nat, 8] AtStop) s" "final s"
    using pool_terminates [OF _ _ start] by auto
  from pool_terminates [OF _ _ s(1)] s show ?thesis by (intro exI [of _ s]) (simp add: numeral_2_eq_2)
qed

text \<open>C10: \<open>BatchSearch\<close> over the pool, with other clients enqueueing at the same time: in every interleaving
  that has come to its end the futures of the batch hold what the searches of its requests
  give one after the other, and every call of \<open>EnqueueTask\<close> has returned a future.\<close>

theorem batch_any_schedule:
  assumes "0 < n" and "distinct (map fst tasks)" and "set (batch_tasks base t requests) \<subseteq> set tasks"
    and "pool_moves (system_new n tasks Absent) s" and "final s"
  shows "get_all e (ps_finished s) base (length requests) = search_requests (mref (en_store_map e) t) requests \<and>
    Returned False \<notin> set (ps_callers s) \<and> ps_started s = ps_pushed s"
proof -
  note all_done = pool_completes [OF assms(4,5,1)]
  have m: "mset (map fst (ps_finished s)) = mset (map fst tasks)" using arg_cong [OF all_done(1), of "image_mset fst"] by simp
  then have "distinct (map fst (ps_finished s))" using assms(2) mset_eq_imp_distinct_iff by blast
  moreover have "set (ps_finished s) = set tasks" by (rule mset_eq_setD [OF all_done(1)])
  moreover have "Returned False \<notin> set (ps_callers s)" by (subst all_done(2)) simp
  ultimately show ?thesis using get_all_batch [of "ps_finished s" base t requests e] assms(3) all_done(3) by simp
qed

lemma batch_any_schedule_witness:
  "\<exists>s. pool_moves (system_new 2 (batch_tasks 0 ''t'' [([f32_one], 1, 0), ([f32_zero], 2, 0)]) Absent) s \<and> final s \<and>
    get_all sample_engine (ps_finished s) 0 2 = search_requests sample_store [([f32_one], 1, 0), ([f32_zero], 2, 0)]"
proof -
  let ?q = "[([f32_one], 1, 0), ([f32_zero], 2, 0)] :: request list"
  obtain s where s: "pool_moves (system_new 2 (batch_tasks 0 ''t'' ?q) Absent) s" "final s"
    using moves_final [OF pool_moves.start] by blast
  have st: "mref (en_store_map sample_engine) ''t'' = sample_store" by (simp add: sample_engine_def)
  have "distinct (map fst (batch_tasks 0 ''t'' ?q))" by (simp add: batch_tasks_def)
  from batch_any_schedule [OF _ this order.refl s, of sample_engine] s show ?thesis
    by (intro exI [of _ s]) (simp add: st numeral_2_eq_2)
qed

text \<open>C11: when the destructor sets the flag while no call of \<open>EnqueueTask\<close> is between its test and its push,
  every run ends with the destructor returned, all threads gone and every task of the queue
  run once, started in the order of the queue.\<close>

theorem pool_drains:
  assumes "0 < n" and "pool_moves (system_new n tasks AtStop) s0" and "ps_destroyer s0 = AtStop"
    and "\<forall>task. AtPush task \<notin> set (ps_callers s0)"
    and "pool_moves (s0\<lparr>ps_pool := set_stop (ps_pool s0), ps_destroyer := AtNotifyAll\<rparr>) s" and "final s"
  shows "ps_destroyer s = Destroyed \<and> tp_threads (ps_pool s) = replicate n Exited \<and> ps_started s = ps_pushed s \<and>
    mset (ps_finished s) = mset (ps_pushed s)"
  using pool_drained [OF assms(2-6,1)] by blast

lemma pool_drains_witness:
  "\<exists>s0 s. ps_pushed s0 = [7::nat] \<and> pool_moves (s0\<lparr>ps_pool := set_stop (ps_pool s0), ps_destroyer := AtNotifyAll\<rparr>) s \<and>
    final s \<and> ps_destroyer s = Destroyed \<and> mset (ps_finished s) = mset (ps_pushed s)"
proof -
  let ?a = "system_new 1 [7::nat] AtStop"
  have a: "pool_moves ?a ?a" by (rule pool_moves.start)
  have "caller ?a 0 (AtCheck 7)" by (simp add: system_new_def)
  note b = pool_moves.moves [OF a pool_step.check [OF this]]
  let ?b = "move_caller 0 (enqueue_check (ps_pool ?a) 7) ?a"
  have "caller ?b 0 (AtPush 7)" by (simp add: system_new_def enqueue_check_def pool_new_def)
  note c = pool_moves.moves [OF b pool_step.push [OF this]]
  let ?c = "move_caller 0 AtNotify (?b\<lparr>ps_pool := enqueue_push 7 (ps_pool ?b), ps_pushed := ps_pushed ?b @ [7]\<rparr>)"
  have d: "ps_destroyer ?c = AtStop" "\<forall>task. AtPush task \<notin> set (ps_callers ?c)" "ps_pushed ?c = [7]" by (simp_all add: system_new_def)
  obtain s where s: "pool_moves (?c\<lparr>ps_pool := set_stop (ps_pool ?c), ps_destroyer := AtNotifyAll\<rparr>) s" "final s"
    using moves_final [OF pool_moves.start] by blast
  from pool_drains [OF _ c d(1,2) s] s d(3) show ?thesis by (intro exI [of _ ?c] exI [of _ s]) simp
qed

end
