(* ===== verification/BatchAnswers.thy ===== *)
theory BatchAnswers
  imports CachedSearch
begin

text \<open>
  What clients get for batches of searches when the cache answers some of them: the results, on the
  records as they are, of that batch or of an earlier one of the table with the same hash key. Every
  request keeps the caches so.
\<close>

section \<open>The answer to a batch\<close>

definition batch_of :: "BatchSearchRequest \<Rightarrow> request list" where
  "batch_of r = map (\<lambda>q. (qu_query q, unat (qu_k q), unat (qu_search_parameter q))) (bs_query r)"

text \<open>The batches asked so far, with their tables.\<close>

type_synonym past = "(string \<times> request list) set"

fun asked_by :: "Request \<Rightarrow> past" where
  "asked_by (ReqBatchSearch r) = {(bs_table r, batch_of r)}"
| "asked_by _ = {}"

definition batch_results :: "(nat \<times> bool \<times> table_records) option \<Rightarrow> request list \<Rightarrow> (Id \<times> string) list list \<Rightarrow> bool" where
  "batch_results table q results \<longleftrightarrow> list_all2 (\<lambda>(query, k, search_param) ds. search_answer table query k ds) q results"

definition batch_answer :: "(f32 \<Rightarrow> u64) \<Rightarrow> past \<Rightarrow> BatchSearchRequest \<Rightarrow> database \<Rightarrow> Status \<times> Response \<Rightarrow> bool" where
  "batch_answer H Q r db a \<longleftrightarrow>
     (if bs_table r = [] then a = (missing_table, RespNone)
      else \<exists>results. a = (StatusOK, RespResults results) \<and>
        (if db (bs_table r) = None \<or> (\<exists>(query, k, search_param) \<in> set (batch_of r). query = [] \<or> k = 0) then results = []
         else \<exists>q. (q = batch_of r \<or> (bs_table r, q) \<in> Q) \<and> hash_key H q = hash_key H (batch_of r) \<and>
           batch_results (db (bs_table r)) q results))"

text \<open>All answers, those to batches with the batches before them.\<close>

definition right_answer :: "(f32 \<Rightarrow> u64) \<Rightarrow> past \<Rightarrow> Request \<Rightarrow> database \<Rightarrow> Status \<times> Response \<Rightarrow> bool" where
  "right_answer H Q r db a \<longleftrightarrow> db_answers r db a \<and> (case r of ReqBatchSearch b \<Rightarrow> batch_answer H Q b db a | _ \<Rightarrow> True)"

text \<open>When no other batch of the table has the hash key, the cache does not show.\<close>

lemma batch_answer_own:
  assumes "batch_answer H Q r db (StatusOK, RespResults results)" and "db (bs_table r) \<noteq> None"
    and "\<forall>(query, k, search_param) \<in> set (batch_of r). query \<noteq> [] \<and> k \<noteq> 0"
    and "\<And>q. (bs_table r, q) \<in> Q \<Longrightarrow> hash_key H q = hash_key H (batch_of r) \<Longrightarrow> q = batch_of r"
  shows "batch_results (db (bs_table r)) (batch_of r) results"
  using assms by (auto simp: batch_answer_def missing_table_def split: if_splits)

section \<open>The caches of an engine\<close>

definition batch_fine :: "request list \<Rightarrow> bool" where
  "batch_fine q \<longleftrightarrow> (\<forall>(query, k, search_param) \<in> set q. query \<noteq> [] \<and> k \<noteq> 0 \<and> finite_vec query)"

definition asked_of :: "past \<Rightarrow> string \<Rightarrow> request list set" where
  "asked_of Q t = {q. (t, q) \<in> Q \<and> batch_fine q}"

definition caches_right :: "(f32 \<Rightarrow> u64) \<Rightarrow> past \<Rightarrow> Engine \<Rightarrow> bool" where
  "caches_right H Q e \<longleftrightarrow> (md_use_cache (en_metadata e) \<longrightarrow>
     (\<forall>t. contains (en_store_map e) t \<longrightarrow> cache_right H (asked_of Q t) e t))"

lemma cache_right_mono:
  assumes "cache_right H Q e t" and "Q \<subseteq> Q'"
  shows "cache_right H Q' e t"
  using assms sound_mono answers_mono [OF assms(2)] unfolding cache_right_def by metis

lemma asked_of_mono: "Q \<subseteq> Q' \<Longrightarrow> asked_of Q t \<subseteq> asked_of Q' t"
  by (auto simp: asked_of_def)

lemma caches_right_mono: "caches_right H Q e \<Longrightarrow> Q \<subseteq> Q' \<Longrightarrow> caches_right H Q' e"
  unfolding caches_right_def using cache_right_mono asked_of_mono by metis

lemma cache_right_new:
  assumes "map_of (en_store_map e) t = Some s" and "map_of (en_cache_map e) t = Some (lru_new n)" and "0 < n"
  shows "cache_right H Q e t"
  using assms lru_inv_new [OF assms(3)] by (simp add: cache_right_def lru.sound_def lru_content_def lru_new_def lru_abs_def)

text \<open>Only one table has changed.\<close>

lemma caches_right_one:
  assumes "caches_right H Q e" and "Q \<subseteq> Q'" and "en_metadata e' = en_metadata e"
    and "\<And>u. u \<noteq> t \<Longrightarrow> map_of (en_store_map e') u = map_of (en_store_map e) u \<and> map_of (en_cache_map e') u = map_of (en_cache_map e) u"
    and "md_use_cache (en_metadata e) \<Longrightarrow> contains (en_store_map e') t \<Longrightarrow> cache_right H (asked_of Q' t) e' t"
  shows "caches_right H Q' e'"
  unfolding caches_right_def
proof (intro impI allI)
  fix u assume u: "md_use_cache (en_metadata e')" "contains (en_store_map e') u"
  show "cache_right H (asked_of Q' u) e' u"
  proof (cases "u = t")
    case True
    with u assms(3,5) show ?thesis by simp
  next
    case False
    have "contains (en_store_map e) u" using u(2) assms(4) [OF False] by (simp add: contains_def)
    then have "cache_right H (asked_of Q u) e u" using u(1) assms(1,3) by (simp add: caches_right_def)
    then have "cache_right H (asked_of Q' u) e u" by (rule cache_right_mono [OF _ asked_of_mono [OF assms(2)]])
    then show ?thesis using cache_right_cong assms(4) [OF False] by blast
  qed
qed

lemma table_view_maps: "table_view e' u = table_view e u \<Longrightarrow>
  map_of (en_store_map e') u = map_of (en_store_map e) u \<and> map_of (en_cache_map e') u = map_of (en_cache_map e) u"
  by (simp add: table_view_def)

section \<open>Writes\<close>

text \<open>The cache is right, or the table is marked as modified, so that the write will empty the cache.\<close>

definition cache_pending :: "(f32 \<Rightarrow> u64) \<Rightarrow> request list set \<Rightarrow> Engine \<Rightarrow> string \<Rightarrow> bool" where
  "cache_pending H Q e t \<longleftrightarrow> sm_modified (mref (en_stats_manager_map e) t) \<or> cache_right H Q e t"

lemma insert_step_pending:
  assumes "engine_inv rl e" and "map_of (en_store_map e) t = Some s" and "finite_vec v" and "cache_pending H Q e t"
    and "insert_step rl t i v content e = Some (ok, e')"
  shows "cache_pending H Q e' t"
proof -
  obtain s' where s': "insert_step rl t i v content e = Some (takes s i v, e')"
    "store_Insert rl s i v content = Some (takes s i v, s')" "en_store_map e' = mput t s' (en_store_map e)"
    "takes s i v \<longrightarrow> sm_modified (mref (en_stats_manager_map e') t)"
    using insert_step_ok [OF assms(1-3), of i content] assms(5) by auto
  show ?thesis
  proof (cases "takes s i v")
    case True
    with s'(4) show ?thesis by (simp add: cache_pending_def)
  next
    case False
    then have "en_stats_manager_map e' = en_stats_manager_map e"
      using s'(1) by (auto simp: insert_step_def Let_def split: option.splits prod.splits if_splits)
    moreover have "s' = s" using s'(2) False by (auto simp: store_Insert_def split: if_splits)
    then have "cache_right H Q e t \<Longrightarrow> cache_right H Q e' t"
      using assms(2) s'(3) insert_step_cache [OF assms(5)] by (auto simp: cache_right_def)
    ultimately show ?thesis using assms(4) by (auto simp: cache_pending_def)
  qed
qed

lemma remove_step_pending:
  assumes "engine_inv rl e" and "map_of (en_store_map e) t = Some s" and "cache_pending H Q e t" and "remove_step t i e = (ok, e')"
  shows "cache_pending H Q e' t"
proof -
  let ?ok = "contains (vs_store s) i"
  obtain s' where s': "remove_step t i e = (?ok, e')" "store_Remove s i = (?ok, s')" "en_store_map e' = mput t s' (en_store_map e)"
    "?ok \<longrightarrow> sm_modified (mref (en_stats_manager_map e') t)"
    using remove_step_ok [OF assms(1,2), of i] assms(4) by auto
  show ?thesis
  proof (cases ?ok)
    case True
    with s'(4) show ?thesis by (simp add: cache_pending_def)
  next
    case False
    then have "en_stats_manager_map e' = en_stats_manager_map e"
      using s'(1) by (auto simp: remove_step_def Let_def split: prod.splits if_splits)
    moreover have "s' = s" using s'(2) False by (simp add: store_Remove_def)
    then have "cache_right H Q e t \<Longrightarrow> cache_right H Q e' t"
      using assms(2) s'(3) remove_step_cache [OF assms(4)] by (auto simp: cache_right_def)
    ultimately show ?thesis using assms(3) by (auto simp: cache_pending_def)
  qed
qed

lemma insert_steps_pending:
  "insert_steps rl t xs e = Some (oks, e') \<Longrightarrow> engine_inv rl e \<Longrightarrow> map_of (en_store_map e) t = Some s \<Longrightarrow>
   \<forall>(i, v, content) \<in> set xs. finite_vec v \<Longrightarrow> cache_pending H Q e t \<Longrightarrow> cache_pending H Q e' t"
proof (induction xs arbitrary: e s oks)
  case (Cons x xs)
  obtain i v content where x: "x = (i, v, content)" by (cases x)
  obtain ok e1 oks' where s: "insert_step rl t i v content e = Some (ok, e1)" "insert_steps rl t xs e1 = Some (oks', e')"
    using Cons.prems(1) by (auto simp: x split: option.splits)
  have fv: "finite_vec v" using Cons.prems(4) by (simp add: x)
  obtain s1 where "engine_inv rl e1" "en_store_map e1 = mput t s1 (en_store_map e)"
    using insert_step_ok [OF Cons.prems(2,3) fv, of i content] s(1) by auto
  with Cons.IH [OF s(2), of s1] insert_step_pending [OF Cons.prems(2,3) fv Cons.prems(5) s(1)] Cons.prems(4) show ?case by simp
qed simp

lemma remove_steps_pending:
  "remove_steps t is e = (oks, e') \<Longrightarrow> engine_inv rl e \<Longrightarrow> map_of (en_store_map e) t = Some s \<Longrightarrow>
   cache_pending H Q e t \<Longrightarrow> cache_pending H Q e' t"
proof (induction "is" arbitrary: e s oks)
  case (Cons i "is")
  obtain ok e1 oks' where s: "remove_step t i e = (ok, e1)" "remove_steps t is e1 = (oks', e')"
    using Cons.prems(1) by (auto split: prod.splits)
  obtain s1 where "engine_inv rl e1" "en_store_map e1 = mput t s1 (en_store_map e)"
    using remove_step_ok [OF Cons.prems(2,3), of i] s(1) by auto
  with Cons.IH [OF s(2), of s1] remove_step_pending [OF Cons.prems(2,3,4) s(1)] show ?case by simp
qed simp

lemma pending_invalidated:
  assumes "caches_right H Q e" and "engine_inv rl e1" and "en_metadata e1 = en_metadata e" and "map_of (en_store_map e1) t = Some s"
    and "\<forall>u. u \<noteq> t \<longrightarrow> table_view e1 u = table_view e u"
    and "md_use_cache (en_metadata e) \<Longrightarrow> cache_pending H (asked_of Q t) e1 t"
  shows "caches_right H Q (invalidate_cache t e1)"
proof (rule caches_right_one [OF assms(1) order.refl, where t = t])
  show "en_metadata (invalidate_cache t e1) = en_metadata e" using assms(3) by (simp add: invalidate_cache_alt)
  show "map_of (en_store_map (invalidate_cache t e1)) u = map_of (en_store_map e) u \<and>
      map_of (en_cache_map (invalidate_cache t e1)) u = map_of (en_cache_map e) u" if "u \<noteq> t" for u
    using that assms(5) table_view_maps [of e1 u e] by (simp add: invalidate_cache_alt)
  show "cache_right H (asked_of Q t) (invalidate_cache t e1) t" if "md_use_cache (en_metadata e)"
    using assms(3,6) that by (intro cache_right_invalidate [OF assms(2,4)]) (simp_all add: cache_pending_def)
qed

lemma engine_BatchInsert_caches:
  assumes "engine_inv rl e" and "caches_right H Q e" and "\<forall>(i, v, content) \<in> set xs. finite_vec v"
    and "engine_BatchInsert rl e t xs = Some (oks, e')"
  shows "caches_right H Q e'"
proof (cases "writable e t \<and> (\<forall>(i, v, content) \<in> set xs. ValidateInsert t i v content)")
  case False
  with assms(2,4) show ?thesis by (auto simp: engine_BatchInsert_def split: if_splits)
next
  case True
  then obtain e1 where e1: "insert_steps rl t xs e = Some (oks, e1)" "e' = invalidate_cache t e1"
    using assms(4) by (auto simp: engine_BatchInsert_def split: if_splits)
  obtain s where s: "map_of (en_store_map e) t = Some s" using True by (auto simp: writable_def contains_def)
  obtain s1 where s1: "engine_inv rl e1" "en_metadata e1 = en_metadata e" "map_of (en_store_map e1) t = Some s1"
    "\<forall>u. u \<noteq> t \<longrightarrow> table_view e1 u = table_view e u"
    using insert_steps_ok [OF assms(1) s assms(3)] e1(1) by auto
  have "cache_pending H (asked_of Q t) e t" if "md_use_cache (en_metadata e)"
    using assms(2) that s by (simp add: cache_pending_def caches_right_def contains_def)
  with pending_invalidated [OF assms(2) s1] insert_steps_pending [OF e1(1) assms(1) s assms(3)] e1(2) show ?thesis by blast
qed

lemma engine_BatchRemove_caches:
  assumes "engine_inv rl e" and "caches_right H Q e" and "engine_BatchRemove e t is = (oks, e')"
  shows "caches_right H Q e'"
proof (cases "writable e t \<and> (\<forall>i \<in> set is. ValidateRemove t i)")
  case False
  with assms(2,3) show ?thesis by (auto simp: engine_BatchRemove_def split: if_splits)
next
  case True
  then obtain e1 where e1: "remove_steps t is e = (oks, e1)" "e' = invalidate_cache t e1"
    using assms(3) by (auto simp: engine_BatchRemove_def split: if_splits prod.splits)
  obtain s where s: "map_of (en_store_map e) t = Some s" using True by (auto simp: writable_def contains_def)
  obtain s1 where s1: "engine_inv rl e1" "en_metadata e1 = en_metadata e" "map_of (en_store_map e1) t = Some s1"
    "\<forall>u. u \<noteq> t \<longrightarrow> table_view e1 u = table_view e u"
    using remove_steps_ok [OF assms(1) s, of "is"] e1(1) by auto
  have "cache_pending H (asked_of Q t) e t" if "md_use_cache (en_metadata e)"
    using assms(2) that s by (simp add: cache_pending_def caches_right_def contains_def)
  with pending_invalidated [OF assms(2) s1] remove_steps_pending [OF e1(1) assms(1) s] e1(2) show ?thesis by blast
qed

section \<open>Searches\<close>

lemma engine_Search_caches:
  assumes "caches_right H Q e" and "engine_Search e latency t query k p = Some (r, e')"
  shows "caches_right H Q e'"
proof -
  have "en_store_map e' = en_store_map e" "en_metadata e' = en_metadata e" "en_cache_map e' = en_cache_map e"
    using assms(2) by (auto simp: engine_Search_def split: if_splits)
  then show ?thesis using assms(1) by (simp add: caches_right_def cache_right_def)
qed

lemma BatchSearch_other_caches:
  assumes "engine_BatchSearch H e ls t q = Some (r, e')" and "u \<noteq> t"
  shows "map_of (en_cache_map e') u = map_of (en_cache_map e) u"
proof (cases "searchable_table e t \<and> \<not> (\<exists>(query, k, search_param) \<in> set q. \<not> ValidateSearch t query k search_param) \<and>
    md_use_cache (en_metadata e) \<and> contains (en_cache_map e) t")
  case False
  with assms(1) show ?thesis by (auto simp: engine_BatchSearch_def run_batch_def split: if_splits)
next
  case True
  obtain hit c where g: "lru_Get (mref (en_cache_map e) t) (hash_key H q) = (hit, c)" by fastforce
  show ?thesis
    using True assms g by (cases hit) (auto simp: engine_BatchSearch_def run_batch_def Let_def split: if_splits option.splits)
qed

lemma search_requests_answers:
  assumes "store_inv rl s" and "batch_fine q" and "search_requests s q = Some rs"
  shows "batch_results (Some (store_dim s, flat_store s, store_data s)) q (map add_data rs)"
  using assms(2,3) unfolding batch_results_def search_requests_def
proof (induction q arbitrary: rs)
  case (Cons x q)
  obtain query k p where x: "x = (query, k, p)" by (cases x)
  obtain r rs' where r: "store_Search s query k p = Some r" "rs = r # rs'"
    "those (map (\<lambda>(query, k, search_param). store_Search s query k search_param) q) = Some rs'"
    using Cons.prems(2) by (auto simp: x split: option.splits)
  have "finite_vec query" "query \<noteq> []" "k \<noteq> 0" using Cons.prems(1) by (simp_all add: x batch_fine_def)
  from store_Search_answer [OF assms(1) this r(1)] Cons.IH [OF _ r(3)] Cons.prems(1) show ?case
    by (simp add: x r(2) batch_fine_def)
qed simp

lemma engine_BatchSearch_answer:
  assumes "serving rl e" and "caches_right H Q e" and "engine_BatchSearch H e ls (bs_table r) (batch_of r) = Some (rs, e')"
    and "\<forall>q \<in> set (bs_query r). finite_vec (qu_query q)" and "bs_table r \<noteq> []"
    and "en_store_map e' = en_store_map e" and "en_metadata e' = en_metadata e"
  shows "batch_answer H Q r (db_of e) (StatusOK, RespResults (map add_data rs))"
    and "caches_right H (insert (bs_table r, batch_of r) Q) e'"
proof -
  let ?t = "bs_table r" and ?q = "batch_of r" and ?Q = "insert (bs_table r, batch_of r) Q"
  have inv: "engine_inv rl e" "\<not> en_shutdown e" using assms(1) by (simp_all add: serving_def)
  have "batch_answer H Q r (db_of e) (StatusOK, RespResults (map add_data rs)) \<and>
    (md_use_cache (en_metadata e) \<longrightarrow> contains (en_store_map e') ?t \<longrightarrow> cache_right H (asked_of ?Q ?t) e' ?t)"
  proof (cases "db_of e ?t = None \<or> (\<exists>(query, k, search_param) \<in> set ?q. query = [] \<or> k = 0)")
    case True
    then have "\<not> searchable_table e ?t \<or> (\<exists>(query, k, search_param) \<in> set ?q. \<not> ValidateSearch ?t query k search_param)"
      by (cases rule: serving_cases [OF assms(1), of ?t]) (auto simp: ValidateSearch_def)
    then have "rs = []" "e' = e" using assms(3) by (auto simp: engine_BatchSearch_def split: if_splits)
    moreover have "md_use_cache (en_metadata e) \<Longrightarrow> contains (en_store_map e) ?t \<Longrightarrow> cache_right H (asked_of ?Q ?t) e ?t"
      using assms(2) cache_right_mono [OF _ asked_of_mono [of Q ?Q ?t]] by (auto simp: caches_right_def)
    ultimately show ?thesis using True assms(5) by (auto simp: batch_answer_def)
  next
    case False
    have fine: "batch_fine ?q" using False assms(4) by (auto simp: batch_fine_def batch_of_def)
    have v: "\<forall>(query, k, search_param) \<in> set ?q. ValidateSearch ?t query k search_param"
      using False assms(5) by (auto simp: ValidateSearch_def)
    obtain s where s: "map_of (en_store_map e) ?t = Some s" "db_of e ?t = Some (store_dim s, flat_store s, store_data s)"
      using False by (cases rule: serving_cases [OF assms(1), of ?t]) auto
    note sinv = engine_store_inv [OF inv(1) s(1)]
    have "\<forall>(query, k, p) \<in> set ?q. finite_vec query" using fine by (auto simp: batch_fine_def)
    from search_requests_total [OF sinv this] obtain rs0 where rs0: "search_requests s ?q = Some rs0" by blast
    note present = stored_present [OF inv(1) s(1) inv(2)]
    show ?thesis
    proof (cases "md_use_cache (en_metadata e)")
      case off: False
      have "\<not> (\<exists>(query, k, search_param) \<in> set ?q. \<not> ValidateSearch ?t query k search_param)" using v by auto
      then have "rs = rs0" using assms(3) off present(1) s(1) rs0 by (auto simp: engine_BatchSearch_def run_batch_def)
      then have "batch_results (db_of e ?t) ?q (map add_data rs)" using search_requests_answers [OF sinv fine rs0] s(2) by simp
      with off assms(5) False show ?thesis by (auto simp: batch_answer_def)
    next
      case True
      have right: "cache_right H (asked_of Q ?t) e ?t" using assms(2) True s(1) by (simp add: caches_right_def contains_def)
      have served: "batch_served e ?t ?q" using present(1,2) v True by (simp add: batch_served_def)
      from engine_BatchSearch_right [OF right served s(1) rs0, of ls] assms(3) obtain q where
        q: "cache_right H (insert ?q (asked_of Q ?t)) e' ?t" "q \<in> insert ?q (asked_of Q ?t)" "hash_key H q = hash_key H ?q"
          "search_requests s q = Some rs" by auto
      have "batch_fine q" using q(2) fine by (auto simp: asked_of_def)
      from search_requests_answers [OF sinv this q(4)] s(2) have "batch_results (db_of e ?t) q (map add_data rs)" by simp
      moreover have "q = ?q \<or> (?t, q) \<in> Q" using q(2) by (auto simp: asked_of_def)
      moreover have "insert ?q (asked_of Q ?t) \<subseteq> asked_of ?Q ?t" using fine by (auto simp: asked_of_def)
      ultimately show ?thesis using q(3) cache_right_mono [OF q(1)] False assms(5) by (auto simp: batch_answer_def)
    qed
  qed
  then show "batch_answer H Q r (db_of e) (StatusOK, RespResults (map add_data rs))"
    and "caches_right H ?Q e'"
    using caches_right_one [OF assms(2) _ assms(7), of ?Q ?t] assms(6) BatchSearch_other_caches [OF assms(3)] by auto
qed

section \<open>Every request\<close>

lemma CreateTable_caches:
  assumes "caches_right H Q e" and "engine_CreateTable e t dim hc fc cs = (ok, e')" and "0 < cs"
  shows "caches_right H Q e'"
proof (cases "md_primary (en_metadata e) \<and> \<not> en_shutdown e \<and> ValidateCreateTable t dim hc fc (unat cs) \<and> table_absent e t")
  case False
  then have "e' = e" using assms(2) by (auto simp: engine_CreateTable_def split: if_splits)
  with assms(1) show ?thesis by simp
next
  case True
  obtain it stored ix where mi: "make_index hc fc = (it, stored, ix)" by (metis prod_cases3)
  obtain e1 where e1: "e' = upd_stats t (stats_SetModifiedFlag True) (add_table t dim hc fc cs e1)"
    "\<And>u. u \<noteq> t \<Longrightarrow> table_view e1 u = table_view e u" "en_metadata e1 = en_metadata e"
    using engine_CreateTable_shape [of e t dim hc fc cs] True assms(2) by auto
  note views = add_table_views [OF mi, where t = t and dim = dim and cs = cs and e = e1]
  have "table_view e' u = table_view e u" if "u \<noteq> t" for u
    using views(1) [OF that] e1(2) [OF that] that by (simp add: e1(1) table_view_def)
  then have other: "map_of (en_store_map e') u = map_of (en_store_map e) u \<and> map_of (en_cache_map e') u = map_of (en_cache_map e) u"
    if "u \<noteq> t" for u using that table_view_maps by blast
  have "map_of (en_cache_map e') t = Some (lru_new (unat cs))" "map_of (en_store_map e') t = Some (store_new it ix dim)"
    using views(2) by (simp_all add: e1(1) table_view_def)
  moreover have "0 < unat cs" using assms(3) by (simp add: word_gt_0 unat_gt_0)
  ultimately have "cache_right H (asked_of Q t) e' t" using cache_right_new by blast
  with caches_right_one [OF assms(1) order.refl _ other] show ?thesis by (simp add: e1(1,3) views(3))
qed

lemma serve_right:
  assumes "serving rl e" and "caches_right H Q e" and "admissible rl r"
    and "serve rl H net l ls r (e, w) = Some (status, response, e', w')" and "serves rl r e (status, response) e'"
  shows "right_answer H Q r (db_of e) (status, response)" and "caches_right H (asked_by r \<union> Q) e'"
proof -
  have inv: "engine_inv rl e" using assms(1) by (simp add: serving_def)
  have "(case r of ReqBatchSearch b \<Rightarrow> batch_answer H Q b (db_of e) (status, response) | _ \<Rightarrow> True) \<and>
    caches_right H (asked_by r \<union> Q) e'"
  proof (cases r)
    case (ReqInsert x)
    have "caches_right H Q e'"
    proof (cases "ins_table x = []")
      case True
      with assms(2,4) ReqInsert show ?thesis by (simp add: serve_def server_Insert_def)
    next
      case False
      then obtain ok where "engine_Insert rl e (ins_table x) (ins_id x) (ins_vector x) (ins_content x) = Some (ok, e')"
        using assms(4) ReqInsert by (auto simp: serve_def server_Insert_def split: if_splits)
      then have "engine_BatchInsert rl e (ins_table x) [(ins_id x, ins_vector x, ins_content x)] = Some ([ok], e')"
        by (simp add: engine_Insert_batch)
      from engine_BatchInsert_caches [OF inv assms(2) _ this] assms(3) ReqInsert show ?thesis by (simp add: admissible_def)
    qed
    with ReqInsert show ?thesis by simp
  next
    case (ReqRemove x)
    have "caches_right H Q e'"
    proof (cases "rem_table x = []")
      case True
      with assms(2,4) ReqRemove show ?thesis by (simp add: serve_def server_Remove_def)
    next
      case False
      then obtain ok where "engine_Remove e (rem_table x) (rem_id x) = (ok, e')"
        using assms(4) ReqRemove by (auto simp: serve_def server_Remove_def split: if_splits prod.splits)
      then have "engine_BatchRemove e (rem_table x) [rem_id x] = ([ok], e')" by (simp add: engine_Remove_batch)
      from engine_BatchRemove_caches [OF inv assms(2) this] show ?thesis .
    qed
    with ReqRemove show ?thesis by simp
  next
    case (ReqSearch x)
    have "caches_right H Q e'"
      using assms(2,4) ReqSearch engine_Search_caches [OF assms(2)]
      by (auto simp: serve_def server_Search_def split: if_splits)
    with ReqSearch show ?thesis by simp
  next
    case (ReqBatchInsert x)
    have "\<forall>(i, v, content) \<in> set (records x). finite_vec v" using assms(3) ReqBatchInsert by (fastforce simp: admissible_def)
    then have "caches_right H Q e'"
      using assms(2,4) ReqBatchInsert engine_BatchInsert_caches [OF inv assms(2), where xs = "records x" and t = "bi_table x"]
      by (auto simp: serve_def server_BatchInsert_def simp flip: records_def split: if_splits)
    with ReqBatchInsert show ?thesis by simp
  next
    case (ReqBatchRemove x)
    have "caches_right H Q e'"
      using assms(2,4) ReqBatchRemove engine_BatchRemove_caches [OF inv assms(2)]
      by (auto simp: serve_def server_BatchRemove_def split: if_splits prod.splits)
    with ReqBatchRemove show ?thesis by simp
  next
    case (ReqBatchSearch x)
    show ?thesis
    proof (cases "bs_table x = []")
      case True
      with assms(2,4) ReqBatchSearch caches_right_mono [OF assms(2), of "asked_by r \<union> Q"] show ?thesis
        by (auto simp: serve_def server_BatchSearch_def batch_answer_def)
    next
      case False
      then obtain rs where rs: "engine_BatchSearch H e ls (bs_table x) (batch_of x) = Some (rs, e')"
        "status = StatusOK" "response = RespResults (map add_data rs)"
        using assms(4) ReqBatchSearch by (auto simp: serve_def server_BatchSearch_def batch_of_def split: if_splits)
      have f: "\<forall>q \<in> set (bs_query x). finite_vec (qu_query q)" using assms(3) ReqBatchSearch by (simp add: admissible_def)
      then have "\<forall>(query, k, p) \<in> set (batch_of x). finite_vec query" by (auto simp: batch_of_def)
      from engine_BatchSearch_ok [OF inv this, of H ls "bs_table x"] rs(1)
      have "en_store_map e' = en_store_map e" "en_metadata e' = en_metadata e" by auto
      from engine_BatchSearch_answer [OF assms(1,2) rs(1) f False this] rs(2,3) ReqBatchSearch show ?thesis by simp
    qed
  next
    case (ReqCreateTable x)
    have "0 < ct_cache_size x" using assms(3) ReqCreateTable by (simp add: admissible_def word_gt_0)
    then have "caches_right H Q e'"
      using assms(2,4) ReqCreateTable CreateTable_caches [OF assms(2)]
      by (auto simp: serve_def server_CreateTable_def split: sum.splits prod.splits)
    with ReqCreateTable show ?thesis by simp
  next
    case (ReqDropTable x)
    with assms(3) show ?thesis by (simp add: admissible_def)
  qed (use assms(2,4) in \<open>auto simp: serve_def server_ListTables_def server_HealthCheck_def split: prod.splits\<close>)
  then show "right_answer H Q r (db_of e) (status, response)" and "caches_right H (asked_by r \<union> Q) e'"
    using assms(5) by (simp_all add: right_answer_def serves_def)
qed

end
