(* ===== verification/CommandLine.thy ===== *)
theory CommandLine
  imports Engine
begin

text \<open>
  The command line of the server (main.cc): the positional arguments, the environment that
  stands in for them, and the flags, which make the \<open>Metadata\<close> the engine is built with.
  Signals, the gRPC server and the shutdown thread are not modelled.
\<close>

section \<open>Numbers\<close>

text \<open>\<open>std::stoi\<close>: what follows the digits is ignored; \<open>None\<close> is one of its two exceptions.\<close>

definition stoi :: "string \<Rightarrow> int option" where
  "stoi s =
     (case fst (get_number (skip_ws s)) of
        None \<Rightarrow> None
      | Some (neg, n) \<Rightarrow>
          let i = (if neg then - int n else int n)
          in if i < - (2 ^ 31) \<or> i \<ge> 2 ^ 31 then None else Some i)"

lemma stoi_show_int [simp]:
  assumes "- (2 ^ 31) \<le> i" and "i < 2 ^ 31"
  shows "stoi (show_int i) = Some i"
proof -
  have d: "takeWhile is_digit (show_nat n) = show_nat n" "show_nat n \<noteq> []" for n
    using takeWhile_digits(1) [of "show_nat n" "[]"] show_nat_digits [of n] by simp_all
  have w: "skip_ws (show_nat n) = show_nat n" for n using skip_ws_show_nat [of n "[]"] by simp
  have g: "get_number (show_nat n) = (Some (False, n), [])" for n using get_number_nat [of "[]" n] by (simp add: stops_number_def)
  show ?thesis
  proof (cases "i < 0")
    case True
    have "skip_ws (CHR ''-'' # show_nat (nat (- i))) = CHR ''-'' # show_nat (nat (- i))" by (simp add: skip_ws_def is_space_def)
    then show ?thesis using True assms by (simp add: stoi_def show_int_def get_number_def d)
  next
    case False
    then show ?thesis using assms by (simp add: stoi_def show_int_def w g)
  qed
qed

section \<open>Flags\<close>

text \<open>A start: the address to listen on and the metadata, the usage message, or an exception.\<close>

datatype Startup = Run string Metadata | Usage | Uncaught

text \<open>\<open>0.25f\<close>, in units of \<open>2 ^ - 149\<close>.\<close>

definition default_metadata :: "string \<Rightarrow> Metadata" where
  "default_metadata name = \<lparr>md_name = name, md_primary = True, md_sync_server_address = [], md_replicas = [],
     md_reindex_threshold = Fin False (2 ^ 147), md_use_cache = True, md_cleanup_interval = 60000,
     md_sync_interval = 90000, md_logger_type = LOCAL\<rparr>"

definition logger_type_of :: "string \<Rightarrow> LoggerType" where
  "logger_type_of s = (if s = ''silent'' then SILENT else if s = ''remote'' then REMOTE else LOCAL)"

fun parse_flags :: "string \<Rightarrow> string list \<Rightarrow> Metadata \<Rightarrow> Startup" where
  "parse_flags server_address [] md = Run server_address md"
| "parse_flags server_address (arg # rest) md =
     (if arg = ''--replica'' then parse_flags server_address rest (md\<lparr>md_primary := False\<rparr>)
      else if arg = ''--no-cache'' then parse_flags server_address rest (md\<lparr>md_use_cache := False\<rparr>)
      else case rest of
          [] \<Rightarrow> Usage
        | v # rest' \<Rightarrow>
            if arg = ''--replica-address'' then parse_flags server_address rest' (md\<lparr>md_replicas := md_replicas md @ [v]\<rparr>)
            else if arg = ''--sync-server-address'' then parse_flags server_address rest' (md\<lparr>md_sync_server_address := v\<rparr>)
            else if arg = ''--cleanup-interval'' then
              (case stoi v of None \<Rightarrow> Uncaught | Some i \<Rightarrow> parse_flags server_address rest' (md\<lparr>md_cleanup_interval := i\<rparr>))
            else if arg = ''--sync-interval'' then
              (case stoi v of None \<Rightarrow> Uncaught | Some i \<Rightarrow> parse_flags server_address rest' (md\<lparr>md_sync_interval := i\<rparr>))
            else if arg = ''--logger-type'' then parse_flags server_address rest' (md\<lparr>md_logger_type := logger_type_of v\<rparr>)
            else Usage)"

text \<open>
  With fewer than two positional arguments the environment gives them; a string made of the
  null pointer, when \<open>MODE\<close> is not set, throws.
\<close>

definition main_start :: "(string \<Rightarrow> string option) \<Rightarrow> string list \<Rightarrow> Startup" where
  "main_start getenv argv =
     (if length argv < 3 then
        (case (getenv ''POD_NAME'', getenv ''PORT'') of
           (Some pod, Some port) \<Rightarrow>
             (case getenv ''MODE'' of
                None \<Rightarrow> Uncaught
              | Some mode \<Rightarrow> if mode \<noteq> ''K8S'' then Usage else Run (''0.0.0.0:'' @ port) (default_metadata pod))
         | _ \<Rightarrow> Usage)
      else parse_flags (argv ! 2) (drop 3 argv) (default_metadata (argv ! 1)))"

section \<open>What the flags can say\<close>

text \<open>A command line that asks for given settings.\<close>

definition flags_for :: "Metadata \<Rightarrow> string list" where
  "flags_for md =
     (if md_primary md then [] else [''--replica'']) @ (if md_use_cache md then [] else [''--no-cache'']) @
     [''--sync-server-address'', md_sync_server_address md, ''--cleanup-interval'', show_int (md_cleanup_interval md),
      ''--sync-interval'', show_int (md_sync_interval md),
      ''--logger-type'', (case md_logger_type md of SILENT \<Rightarrow> ''silent'' | REMOTE \<Rightarrow> ''remote'' | LOCAL \<Rightarrow> ''local'')] @
     concat (map (\<lambda>r. [''--replica-address'', r]) (md_replicas md))"

lemma parse_replicas:
  "parse_flags a (concat (map (\<lambda>r. [''--replica-address'', r]) rs)) md = Run a (md\<lparr>md_replicas := md_replicas md @ rs\<rparr>)"
  by (induction rs arbitrary: md) simp_all

lemma parse_flags_for:
  assumes "- (2 ^ 31) \<le> md_cleanup_interval md" and "md_cleanup_interval md < 2 ^ 31"
    and "- (2 ^ 31) \<le> md_sync_interval md" and "md_sync_interval md < 2 ^ 31"
    and "md_reindex_threshold md = Fin False (2 ^ 147)"
  shows "parse_flags a (flags_for md) (default_metadata (md_name md)) = Run a md"
  using assms
  by (cases md; cases "md_logger_type md"; cases "md_primary md"; cases "md_use_cache md")
    (simp_all add: flags_for_def parse_replicas logger_type_of_def default_metadata_def)

text \<open>A flag and its value in one argument are not understood.\<close>

lemma parse_joined: "parse_flags a ((''--replica-address='' @ v) # rest) md = Usage"
  "parse_flags a ((''--sync-server-address='' @ v) # rest) md = Usage"
  by (simp_all split: list.split)

end
