(* ===== verification/ServerProperties.thy ===== *)
theory ServerProperties
  imports BatchAnswers CommandLine Samples
begin

text \<open>
  The properties of the server: a session of requests against the abstract database, and what
  the command line makes of the engine's settings.
\<close>

section \<open>Sessions\<close>

text \<open>Requests one after the other, each with the latencies measured for it.\<close>

type_synonym Call = "f32 \<times> f32 list \<times> Request"

fun serve_all :: "level_fun \<Rightarrow> (f32 \<Rightarrow> u64) \<Rightarrow> 'w Net \<Rightarrow> Call list \<Rightarrow> Engine \<times> 'w \<Rightarrow>
    ((Status \<times> Response) list \<times> Engine \<times> 'w) option" where
  "serve_all rl H net [] ew = Some ([], ew)"
| "serve_all rl H net ((l, ls, r) # calls) ew =
     (case serve rl H net l ls r ew of
        None \<Rightarrow> None
      | Some (status, response, ew') \<Rightarrow>
          map_option (\<lambda>(answers, ew''). ((status, response) # answers, ew'')) (serve_all rl H net calls ew'))"

text \<open>Every answer is right, given the batches asked before it, among them those of \<open>Q\<close>.\<close>

fun answered :: "(f32 \<Rightarrow> u64) \<Rightarrow> past \<Rightarrow> Request list \<Rightarrow> database \<Rightarrow> (Status \<times> Response) list \<Rightarrow> bool" where
  "answered H Q [] db as \<longleftrightarrow> as = []"
| "answered H Q (r # rs) db [] \<longleftrightarrow> False"
| "answered H Q (r # rs) db (a # as) \<longleftrightarrow> right_answer H Q r db a \<and> answered H (asked_by r \<union> Q) rs (db_step r db) as"

lemma serve_all_steps:
  assumes "serving rl e" and "caches_right H Q e" and "\<forall>(l, ls, r) \<in> set calls. admissible rl r"
  shows "\<exists>as e'. serve_all rl H net calls (e, w) = Some (as, e', w) \<and> serving rl e' \<and>
    db_of e' = fold (\<lambda>(l, ls, r). db_step r) calls (db_of e) \<and> answered H Q (map (\<lambda>(l, ls, r). r) calls) (db_of e) as"
  using assms
proof (induction calls arbitrary: e Q)
  case (Cons call calls)
  obtain l ls r where call: "call = (l, ls, r)" by (cases call)
  have a: "admissible rl r" using Cons.prems(3) by (simp add: call)
  from serve_step [OF Cons.prems(1) a, of H net l ls w] obtain status response e1 where
    e1: "serve rl H net l ls r (e, w) = Some (status, response, e1, w)" "serves rl r e (status, response) e1" by blast
  note right = serve_right [OF Cons.prems(1,2) a e1]
  have "serving rl e1" "db_of e1 = db_step r (db_of e)" using e1(2) by (simp_all add: serves_def)
  moreover have "\<forall>(l, ls, r) \<in> set calls. admissible rl r" using Cons.prems(3) by simp
  ultimately show ?case using Cons.IH [OF _ right(2)] e1(1) right(1) by (fastforce simp: call)
qed simp

text \<open>C3: a running primary answers every request but \<open>DropTable\<close> (which C2 has), as the abstract database
  does, and its tables stay those of the abstract database: an insertion succeeds exactly when the id is
  new and the dimension right, a removal when the record is there, a table is created when its name
  is new, the counters count the records; a search gives records of its table, at most as many as
  asked for, nearest first, and from a flat table exactly the nearest; a batch gets such results
  for each of its queries, or those of an earlier batch with the same hash key, on the records as
  they are now. It is asked that floats are finite, that new tables have the metric L2, a cache that holds
  something and no negative levels, and that the engine's invariant holds, its caches included. A search of
  a graph may miss records, and the values of the metrics of an existing table are left open.\<close>

theorem server_session:
  assumes "serving rl e" and "caches_right H Q e" and "\<forall>(l, ls, r) \<in> set calls. admissible rl r"
  shows "\<exists>as e'. serve_all rl H net calls (e, w) = Some (as, e', w) \<and> serving rl e' \<and>
    db_of e' = fold (\<lambda>(l, ls, r). db_step r) calls (db_of e) \<and> answered H Q (map (\<lambda>(l, ls, r). r) calls) (db_of e) as"
  by (rule serve_all_steps [OF assms])

definition sample_insert :: InsertRequest where
  "sample_insert = \<lparr>ins_id = 7, ins_vector = [f32_one], ins_content = ''c'', ins_table = ''t''\<rparr>"

definition sample_remove :: RemoveRequest where
  "sample_remove = \<lparr>rem_id = 9, rem_table = ''t''\<rparr>"

lemma server_session_witness:
  "\<exists>e'. serve_all ground_level (\<lambda>_. 0) sample_silent_net
      [(f32_zero, [], ReqInsert sample_insert), (f32_zero, [], ReqRemove sample_remove)] (sample_engine, ()) =
     Some ([(StatusOK, RespSuccessful True), (INVALID_ARGUMENT ''remove failed (invalid input)'', RespSuccessful False)], e', ()) \<and>
     known (db_of e') ''t'' = Some (1, True, [1 \<mapsto> ([f32_one], ''a''), 2 \<mapsto> ([f32_zero], ''b''), 7 \<mapsto> ([f32_one], ''c'')])"
proof -
  let ?calls = "[(f32_zero, [], ReqInsert sample_insert), (f32_zero, [], ReqRemove sample_remove)] :: Call list"
  have s: "serving ground_level sample_engine" using sample_engine_inv(1) [of ground_level] by (simp add: serving_def sample_engine_def sample_md_def)
  have a: "\<forall>(l, ls, r) \<in> set ?calls. admissible ground_level r"
    by (simp add: admissible_def sample_insert_def sample_remove_def finite_vec_def f32_one_def)
  have d: "db_of sample_engine ''t'' = Some (1, True, [1 \<mapsto> ([f32_one], ''a''), 2 \<mapsto> ([f32_zero], ''b'')])"
    by (auto simp: flat_store_def db_of_def sample_engine_def sample_store_def store_dim_def store_data_def sample_data_def fun_eq_iff)
  have "cache_right H Q sample_engine ''t''" for H Q
    by (rule cache_right_new [where s = sample_store and n = 2]) (simp_all add: sample_engine_def)
  then have c: "caches_right (\<lambda>_. 0) {} sample_engine" by (simp add: caches_right_def contains_def)
  from server_session [OF s c a, of sample_silent_net "()"] obtain as e' where
    e': "serve_all ground_level (\<lambda>_. 0) sample_silent_net ?calls (sample_engine, ()) = Some (as, e', ())"
    "db_of e' = fold (\<lambda>(l, ls, r). db_step r) ?calls (db_of sample_engine)"
    "answered (\<lambda>_. 0) {} (map (\<lambda>(l, ls, r). r) ?calls) (db_of sample_engine) as" by blast
  obtain a1 a2 where as: "as = [a1, a2]" using e'(3) by (cases as; cases "tl as"; cases "tl (tl as)") auto
  show ?thesis
    using e' d unfolding as
    by (intro exI [of _ e'])
      (simp add: right_answer_def db_insert_def db_remove_def known_def sample_insert_def sample_remove_def complete_def put_data_def
        written_def fun_eq_iff restrict_map_def)
qed

section \<open>The command line\<close>

text \<open>Every setting the flags name can be asked for: the command line made from given metadata starts
  the engine with that metadata, list of replicas included, in its order.\<close>

theorem flags_round_trip:
  assumes "- (2 ^ 31) \<le> md_cleanup_interval md" and "md_cleanup_interval md < 2 ^ 31"
    and "- (2 ^ 31) \<le> md_sync_interval md" and "md_sync_interval md < 2 ^ 31"
    and "md_reindex_threshold md = Fin False (2 ^ 147)"
  shows "main_start getenv (argv0 # md_name md # address # flags_for md) = Run address md"
  using parse_flags_for [OF assms] by (simp add: main_start_def)

lemma flags_round_trip_witness:
  "main_start (\<lambda>_. None) [''server'', ''primary'', ''0.0.0.0:50051'', ''--sync-server-address'', '''', ''--cleanup-interval'', ''5'',
     ''--sync-interval'', ''7'', ''--logger-type'', ''silent'', ''--replica-address'', ''r''] =
   Run ''0.0.0.0:50051'' ((default_metadata ''primary'')\<lparr>md_replicas := [''r''], md_cleanup_interval := 5, md_sync_interval := 7,
     md_logger_type := SILENT\<rparr>)"
proof -
  let ?md = "(default_metadata ''primary'')\<lparr>md_replicas := [''r''], md_cleanup_interval := 5, md_sync_interval := 7, md_logger_type := SILENT\<rparr>"
  have "show_int 5 = ''5''" "show_int 7 = ''7''" by (simp_all add: show_int_def show_nat_eval digit_char_def)
  then show ?thesis
    using flags_round_trip [of ?md "\<lambda>_. None" "''server''" "''0.0.0.0:50051''"] by (simp add: default_metadata_def flags_for_def)
qed

text \<open>The commands of the README, which join a flag and its value with an equals sign, print the usage
  message and start nothing, on the primary and on the replica.\<close>

theorem readme_commands_rejected:
  "main_start getenv ([argv0, name, address, ''--replica-address='' @ v] @ rest) = Usage \<and>
   main_start getenv ([argv0, name, address, ''--replica'', ''--sync-server-address='' @ v] @ rest) = Usage"
  by (simp add: main_start_def split: list.split)

end
