(* ===== verification/Background.thy ===== *)
theory Background
  imports Cluster Samples
begin

text \<open>
  What the background threads do each time their timer wakes them: the cleaner (cleaner.cc) and
  the replication loop of the primary (replica_manager.cc), and which thread a replica manager
  starts; their timers and their end are in \<open>ThreadShutdown\<close>. The race of these loops with the
  creation of tables, whose maps they read without the mutex of the engine, is not modelled. Also:
  a table that is dropped and made again is not replicated, because the offsets of the replicas
  stay.
\<close>

section \<open>The cleaner\<close>

text \<open>One table of the loop: \<open>cleanup_callback_\<close> is \<open>Engine::Cleanup\<close>, here with its measured latency.\<close>

definition clean_table :: "level_fun \<Rightarrow> f32 \<Rightarrow> string \<Rightarrow> Engine \<Rightarrow> Engine option" where
  "clean_table rl latency t e =
     (if contains (en_stats_manager_map e) t \<and> sm_removed (mref (en_stats_manager_map e) t)
      then engine_Cleanup rl latency t False e else Some e)"

definition cleaner_tick :: "level_fun \<Rightarrow> f32 \<Rightarrow> Engine \<Rightarrow> Engine option" where
  "cleaner_tick rl latency e =
     (if en_shutdown e then Some e else for_each (clean_table rl latency) (keys (en_store_map e)) e)"

definition nothing_pending :: "Engine \<Rightarrow> string \<Rightarrow> bool" where
  "nothing_pending e t \<longleftrightarrow> (case map_of (en_stats_manager_map e) t of None \<Rightarrow> True | Some m \<Rightarrow> \<not> sm_removed m)"

lemma nothing_pending_view: "table_view e' t = table_view e t \<Longrightarrow> nothing_pending e' t = nothing_pending e t"
  by (simp add: nothing_pending_def table_view_def)

lemma clean_table_ok:
  assumes "engine_inv rl e" and "\<not> en_shutdown e"
  shows "\<exists>e'. clean_table rl latency t e = Some e' \<and> engine_inv rl e' \<and> \<not> en_shutdown e' \<and> table_data e' = table_data e \<and>
    nothing_pending e' t \<and> (\<forall>u. nothing_pending e u \<longrightarrow> nothing_pending e' u)"
proof (cases "contains (en_stats_manager_map e) t \<and> sm_removed (mref (en_stats_manager_map e) t)")
  case False
  then show ?thesis using assms by (auto simp: clean_table_def nothing_pending_def contains_def split: option.splits)
next
  case True
  obtain s where s: "map_of (en_store_map e) t = Some s"
    using assms(1) True by (cases rule: engine_inv_cases [of rl e t]) (auto simp: contains_def)
  obtain e' where e': "engine_Cleanup rl latency t False e = Some e'" "engine_inv rl e'" "en_shutdown e' = en_shutdown e"
    "table_data e' = table_data e" "\<forall>u. u \<noteq> t \<longrightarrow> table_view e' u = table_view e u" "\<not> sm_removed (mref (en_stats_manager_map e') t)"
    using engine_Cleanup_ok [OF assms(1), of latency t False] assms(2) s by (auto simp: contains_def)
  have p: "nothing_pending e' t" using e'(6) by (auto simp: nothing_pending_def split: option.split)
  have "nothing_pending e' u" if "nothing_pending e u" for u
    using that p nothing_pending_view [of e' u e] e'(5) by (cases "u = t") simp_all
  then show ?thesis using True e' p assms(2) by (intro exI [of _ e']) (simp add: clean_table_def)
qed

lemma clean_tables_ok:
  assumes "engine_inv rl e" and "\<not> en_shutdown e"
  shows "\<exists>e'. for_each (clean_table rl latency) ts e = Some e' \<and> engine_inv rl e' \<and> table_data e' = table_data e \<and>
    (\<forall>t \<in> set ts. nothing_pending e' t) \<and> (\<forall>u. nothing_pending e u \<longrightarrow> nothing_pending e' u)"
  using assms
proof (induction ts arbitrary: e)
  case (Cons t ts)
  obtain e1 where e1: "clean_table rl latency t e = Some e1" "engine_inv rl e1" "\<not> en_shutdown e1" "table_data e1 = table_data e"
    "nothing_pending e1 t" "\<forall>u. nothing_pending e u \<longrightarrow> nothing_pending e1 u"
    using clean_table_ok [OF Cons.prems, of latency t] by blast
  obtain e2 where "for_each (clean_table rl latency) ts e1 = Some e2" "engine_inv rl e2" "table_data e2 = table_data e1"
    "\<forall>t \<in> set ts. nothing_pending e2 t" "\<forall>u. nothing_pending e1 u \<longrightarrow> nothing_pending e2 u"
    using Cons.IH [OF e1(2,3)] by blast
  with e1 show ?case by auto
qed simp

lemma pending_only_tables:
  assumes "engine_inv rl e" and "table_data e t = None"
  shows "nothing_pending e t"
  using assms(1) by (cases rule: engine_inv_cases [of rl e t]) (use assms(2) in \<open>simp_all add: nothing_pending_def table_data_def\<close>)

section \<open>The replication loop\<close>

datatype SyncThread = SyncLoop | SyncServer | NoThread

definition sync_thread :: "bool \<Rightarrow> string list \<Rightarrow> SyncThread" where
  "sync_thread primary replicas =
     (if primary \<and> replicas \<noteq> [] then SyncLoop else if \<not> primary then SyncServer else NoThread)"

definition any_modified :: "(string, StatsManager) umap \<Rightarrow> bool" where
  "any_modified stats_manager_map \<longleftrightarrow> list_ex (\<lambda>(table, stats_manager). sm_modified stats_manager) stats_manager_map"

definition sync_tick :: "'w Net \<Rightarrow> Engine \<times> 'w \<Rightarrow> (Engine \<times> 'w) option" where
  "sync_tick net ew =
     (if en_shutdown (fst ew) \<or> \<not> any_modified (en_stats_manager_map (fst ew)) then Some ew else engine_Sync net False ew)"

text \<open>The loop sends nothing while no table is modified.\<close>

lemma sync_tick_quiet: "\<not> any_modified (en_stats_manager_map e) \<Longrightarrow> sync_tick net (e, w) = Some (e, w)"
  by (simp add: sync_tick_def)

section \<open>A table dropped and made again\<close>

lemma sync_attempts_nothing:
  assumes "pm_SerializeWALEntries pm d off = Some []"
  shows "sync_attempts net pm d s table r is (off, failed, w) = Some (off, failed, w)"
  by (induction "is") (simp_all add: assms)

lemma sync_replicas_nothing:
  assumes "\<forall>r \<in> set rs. pm_SerializeWALEntries pm d (offset_of offs t r) = Some []"
  shows "\<exists>offs'. sync_replicas net pm d s t rs (offs, failed, w) = Some (offs', failed, w) \<and>
    (\<forall>u r. offset_of offs' u r = offset_of offs u r)"
  using assms
proof (induction rs arbitrary: offs)
  case (Cons r rs)
  let ?offs = "mput (t, r) (offset_of offs t r) offs"
  have o: "offset_of ?offs u q = offset_of offs u q" for u q by (simp add: offset_of_mput)
  have "pm_SerializeWALEntries pm d (offset_of offs t r) = Some []" using Cons.prems by simp
  note here = sync_attempts_nothing [OF this, of net s t r "[0..<kRetryCount + 1]" failed w]
  have "\<forall>r \<in> set rs. pm_SerializeWALEntries pm d (offset_of ?offs t r) = Some []" unfolding o using Cons.prems by simp
  from Cons.IH [OF this] obtain offs' where "sync_replicas net pm d s t rs (?offs, failed, w) = Some (offs', failed, w)"
    "\<forall>u q. offset_of offs' u q = offset_of ?offs u q" by blast
  then show ?case using here o by (intro exI [of _ offs']) (simp del: upt_Suc)
qed simp

text \<open>
  A log of the new table that is not longer than the offset that is left from the old one is
  not sent to anyone, and the modified flag is cleared.
\<close>

lemma recreated_table_not_sent:
  assumes "in_log full rl e t es" and "\<forall>r \<in> set rs. length es \<le> unat (offset_of offs t r)"
    and "map_of (en_persistence_manager_map e) t = Some pm" and "map_of st t = Some m"
  shows "\<exists>offs'. sync_table net rs (en_disk e) (en_store_map e) (t, pm) (offs, st, w) =
    Some (offs', mput t (stats_SetModifiedFlag False m) st, w)"
proof -
  obtain s k where s: "loaded rl e t s" "map_of (en_persistence_manager_map e) t = Some \<lparr>pm_table_name = t, pm_stored_index_type = k\<rparr>"
    "wal_entries k t (wal_of (en_disk e) t) = Some es"
    using assms(1) unfolding in_log_def by blast
  have "\<forall>r \<in> set rs. pm_SerializeWALEntries pm (en_disk e) (offset_of offs t r) = Some []"
    using SerializeWALEntries_offset [OF s(3)] assms(2,3) s(2) by (auto simp: pm_SerializeWALEntries_def)
  from sync_replicas_nothing [OF this, of net s False w] obtain offs' where
    "sync_replicas net pm (en_disk e) s t rs (offs, False, w) = Some (offs', False, w)" by blast
  then show ?thesis using s(1) assms(4) by (simp add: sync_table_def loaded_def)
qed

text \<open>\<open>DropTable\<close> itself leaves the offsets that its synchronisation has reached.\<close>

lemma drop_keeps_offsets: "en_wal_offsets (drop_maps t e) = en_wal_offsets e"
  by (simp add: drop_maps_def)

section \<open>Properties\<close>

text \<open>After one round of the cleaner no table has a removal pending, and no table has lost or gained a
  record.\<close>

theorem cleaner_tick_effect:
  assumes "engine_inv rl e" and "\<not> en_shutdown e"
  shows "\<exists>e'. cleaner_tick rl latency e = Some e' \<and> engine_inv rl e' \<and> table_data e' = table_data e \<and> (\<forall>t. nothing_pending e' t)"
proof -
  obtain e' where e': "for_each (clean_table rl latency) (keys (en_store_map e)) e = Some e'" "engine_inv rl e'"
    "table_data e' = table_data e" "\<forall>t \<in> set (keys (en_store_map e)). nothing_pending e' t"
    using clean_tables_ok [OF assms, of latency] by blast
  have "nothing_pending e' t" for t
  proof (cases "t \<in> set (keys (en_store_map e))")
    case False
    then have "table_data e t = None" by (simp add: table_data_def map_of_eq_None_iff)
    then show ?thesis using pending_only_tables [OF e'(2)] e'(3) by simp
  qed (use e'(4) in blast)
  then show ?thesis using e'(1-3) assms(2) by (intro exI [of _ e']) (simp add: cleaner_tick_def)
qed

lemma cleaner_tick_effect_witness:
  "\<exists>e' e''. engine_Remove sample_engine ''t'' 1 = (True, e') \<and> cleaner_tick ground_level f32_zero e' = Some e'' \<and>
    nothing_pending e'' ''t'' \<and> \<not> nothing_pending e' ''t''"
proof -
  have inv: "engine_inv ground_level sample_engine" by (rule sample_engine_inv(1))
  have r: "removes sample_engine ''t'' 1"
    by (simp add: removes_def writable_def ValidateRemove_def sample_engine_def sample_md_def contains_def sample_store_def sample_data_def)
  obtain e' where e': "engine_Remove sample_engine ''t'' 1 = (True, e')" "engine_inv ground_level e'" "en_shutdown e' = en_shutdown sample_engine"
    using engine_Remove_ok [OF inv, of "''t''" 1] r by auto
  have "\<not> en_shutdown e'" using e'(3) by (simp add: sample_engine_def)
  with cleaner_tick_effect [OF e'(2), of f32_zero] obtain e'' where
    "cleaner_tick ground_level f32_zero e' = Some e''" "\<forall>t. nothing_pending e'' t" by blast
  moreover have "\<not> nothing_pending e' ''t''"
    using e'(1) by (auto simp: engine_Remove_def remove_step_def Let_def nothing_pending_def invalidate_cache_alt
        stats_SetModifiedFlag_def stats_SetRemovedFlag_def split: prod.splits if_splits)
  ultimately show ?thesis using e'(1) by blast
qed

end
