(* ===== verification/ThreadShutdown.thy ===== *)
theory ThreadShutdown
  imports Background
begin

text \<open>
  The end of an engine's threads. \<open>Engine::~Engine\<close> sets \<open>shutdown_\<close>, saves the tables, and then its
  members are destroyed in the reverse order of their declaration: the cleaner first, the replica
  manager next, the thread pool last. The first two destructors notify a condition variable, without
  its mutex, and join their thread; that of the pool, which has no task left by then, is one step here
  and ends as \<open>PoolProperties\<close> shows. Modelled as the interleaving of the destructor with the thread of the cleaner
  (cleaner.cc) and the threads of the replica manager (replica_manager.cc). What a thread does in
  one round is in \<open>Background\<close>, what the destructor saves in \<open>Shutdown\<close>; both are one step here.
  Shown: every run ends, and ends with the engine destroyed, except for one lost wake-up and for a
  replica whose gRPC server did not start, which uses a null pointer.
\<close>

section \<open>State\<close>

text \<open>
  A loop around \<open>wait_for\<close>: before its test of the flag, in the wait, after it, in the round, left.
\<close>

datatype Loop = AtTest | InWait | AfterWait | InRound | LoopLeft

text \<open>
  The thread of a replica that waits for the flag: before the test of the predicate, past a test
  that has failed but not yet blocked, blocked, or past \<open>server->Shutdown()\<close>. The mutex is held
  between the test and the block, but no notification takes it.
\<close>

datatype Trigger = TestsFlag | Falling | Blocked | Triggered

text \<open>\<open>sync_thread_\<close>: the loop of a primary, the gRPC server of a replica, or finished or never started. When
  \<open>BuildAndStart\<close> returns null, \<open>server->Wait()\<close> or the helper uses that pointer, which ends the process.\<close>

datatype ServerWait = InServerWait | InServerJoin

datatype SyncThreads = LoopRuns Loop | ServerRuns Trigger ServerWait | SyncEnded | NullServer | SyncCrashed

datatype Destructor = NotCalled | Saving | NotifiesCleaner | JoinsCleaner | NotifiesSync | JoinsSync | ClosesPool | EngineGone

record Threads =
  th_shutdown :: bool
  th_destructor :: Destructor
  th_cleaner :: Loop
  th_sync :: SyncThreads

text \<open>\<open>started\<close>: what \<open>BuildAndStart\<close> returns for the server of a replica is not null.\<close>

definition sync_start :: "bool \<Rightarrow> bool \<Rightarrow> string \<Rightarrow> string list \<Rightarrow> SyncThreads" where
  "sync_start started primary sync_server_address replicas =
     (case sync_thread primary replicas of
        SyncLoop \<Rightarrow> LoopRuns AtTest
      | SyncServer \<Rightarrow> if sync_server_address = [] then SyncEnded
          else if started then ServerRuns TestsFlag InServerWait else NullServer
      | NoThread \<Rightarrow> SyncEnded)"

definition threads_new :: "bool \<Rightarrow> bool \<Rightarrow> string \<Rightarrow> string list \<Rightarrow> Threads" where
  "threads_new started primary sync_server_address replicas =
     \<lparr>th_shutdown = False, th_destructor = NotCalled, th_cleaner = AtTest,
      th_sync = sync_start started primary sync_server_address replicas\<rparr>"

section \<open>The code\<close>

text \<open>A step of \<open>BackgroundCleanupLoop\<close> or \<open>RunReplicaSyncLoop\<close>; the wait ends by its timer at the latest.\<close>

fun loop_next :: "bool \<Rightarrow> Loop \<Rightarrow> Loop option" where
  "loop_next shutdown AtTest = Some (if shutdown then LoopLeft else InWait)"
| "loop_next shutdown InWait = Some AfterWait"
| "loop_next shutdown AfterWait = Some (if shutdown then LoopLeft else InRound)"
| "loop_next shutdown InRound = Some AtTest"
| "loop_next shutdown LoopLeft = None"

fun trigger_next :: "bool \<Rightarrow> Trigger \<Rightarrow> Trigger option" where
  "trigger_next shutdown TestsFlag = Some (if shutdown then Triggered else Falling)"
| "trigger_next shutdown Falling = Some Blocked"
| "trigger_next shutdown Blocked = None"
| "trigger_next shutdown Triggered = None"

text \<open>\<open>server->Wait()\<close> returns once \<open>Shutdown\<close> has been called; then the thread joins its helper.\<close>

fun server_next :: "Trigger \<Rightarrow> ServerWait \<Rightarrow> SyncThreads option" where
  "server_next Triggered InServerWait = Some (ServerRuns Triggered InServerJoin)"
| "server_next Triggered InServerJoin = Some SyncEnded"
| "server_next _ _ = None"

text \<open>A notification reaches a thread that is in its wait, and no other.\<close>

fun wake_loop :: "Loop \<Rightarrow> Loop" where
  "wake_loop InWait = AfterWait"
| "wake_loop l = l"

fun wake_trigger :: "Trigger \<Rightarrow> Trigger" where
  "wake_trigger Blocked = TestsFlag"
| "wake_trigger t = t"

fun wake_sync :: "SyncThreads \<Rightarrow> SyncThreads" where
  "wake_sync (LoopRuns l) = LoopRuns (wake_loop l)"
| "wake_sync (ServerRuns t m) = ServerRuns (wake_trigger t) m"
| "wake_sync x = x"

fun destructor_next :: "Destructor \<Rightarrow> Threads \<Rightarrow> Threads option" where
  "destructor_next NotCalled s = Some (s\<lparr>th_shutdown := True, th_destructor := Saving\<rparr>)"
| "destructor_next Saving s = Some (s\<lparr>th_destructor := NotifiesCleaner\<rparr>)"
| "destructor_next NotifiesCleaner s = Some (s\<lparr>th_cleaner := wake_loop (th_cleaner s), th_destructor := JoinsCleaner\<rparr>)"
| "destructor_next JoinsCleaner s = (if th_cleaner s = LoopLeft then Some (s\<lparr>th_destructor := NotifiesSync\<rparr>) else None)"
| "destructor_next NotifiesSync s = Some (s\<lparr>th_sync := wake_sync (th_sync s), th_destructor := JoinsSync\<rparr>)"
| "destructor_next JoinsSync s =
     (if th_sync s = SyncEnded \<or> th_sync s = LoopRuns LoopLeft then Some (s\<lparr>th_destructor := ClosesPool\<rparr>) else None)"
| "destructor_next ClosesPool s = Some (s\<lparr>th_destructor := EngineGone\<rparr>)"
| "destructor_next EngineGone s = None"

section \<open>Steps\<close>

definition crashed :: "Threads \<Rightarrow> bool" where
  "crashed s \<longleftrightarrow> th_sync s = SyncCrashed"

inductive thread_step :: "Threads \<Rightarrow> Threads \<Rightarrow> bool" where
  destructor: "\<not> crashed s \<Longrightarrow> destructor_next (th_destructor s) s = Some s' \<Longrightarrow> thread_step s s'"
| cleaner: "\<not> crashed s \<Longrightarrow> loop_next (th_shutdown s) (th_cleaner s) = Some l \<Longrightarrow> thread_step s (s\<lparr>th_cleaner := l\<rparr>)"
| sync_loop: "th_sync s = LoopRuns l \<Longrightarrow> loop_next (th_shutdown s) l = Some l' \<Longrightarrow> thread_step s (s\<lparr>th_sync := LoopRuns l'\<rparr>)"
| trigger: "th_sync s = ServerRuns t m \<Longrightarrow> trigger_next (th_shutdown s) t = Some t' \<Longrightarrow>
    thread_step s (s\<lparr>th_sync := ServerRuns t' m\<rparr>)"
| server: "th_sync s = ServerRuns t m \<Longrightarrow> server_next t m = Some x \<Longrightarrow> thread_step s (s\<lparr>th_sync := x\<rparr>)"
| null_used: "th_sync s = NullServer \<Longrightarrow> thread_step s (s\<lparr>th_sync := SyncCrashed\<rparr>)"

text \<open>A thread may also come out of its wait without a notification; here only the helper can gain by it.\<close>

inductive thread_moves :: "Threads \<Rightarrow> Threads \<Rightarrow> bool" where
  start: "thread_moves s s"
| moves: "thread_moves s s1 \<Longrightarrow> thread_step s1 s2 \<Longrightarrow> thread_moves s s2"
| spurious: "thread_moves s s1 \<Longrightarrow> th_sync s1 = ServerRuns Blocked m \<Longrightarrow>
    thread_moves s (s1\<lparr>th_sync := ServerRuns TestsFlag m\<rparr>)"


definition stuck :: "Threads \<Rightarrow> bool" where
  "stuck s \<longleftrightarrow> (\<forall>s'. \<not> thread_step s s')"

definition all_gone :: "Threads \<Rightarrow> bool" where
  "all_gone s \<longleftrightarrow> th_destructor s = EngineGone \<and> th_cleaner s = LoopLeft \<and>
     (th_sync s = SyncEnded \<or> th_sync s = LoopRuns LoopLeft)"

text \<open>The destructor waits for a server that waits for a notification that has already been given.\<close>

definition wakeup_lost :: "Threads \<Rightarrow> bool" where
  "wakeup_lost s \<longleftrightarrow> th_destructor s = JoinsSync \<and> th_cleaner s = LoopLeft \<and> th_sync s = ServerRuns Blocked InServerWait"

section \<open>Once the flag is set\<close>

fun loop_weight :: "Loop \<Rightarrow> nat" where
  "loop_weight InWait = 2"
| "loop_weight InRound = 2"
| "loop_weight LoopLeft = 0"
| "loop_weight _ = 1"

fun trigger_weight :: "Trigger \<Rightarrow> nat" where
  "trigger_weight TestsFlag = 2"
| "trigger_weight Falling = 1"
| "trigger_weight _ = 0"

fun sync_weight :: "SyncThreads \<Rightarrow> nat" where
  "sync_weight (LoopRuns l) = loop_weight l"
| "sync_weight (ServerRuns t InServerWait) = trigger_weight t + 2"
| "sync_weight (ServerRuns t InServerJoin) = trigger_weight t + 1"
| "sync_weight SyncEnded = 0"
| "sync_weight NullServer = 1"
| "sync_weight SyncCrashed = 0"

fun destructor_weight :: "Destructor \<Rightarrow> nat" where
  "destructor_weight NotCalled = 10"
| "destructor_weight Saving = 9"
| "destructor_weight NotifiesCleaner = 8"
| "destructor_weight JoinsCleaner = 7"
| "destructor_weight NotifiesSync = 6"
| "destructor_weight JoinsSync = 2"
| "destructor_weight ClosesPool = 1"
| "destructor_weight EngineGone = 0"

definition threads_weight :: "Threads \<Rightarrow> nat" where
  "threads_weight s = destructor_weight (th_destructor s) + loop_weight (th_cleaner s) + sync_weight (th_sync s)"

lemma loop_next_weight: "loop_next True l = Some l' \<Longrightarrow> loop_weight l' < loop_weight l"
  by (cases l) auto

lemma trigger_next_weight: "trigger_next True t = Some t' \<Longrightarrow> trigger_weight t' < trigger_weight t"
  by (cases t) auto

lemma wake_loop_weight: "loop_weight (wake_loop l) \<le> loop_weight l"
  by (cases l) auto

lemma wake_sync_weight: "sync_weight (wake_sync x) \<le> sync_weight x + 2"
proof (cases x)
  case (LoopRuns l)
  then show ?thesis using wake_loop_weight [of l] by simp
next
  case (ServerRuns t m)
  then show ?thesis by (cases t; cases m) simp_all
qed simp_all

lemma destructor_weight_less: "destructor_next (th_destructor s) s = Some s' \<Longrightarrow> threads_weight s' < threads_weight s"
  using wake_loop_weight [of "th_cleaner s"] wake_sync_weight [of "th_sync s"]
  by (cases "th_destructor s") (auto simp: threads_weight_def split: if_splits)

lemma server_next_weight: "server_next t m = Some x \<Longrightarrow> sync_weight x < sync_weight (ServerRuns t m)"
  by (cases t; cases m) auto

lemma thread_step_weight: "thread_step s s' \<Longrightarrow> th_shutdown s \<Longrightarrow> threads_weight s' < threads_weight s"
proof (induction rule: thread_step.induct)
  case (trigger s t m t')
  then show ?case using trigger_next_weight [of t t'] by (cases m) (simp_all add: threads_weight_def)
qed (use destructor_weight_less loop_next_weight server_next_weight in \<open>auto simp: threads_weight_def\<close>)

lemma wf_thread_step: "wf {(s', s). th_shutdown s \<and> thread_step s s'}"
  by (rule wf_subset [OF wf_measure [of threads_weight]]) (auto intro: thread_step_weight)

section \<open>Invariants\<close>

locale thread_invariant =
  fixes I :: "Threads \<Rightarrow> bool"
  assumes step_law: "thread_step s s' \<Longrightarrow> I s \<Longrightarrow> I s'"
    and wake_law: "I s \<Longrightarrow> th_sync s = ServerRuns Blocked m \<Longrightarrow> I (s\<lparr>th_sync := ServerRuns TestsFlag m\<rparr>)"
begin

lemma thread_moves_inv: "thread_moves s s' \<Longrightarrow> I s \<Longrightarrow> I s'"
  by (induction rule: thread_moves.induct) (auto intro: step_law wake_law)

end

text \<open>A thread leaves only when the flag is set, and the destructor passes a join only after it.\<close>

definition joined :: "Threads \<Rightarrow> bool" where
  "joined s \<longleftrightarrow> (th_shutdown s \<longleftrightarrow> th_destructor s \<noteq> NotCalled) \<and>
     (th_destructor s \<in> {NotifiesSync, JoinsSync, ClosesPool, EngineGone} \<longrightarrow> th_cleaner s = LoopLeft) \<and>
     (th_destructor s \<in> {ClosesPool, EngineGone} \<longrightarrow> th_sync s = SyncEnded \<or> th_sync s = LoopRuns LoopLeft) \<and>
     (\<forall>t. th_sync s = ServerRuns t InServerJoin \<longrightarrow> t = Triggered)"

lemma server_nextE:
  assumes "server_next t m = Some x"
  obtains "t = Triggered" "x = ServerRuns Triggered InServerJoin" | "t = Triggered" "x = SyncEnded"
  using assms by (cases t; cases m) auto

lemma wake_sync_server: "wake_sync x = ServerRuns t m \<longleftrightarrow> (\<exists>t'. x = ServerRuns t' m \<and> t = wake_trigger t')"
  by (cases x) auto

lemma wake_trigger_eq [simp]: "Falling = wake_trigger t \<longleftrightarrow> t = Falling" "Blocked \<noteq> wake_trigger t"
  by (cases t; simp)+

lemma joined_wake: "joined s \<Longrightarrow> th_sync s = ServerRuns Blocked m \<Longrightarrow> joined (s\<lparr>th_sync := ServerRuns TestsFlag m\<rparr>)"
  by (cases m) (auto simp: joined_def)

lemma joined_step: "thread_step s s' \<Longrightarrow> joined s \<Longrightarrow> joined s'"
proof (induction rule: thread_step.induct)
  case (destructor s s')
  then show ?case by (cases "th_destructor s") (auto simp: joined_def wake_sync_server split: if_splits)
next
  case (trigger s t m t')
  then show ?case by (cases m) (auto simp: joined_def)
next
  case (server s t m x)
  then show ?case by (auto simp: joined_def elim: server_nextE)
qed (auto simp: joined_def)

interpretation joins: thread_invariant joined
  by unfold_locales (auto intro: joined_step joined_wake)

text \<open>The kind of the thread does not change.\<close>

definition no_server :: "Threads \<Rightarrow> bool" where
  "no_server s \<longleftrightarrow> (\<forall>t m. th_sync s \<noteq> ServerRuns t m)"

lemma no_server_wake: "no_server s \<Longrightarrow> th_sync s = ServerRuns Blocked m \<Longrightarrow> no_server (s\<lparr>th_sync := ServerRuns TestsFlag m\<rparr>)"
  by (auto simp: no_server_def)

lemma no_server_step: "thread_step s s' \<Longrightarrow> no_server s \<Longrightarrow> no_server s'"
proof (induction rule: thread_step.induct)
  case (destructor s s')
  then show ?case by (cases "th_destructor s") (auto simp: no_server_def wake_sync_server split: if_splits)
qed (auto simp: no_server_def)

interpretation serverless: thread_invariant no_server
  by unfold_locales (auto intro: no_server_step no_server_wake)

definition null_server :: "Threads \<Rightarrow> bool" where
  "null_server s \<longleftrightarrow> th_sync s = NullServer \<or> th_sync s = SyncCrashed"

lemma wake_sync_null: "wake_sync x = NullServer \<longleftrightarrow> x = NullServer" "wake_sync x = SyncCrashed \<longleftrightarrow> x = SyncCrashed"
  by (cases x; simp)+

lemma null_server_step: "thread_step s s' \<Longrightarrow> null_server s' = null_server s"
proof (induction rule: thread_step.induct)
  case (destructor s s')
  then show ?case by (cases "th_destructor s") (auto simp: null_server_def wake_sync_null split: if_splits)
qed (auto simp: null_server_def elim: server_nextE)

interpretation nulls: thread_invariant "\<lambda>s. null_server s = b" for b
proof
  show "null_server s' = b" if "thread_step s s'" "null_server s = b" for s s'
    using null_server_step [OF that(1)] that(2) by simp
qed (simp add: null_server_def)

text \<open>The helper has seen the flag, or is still to be woken by the notification.\<close>

definition caught :: "Threads \<Rightarrow> bool" where
  "caught s \<longleftrightarrow> th_shutdown s \<and> (\<forall>t m. th_sync s = ServerRuns t m \<longrightarrow>
     t \<noteq> Falling \<and> (th_destructor s \<in> {JoinsSync, ClosesPool, EngineGone} \<longrightarrow> t \<noteq> Blocked))"

lemma caught_wake: "caught s \<Longrightarrow> th_sync s = ServerRuns Blocked m \<Longrightarrow> caught (s\<lparr>th_sync := ServerRuns TestsFlag m\<rparr>)"
  by (auto simp: caught_def)

lemma caught_step: "thread_step s s' \<Longrightarrow> caught s \<Longrightarrow> caught s'"
proof (induction rule: thread_step.induct)
  case (destructor s s')
  then show ?case
    by (cases "th_destructor s") (auto simp: caught_def wake_sync_server split: if_splits)
next
  case (trigger s t m t')
  then show ?case by (cases t) (auto simp: caught_def)
next
  case (server s t m x)
  then show ?case by (auto simp: caught_def elim: server_nextE)
qed (auto simp: caught_def)

interpretation notified: thread_invariant caught
  by unfold_locales (auto intro: caught_step caught_wake)

section \<open>Where a run stops\<close>

lemma loop_next_some: "l \<noteq> LoopLeft \<Longrightarrow> \<exists>l'. loop_next b l = Some l'"
  by (cases l) auto

lemma stuck_cleaner: "stuck s \<Longrightarrow> \<not> crashed s \<Longrightarrow> th_cleaner s = LoopLeft"
  using loop_next_some thread_step.cleaner unfolding stuck_def by blast

lemma stuck_loop: "stuck s \<Longrightarrow> th_sync s = LoopRuns l \<Longrightarrow> l = LoopLeft"
  using loop_next_some thread_step.sync_loop unfolding stuck_def by blast

lemma stuck_server: "stuck s \<Longrightarrow> th_sync s = ServerRuns t m \<Longrightarrow> t = Blocked"
  using thread_step.trigger [of s t m] thread_step.server [of s t m] unfolding stuck_def
  by (cases t; cases m) auto

lemma stuck_null: "stuck s \<Longrightarrow> th_sync s \<noteq> NullServer"
  using thread_step.null_used unfolding stuck_def by blast

lemma stuck_destructor:
  assumes "stuck s" and "\<not> crashed s"
  shows "th_destructor s = JoinsSync \<or> th_destructor s = EngineGone"
  using thread_step.destructor [OF assms(2)] stuck_cleaner [OF assms] assms unfolding stuck_def
  by (cases "th_destructor s") auto

lemma stuck_iff:
  assumes "joined s"
  shows "stuck s \<longleftrightarrow> all_gone s \<or> wakeup_lost s \<or> crashed s"
proof
  assume s: "stuck s"
  show "all_gone s \<or> wakeup_lost s \<or> crashed s"
  proof (cases "crashed s")
    case False
    note facts = stuck_cleaner [OF s False] stuck_destructor [OF s False] stuck_server [OF s] stuck_loop [OF s] stuck_null [OF s]
    have *: "th_destructor s = JoinsSync \<Longrightarrow> \<not> (th_sync s = SyncEnded \<or> th_sync s = LoopRuns LoopLeft)"
      using thread_step.destructor [OF False] s unfolding stuck_def by auto
    show ?thesis
    proof (cases "th_sync s")
      case (ServerRuns t m)
      then show ?thesis using facts assms * by (cases m) (auto simp: wakeup_lost_def joined_def)
    qed (use facts * False in \<open>auto simp: all_gone_def crashed_def\<close>)
  qed simp
next
  assume "all_gone s \<or> wakeup_lost s \<or> crashed s"
  then show "stuck s"
    by (auto simp: stuck_def all_gone_def wakeup_lost_def crashed_def elim!: thread_step.cases)
qed

lemma joined_new: "joined (threads_new started primary addr replicas)"
  by (auto simp: joined_def threads_new_def sync_start_def split: SyncThread.split)

lemma no_server_new: "no_server (threads_new started primary addr replicas) \<longleftrightarrow> primary \<or> addr = [] \<or> \<not> started"
  by (auto simp: no_server_def threads_new_def sync_start_def sync_thread_def)

lemma null_server_new: "null_server (threads_new started primary addr replicas) \<longleftrightarrow> \<not> primary \<and> addr \<noteq> [] \<and> \<not> started"
  by (auto simp: null_server_def threads_new_def sync_start_def sync_thread_def)

lemma moves_step: "thread_moves s s1 \<Longrightarrow> th_destructor s1 = d \<Longrightarrow> \<not> crashed s1 \<Longrightarrow> destructor_next d s1 = Some s2 \<Longrightarrow> thread_moves s s2"
  by (blast intro: thread_moves.moves thread_step.destructor)

lemma moves_cleaner: "thread_moves s s1 \<Longrightarrow> \<not> crashed s1 \<Longrightarrow> loop_next (th_shutdown s1) (th_cleaner s1) = Some l \<Longrightarrow>
    thread_moves s (s1\<lparr>th_cleaner := l\<rparr>)"
  by (rule thread_moves.moves [OF _ thread_step.cleaner])

lemma moves_trigger: "thread_moves s s1 \<Longrightarrow> th_sync s1 = ServerRuns t m \<Longrightarrow> trigger_next (th_shutdown s1) t = Some t' \<Longrightarrow>
    thread_moves s (s1\<lparr>th_sync := ServerRuns t' m\<rparr>)"
  by (rule thread_moves.moves [OF _ thread_step.trigger])

text \<open>The helper tests the flag, the destructor runs up to its second join, and the helper blocks.\<close>

lemma replica_can_hang:
  assumes "addr \<noteq> []"
  shows "\<exists>s. thread_moves (threads_new True False addr replicas) s \<and> wakeup_lost s"
proof -
  let ?s = "\<lambda>b d c t. \<lparr>th_shutdown = b, th_destructor = d, th_cleaner = c, th_sync = ServerRuns t InServerWait\<rparr>"
  let ?r = "\<lambda>b d c t. thread_moves (threads_new True False addr replicas) (?s b d c t)"
  have "?r False NotCalled AtTest TestsFlag"
    using assms thread_moves.start [of "threads_new True False addr replicas"] by (simp add: threads_new_def sync_start_def sync_thread_def)
  from moves_trigger [OF this, of TestsFlag InServerWait Falling] have "?r False NotCalled AtTest Falling" by (simp add: crashed_def)
  from moves_step [OF this, of NotCalled] have "?r True Saving AtTest Falling" by (simp add: crashed_def)
  from moves_cleaner [OF this, of LoopLeft] have "?r True Saving LoopLeft Falling" by (simp add: crashed_def)
  from moves_step [OF this, of Saving] have "?r True NotifiesCleaner LoopLeft Falling" by (simp add: crashed_def)
  from moves_step [OF this, of NotifiesCleaner] have "?r True JoinsCleaner LoopLeft Falling" by (simp add: crashed_def)
  from moves_step [OF this, of JoinsCleaner] have "?r True NotifiesSync LoopLeft Falling" by (simp add: crashed_def)
  from moves_step [OF this, of NotifiesSync] have "?r True JoinsSync LoopLeft Falling" by (simp add: crashed_def)
  from moves_trigger [OF this, of Falling InServerWait Blocked] have "?r True JoinsSync LoopLeft Blocked" by (simp add: crashed_def)
  then show ?thesis by (intro exI conjI) (auto simp: wakeup_lost_def)
qed

section \<open>Properties\<close>

lemma replica_can_crash:
  assumes "addr \<noteq> []"
  shows "\<exists>s. thread_moves (threads_new False False addr replicas) s \<and> crashed s"
proof -
  have "th_sync (threads_new False False addr replicas) = NullServer"
    using assms by (simp add: threads_new_def sync_start_def sync_thread_def)
  from thread_moves.moves [OF thread_moves.start thread_step.null_used [OF this]] show ?thesis
    by (intro exI conjI) (auto simp: crashed_def)
qed

text \<open>C13: Once the flag is set no run of the threads goes on for ever, and a run can stop in three places
  only: the engine is destroyed and all its threads have left; the destructor waits for a gRPC
  server whose helper missed its notification; or the process has used the null pointer of a server
  that did not start. The second can happen exactly on a replica that has an address to serve the
  primary on and whose server has started, the third exactly on such a replica whose server has not.
\<close>

theorem shutdown_ends:
  "wf {(s', s). th_shutdown s \<and> thread_step s s'} \<and>
   (\<forall>s. thread_moves (threads_new started primary addr replicas) s \<longrightarrow> (stuck s \<longleftrightarrow> all_gone s \<or> wakeup_lost s \<or> crashed s)) \<and>
   ((\<exists>s. thread_moves (threads_new started primary addr replicas) s \<and> wakeup_lost s) \<longleftrightarrow> \<not> primary \<and> addr \<noteq> [] \<and> started) \<and>
   ((\<exists>s. thread_moves (threads_new started primary addr replicas) s \<and> crashed s) \<longleftrightarrow> \<not> primary \<and> addr \<noteq> [] \<and> \<not> started)"
proof (intro conjI allI impI wf_thread_step)
  let ?s = "threads_new started primary addr replicas"
  show "stuck s \<longleftrightarrow> all_gone s \<or> wakeup_lost s \<or> crashed s" if "thread_moves ?s s" for s
    by (rule stuck_iff [OF joins.thread_moves_inv [OF that joined_new]])
  have "\<not> wakeup_lost s" if "thread_moves ?s s" "primary \<or> addr = [] \<or> \<not> started" for s
    using serverless.thread_moves_inv [OF that(1)] that(2) by (simp add: no_server_new) (simp add: no_server_def wakeup_lost_def)
  then show "(\<exists>s. thread_moves ?s s \<and> wakeup_lost s) \<longleftrightarrow> \<not> primary \<and> addr \<noteq> [] \<and> started"
    using replica_can_hang [of addr replicas] by auto
  have "null_server s = null_server ?s" if "thread_moves ?s s" for s
    by (rule nulls.thread_moves_inv [OF that refl])
  then have "\<not> crashed s" if "thread_moves ?s s" "\<not> (\<not> primary \<and> addr \<noteq> [] \<and> \<not> started)" for s
    using that unfolding null_server_new by (auto simp: null_server_def crashed_def)
  then show "(\<exists>s. thread_moves ?s s \<and> crashed s) \<longleftrightarrow> \<not> primary \<and> addr \<noteq> [] \<and> \<not> started"
    using replica_can_crash [of addr replicas] by auto
qed

lemma shutdown_ends_witness:
  "\<exists>s. thread_moves (threads_new True False ''a'' []) s \<and> stuck s \<and> th_destructor s \<noteq> EngineGone"
  using shutdown_ends [of True False "''a''" "[]"] by (auto simp: wakeup_lost_def)

text \<open>
  That helper must be between its test and its wait when the flag is set: in every other case
  each run ends with the engine destroyed.
\<close>

theorem shutdown_completes:
  assumes "thread_moves (threads_new True primary addr replicas) s" and "th_destructor s = Saving"
    and "\<forall>m. th_sync s \<noteq> ServerRuns Falling m"
    and "thread_moves s s'" and "stuck s'"
  shows "all_gone s'"
proof -
  have j: "joined s" by (rule joins.thread_moves_inv [OF assms(1) joined_new])
  then have "caught s" using assms(2,3) by (auto simp: joined_def caught_def)
  then have "caught s'" by (rule notified.thread_moves_inv [OF assms(4)])
  then have "\<not> wakeup_lost s'" by (auto simp: caught_def wakeup_lost_def)
  moreover have "\<not> null_server s'"
    using nulls.thread_moves_inv [OF assms(4), of False] nulls.thread_moves_inv [OF assms(1), of False] by (simp add: null_server_new)
  then have "\<not> crashed s'" by (simp add: null_server_def crashed_def)
  ultimately show ?thesis using assms(5) stuck_iff [OF joins.thread_moves_inv [OF assms(4) j]] by blast
qed

lemma shutdown_completes_witness:
  "\<exists>s. thread_moves (threads_new True True [] []) s \<and> th_destructor s = Saving \<and>
    (\<forall>s'. thread_moves s s' \<longrightarrow> stuck s' \<longrightarrow> all_gone s')"
proof -
  let ?s = "(threads_new True True [] [])\<lparr>th_shutdown := True, th_destructor := Saving\<rparr>"
  have r: "thread_moves (threads_new True True [] []) ?s"
    using moves_step [OF thread_moves.start, of "threads_new True True [] []" NotCalled]
    by (simp add: threads_new_def crashed_def sync_start_def sync_thread_def)
  moreover have "th_sync ?s = SyncEnded" by (simp add: threads_new_def sync_start_def sync_thread_def)
  ultimately show ?thesis using shutdown_completes [OF r] by (intro exI [of _ ?s]) simp
qed

end
