(* ===== verification/NegativeLevels.thy ===== *)
theory NegativeLevels
  imports HnswSearch InputValidator
begin

text \<open>
  An index whose \<open>ml\<close> is negative, which the validation of a table accepts: \<open>GetRandomLevel\<close>
  (hnsw_index.cc) then returns levels that are 0 or negative. A node with a negative level is
  connected on no level: the loop of an insertion starts at that level and ends above \<open>-1\<close>.
  Shown: when all levels are negative no node has a neighbour, and a search finds one record.
\<close>

text \<open>Without neighbours a search of a level is at its end where it starts.\<close>

lemma SearchLevel_isolated:
  assumes "map_of (hx_nodes h) e = Some n" and "n_neighbors n = []"
  shows "SearchLevel h q (Some e) ef l = Some (if ef = 0 then [] else [e])"
  using assms by (auto simp: SearchLevel_def emplace_def comparable_def)

definition unconnected :: "HNSWIndex \<Rightarrow> bool" where
  "unconnected h \<longleftrightarrow> (\<forall>i n. map_of (hx_nodes h) i = Some n \<longrightarrow> n_neighbors n = []) \<and>
     (case hx_entry_point h of None \<Rightarrow> True | Some e \<Rightarrow> contains (hx_nodes h) e \<and> hx_max_level h < 0)"

lemma SearchLevel_unconnected:
  "unconnected h \<Longrightarrow> contains (hx_nodes h) e \<Longrightarrow> SearchLevel h q (Some e) ef l = Some (if ef = 0 then [] else [e])"
  using SearchLevel_isolated [of h e] by (auto simp: unconnected_def contains_def)

lemma descend_unconnected:
  "unconnected h \<Longrightarrow> contains (hx_nodes h) e \<Longrightarrow> descend h v e ls = Some e"
  by (induction ls) (simp_all add: SearchLevel_unconnected)

lemma levels_below_zero: "a < 0 \<Longrightarrow> levels_down a (- 1) = []" "a < 0 \<Longrightarrow> levels_down a 0 = []"
  by (simp_all add: levels_down_def)

lemma add_node_unconnected:
  "unconnected h \<Longrightarrow> unconnected (add_node i v l h)" "contains (hx_nodes h) e \<Longrightarrow> contains (hx_nodes (add_node i v l h)) e"
  by (auto simp: unconnected_def add_node_def contains_def split: option.splits if_splits)

lemma insert_unconnected:
  assumes "unconnected h" and "\<forall>i. rl i (hc_ml (hx_config h)) < 0"
  shows "\<exists>h'. hnsw_Insert rl h i v = Some h' \<and> unconnected h' \<and> hx_config h' = hx_config h"
proof -
  let ?h = "add_node i v (rl i (hc_ml (hx_config h))) h"
  have c: "hx_config ?h = hx_config h" "hx_entry_point ?h = hx_entry_point h" "hx_max_level ?h = hx_max_level h"
    "contains (hx_nodes ?h) i" by (simp_all add: add_node_def contains_def)
  note u = add_node_unconnected(1) [OF assms(1), of i v "rl i (hc_ml (hx_config h))"]
  have neg: "rl i (hc_ml (hx_config h)) < 0" using assms(2) by blast
  show ?thesis
  proof (cases "hx_entry_point h")
    case None
    then show ?thesis using u c neg assms(1) by (auto simp: hnsw_Insert_def hnsw_InsertNoLock_def Let_def unconnected_def)
  next
    case (Some e)
    then have e: "contains (hx_nodes ?h) e" "hx_max_level h < 0"
      using assms(1) add_node_unconnected(2) by (auto simp: unconnected_def)
    have "levels_down (min (hx_max_level h) (rl i (hc_ml (hx_config h)))) (- 1) = []"
      using e(2) by (intro levels_below_zero) simp
    then show ?thesis using Some u c neg e descend_unconnected [OF u e(1)] assms(1)
      by (auto simp: hnsw_Insert_def hnsw_InsertNoLock_def Let_def unconnected_def)
  qed
qed

lemma inserts_unconnected:
  assumes "unconnected h" and "\<forall>i. rl i (hc_ml (hx_config h)) < 0"
  shows "\<exists>h'. for_each (\<lambda>(i, v) h. hnsw_Insert rl h i v) ivs h = Some h' \<and> unconnected h'"
  using for_each_invar [of "\<lambda>h'. unconnected h' \<and> hx_config h' = hx_config h" h ivs "\<lambda>(i, v) h. hnsw_Insert rl h i v"]
    assms insert_unconnected [of _ rl] by fastforce

text \<open>However many vectors are inserted, a search answers at most one of them.\<close>

theorem negative_levels_hide:
  assumes "\<forall>i. rl i (hc_ml c) < 0"
  shows "\<exists>h. for_each (\<lambda>(i, v) h. hnsw_Insert rl h i v) ivs (hnsw_new c) = Some h \<and>
    (\<exists>r. hnsw_Search h q k ef = Some r \<and> length r \<le> 1)"
proof -
  have "unconnected (hnsw_new c)" by (simp add: unconnected_def hnsw_new_def)
  then obtain h where h: "for_each (\<lambda>(i, v) h. hnsw_Insert rl h i v) ivs (hnsw_new c) = Some h" "unconnected h"
    using inserts_unconnected [of "hnsw_new c" rl ivs] assms by (auto simp: hnsw_new_def)
  have "\<exists>r. hnsw_Search h q k ef = Some r \<and> length r \<le> 1"
    using h(2) SearchLevel_unconnected [OF h(2)] levels_below_zero(2) [of "hx_max_level h"]
    by (cases "hx_entry_point h") (auto simp: hnsw_Search_def unconnected_def)
  with h(1) show ?thesis by blast
qed

text \<open>The validation asks only that \<open>ml\<close> is not zero.\<close>

lemma negative_ml_accepted:
  "ValidateCreateTable ''t'' 1 \<lparr>hc_m = 1, hc_m0 = 1, hc_ef_construction = 1, hc_ml = fneg f32_one, hc_metric = L2,
     hc_vector_dimensionality = 1\<rparr> \<lparr>fc_vector_dimensionality = 0, fc_metric = L2\<rparr> 32"
  by (simp add: ValidateCreateTable_iff hnsw_config_valid_def f32_one_def sval_def)

end
