(* ===== verification/Logging.thy ===== *)
theory Logging
  imports Engine
begin

text \<open>
  The three loggers (engine/src/logger) and the choice between them in the constructor of the
  engine, as functions from a call to what it puts out. The clock, the environment and the log
  service are arguments. No component reads a log; the other theories leave the calls out.
\<close>

section \<open>Output\<close>

datatype Level = Info | Warn | Error

text \<open>The message of log.proto, and the call's metadata.\<close>

record LogEntry =
  le_level :: string
  le_message :: string
  le_source :: string
  le_hostname :: string
  le_seconds :: int

datatype Output = Stdout string | SendLog string "(string \<times> string) list" LogEntry

datatype Logger = SilentLogger | LocalLogger | RemoteLogger string

text \<open>The time of a call: the local hour, minute and second, and the seconds since the epoch.\<close>

record Clock =
  ck_hour :: nat
  ck_minute :: nat
  ck_second :: nat
  ck_epoch :: int

section \<open>The code\<close>

definition new_logger :: "LoggerType \<Rightarrow> Logger" where
  "new_logger logger_type =
     (case logger_type of LOCAL \<Rightarrow> LocalLogger | REMOTE \<Rightarrow> RemoteLogger ''0.0.0.0:50051'' | SILENT \<Rightarrow> SilentLogger)"

fun level_name :: "Level \<Rightarrow> string" where
  "level_name Info = ''INFO''"
| "level_name Warn = ''WARNING''"
| "level_name Error = ''ERROR''"

text \<open>\<open>strftime\<close> with \<open>%H:%M:%S\<close>\<close>

definition two_digits :: "nat \<Rightarrow> string" where
  "two_digits n = [digit_char (n div 10), digit_char (n mod 10)]"

definition GetTimestamp :: "Clock \<Rightarrow> string" where
  "GetTimestamp c = ''['' @ two_digits (ck_hour c) @ '':'' @ two_digits (ck_minute c) @ '':'' @ two_digits (ck_second c) @ '']''"

definition local_line :: "Clock \<Rightarrow> Level \<Rightarrow> string \<Rightarrow> string \<Rightarrow> string" where
  "local_line c level message name =
     GetTimestamp c @ '' ['' @ level_name level @ ''] ['' @ name @ ''] [127.0.0.1] '' @ message @ [CHR 0x0A]"

definition remote_entry :: "Clock \<Rightarrow> Level \<Rightarrow> string \<Rightarrow> string \<Rightarrow> LogEntry" where
  "remote_entry c level message source = \<lparr>le_level = level_name level, le_message = message, le_source = source,
     le_hostname = ''127.0.0.1'', le_seconds = ck_epoch c\<rparr>"

definition remote_metadata :: "string option \<Rightarrow> (string \<times> string) list" where
  "remote_metadata api_key = (case api_key of None \<Rightarrow> [] | Some key \<Rightarrow> [(''authorization'', key)])"

fun log_call :: "string option \<Rightarrow> Logger \<Rightarrow> Clock \<Rightarrow> Level \<Rightarrow> string \<Rightarrow> string \<Rightarrow> Output list" where
  "log_call api_key SilentLogger c level message name = []"
| "log_call api_key LocalLogger c level message name = [Stdout (local_line c level message name)]"
| "log_call api_key (RemoteLogger address) c level message name =
     [SendLog address (remote_metadata api_key) (remote_entry c level message name)]"

section \<open>What a log tells\<close>

text \<open>A timestamp has the same length at every hour.\<close>

lemma length_GetTimestamp: "length (GetTimestamp c) = 10"
  by (simp add: GetTimestamp_def two_digits_def)

lemma level_name_inj: "level_name a = level_name b \<longleftrightarrow> a = b"
  by (cases a; cases b) simp_all

lemma level_name_append: "level_name a @ CHR '']'' # xs = level_name b @ CHR '']'' # ys \<longleftrightarrow> a = b \<and> xs = ys"
  by (cases a; cases b) simp_all

text \<open>A line gives back its level, and its message when the name of the writer is known.\<close>

lemma local_line_inj:
  "local_line c a m name = local_line c' b m' name \<longleftrightarrow> GetTimestamp c = GetTimestamp c' \<and> a = b \<and> m = m'"
  by (auto simp: local_line_def length_GetTimestamp append_eq_append_conv level_name_append)

text \<open>
  Nothing is escaped: a message with a line break can write the line of a call that was never
  made.
\<close>

lemma local_line_forged:
  "local_line c a (m @ CHR 0x0A # butlast (local_line c' b m' name')) name = local_line c a m name @ local_line c' b m' name'"
  by (simp add: local_line_def butlast_append)

end
