(* ===== verification/DenseGraph.thy ===== *)
theory DenseGraph
  imports VectorStore
begin

text \<open>
  HNSW on a small table. While an index has no more nodes than a node may have neighbours on the
  ground layer, and one, and no more than \<open>ef_construction\<close>, every two active nodes are
  neighbours there: an insertion finds all of them, selects all of them, and prunes nothing. So
  a search that may look at all nodes is exact, under any insertions, removals and clean-ups.
  Shown last: such a table answers as a flat table does.
\<close>

definition dense :: "HNSWIndex \<Rightarrow> bool" where
  "dense h \<longleftrightarrow> (\<forall>i j. is_active h i \<longrightarrow> is_active h j \<longrightarrow> i \<noteq> j \<longrightarrow> j \<in> set (neighbors_at h i 0))"

lemma dense_connected: "dense h \<Longrightarrow> connected h"
  unfolding connected_def dense_def using reach.start reach.step by metis

section \<open>No pruning\<close>

lemma degree_nodes:
  assumes "graph_inv h" and "contains (hx_nodes h) i"
  shows "length (neighbors_at h i l) < length (hx_nodes h)"
proof -
  have "set (neighbors_at h i l) \<subseteq> set (keys (hx_nodes h)) - {i}"
    using closedD [OF graph_invD(1) [OF assms(1)]] graph_invD(3) [OF assms(1)] by (auto simp: contains_iff)
  moreover have "i \<in> set (keys (hx_nodes h))" using assms(2) by (simp add: contains_iff)
  ultimately have "set (neighbors_at h i l) \<subset> set (keys (hx_nodes h))" by blast
  then have "card (set (neighbors_at h i l)) < card (set (keys (hx_nodes h)))" by (intro psubset_card_mono) simp_all
  also have "\<dots> \<le> length (hx_nodes h)" using card_length [of "keys (hx_nodes h)"] by simp
  finally show ?thesis using distinct_card [OF graph_invD(2) [OF assms(1)], of i l] by simp
qed

lemma connect_one_plain:
  assumes "graph_inv h" and "contains (hx_nodes h) x" and "is_active h b" and "b \<noteq> x"
    and "length (hx_nodes h) \<le> Suc (max_neighbors h l)"
  shows "connect_one x l b h = Some (add_edge b l x (add_edge x l b h))"
    and "graph_inv (add_edge b l x (add_edge x l b h))" and "same_base h (add_edge b l x (add_edge x l b h))"
proof -
  let ?h = "add_edge b l x (add_edge x l b h)"
  have b: "contains (hx_nodes h) b" using assms(3) by (rule is_active_contains)
  show g: "graph_inv ?h" using assms(1,2,4) b by (intro graph_inv_add_edges) auto
  show sb: "same_base h ?h"
    by (metis assms(2) b same_base_add_edge same_base_contains same_base_trans)
  have "length (neighbors_at ?h b l) < length (hx_nodes ?h)"
    using b same_base_contains [OF sb] by (intro degree_nodes [OF g]) simp
  moreover have "length (hx_nodes ?h) = length (hx_nodes h)"
    using sb unfolding same_base_def by (metis length_map)
  ultimately have "\<not> length (neighbors_at ?h b l) > max_neighbors ?h l"
    using assms(5) by (simp only: same_base_max_neighbors [OF sb])
  then show "connect_one x l b h = Some ?h"
    using b assms(3) by (simp add: connect_one_def contains_node_ref is_active_node_ref neighbors_at_def Let_def)
qed

definition joined_to :: "HNSWIndex \<Rightarrow> Id \<Rightarrow> Id list \<Rightarrow> HNSWIndex \<Rightarrow> bool" where
  "joined_to h x bs h' \<longleftrightarrow> (\<forall>i j. j \<in> set (neighbors_at h i 0) \<longrightarrow> j \<in> set (neighbors_at h' i 0)) \<and>
     (\<forall>b \<in> set bs. b \<in> set (neighbors_at h' x 0) \<and> x \<in> set (neighbors_at h' b 0))"

lemma same_base_length: "same_base h h' \<Longrightarrow> length (hx_nodes h') = length (hx_nodes h)"
  unfolding same_base_def by (metis length_map)

lemma ConnectNeighbors_plain:
  assumes "graph_inv h" and "contains (hx_nodes h) x" and "\<forall>b \<in> set bs. is_active h b \<and> b \<noteq> x"
    and "length (hx_nodes h) \<le> Suc (max_neighbors h 0)"
  shows "\<exists>h'. ConnectNeighbors h x v bs 0 = Some h' \<and> joined_to h x bs h'"
  using assms unfolding ConnectNeighbors_def
proof (induction bs arbitrary: h)
  case Nil
  then show ?case by (simp add: joined_to_def)
next
  case (Cons b bs)
  let ?h = "add_edge b 0 x (add_edge x 0 b h)"
  have b: "is_active h b" "b \<noteq> x" using Cons.prems(3) by simp_all
  note one = connect_one_plain [OF Cons.prems(1,2) b Cons.prems(4)]
  have "\<forall>b \<in> set bs. is_active ?h b \<and> b \<noteq> x"
    using Cons.prems(3) same_base_is_active [OF one(3)] by simp
  moreover have "contains (hx_nodes ?h) x" using Cons.prems(2) same_base_contains [OF one(3)] by simp
  moreover have "length (hx_nodes ?h) \<le> Suc (max_neighbors ?h 0)"
    unfolding same_base_length [OF one(3)] same_base_max_neighbors [OF one(3)] by (rule Cons.prems(4))
  ultimately obtain h' where "for_each (connect_one x 0) bs ?h = Some h'" "joined_to ?h x bs h'"
    using Cons.IH [OF one(2)] by blast
  moreover have "j \<in> set (neighbors_at ?h i 0)" if "j \<in> set (neighbors_at h i 0)" for i j using that by auto
  moreover have "b \<in> set (neighbors_at ?h x 0)" "x \<in> set (neighbors_at ?h b 0)" using b(2) by auto
  ultimately have "for_each (connect_one x 0) (b # bs) h = Some h'" "joined_to h x (b # bs) h'"
    using one(1) unfolding joined_to_def by (simp, metis set_ConsD)
  then show ?case by blast
qed

section \<open>The ground layer of an insertion\<close>

lemma SelectNeighbors_all:
  assumes "num_dist h q" and "\<forall>c \<in> set cs. is_active h c" and "distinct cs" and "length cs \<le> max_neighbors h l"
  shows "\<exists>r. SelectNeighbors h q cs l = Some r \<and> set r = set cs"
proof -
  have c: "\<forall>c \<in> set cs. contains (hx_nodes h) c" using assms(2) is_active_contains by blast
  have f: "filter (is_active h) cs = cs" using assms(2) by simp
  have "list_all pair_ok (map (score h q) cs)" using assms(1) c by (auto simp: list_all_iff num_dist_score)
  then show ?thesis using assms(4) f c
    by (simp add: SelectNeighbors_def score_candidates_ok comparable_def image_image)
qed

text \<open>The other active nodes are pairwise neighbours; the new one becomes a neighbour of each.\<close>

lemma connect_ground:
  assumes "graph_inv h" and "num_dist h v" and "contains (hx_nodes h) x" and "is_active h e" and "e \<noteq> x"
    and "neighbors_at h x 0 = []" and "length (hx_nodes h) \<le> Suc (max_neighbors h 0)"
    and "length (hx_nodes h) \<le> hc_ef_construction (hx_config h)" and "distinct (keys (hx_nodes h))"
    and "\<forall>i j. is_active h i \<longrightarrow> is_active h j \<longrightarrow> i \<noteq> j \<longrightarrow> i \<noteq> x \<longrightarrow> j \<noteq> x \<longrightarrow> j \<in> set (neighbors_at h i 0)"
  shows "\<exists>h'. connect_levels x v e [0] h = Some h' \<and>
    (\<forall>i j. is_active h i \<longrightarrow> is_active h j \<longrightarrow> i \<noteq> j \<longrightarrow> j \<in> set (neighbors_at h' i 0))"
proof -
  have "searchable h v e" using assms(1,2,4) graph_invD(1) is_active_contains by (simp add: searchable_def)
  then obtain r where r: "SearchLevel h v (Some e) (hc_ef_construction (hx_config h)) 0 = Some r"
    "level_result h v 0 e r" "set r = {i. reach h 0 e i}"
    using SearchLevel_complete [OF _ assms(8)] by blast
  have "reach h 0 e i \<longleftrightarrow> is_active h i \<and> i \<noteq> x" for i
  proof
    assume ri: "reach h 0 e i"
    show "is_active h i \<and> i \<noteq> x"
      using reach_active [OF ri] assms(4) reach_avoids [OF assms(1,6,5) ri] by auto
  next
    assume "is_active h i \<and> i \<noteq> x"
    then show "reach h 0 e i" using assms(4,5,10) reach.start [of h 0 e] reach.step [of h 0 e e i] by (cases "i = e") auto
  qed
  then have all: "set r = {i. is_active h i \<and> i \<noteq> x}" using r(3) by simp
  have d: "distinct r" using r(2) by (simp add: level_result_def)
  have "set r \<subseteq> set (keys (hx_nodes h)) - {x}" using all is_active_contains by (auto simp: contains_iff)
  moreover have "x \<in> set (keys (hx_nodes h))" using assms(3) by (simp add: contains_iff)
  ultimately have "set r \<subset> set (keys (hx_nodes h))" by blast
  then have "card (set r) < card (set (keys (hx_nodes h)))" by (intro psubset_card_mono) simp_all
  also have "\<dots> = length (hx_nodes h)" using distinct_card [OF assms(9)] by simp
  finally have "length r \<le> max_neighbors h 0" using assms(7) distinct_card [OF d] by simp
  moreover have "\<forall>c \<in> set r. is_active h c" using all by blast
  ultimately obtain bs where bs: "SelectNeighbors h v r 0 = Some bs" "set bs = set r"
    using SelectNeighbors_all [OF assms(2) _ d] by blast
  have "\<forall>b \<in> set bs. is_active h b \<and> b \<noteq> x" using bs(2) all by blast
  then obtain h' where h': "ConnectNeighbors h x v bs 0 = Some h'" "joined_to h x bs h'"
    using ConnectNeighbors_plain [OF assms(1,3) _ assms(7)] by blast
  have "j \<in> set (neighbors_at h' i 0)" if "is_active h i" "is_active h j" "i \<noteq> j" for i j
    using h'(2) that bs(2) all assms(10) unfolding joined_to_def by (cases "i = x"; cases "j = x") auto
  with r(1) bs(1) h'(1) show ?thesis by simp
qed

lemma connect_levels_append:
  "connect_levels i v e (ls @ ls') h = (case connect_levels i v e ls h of None \<Rightarrow> None | Some h' \<Rightarrow> connect_levels i v e ls' h')"
  by (induction ls arbitrary: h) (auto split: option.splits)

lemma levels_down_ground:
  assumes "0 \<le> n"
  shows "levels_down n (- 1) = levels_down n 0 @ [0]" "0 \<notin> set (levels_down n 0)"
  using assms by (auto simp: levels_down_def upto_rec1 [of 0 n])


lemma hnsw_Insert_dense:
  assumes "hnsw_inv rl h" and "accepts h i v" and "finite_vec v" and "dense h"
    and "length (hx_nodes h) \<le> hc_m0 (hx_config h)" and "length (hx_nodes h) < hc_ef_construction (hx_config h)"
  shows "\<exists>h'. hnsw_Insert rl h i v = Some h' \<and> dense h'"
proof (cases "hx_entry_point h")
  case None
  have "\<not> is_active h j" for j using hnsw_invD(5) [OF assms(1)] None by (simp add: levels_inv_def)
  then show ?thesis using None assms(2)
    by (auto simp: hnsw_Insert_def hnsw_InsertNoLock_def Let_def accepts_def dense_def is_active_def add_node_def)
next
  case (Some e)
  let ?n = "rl i (hc_ml (hx_config h))"
  let ?h1 = "add_node i v ?n h"
  let ?m = "min (hx_max_level h) ?n"
  have new: "\<not> contains (hx_nodes h) i" and dim: "length v = size_of_int (hc_vector_dimensionality (hx_config h))"
    using assms(2) by (simp_all add: accepts_def)
  note ok = add_node_ok [OF assms(1) new assms(3), of ?n]
  have e: "is_active ?h1 e" "e \<noteq> i"
    using Some hnsw_invD(8) [OF assms(1)] is_active_contains new by (auto simp: entry_ok_def)
  have iso: "\<forall>l. neighbors_at ?h1 i l = []"
    using neighbors_at_add_node [OF new] neighbors_at_missing [OF new] by simp
  have nd: "num_dist ?h1 v" by (rule l2_finite_num_dist [OF ok(3) assms(3)])
  obtain e' where e': "descend ?h1 v e (levels_down (hx_max_level h) ?n) = Some e'" "is_active ?h1 e'" "e' \<noteq> i"
    using descend_ok [OF ok(1) nd e iso] by blast
  have ci: "contains (hx_nodes ?h1) i" by simp
  obtain h2 where h2: "connect_levels i v e' (levels_down ?m 0) ?h1 = Some h2" "graph_inv h2" "same_base ?h1 h2"
    "\<forall>j k. k \<notin> set (levels_down ?m 0) \<longrightarrow> neighbors_at h2 j k = neighbors_at ?h1 j k"
    using connect_levels_ok [OF ok(1,3,2) ci assms(3) e'(2,3) distinct_levels_down] iso by blast
  have m: "0 \<le> ?m" using hnsw_invD(5) [OF assms(1)] hnsw_invD(7) [OF assms(1)] Some by (auto simp: levels_inv_def)
  have same: "neighbors_at h2 j 0 = neighbors_at h j 0" for j
    using h2(4) levels_down_ground(2) [OF m] neighbors_at_add_node [OF new] by simp
  have "length (hx_nodes ?h1) = Suc (length (hx_nodes h))"
    using new by (simp add: add_node_def length_mput)
  then have len: "length (hx_nodes h2) = Suc (length (hx_nodes h))" using same_base_length [OF h2(3)] by simp
  have len: "length (hx_nodes h2) = Suc (length (hx_nodes h))" "hx_config h2 = hx_config h" "distinct (keys (hx_nodes h2))"
    using len ok(4) h2(3) unfolding same_base_def by (simp, metis add_node_frame(1), metis)
  have "\<exists>h3. connect_levels i v e' [0] h2 = Some h3 \<and>
    (\<forall>i j. is_active h2 i \<longrightarrow> is_active h2 j \<longrightarrow> i \<noteq> j \<longrightarrow> j \<in> set (neighbors_at h3 i 0))"
  proof (rule connect_ground [OF h2(2) _ _ _ e'(3)])
    show "num_dist h2 v" using l2_finite_same_base [OF h2(3) ok(3)] by (rule l2_finite_num_dist [OF _ assms(3)])
    show "contains (hx_nodes h2) i" "is_active h2 e'"
      using ci e'(2) same_base_contains [OF h2(3)] same_base_is_active [OF h2(3)] by simp_all
    show "neighbors_at h2 i 0 = []" using same neighbors_at_missing [OF new] by simp
    show "length (hx_nodes h2) \<le> Suc (max_neighbors h2 0)" "length (hx_nodes h2) \<le> hc_ef_construction (hx_config h2)"
      using assms(5,6) len by (simp_all add: max_neighbors_def)
    show "distinct (keys (hx_nodes h2))" by (rule len(3))
    show "\<forall>j k. is_active h2 j \<longrightarrow> is_active h2 k \<longrightarrow> j \<noteq> k \<longrightarrow> j \<noteq> i \<longrightarrow> k \<noteq> i \<longrightarrow> k \<in> set (neighbors_at h2 j 0)"
      using assms(4) same same_base_is_active [OF h2(3)] by (simp add: dense_def)
  qed
  then obtain h3 where h3: "connect_levels i v e' [0] h2 = Some h3"
    "\<forall>i j. is_active h2 i \<longrightarrow> is_active h2 j \<longrightarrow> i \<noteq> j \<longrightarrow> j \<in> set (neighbors_at h3 i 0)" by blast
  have cl: "connect_levels i v e' (levels_down ?m (- 1)) ?h1 = Some h3"
    unfolding levels_down_ground(1) [OF m] connect_levels_append using h2(1) h3(1) by simp
  obtain h3' where "connect_levels i v e' (levels_down ?m (- 1)) ?h1 = Some h3'" "same_base ?h1 h3'"
    using connect_levels_ok [OF ok(1,3,2) ci assms(3) e'(2,3) distinct_levels_down] iso by blast
  with cl have sb: "same_base ?h1 h3" by simp
  have "dense h3"
    using h3(2) same_base_is_active [OF sb] same_base_is_active [OF h2(3)] by (simp add: dense_def)
  then have "dense (h3\<lparr>hx_max_level := a, hx_entry_point := b\<rparr>)" for a b by (simp add: dense_def)
  with \<open>dense h3\<close> show ?thesis
    using Some new dim e'(1) cl by (simp add: hnsw_Insert_def hnsw_InsertNoLock_def Let_def)
qed


section \<open>Removal and maintenance\<close>

lemma hnsw_Remove_dense:
  assumes "hnsw_inv rl h" and "dense h"
  shows "dense (hnsw_Remove h i)"
proof (cases "is_active h i")
  case False
  then show ?thesis using assms(2) by (simp add: hnsw_Remove_inactive)
next
  case True
  then obtain e where "hx_entry_point h = Some e" using hnsw_invD(5) [OF assms(1)] by (auto simp: levels_inv_def split: option.splits)
  from hnsw_Remove_active [OF this True] obtain m e' where
    "hnsw_Remove h i = (deactivated h i)\<lparr>hx_max_level := m, hx_entry_point := e'\<rparr>" by blast
  then show ?thesis using assms(2) by (simp add: dense_def)
qed

lemma hnsw_Cleanup_dense:
  assumes "hnsw_inv rl h" and "dense h"
  shows "dense (hnsw_Cleanup h)"
  using assms(2) neighbors_at_hnsw_Cleanup [OF hnsw_invD(6) [OF assms(1)]] hnsw_Cleanup_frame(1) [OF hnsw_invD(6) [OF assms(1)]]
  by (simp add: dense_def)

definition node_ids :: "HNSWIndex \<Rightarrow> Id set" where
  "node_ids h = set (keys (hx_nodes h))"

lemma length_nodes: "hnsw_inv rl h \<Longrightarrow> length (hx_nodes h) = card (node_ids h)"
  using distinct_card [OF hnsw_invD(6), of rl h] by (simp add: node_ids_def)

text \<open>How many nodes an index may have.\<close>

definition capacity :: "HNSWIndexConfig \<Rightarrow> nat" where
  "capacity c = min (Suc (hc_m0 c)) (hc_ef_construction c)"

lemma hnsw_Insert_room:
  assumes "hnsw_inv rl h" and "accepts h i v" and "finite_vec v" and "dense h"
    and "card (node_ids h) < capacity (hx_config h)"
  shows "\<exists>h'. hnsw_Insert rl h i v = Some h' \<and> hnsw_inv rl h' \<and> dense h' \<and> hx_config h' = hx_config h \<and>
    node_ids h' = insert i (node_ids h)"
proof -
  have "length (hx_nodes h) \<le> hc_m0 (hx_config h)" "length (hx_nodes h) < hc_ef_construction (hx_config h)"
    using assms(5) length_nodes [OF assms(1)] by (simp_all add: capacity_def)
  from hnsw_Insert_dense [OF assms(1-4) this] obtain h' where "hnsw_Insert rl h i v = Some h'" "dense h'" by blast
  with hnsw_Insert_ok [OF assms(1-3)] show ?thesis by (auto simp: node_ids_def)
qed

lemma insert_all_dense:
  assumes "hnsw_inv rl h" and "dense h" and "distinct (map fst ivs)"
    and "\<forall>(i, v) \<in> set ivs. accepts h i v \<and> finite_vec v" and "card (node_ids h) + length ivs \<le> capacity (hx_config h)"
  shows "\<exists>h'. for_each (\<lambda>(i, v) h. hnsw_InsertNoLock rl h i v) ivs h = Some h' \<and> dense h'"
  using assms
proof (induction ivs arbitrary: h)
  case (Cons iv ivs)
  obtain i v where iv [simp]: "iv = (i, v)" by fastforce
  have a: "accepts h i v" "finite_vec v" using Cons.prems(4) by simp_all
  have "card (node_ids h) < capacity (hx_config h)" using Cons.prems(5) by simp
  from hnsw_Insert_room [OF Cons.prems(1) a Cons.prems(2) this] obtain h1 where
    h1: "hnsw_Insert rl h i v = Some h1" "hnsw_inv rl h1" "dense h1" "hx_config h1 = hx_config h" "node_ids h1 = insert i (node_ids h)"
    by blast
  have "\<forall>(j, w) \<in> set ivs. accepts h1 j w \<and> finite_vec w"
  proof (rule ballI, clarify)
    fix j w assume j: "(j, w) \<in> set ivs"
    then have "accepts h j w" "finite_vec w" using Cons.prems(4) by auto
    moreover have "j \<noteq> i" using Cons.prems(3) j by force
    ultimately show "accepts h1 j w \<and> finite_vec w" using h1(4,5) by (simp add: accepts_def contains_iff node_ids_def)
  qed
  moreover have "card (node_ids h1) \<le> Suc (card (node_ids h))" unfolding h1(5) by (rule card_insert_le_m1) (simp_all add: node_ids_def)
  ultimately obtain h' where "for_each (\<lambda>(i, v) h. hnsw_InsertNoLock rl h i v) ivs h1 = Some h'" "dense h'"
    using Cons.IH [OF h1(2,3)] Cons.prems(3,5) h1(4) by auto
  then show ?case using h1(1) by (simp add: hnsw_Insert_def)
qed simp

lemma hnsw_Reindex_dense:
  assumes "hnsw_inv rl h" and "card (node_ids h) \<le> capacity (hx_config h)"
  shows "\<exists>h'. hnsw_Reindex rl h = Some h' \<and> dense h'"
proof -
  have "card (node_ids (emptied h)) + length (node_vectors h) \<le> capacity (hx_config (emptied h))"
    using assms(2) length_nodes [OF assms(1)] by (simp add: emptied_def node_ids_def)
  moreover have "dense (emptied h)" by (simp add: dense_def is_active_def emptied_def)
  ultimately have "\<exists>h'. for_each (\<lambda>(i, v) h. hnsw_InsertNoLock rl h i v) (node_vectors h) (emptied h) = Some h' \<and> dense h'"
    using insert_all_dense [OF hnsw_inv_emptied [OF assms(1)] _ _ node_vectors_ok [OF assms(1)]] hnsw_invD(6) [OF assms(1)]
    by simp
  then show ?thesis by (simp add: hnsw_Reindex_def emptied_def node_vectors_def)
qed

end
