(* ===== verification/DenseTables.thy ===== *)
theory DenseTables
  imports DenseGraph Samples
begin

text \<open>
  Two tables with the same records, one over an HNSW index, one over a flat index: as long as the
  first is small (\<open>DenseGraph\<close>), both answer every operation alike. The condition is one on the
  sequence of operations: at most \<open>capacity\<close> records, removed ones included until the next
  clean-up; searches whose \<open>ef\<close> is at least that many; no id inserted again before a clean-up.
\<close>

section \<open>An exact search\<close>

lemma hnsw_knn_nearest:
  assumes "hnsw_inv rl h" and "hnsw_vec h = map_option d_vector \<circ> map_of m" and "distinct (keys m)"
  shows "hnsw_knn h q k = take k (sort_key (dist_key m L2 q) (keys m))"
proof -
  let ?ids = "sort_key (dist_key m L2 q) (keys m)"
  have met: "hc_metric (hx_config h) = L2" using hnsw_invD(2) [OF assms(1)] by (simp add: l2_finite_def)
  have act: "is_active h i \<longleftrightarrow> i \<in> set (keys m)" for i
  proof -
    have "is_active h i \<longleftrightarrow> hnsw_vec h i \<noteq> None" by (simp add: hnsw_vec_def)
    also have "\<dots> \<longleftrightarrow> contains m i" unfolding assms(2) by (simp add: contains_def)
    finally show ?thesis by (simp add: contains_iff)
  qed
  have key: "dkey (score h q i) = dist_key m L2 q i" if i: "i \<in> set (keys m)" for i
  proof -
    obtain d where d: "map_of m i = Some d" using i unfolding contains_iff [symmetric] contains_map_of by blast
    then have "hnsw_vec h i = Some (d_vector d)" unfolding assms(2) by simp
    then have "n_vector (node_ref h i) = d_vector d" by (simp add: hnsw_vec_def split: if_splits)
    with d met show ?thesis by (simp add: dist_key_def score_def dist_to_def hnsw_ComputeDistance_def)
  qed
  have "?ids = map snd (sort_key dkey (map (score h q) (active_ids h)))"
  proof (rule level_result_sort)
    show "distinct ?ids" using assms(3) by simp
    have "map (\<lambda>i. dkey (score h q i)) ?ids = map (dist_key m L2 q) ?ids" using key by simp
    then show "sorted (map (\<lambda>i. dkey (score h q i)) ?ids)" by (simp only: sorted_sort_key)
    show "set ?ids = set (active_ids h)" using act by auto
    show "distinct (active_ids h)" using hnsw_invD(6) [OF assms(1)] by (simp add: active_ids_def)
  qed
  then show ?thesis by (simp add: hnsw_knn_def)
qed

lemma store_Search_dense:
  assumes "store_inv rl s" and "in_sync s" and "vs_index s = HnswIx h" and "dense h" and "card (node_ids h) \<le> p"
    and "finite_vec q" and "length q = size_of_int (vs_vector_dimensionality s)"
  shows "store_Search s q k p = Some (nearest (vs_store s) L2 q k)"
proof -
  have i: "hnsw_inv rl h" "hnsw_vec h = map_option d_vector \<circ> map_of (vs_store s)" "distinct (keys (vs_store s))"
    using assms(1-3) by (simp_all add: store_inv_def in_sync_def store_vec_def)
  note knn = hnsw_knn_nearest [OF i]
  have "hnsw_Search h q k p = Some (hnsw_knn h q k)"
  proof (cases "hx_entry_point h")
    case None
    then have "active_ids h = []" using hnsw_invD(5) [OF i(1)] by (auto simp: active_ids_def levels_inv_def)
    with None show ?thesis by (simp add: hnsw_Search_def hnsw_knn_def)
  next
    case (Some e)
    show ?thesis
      by (rule hnsw_Search_exact)
        (use hnsw_invD [OF i(1)] assms(4-6) Some length_nodes [OF i(1)] dense_connected in auto)
  qed
  moreover have "set (hnsw_knn h q k) \<subseteq> dom (map_of (vs_store s))"
    unfolding knn using set_take_subset [of k "sort_key (dist_key (vs_store s) L2 q) (keys (vs_store s))"]
    by (simp add: dom_map_of_conv_image_fst)
  ultimately show ?thesis using assms(3,7) by (simp add: store_Search_def nearest_def knn map_filter_found)
qed

section \<open>Sequences of operations\<close>

datatype StoreOp =
    StInsert Id vector string
  | StRemove Id
  | StCleanup bool
  | StSearch vector nat nat

datatype StoreAnswer = Flag bool | Found "Data list"

fun store_run :: "level_fun \<Rightarrow> StoreOp list \<Rightarrow> VectorStore \<Rightarrow> StoreAnswer list option" where
  "store_run rl [] s = Some []"
| "store_run rl (StInsert i v content # ops) s =
     (case store_Insert rl s i v content of
        None \<Rightarrow> None | Some (ok, s') \<Rightarrow> map_option (Cons (Flag ok)) (store_run rl ops s'))"
| "store_run rl (StRemove i # ops) s =
     map_option (Cons (Flag (fst (store_Remove s i)))) (store_run rl ops (snd (store_Remove s i)))"
| "store_run rl (StCleanup reindex # ops) s =
     (case store_Cleanup rl s reindex of None \<Rightarrow> None | Some s' \<Rightarrow> store_run rl ops s')"
| "store_run rl (StSearch q k p # ops) s =
     (case store_Search s q k p of None \<Rightarrow> None | Some r \<Rightarrow> map_option (Cons (Found r)) (store_run rl ops s))"

text \<open>The ids of the table and the removed ones that the index still has; \<open>cap\<close> bounds both together.\<close>

fun gentle :: "nat \<Rightarrow> nat \<Rightarrow> StoreOp list \<Rightarrow> Id set \<Rightarrow> Id set \<Rightarrow> bool" where
  "gentle cap dim [] live dead \<longleftrightarrow> True"
| "gentle cap dim (StInsert i v content # ops) live dead \<longleftrightarrow> finite_vec v \<and>
     (if i \<in> live \<or> length v \<noteq> dim then gentle cap dim ops live dead
      else i \<notin> dead \<and> card (live \<union> dead) < cap \<and> gentle cap dim ops (insert i live) dead)"
| "gentle cap dim (StRemove i # ops) live dead \<longleftrightarrow>
     gentle cap dim ops (live - {i}) (if i \<in> live then insert i dead else dead)"
| "gentle cap dim (StCleanup reindex # ops) live dead \<longleftrightarrow> gentle cap dim ops live {}"
| "gentle cap dim (StSearch q k p # ops) live dead \<longleftrightarrow>
     finite_vec q \<and> card (live \<union> dead) \<le> p \<and> gentle cap dim ops live dead"

definition twins :: "level_fun \<Rightarrow> nat \<Rightarrow> Id set \<Rightarrow> VectorStore \<Rightarrow> VectorStore \<Rightarrow> bool" where
  "twins rl cap dead s f \<longleftrightarrow> store_inv rl s \<and> store_inv rl f \<and> flat_store f \<and> in_sync s \<and> vs_store f = vs_store s \<and>
     vs_vector_dimensionality f = vs_vector_dimensionality s \<and>
     (\<exists>h. vs_index s = HnswIx h \<and> dense h \<and> node_ids h = set (keys (vs_store s)) \<union> dead \<and>
        card (node_ids h) \<le> cap \<and> cap \<le> capacity (hx_config h))"

lemma twinsE:
  assumes "twins rl cap dead s f"
  obtains h where "store_inv rl s" "store_inv rl f" "flat_store f" "in_sync s" "vs_store f = vs_store s"
    "vs_vector_dimensionality f = vs_vector_dimensionality s" "vs_index s = HnswIx h" "dense h" "hnsw_inv rl h"
    "node_ids h = set (keys (vs_store s)) \<union> dead" "card (node_ids h) \<le> cap" "cap \<le> capacity (hx_config h)"
  using assms by (fastforce simp: twins_def store_inv_def)

lemma flat_store_step:
  "flat_store f \<Longrightarrow> store_Insert rl f i v c = Some (ok, f') \<Longrightarrow> flat_store f'"
  "flat_store f \<Longrightarrow> flat_store (snd (store_Remove f i))"
  "flat_store f \<Longrightarrow> store_Cleanup rl f reindex = Some f' \<Longrightarrow> flat_store f'"
  by (auto simp: flat_store_def store_Insert_def store_Remove_def store_Cleanup_def Let_def split: if_splits)

section \<open>Twins stay twins\<close>

lemma twins_Insert:
  assumes "twins rl cap dead s f" and "finite_vec v" and "i \<notin> set (keys (vs_store s))"
    and "length v = size_of_int (vs_vector_dimensionality s)" and "i \<notin> dead"
    and "card (set (keys (vs_store s)) \<union> dead) < cap"
  shows "\<exists>s' f'. store_Insert rl s i v c = Some (True, s') \<and> store_Insert rl f i v c = Some (True, f') \<and>
    twins rl cap dead s' f' \<and> set (keys (vs_store s')) = insert i (set (keys (vs_store s))) \<and>
    vs_vector_dimensionality s' = vs_vector_dimensionality s"
  using assms(1)
proof (cases rule: twinsE)
  case (1 h)
  have new: "\<not> contains (vs_store s) i" "\<not> contains (vs_store f) i" using assms(3) 1(5) by (simp_all add: contains_iff)
  have "hnsw_dim h = length v" using 1(1,7) assms(4) by (simp add: store_inv_def)
  moreover have fresh: "i \<notin> node_ids h" using assms(3,5) 1(10) by blast
  ultimately have a: "accepts h i v" by (simp add: accepts_def hnsw_dim_def node_ids_def contains_iff)
  have "card (node_ids h) < capacity (hx_config h)" using assms(6) 1(10,12) by simp
  from hnsw_Insert_room [OF 1(9) a assms(2) 1(8) this] obtain h' where
    h': "hnsw_Insert rl h i v = Some h'" "dense h'" "hx_config h' = hx_config h" "node_ids h' = insert i (node_ids h)" by blast
  obtain s' where s': "store_Insert rl s i v c = Some (True, s')" "store_inv rl s'"
    "vs_store s' = mput i \<lparr>d_id = i, d_vector = v, d_content = c\<rparr> (vs_store s)"
    "vs_vector_dimensionality s' = vs_vector_dimensionality s" "in_sync s'"
    using store_Insert_ok [OF 1(1) assms(2) new(1) assms(4), of c] 1(4,7) fresh
    by (auto simp: hnsw_fresh_def contains_iff node_ids_def)
  have len: "length v = size_of_int (vs_vector_dimensionality f)" using assms(4) 1(6) by simp
  obtain f' where f': "store_Insert rl f i v c = Some (True, f')" "store_inv rl f'"
    "vs_store f' = mput i \<lparr>d_id = i, d_vector = v, d_content = c\<rparr> (vs_store f)"
    "vs_vector_dimensionality f' = vs_vector_dimensionality f"
    using store_Insert_ok [OF 1(2) assms(2) new(2) len, of c] by blast
  have "vs_index s' = HnswIx h'" using s'(1) 1(7) h'(1) new(1) assms(4) by (auto simp: store_Insert_def)
  moreover have "node_ids h' = set (keys (vs_store s')) \<union> dead" using h'(4) 1(10) s'(3) by simp
  moreover have "card (node_ids h') \<le> cap"
    using card_insert_le_m1 [of cap "node_ids h" i] assms(6) 1(10) h'(4) by (cases cap) (auto simp: node_ids_def card_insert_if)
  ultimately have "twins rl cap dead s' f'"
    using s' f' h'(2,3) 1(5,6,12) flat_store_step(1) [OF 1(3) f'(1)] by (simp add: twins_def)
  then show ?thesis using s' f'(1) by simp
qed

lemma twins_Remove:
  assumes "twins rl cap dead s f"
  shows "fst (store_Remove f i) = fst (store_Remove s i) \<and>
    twins rl cap (if i \<in> set (keys (vs_store s)) then insert i dead else dead) (snd (store_Remove s i)) (snd (store_Remove f i)) \<and>
    set (keys (vs_store (snd (store_Remove s i)))) = set (keys (vs_store s)) - {i} \<and>
    vs_vector_dimensionality (snd (store_Remove s i)) = vs_vector_dimensionality s"
  using assms
proof (cases rule: twinsE)
  case (1 h)
  note rs = store_Remove_ok [OF 1(1), of i] and rf = store_Remove_ok [OF 1(2), of i]
  define h' where "h' = (if contains (vs_store s) i then hnsw_Remove h i else h)"
  have ix: "vs_index (snd (store_Remove s i)) = HnswIx h'" using 1(7) by (simp add: store_Remove_def h'_def)
  have "node_ids (hnsw_Remove h i) = node_ids h" using hnsw_Remove_ok [OF 1(9), of i] by (simp only: node_ids_def)
  then have "node_ids h' = node_ids h" "hx_config h' = hx_config h" "dense h'"
    using hnsw_Remove_ok [OF 1(9), of i] hnsw_Remove_dense [OF 1(9,8)] 1(8) by (simp_all add: h'_def)
  moreover have "set (keys (vs_store s)) \<union> dead =
      (set (keys (vs_store s)) - {i}) \<union> (if i \<in> set (keys (vs_store s)) then insert i dead else dead)" by auto
  ultimately show ?thesis
    using rs rf 1 ix flat_store_step(2) [OF 1(3), of i] by (simp add: twins_def)
qed

lemma twins_Cleanup:
  assumes "twins rl cap dead s f"
  shows "\<exists>s' f'. store_Cleanup rl s reindex = Some s' \<and> store_Cleanup rl f reindex = Some f' \<and>
    twins rl cap {} s' f' \<and> vs_store s' = vs_store s \<and> vs_vector_dimensionality s' = vs_vector_dimensionality s"
  using assms
proof (cases rule: twinsE)
  case (1 h)
  obtain s' where s': "store_Cleanup rl s reindex = Some s'" "store_inv rl s'" "vs_store s' = vs_store s"
    "vs_vector_dimensionality s' = vs_vector_dimensionality s" "in_sync s'"
    using store_Cleanup_ok [OF 1(1), of reindex] 1(4) by auto
  obtain f' where f': "store_Cleanup rl f reindex = Some f'" "store_inv rl f'" "vs_store f' = vs_store f"
    "vs_vector_dimensionality f' = vs_vector_dimensionality f"
    using store_Cleanup_ok [OF 1(2), of reindex] by blast
  obtain h' where h': "hnsw_maintain rl h reindex = Some h'" "hnsw_inv rl h'" "hx_config h' = hx_config h"
    "\<forall>j. is_active h' j = is_active h j" "\<forall>j. contains (hx_nodes h') j = is_active h j"
    using hnsw_maintain_ok [OF 1(9), of reindex] by blast
  have ix: "vs_index s' = HnswIx h'" using s'(1) 1(7) h'(1) by (auto simp: store_Cleanup_alt index_maintain_def hnsw_maintain_def split: if_splits)
  have act: "is_active h j \<longleftrightarrow> j \<in> set (keys (vs_store s))" for j
  proof -
    have "hnsw_vec h = store_vec s" using 1(4,7) by (simp add: in_sync_def)
    then have "is_active h j \<longleftrightarrow> store_vec s j \<noteq> None" by (metis hnsw_vec_def option.distinct(1))
    then show ?thesis by (simp add: store_vec_None contains_iff)
  qed
  have mem: "j \<in> node_ids g \<longleftrightarrow> contains (hx_nodes g) j" for j g by (simp only: node_ids_def contains_iff)
  have ids: "node_ids h' = set (keys (vs_store s'))" "node_ids (hnsw_Cleanup h) \<subseteq> node_ids h"
    using h'(5) contains_hnsw_Cleanup [OF hnsw_invD(6) [OF 1(9)]] is_active_contains unfolding s'(3) set_eq_iff subset_iff mem
    by (simp_all only: act [symmetric]) simp_all
  have cfg: "hx_config (hnsw_Cleanup h) = hx_config h" using hnsw_Cleanup_frame(2) [OF hnsw_invD(6) [OF 1(9)]] .
  have le: "card (node_ids (hnsw_Cleanup h)) \<le> cap" "card (node_ids h') \<le> cap"
    using card_mono [OF _ ids(2)] card_mono [of "node_ids h" "node_ids h'"] 1(10,11) ids(1) s'(3) by (simp_all add: node_ids_def)
  have "dense h'"
  proof (cases reindex)
    case True
    have "card (node_ids (hnsw_Cleanup h)) \<le> capacity (hx_config (hnsw_Cleanup h))" using le(1) 1(12) cfg by simp
    from hnsw_Reindex_dense [OF hnsw_Cleanup_ok [OF 1(9)] this] True h'(1) show ?thesis by (auto simp: hnsw_maintain_def)
  next
    case False
    then show ?thesis using hnsw_Cleanup_dense [OF 1(9,8)] h'(1) by (simp add: hnsw_maintain_def)
  qed
  then have "twins rl cap {} s' f'"
    using s' f' h'(3) 1(5,6,12) ix ids(1) le(2) flat_store_step(3) [OF 1(3) f'(1)] by (simp add: twins_def)
  then show ?thesis using s' f'(1) by blast
qed

lemma twins_Search:
  assumes "twins rl cap dead s f" and "finite_vec q" and "card (set (keys (vs_store s)) \<union> dead) \<le> p"
  shows "\<exists>r. store_Search s q k p = Some r \<and> store_Search f q k p = Some r"
  using assms(1)
proof (cases rule: twinsE)
  case (1 h)
  show ?thesis
  proof (cases "length q = size_of_int (vs_vector_dimensionality s)")
    case True
    have "length q = size_of_int (vs_vector_dimensionality f)" using True 1(6) by simp
    from store_Search_flat [OF 1(2,3) assms(2) this, of k p] store_Search_dense [OF 1(1,4,7,8) _ assms(2) True, of p k]
    show ?thesis using assms(3) 1(5,10) by simp
  next
    case False
    then show ?thesis using 1(6) by (simp add: store_Search_def)
  qed
qed

lemma twins_run:
  assumes "twins rl cap dead s f" and "gentle cap (size_of_int (vs_vector_dimensionality s)) ops (set (keys (vs_store s))) dead"
  shows "\<exists>as. store_run rl ops s = Some as \<and> store_run rl ops f = Some as"
  using assms
proof (induction ops arbitrary: s f dead)
  case (Cons op ops)
  show ?case
  proof (cases op)
    case (StInsert i v content)
    show ?thesis
    proof (cases "i \<in> set (keys (vs_store s)) \<or> length v \<noteq> size_of_int (vs_vector_dimensionality s)")
      case True
      have "vs_store f = vs_store s" "vs_vector_dimensionality f = vs_vector_dimensionality s"
        using Cons.prems(1) by (simp_all add: twins_def)
      then have "store_Insert rl s i v content = Some (False, s)" "store_Insert rl f i v content = Some (False, f)"
        using True by (simp_all add: store_Insert_rejected contains_iff)
      moreover have "gentle cap (size_of_int (vs_vector_dimensionality s)) ops (set (keys (vs_store s))) dead"
        using Cons.prems(2) StInsert True by auto
      ultimately show ?thesis using Cons.IH [OF Cons.prems(1)] StInsert by auto
    next
      case False
      then have g: "finite_vec v" "i \<notin> dead" "card (set (keys (vs_store s)) \<union> dead) < cap"
        "gentle cap (size_of_int (vs_vector_dimensionality s)) ops (insert i (set (keys (vs_store s)))) dead"
        using Cons.prems(2) StInsert by auto
      obtain s' f' where "store_Insert rl s i v content = Some (True, s')" "store_Insert rl f i v content = Some (True, f')"
        "twins rl cap dead s' f'" "set (keys (vs_store s')) = insert i (set (keys (vs_store s)))"
        "vs_vector_dimensionality s' = vs_vector_dimensionality s"
        using twins_Insert [OF Cons.prems(1) g(1) _ _ g(2,3)] False by blast
      with Cons.IH [of dead s' f'] g(4) StInsert show ?thesis by auto
    qed
  next
    case (StRemove i)
    let ?dead = "if i \<in> set (keys (vs_store s)) then insert i dead else dead"
    note r = twins_Remove [OF Cons.prems(1), of i]
    have "gentle cap (size_of_int (vs_vector_dimensionality s)) ops (set (keys (vs_store s)) - {i}) ?dead"
      using Cons.prems(2) StRemove by simp
    with r Cons.IH [of ?dead "snd (store_Remove s i)" "snd (store_Remove f i)"] StRemove show ?thesis by auto
  next
    case (StCleanup reindex)
    obtain s' f' where "store_Cleanup rl s reindex = Some s'" "store_Cleanup rl f reindex = Some f'" "twins rl cap {} s' f'"
      "vs_store s' = vs_store s" "vs_vector_dimensionality s' = vs_vector_dimensionality s"
      using twins_Cleanup [OF Cons.prems(1)] by blast
    with Cons.IH [of "{}" s' f'] Cons.prems(2) StCleanup show ?thesis by auto
  next
    case (StSearch q k p)
    then have g: "finite_vec q" "card (set (keys (vs_store s)) \<union> dead) \<le> p"
      "gentle cap (size_of_int (vs_vector_dimensionality s)) ops (set (keys (vs_store s))) dead"
      using Cons.prems(2) by auto
    with twins_Search [OF Cons.prems(1) g(1,2), of k] Cons.IH [OF Cons.prems(1) g(3)] StSearch show ?thesis by auto
  qed
qed simp

lemma twins_new:
  assumes "hc_metric hc = L2" and "fc_metric fc = L2" and "hc_vector_dimensionality hc = dim" and "fc_vector_dimensionality fc = dim"
    and "\<forall>i. 0 \<le> rl i (hc_ml hc)"
  shows "twins rl (capacity hc) {} (store_new HNSW (HnswIx (hnsw_new hc)) dim) (store_new FLAT (FlatIx (flat_new fc)) dim)"
proof -
  have "hnsw_inv rl (hnsw_new hc)" using assms(1,5) by (rule hnsw_inv_new)
  moreover have "flat_inv (flat_new fc)" by (rule flat_inv_new [OF assms(2)])
  moreover have "hnsw_vec (hnsw_new hc) = Map.empty" "flat_vec (flat_new fc) = Map.empty"
    by (simp_all add: hnsw_vec_def flat_vec_def is_active_def hnsw_new_def flat_new_def fun_eq_iff)
  moreover have "dense (hnsw_new hc)" "node_ids (hnsw_new hc) = {}" "hx_config (hnsw_new hc) = hc" "fi_config (flat_new fc) = fc"
    by (simp_all add: dense_def is_active_def node_ids_def hnsw_new_def flat_new_def)
  ultimately show ?thesis using assms(3,4)
    by (simp add: twins_def store_new_def store_inv_def in_sync_def flat_store_def store_vec_def hnsw_dim_def flat_dim_def)
qed

section \<open>Properties\<close>

text \<open>C17: A new HNSW table answers every operation as a new flat table does, searches exactly included,
  through any insertions, removals, clean-ups and searches in which it never has more nodes than
  \<open>m0 + 1\<close> and \<open>ef_construction\<close>, searches look at all of them, and no id comes back before a clean-up.\<close>

theorem small_table_exact:
  assumes "hc_metric hc = L2" and "fc_metric fc = L2" and "hc_vector_dimensionality hc = dim" and "fc_vector_dimensionality fc = dim"
    and "\<forall>i. 0 \<le> rl i (hc_ml hc)" and "gentle (capacity hc) (size_of_int dim) ops {} {}"
  shows "\<exists>as. store_run rl ops (store_new HNSW (HnswIx (hnsw_new hc)) dim) = Some as \<and>
    store_run rl ops (store_new FLAT (FlatIx (flat_new fc)) dim) = Some as"
  using twins_run [OF twins_new [where rl = rl, OF assms(1-5)], of ops] assms(6) by (simp add: store_new_def)

lemma small_table_exact_witness:
  "\<exists>as. store_run ground_level [StInsert 1 [f32_one] ''a'', StInsert 2 [f32_zero] ''b'', StRemove 1, StCleanup True,
      StInsert 1 [f32_zero] ''c'', StSearch [f32_one] 2 2] (store_new HNSW (HnswIx (hnsw_new sample_hc)) 1) = Some as \<and>
    store_run ground_level [StInsert 1 [f32_one] ''a'', StInsert 2 [f32_zero] ''b'', StRemove 1, StCleanup True,
      StInsert 1 [f32_zero] ''c'', StSearch [f32_one] 2 2] (store_new FLAT (FlatIx (flat_new sample_fc)) 1) = Some as"
  by (rule small_table_exact) (simp_all add: sample_hc_def sample_fc_def ground_level_def capacity_def card_insert_if)

end
