(* ===== verification/DropSession.thy ===== *)
theory DropSession
  imports ServerProperties Shutdown
begin

text \<open>
  Sessions in which clients drop tables too. \<open>DropTable\<close> replicates before it deletes, and a
  replication parses the log of every table: a line that cannot be read would leave variables
  unset. So the log of every table must stay readable, which every request keeps that writes
  floats with six digits and contents without a line break.
\<close>

section \<open>Readable logs\<close>

definition readable :: "level_fun \<Rightarrow> Engine \<Rightarrow> string \<Rightarrow> bool" where
  "readable rl e t \<longleftrightarrow> (\<exists>s. loaded rl e t s) \<and>
     (\<exists>k es. map_of (en_persistence_manager_map e) t = Some \<lparr>pm_table_name = t, pm_stored_index_type = k\<rparr> \<and>
        terminated (wal_of (en_disk e) t) \<and> wal_entries k t (wal_of (en_disk e) t) = Some es)"

lemma readable_named: "readable rl e t \<Longrightarrow> pm_named e t"
  by (auto simp: readable_def pm_named_def)

lemma readable_wrote:
  assumes "readable rl e t" and "wrote t e s l entry e' s'" and "loaded rl e' t s'"
    and "newline \<notin> set l" and "\<And>k. parse_line k t l = Some entry"
  shows "readable rl e' t"
proof -
  obtain k es where r: "map_of (en_persistence_manager_map e) t = Some \<lparr>pm_table_name = t, pm_stored_index_type = k\<rparr>"
    "terminated (wal_of (en_disk e) t)" "wal_entries k t (wal_of (en_disk e) t) = Some es"
    using assms(1) by (auto simp: readable_def)
  note w = assms(2) [unfolded wrote_def]
  then have "wal_of (en_disk e') t = wal_of (en_disk e) t @ l @ [newline]" by (simp add: wal_of_def)
  then have "terminated (wal_of (en_disk e') t)" "wal_entries k t (wal_of (en_disk e') t) = Some (es @ [entry])"
    using wal_entries_line [OF r(2) assms(4) r(3) assms(5)] by simp_all
  with r(1) w assms(3) show ?thesis by (auto simp: readable_def)
qed

lemma readable_same:
  assumes "readable rl e t" and "loaded rl e' t s'"
    and "map_of (en_persistence_manager_map e') t = map_of (en_persistence_manager_map e) t"
    and "files_of (en_disk e') t = files_of (en_disk e) t"
  shows "readable rl e' t"
  using assms by (auto simp: readable_def wal_of_def)

interpretation reading: table_invariant rl "readable rl" for rl
proof
  fix e t assume "readable rl e t"
  then show "\<exists>s. loaded rl e t s" "pm_named e t" by (simp add: readable_def, rule readable_named)
next
  fix e t s l entry e' s'
  assume "readable rl e t" "wrote t e s l entry e' s'" "loaded rl e' t s'" "newline \<notin> set l" "\<And>k. parse_line k t l = Some entry"
  then show "readable rl e' t" by (rule readable_wrote)
next
  fix e t s e' s'
  assume "readable rl e t" "loaded rl e' t s'"
    "map_of (en_persistence_manager_map e') t = map_of (en_persistence_manager_map e) t"
    "files_of (en_disk e') t = files_of (en_disk e) t"
  then show "readable rl e' t" by (rule readable_same)
qed

text \<open>One table: its log can be read, or the table does not exist and has no log.\<close>

definition clean_log :: "level_fun \<Rightarrow> Engine \<Rightarrow> string \<Rightarrow> bool" where
  "clean_log rl e t \<longleftrightarrow> (if contains (en_store_map e) t then readable rl e t else wal_of (en_disk e) t = [])"

definition orderly :: "level_fun \<Rightarrow> Engine \<Rightarrow> bool" where
  "orderly rl e \<longleftrightarrow> distinct (keys (en_persistence_manager_map e)) \<and> (\<forall>t. clean_log rl e t)"

lemma clean_log_other:
  assumes "clean_log rl e u" and "only_table t e e'" and "u \<noteq> t"
  shows "clean_log rl e' u"
proof -
  have "table_view e' u = table_view e u" using assms(2,3) by (simp add: only_table_def)
  then have "contains (en_store_map e') u = contains (en_store_map e) u" "files_of (en_disk e') u = files_of (en_disk e) u"
    by (simp_all add: table_view_def contains_def)
  with assms(1) reading.other_step [OF _ assms(2,3), of rl] show ?thesis by (auto simp: clean_log_def wal_of_def split: if_splits)
qed

lemma orderly_step:
  assumes "orderly rl e" and "only_table t e e'" and "readable rl e' t" and "distinct (keys (en_persistence_manager_map e'))"
  shows "orderly rl e'"
proof -
  have "clean_log rl e' u" for u
  proof (cases "u = t")
    case True
    have "contains (en_store_map e') t" using assms(3) by (auto simp: readable_def loaded_def contains_def)
    with True assms(3) show ?thesis by (simp add: clean_log_def)
  next
    case False
    with assms(1,2) show ?thesis using clean_log_other [of rl e u t e'] by (simp add: orderly_def)
  qed
  with assms(4) show ?thesis by (simp add: orderly_def)
qed

lemma orderly_same:
  assumes "orderly rl e" and "en_store_map e' = en_store_map e" and "en_persistence_manager_map e' = en_persistence_manager_map e"
    and "contains (en_stats_manager_map e') = contains (en_stats_manager_map e)" and "en_disk e' = en_disk e"
  shows "orderly rl e'"
proof -
  have "readable rl e' t = readable rl e t" for t using assms(2-5) by (simp add: readable_def loaded_def)
  with assms show ?thesis by (simp add: orderly_def clean_log_def)
qed

text \<open>Then the logs can be sent.\<close>

lemma orderly_logs:
  assumes "orderly rl e" and "engine_inv rl e"
  shows "logs_readable (en_persistence_manager_map e) (en_disk e)"
  unfolding logs_readable_def
proof (intro ballI, clarify)
  fix t pm assume "(t, pm) \<in> set (en_persistence_manager_map e)"
  then have pm: "map_of (en_persistence_manager_map e) t = Some pm" using assms(1) by (simp add: orderly_def)
  have "contains (en_store_map e) t"
    using assms(2) by (cases rule: engine_inv_cases [of rl e t]) (use pm in \<open>simp_all add: contains_def\<close>)
  then have "readable rl e t" using assms(1) by (auto simp: orderly_def clean_log_def split: if_splits)
  with pm show "\<exists>es. wal_entries (pm_stored_index_type pm) (pm_table_name pm) (wal_of (en_disk e) (pm_table_name pm)) = Some es"
    by (auto simp: readable_def)
qed


section \<open>Dropping a table\<close>

lemma dropping_orderly:
  assumes "orderly rl e" and "engine_inv rl e" and "contains (en_store_map e) t"
  shows "orderly rl (dropping t e)"
proof -
  have r: "readable rl e t" using assms(1,3) by (auto simp: orderly_def clean_log_def)
  then obtain s k es where l: "loaded rl e t s" and
    k: "map_of (en_persistence_manager_map e) t = Some \<lparr>pm_table_name = t, pm_stored_index_type = k\<rparr>"
      "terminated (wal_of (en_disk e) t)" "wal_entries k t (wal_of (en_disk e) t) = Some es"
    by (auto simp: readable_def)
  let ?e = "dropping t e"
  have wal: "files_of (en_disk ?e) t = (files_of (en_disk e) t)\<lparr>tf_wal := Some (wal_of (en_disk e) t @ ''drop'' @ [newline])\<rparr>"
    using k(1) by (simp add: dropping_def pm_AppendDrop_def wal_AppendDrop_def files_of_set_wal)
  then have "wal_of (en_disk ?e) t = wal_of (en_disk e) t @ ''drop'' @ [newline]" by (simp add: wal_of_def)
  moreover have "newline \<notin> set ''drop''" by simp
  ultimately have "terminated (wal_of (en_disk ?e) t)" "wal_entries k t (wal_of (en_disk ?e) t) \<noteq> None"
    using wal_entries_line [OF k(2) _ k(3) parse_drop_line] by (simp_all del: append.simps append_Cons)
  moreover have "loaded rl ?e t s" using l by (simp add: loaded_def dropping_def)
  ultimately have "readable rl ?e t" using k(1) by (auto simp: readable_def dropping_def)
  moreover have "only_table t e ?e"
    using k(1) wal by (simp add: only_table_def table_view_def) (simp add: dropping_def pm_AppendDrop_def files_of_set_wal_other)
  moreover have "distinct (keys (en_persistence_manager_map ?e))" using assms(1) by (simp add: orderly_def dropping_def)
  ultimately show ?thesis using orderly_step [OF assms(1)] by blast
qed

text \<open>What is left of the engine.\<close>

definition dropped :: "string \<Rightarrow> Engine \<Rightarrow> Engine \<Rightarrow> bool" where
  "dropped t e e' \<longleftrightarrow> en_store_map e' = merase t (en_store_map e) \<and> en_cache_map e' = merase t (en_cache_map e) \<and>
     en_persistence_manager_map e' = merase t (en_persistence_manager_map e) \<and>
     en_metadata e' = en_metadata e \<and>
     (distinct (keys (en_disk e)) \<longrightarrow> distinct (keys (en_disk e'))) \<and> files_of (en_disk e') t = no_files \<and>
     (\<forall>u. u \<noteq> t \<longrightarrow> files_of (en_disk e') u = files_of (en_disk e) u)"

lemma DropTable_orderly:
  assumes "orderly rl e" and "serving rl e" and "t \<noteq> []" and "contains (en_store_map e) t"
  shows "\<exists>e' w'. engine_DropTable net t (e, w) = Some (True, e', w') \<and> orderly rl e' \<and> serving rl e' \<and>
    db_of e' = (db_of e)(t := None) \<and> dropped t e e'"
proof -
  have inv: "engine_inv rl e" and p: "md_primary (en_metadata e)" "\<not> en_shutdown e" using assms(2) by (simp_all add: serving_def)
  have ex: "table_exists e t"
    using inv by (cases rule: engine_inv_cases [of rl e t]) (use assms(4) in \<open>simp_all add: table_exists_def contains_def\<close>)
  have "logs_ok (en_persistence_manager_map (dropping t e)) (en_disk (dropping t e))"
    by (rule logs_readable_ok [OF orderly_logs [OF dropping_orderly [OF assms(1) inv assms(4)] dropping_inv(1) [OF inv ex]]])
  then have "logs_ok (en_persistence_manager_map e) (en_disk (dropping t e))" by (simp add: dropping_def)
  from engine_DropTable_dropped [OF inv p _ ex this, of net w] assms(3) obtain e' w' where
    e': "engine_DropTable net t (e, w) = Some (True, e', w')" "engine_inv rl e'" "files_of (en_disk e') t = no_files"
    "en_metadata e' = en_metadata e" "en_shutdown e' = en_shutdown e" "en_store_map e' = merase t (en_store_map e)"
    "en_persistence_manager_map e' = merase t (en_persistence_manager_map e)" "en_cache_map e' = merase t (en_cache_map e)"
    "distinct (keys (en_disk e)) \<longrightarrow> distinct (keys (en_disk e'))"
    "\<forall>u. u \<noteq> t \<longrightarrow> files_of (en_disk e') u = files_of (en_disk e) u \<and>
       contains (en_stats_manager_map e') u = contains (en_stats_manager_map e) u"
    by (auto simp: ValidateDropTable_def)
  have "clean_log rl e' u" for u
  proof (cases "u = t")
    case True
    then show ?thesis using e'(3,6) by (simp add: clean_log_def wal_of_def no_files_def)
  next
    case False
    then have "readable rl e' u = readable rl e u" "wal_of (en_disk e') u = wal_of (en_disk e) u"
      using e'(6,7,10) by (simp_all add: readable_def loaded_def wal_of_def)
    moreover have "clean_log rl e u" using assms(1) by (simp add: orderly_def)
    ultimately show ?thesis using False e'(6) by (simp add: clean_log_def)
  qed
  then have "orderly rl e'" using assms(1) e'(7) by (simp add: orderly_def)
  moreover have "dropped t e e'" using e'(3,4,6-10) by (simp add: dropped_def)
  moreover have "db_of e' = (db_of e)(t := None)" using e'(6) by (simp add: db_of_def fun_eq_iff)
  ultimately show ?thesis using e'(1,2,4,5) p by (intro exI [of _ e'] exI [of _ w']) (simp add: serving_def)
qed

section \<open>The other requests\<close>

lemma insert_steps_managers:
  "insert_steps rl t xs e = Some (oks, e') \<Longrightarrow> en_persistence_manager_map e' = en_persistence_manager_map e"
proof (induction xs arbitrary: e oks)
  case (Cons x xs)
  obtain i v content where x: "x = (i, v, content)" by (cases x)
  obtain ok e1 oks' where s: "insert_step rl t i v content e = Some (ok, e1)" "insert_steps rl t xs e1 = Some (oks', e')"
    using Cons.prems by (auto simp: x split: option.splits)
  have "en_persistence_manager_map e1 = en_persistence_manager_map e"
    using s(1) by (auto simp: insert_step_def Let_def split: option.splits prod.splits if_splits)
  with Cons.IH [OF s(2)] show ?case by simp
qed simp

lemma remove_steps_managers:
  "remove_steps t is e = (oks, e') \<Longrightarrow> en_persistence_manager_map e' = en_persistence_manager_map e"
proof (induction "is" arbitrary: e oks)
  case (Cons i "is")
  obtain ok e1 oks' where s: "remove_step t i e = (ok, e1)" "remove_steps t is e1 = (oks', e')"
    using Cons.prems by (auto split: prod.splits)
  have "en_persistence_manager_map e1 = en_persistence_manager_map e"
    using s(1) by (auto simp: remove_step_def Let_def split: prod.splits if_splits)
  with Cons.IH [OF s(2)] show ?case by simp
qed simp

lemma run_op_managers:
  assumes "run_op rl (OpBatchInsert t xs) e = Some e' \<or> run_op rl (OpBatchRemove t is) e = Some e' \<or>
    run_op rl (OpSearch t q k p l) e = Some e'"
  shows "en_persistence_manager_map e' = en_persistence_manager_map e"
  using assms insert_steps_managers [of rl t xs e] remove_steps_managers [of t "is" e]
  by (auto simp: engine_BatchInsert_def engine_BatchRemove_def engine_Search_def invalidate_cache_alt
      split: if_splits prod.splits option.splits)

lemma run_op_orderly:
  assumes "orderly rl e" and "op_fine rl x" and "\<not> creates x" and "run_op rl x e = Some e'"
    and "en_persistence_manager_map e' = en_persistence_manager_map e"
  shows "orderly rl e'"
proof (cases "contains (en_store_map e) (op_table x)")
  case True
  then have "readable rl e (op_table x)" using assms(1) by (auto simp: orderly_def clean_log_def split: if_splits)
  from reading.run_op_inv [OF this refl assms(2,3)] assms(4) have "readable rl e' (op_table x)" "only_table (op_table x) e e'"
    by auto
  with orderly_step [OF assms(1)] assms(1,5) show ?thesis by (simp add: orderly_def)
next
  case False
  with run_op_absent [OF False assms(3), of rl] assms(1,4) show ?thesis by simp
qed

lemma CreateTable_orderly:
  assumes "orderly rl e" and "good_config rl dim hc fc"
    and "ValidateCreateTable t dim hc fc (unat cs) \<Longrightarrow> config_valid t (dim, hc, fc, cs)"
  shows "orderly rl (snd (engine_CreateTable e t dim hc fc cs))"
proof (cases "md_primary (en_metadata e) \<and> \<not> en_shutdown e \<and> ValidateCreateTable t dim hc fc (unat cs) \<and> table_absent e t")
  case False
  with assms(1) engine_CreateTable_refused [OF False] show ?thesis by simp
next
  case True
  let ?c = "(dim, hc, fc, cs)"
  obtain e' s where e': "engine_CreateTable e t dim hc fc cs = (True, e')" "only_table t e e'" "loaded rl e' t s"
    "map_of (en_persistence_manager_map e') t = Some \<lparr>pm_table_name = t, pm_stored_index_type = config_kind ?c\<rparr>"
    "wal_of (en_disk e') t = wal_of (en_disk e) t @ config_line ?c @ [newline]"
    using engine_CreateTable_added [OF _ _ _ _ assms(2)] True by blast
  have "wal_of (en_disk e) t = []" using assms(1) True by (auto simp: orderly_def clean_log_def table_absent_def split: if_splits)
  moreover obtain entry where "parse_line (config_kind ?c) t (config_line ?c) = Some entry"
    using assms(3) True by (auto simp: config_valid_def)
  ultimately have "terminated (wal_of (en_disk e') t)" "wal_entries (config_kind ?c) t (wal_of (en_disk e') t) = Some [entry]"
    using wal_entries_line [OF terminated_append(2) config_line_no_newline wal_entries_Nil, of "config_kind ?c" t ?c entry]
      terminated_append(1) [of "[]" "config_line ?c"] e'(5) by simp_all
  with e'(3,4) have "readable rl e' t" by (auto simp: readable_def)
  with e'(1,2) show ?thesis
    using orderly_step [OF assms(1)] engine_CreateTable_maps(2) [of e t dim hc fc cs] assms(1) by (simp add: orderly_def)
qed

lemma engine_BatchSearch_orderly:
  assumes "orderly rl e" and "engine_BatchSearch H e ls t qs = Some (rs, e')"
  shows "orderly rl e'"
proof -
  have "en_store_map e' = en_store_map e \<and> en_persistence_manager_map e' = en_persistence_manager_map e \<and>
    en_stats_manager_map e' = en_stats_manager_map e \<and> en_disk e' = en_disk e"
    using assms(2) by (auto simp: engine_BatchSearch_def run_batch_def Let_def split: if_splits prod.splits option.splits)
  with orderly_same [OF assms(1)] show ?thesis by simp
qed

section \<open>Every request of a session\<close>

text \<open>
  The requests of a session with dropped tables: those of \<open>admissible\<close> whose log lines can be read
  back, and every \<open>DropTable\<close>.
\<close>

definition loggable :: "level_fun \<Rightarrow> Request \<Rightarrow> bool" where
  "loggable rl r \<longleftrightarrow> (case r of
       ReqInsert r \<Rightarrow> list_all wal_stable (ins_vector r) \<and> newline \<notin> set (ins_content r)
     | ReqBatchInsert r \<Rightarrow> (\<forall>(i, v, content) \<in> set (records r). list_all wal_stable v \<and> newline \<notin> set content)
     | ReqCreateTable r' \<Rightarrow> admissible rl r \<and> - (2 ^ 31) \<le> ct_vector_dimensionality r' \<and> ct_vector_dimensionality r' < 2 ^ 31 \<and>
         (case ct_index_config r' of RequestHnsw m m0 ef_construction ml dm \<Rightarrow> wal_stable ml | _ \<Rightarrow> True)
     | ReqDropTable t \<Rightarrow> True
     | _ \<Rightarrow> admissible rl r)"

lemma loggable_admissible:
  assumes "loggable rl r" and "\<And>t. r \<noteq> ReqDropTable t"
  shows "admissible rl r"
  using assms by (cases r) (auto simp: loggable_def admissible_def wal_stable_finite)

lemma batch_insert_orderly:
  assumes "orderly rl e" and "engine_BatchInsert rl e t xs = Some (flags, e')"
    and "\<forall>(i, v, content) \<in> set xs. list_all wal_stable v \<and> newline \<notin> set content"
  shows "orderly rl e'"
  using run_op_orderly [OF assms(1), of "OpBatchInsert t xs" e'] run_op_managers [of rl t xs e e' "[]"] assms(2,3)
  by (simp add: creates_def)

lemma batch_remove_orderly:
  assumes "orderly rl e" and "engine_BatchRemove e t is = (flags, e')"
  shows "orderly rl e'"
  using run_op_orderly [OF assms(1), of "OpBatchRemove t is" e'] run_op_managers [of rl t "[]" e e' "is"] assms(2)
  by (simp add: creates_def)

lemma search_orderly:
  assumes "orderly rl e" and "engine_Search e l t q k p = Some (ds, e')" and "finite_vec q"
  shows "orderly rl e'"
  using run_op_orderly [OF assms(1), of "OpSearch t q k p l" e'] run_op_managers [of rl t "[]" e e' "[]" q k p l] assms(2,3)
  by (simp add: creates_def)

lemma request_config_valid:
  assumes "loggable rl (ReqCreateTable r)" and "request_configs r = Inr (hc, fc)"
    and v: "ValidateCreateTable (ct_name r) (ct_vector_dimensionality r) hc fc (unat (ct_cache_size r))"
  shows "config_valid (ct_name r) (ct_vector_dimensionality r, hc, fc, ct_cache_size r)"
proof -
  have u64_bound: "unat x < 18446744073709551616" for x :: u64 using unsigned_less [where 'a = nat, of x] by simp
  show ?thesis
  proof (cases "wants_hnsw hc")
    case True
    show ?thesis by (rule config_valid_hnsw [OF v True]) (use assms(1,2) True in
      \<open>auto simp: loggable_def request_configs_def Let_def wants_hnsw_def default_hnsw_config_def u64_bound
        split: RequestConfig.splits if_splits\<close>)
  next
    case False
    show ?thesis by (rule config_valid_flat [OF v False]) (use assms(1,2) in
      \<open>auto simp: loggable_def request_configs_def Let_def default_flat_config_def split: RequestConfig.splits if_splits\<close>)
  qed
qed

lemma create_orderly:
  assumes "orderly rl e" and "loggable rl (ReqCreateTable r)" and "server_CreateTable r e = (a, b, e')"
  shows "orderly rl e'"
proof (cases "request_configs r")
  case (Inl message)
  with assms(1,3) show ?thesis by (simp add: server_CreateTable_def)
next
  case (Inr configs)
  obtain hc fc where c: "request_configs r = Inr (hc, fc)" using Inr by (cases configs) simp
  have "admissible rl (ReqCreateTable r)" using assms(2) by (simp add: loggable_def)
  from CreateTable_orderly [OF assms(1) request_configs_good(1) [OF c this] request_config_valid [OF assms(2) c]] assms(3) c
  show ?thesis by (simp add: server_CreateTable_def Let_def split: prod.splits)
qed

lemma serve_orderly:
  assumes "orderly rl e" and "loggable rl r" and "\<And>t. r \<noteq> ReqDropTable t"
    and "serve rl H net l ls r (e, w) = Some (status, response, e', w')"
  shows "orderly rl e'"
proof (cases r)
  case (ReqInsert x)
  with assms batch_insert_orderly [OF assms(1), of "ins_table x" "[(ins_id x, ins_vector x, ins_content x)]"]
  show ?thesis by (auto simp: serve_def server_Insert_def loggable_def engine_Insert_batch split: if_splits)
next
  case (ReqRemove x)
  with assms batch_remove_orderly [OF assms(1), of "rem_table x" "[rem_id x]"]
  show ?thesis by (auto simp: serve_def server_Remove_def engine_Remove_batch split: if_splits prod.splits)
next
  case (ReqBatchInsert x)
  with assms batch_insert_orderly [OF assms(1), of "bi_table x" "records x"]
  show ?thesis by (auto simp: serve_def server_BatchInsert_def loggable_def records_def split: if_splits)
next
  case (ReqBatchRemove x)
  with assms batch_remove_orderly [OF assms(1), of "br_table x" "br_id x"]
  show ?thesis by (auto simp: serve_def server_BatchRemove_def split: if_splits prod.splits)
next
  case (ReqSearch x)
  with assms search_orderly [OF assms(1), of l "sea_table x" "qu_query x"]
  show ?thesis by (auto simp: serve_def server_Search_def loggable_def admissible_def split: if_splits)
next
  case (ReqBatchSearch x)
  with assms engine_BatchSearch_orderly [OF assms(1)]
  show ?thesis by (auto simp: serve_def server_BatchSearch_def split: if_splits)
next
  case (ReqCreateTable x)
  with assms create_orderly [OF assms(1), of x] show ?thesis by (cases "server_CreateTable x e") (auto simp: serve_def)
next
  case (ReqDropTable t)
  with assms(3) show ?thesis by blast
next
  case (ReqStats t)
  with assms(1,4) show ?thesis by (cases "server_Stats t e") (simp add: serve_def)
next
  case (ReqMetrics t)
  with assms(1,4) show ?thesis by (cases "server_Metrics t e") (simp add: serve_def)
qed (use assms(1,4) in \<open>simp_all add: serve_def server_ListTables_def server_HealthCheck_def\<close>)

lemma serve_drop:
  fixes net :: "'w Net" and w :: 'w
  assumes "orderly rl e" and "serving rl e"
  shows "\<exists>a e' w'. serve rl H net l ls (ReqDropTable t) (e, w) = Some (fst a, snd a, e', w') \<and>
    serves rl (ReqDropTable t) e a e' \<and> orderly rl e' \<and> (e' = e \<or> dropped t e e')"
proof (cases "t \<noteq> [] \<and> contains (en_store_map e) t")
  case True
  then obtain e' w' where e': "engine_DropTable net t (e, w) = Some (True, e', w')" "orderly rl e'" "serving rl e'"
    "db_of e' = (db_of e)(t := None)" "dropped t e e'" using DropTable_orderly [OF assms, of t net w] by auto
  have "db_of e t \<noteq> None" using True by (auto simp: db_of_def contains_def)
  with e' True show ?thesis
    by (intro exI [of _ "(StatusOK, RespSuccessful True)"] exI [of _ e'] exI [of _ w'])
      (simp add: serve_def server_DropTable_def serves_def)
next
  case False
  let ?a = "if t = [] then (INVALID_ARGUMENT ''missing name'', RespNone) else (StatusOK, RespSuccessful False)"
  have "t = [] \<or> db_of e t = None" using False by (auto simp: db_of_def contains_def split: option.splits)
  moreover have "\<not> table_exists e t" if "t \<noteq> []" using that False by (simp add: table_exists_def)
  ultimately have "serve rl H net l ls (ReqDropTable t) (e, w) = Some (fst ?a, snd ?a, e, w)" "serves rl (ReqDropTable t) e ?a e"
    using assms(2) by (auto simp: serve_def server_DropTable_def engine_DropTable_def serves_def)
  with assms(1) show ?thesis by blast
qed

lemma dropped_caches:
  assumes "caches_right H Q e" and "dropped t e e'"
  shows "caches_right H Q e'"
  by (rule caches_right_one [OF assms(1) order.refl, where t = t]) (use assms(2) in \<open>auto simp: dropped_def\<close>)

lemma session_step:
  fixes net :: "'w Net" and w :: 'w
  assumes "orderly rl e" and "serving rl e" and "caches_right H Q e" and "loggable rl r"
  shows "\<exists>a e' w'. serve rl H net l ls r (e, w) = Some (fst a, snd a, e', w') \<and> serves rl r e a e' \<and> orderly rl e' \<and>
    right_answer H Q r (db_of e) a \<and> caches_right H (asked_by r \<union> Q) e'"
proof (cases "\<exists>t. r = ReqDropTable t")
  case True
  then obtain t where r: "r = ReqDropTable t" by blast
  from serve_drop [OF assms(1,2), of H net l ls t w] obtain a e' w' where
    s: "serve rl H net l ls r (e, w) = Some (fst a, snd a, e', w')" "serves rl r e a e'" "orderly rl e'" "e' = e \<or> dropped t e e'"
    unfolding r by blast
  moreover have "caches_right H Q e'" using s(4) assms(3) dropped_caches by blast
  moreover have "right_answer H Q r (db_of e) a" using s(2) by (simp add: r right_answer_def serves_def)
  ultimately show ?thesis by (intro exI [of _ a] exI [of _ e'] exI [of _ w']) (simp add: r)
next
  case False
  then have n: "r \<noteq> ReqDropTable t" for t by blast
  note adm = loggable_admissible [OF assms(4) n]
  from serve_step [OF assms(2) adm, of H net l ls w] obtain status response e' where
    e': "serve rl H net l ls r (e, w) = Some (status, response, e', w)" "serves rl r e (status, response) e'" by blast
  with serve_orderly [OF assms(1,4) n e'(1)] serve_right [OF assms(2,3) adm e'] show ?thesis
    by (intro exI [of _ "(status, response)"]) auto
qed

lemma session_steps:
  fixes net :: "'w Net" and w :: 'w
  assumes "orderly rl e" and "serving rl e" and "caches_right H Q e" and "\<forall>(l, ls, r) \<in> set calls. loggable rl r"
  shows "\<exists>as e' w'. serve_all rl H net calls (e, w) = Some (as, e', w') \<and> orderly rl e' \<and> serving rl e' \<and>
    db_of e' = fold (\<lambda>(l, ls, r). db_step r) calls (db_of e) \<and> answered H Q (map (\<lambda>(l, ls, r). r) calls) (db_of e) as"
  using assms
proof (induction calls arbitrary: e w Q)
  case (Cons call calls)
  obtain l ls r where call: "call = (l, ls, r)" by (cases call)
  have "loggable rl r" using Cons.prems(4) by (simp add: call)
  from session_step [OF Cons.prems(1-3) this, of net l ls w] obtain a e1 w1 where
    e1: "serve rl H net l ls r (e, w) = Some (fst a, snd a, e1, w1)" "serves rl r e a e1" "orderly rl e1"
      "right_answer H Q r (db_of e) a" "caches_right H (asked_by r \<union> Q) e1" by blast
  then have "serving rl e1" by (simp add: serves_def)
  moreover have "\<forall>(l, ls, r) \<in> set calls. loggable rl r" using Cons.prems(4) by simp
  ultimately obtain as e' w' where "serve_all rl H net calls (e1, w1) = Some (as, e', w')" "orderly rl e'" "serving rl e'"
    "db_of e' = fold (\<lambda>(l, ls, r). db_step r) calls (db_of e1)"
    "answered H (asked_by r \<union> Q) (map (\<lambda>(l, ls, r). r) calls) (db_of e1) as"
    using Cons.IH [OF e1(3) _ e1(5)] by blast
  with e1 show ?case by (simp add: call serves_def)
qed simp

section \<open>From an empty directory\<close>

lemma orderly_init: "orderly rl (engine_init md [])"
  by (simp add: orderly_def clean_log_def engine_init_def contains_def wal_of_def files_of_def no_files_def)

lemma caches_right_init: "caches_right H Q (engine_init md d)"
  by (simp add: caches_right_def engine_init_def contains_def)

text \<open>C2: a primary that starts on an empty directory is a database: it answers every sequence of requests,
  creations, drops, writes, searches and readings in any order, every answer is one the abstract
  database gives after the requests before it, and at the end the engine holds the tables of the
  abstract database. What a search and a batch answer is as in C3: exact for flat tables, records of the
  table for graphs, an earlier batch of the same hash key for a cached batch; the values of the metrics are left open. Dropping a table, which first
  sends every log to the replicas, always ends, whatever the replicas answer, and the name can be
  used again. The requests are such that the log can hold them (\<open>loggable\<close>): vectors of finite floats
  that six digits denote, no line break in a content, queries of finite numbers; tables are created with the metric L2, a dimension
  that is an \<open>int\<close>, a cache that holds something and no negative levels.\<close>

theorem database_session:
  fixes net :: "'w Net" and w :: 'w
  assumes "md_primary md" and "\<forall>(l, ls, r) \<in> set calls. loggable rl r"
  shows "\<exists>e as e' w'. engine_start rl net junk md [] w = Some (e, w) \<and> serve_all rl H net calls (e, w) = Some (as, e', w') \<and>
    answered H {} (map (\<lambda>(l, ls, r). r) calls) Map.empty as \<and>
    db_of e' = fold (\<lambda>(l, ls, r). db_step r) calls Map.empty \<and> engine_inv rl e'"
proof -
  let ?e = "engine_init md []"
  have "serving rl ?e" using engine_inv_init [of rl md "[]"] assms(1) by (simp add: serving_def) (simp add: engine_init_def)
  moreover have "db_of ?e = Map.empty" by (simp add: db_of_def engine_init_def fun_eq_iff)
  moreover have "engine_start rl net junk md [] w = Some (?e, w)" by (simp add: engine_start_def tables_on_disk_def)
  ultimately show ?thesis
    using session_steps [OF orderly_init [of rl md] _ caches_right_init [of H "{}"] assms(2), where net = net and w = w] by (auto simp: serving_def)
qed

definition sample_new_table :: CreateTableRequest where
  "sample_new_table = \<lparr>ct_name = ''t'', ct_vector_dimensionality = 1, ct_index_config = RequestFlat 0, ct_cache_size = 4\<rparr>"

lemma database_session_witness:
  "\<exists>e e' w'. engine_start ground_level sample_silent_net (0, 0) sample_md [] () = Some (e, ()) \<and>
     serve_all ground_level (\<lambda>_. 0) sample_silent_net
       (map (\<lambda>r. (f32_zero, [], r)) [ReqCreateTable sample_new_table, ReqInsert sample_insert, ReqDropTable ''t'',
          ReqInsert sample_insert, ReqDropTable ''t'']) (e, ()) =
     Some ([(StatusOK, RespSuccessful True), (StatusOK, RespSuccessful True), (StatusOK, RespSuccessful True),
       (INVALID_ARGUMENT ''insert failed (invalid input)'', RespSuccessful False), (StatusOK, RespSuccessful False)], e', w')"
proof -
  let ?rs = "[ReqCreateTable sample_new_table, ReqInsert sample_insert, ReqDropTable ''t'', ReqInsert sample_insert, ReqDropTable ''t'']"
  let ?calls = "map (\<lambda>r. (f32_zero, [], r)) ?rs :: Call list"
  have p: "md_primary sample_md" by simp
  have a: "\<forall>(l, ls, r) \<in> set ?calls. loggable ground_level r"
    using sample_wal_stable by (simp add: loggable_def admissible_def sample_new_table_def sample_insert_def)
  from database_session [OF p a, of sample_silent_net "(0, 0)" "()" "\<lambda>_. 0"] obtain e as e' w' where
    e': "engine_start ground_level sample_silent_net (0, 0) sample_md [] () = Some (e, ())"
    "serve_all ground_level (\<lambda>_. 0) sample_silent_net ?calls (e, ()) = Some (as, e', w')"
    "answered (\<lambda>_. 0) {} (map (\<lambda>(l, ls, r). r) ?calls) Map.empty as" by blast
  obtain a1 a2 a3 a4 a5 where as: "as = [a1, a2, a3, a4, a5]"
    using e'(3) by (cases as; cases "tl as"; cases "tl (tl as)"; cases "tl (tl (tl as))"; cases "tl (tl (tl (tl as)))";
      cases "tl (tl (tl (tl (tl as))))") auto
  from e' show ?thesis
    unfolding as
    by (intro exI [of _ e] exI [of _ e'] exI [of _ w'])
      (simp add: right_answer_def request_configs_def db_create_def db_insert_def known_def sample_new_table_def sample_insert_def complete_def
        put_data_def written_def)
qed

end
