(* ===== verification/HnswContainers.thy ===== *)
theory HnswContainers
  imports VectorStore Persistence
begin

text \<open>
  The containers of an HNSW index stay well formed under every operation: keys and sets without
  repetitions. With the invariant of the index this is what a snapshot needs to read back
  (\<open>TableShape\<close>). No operation changes the configuration.
\<close>

section \<open>Maps of sets\<close>

lemma usets_ok_alt: "usets_ok m \<longleftrightarrow> distinct (keys m) \<and> (\<forall>k s. map_of m k = Some s \<longrightarrow> distinct s)"
proof (cases "distinct (keys m)")
  case True
  then have "map_of m k = Some s \<longleftrightarrow> (k, s) \<in> set m" for k s by (simp add: map_of_eq_Some_iff)
  with True show ?thesis by (auto simp: usets_ok_def)
qed (simp add: usets_ok_def)

lemma usets_ok_Nil [simp]: "usets_ok []"
  by (simp add: usets_ok_def)

lemma usets_ok_mput [simp]: "usets_ok m \<Longrightarrow> distinct s \<Longrightarrow> usets_ok (mput k s m)"
  by (simp add: usets_ok_alt)

lemma usets_ok_merase [simp]: "usets_ok m \<Longrightarrow> usets_ok (merase k m)"
  by (auto simp: usets_ok_alt)

lemma usets_ok_set_ref [simp]: "usets_ok m \<Longrightarrow> distinct (set_ref m k)"
  by (simp add: usets_ok_alt set_ref_def split: option.splits)

lemma usets_ok_filter [simp]: "usets_ok m \<Longrightarrow> usets_ok (map (\<lambda>(k, s). (k, filter P s)) m)"
  by (auto simp: usets_ok_def comp_def case_prod_beta)

lemma distinct_fold_sinsert [simp]: "distinct s \<Longrightarrow> distinct (fold sinsert xs s)"
  by (induction xs arbitrary: s) simp_all

lemma for_each_keeps:
  assumes "for_each f xs s = Some s'" and "P s" and "\<And>x s s'. P s \<Longrightarrow> f x s = Some s' \<Longrightarrow> P s'"
  shows "P s'"
  using assms(1,2)
proof (induction xs arbitrary: s)
  case (Cons x xs)
  then show ?case using assms(3) by (auto split: option.splits)
qed simp

section \<open>The index\<close>

lemma containers_alt: "hnsw_containers_ok h \<longleftrightarrow> distinct (keys (hx_nodes h)) \<and> usets_ok (hx_node_levels h) \<and>
    (\<forall>i. usets_ok (n_neighbors (node_ref h i)))"
proof (cases "distinct (keys (hx_nodes h))")
  case True
  then have "map_of (hx_nodes h) i = Some n \<longleftrightarrow> (i, n) \<in> set (hx_nodes h)" for i n by (simp add: map_of_eq_Some_iff)
  with True show ?thesis
    by (auto simp: hnsw_containers_ok_def node_ref_def default_node_def split: option.splits)
qed (simp add: hnsw_containers_ok_def)

lemma containers_neighbors: "hnsw_containers_ok h \<Longrightarrow> usets_ok (n_neighbors (node_ref h i))"
  by (simp add: containers_alt)

lemma containers_upd_node:
  assumes "hnsw_containers_ok h" and "usets_ok (n_neighbors (f (node_ref h i)))"
  shows "hnsw_containers_ok (upd_node i f h)"
  using assms by (auto simp: containers_alt upd_node_def) (simp add: node_ref_def)

lemma containers_fields [simp]:
  "hnsw_containers_ok (h\<lparr>hx_max_level := m, hx_entry_point := e\<rparr>) = hnsw_containers_ok h"
  "hnsw_containers_ok (h\<lparr>hx_entry_point := e, hx_max_level := m\<rparr>) = hnsw_containers_ok h"
  by (simp_all add: hnsw_containers_ok_def)

lemma containers_edges:
  assumes "hnsw_containers_ok h"
  shows "hnsw_containers_ok (add_edge a l b h)" and "hnsw_containers_ok (del_edge a l b h)"
  using assms by (auto simp: add_edge_def del_edge_def set_neighbors_def containers_neighbors intro!: containers_upd_node)

lemma containers_prune:
  assumes "hnsw_containers_ok h"
  shows "hnsw_containers_ok (prune b l olds news h)"
proof -
  have "hnsw_containers_ok (fold (\<lambda>old h. if old \<in> set news then h else del_edge old l b h) olds h)"
    using assms by (induction olds arbitrary: h) (simp_all add: containers_edges)
  then show ?thesis unfolding prune_def
    by (rule containers_upd_node) (simp add: set_neighbors_def containers_neighbors \<open>hnsw_containers_ok (fold _ olds h)\<close>)
qed

lemma containers_connect_one:
  assumes "hnsw_containers_ok h" and "connect_one x l b h = Some h'"
  shows "hnsw_containers_ok h'"
  using assms by (auto simp: connect_one_def Let_def containers_edges containers_prune split: option.splits if_splits)

lemma containers_ConnectNeighbors:
  assumes "hnsw_containers_ok h" and "ConnectNeighbors h x v bs l = Some h'"
  shows "hnsw_containers_ok h'"
  using assms(2) [unfolded ConnectNeighbors_def] assms(1) containers_connect_one by (rule for_each_keeps)

lemma containers_connect_levels:
  "connect_levels i v e ls h = Some h' \<Longrightarrow> hnsw_containers_ok h \<Longrightarrow> hnsw_containers_ok h'"
  by (induction ls arbitrary: h) (auto split: option.splits dest: containers_ConnectNeighbors)

lemma containers_add_node:
  assumes "hnsw_containers_ok h"
  shows "hnsw_containers_ok (add_node i v l h)"
  using assms by (auto simp: containers_alt add_node_def) (simp add: node_ref_def)

lemma containers_Insert:
  assumes "hnsw_containers_ok h" and "hnsw_Insert rl h i v = Some h'"
  shows "hnsw_containers_ok h'"
  using assms containers_add_node [OF assms(1)]
  by (auto simp: hnsw_Insert_def hnsw_InsertNoLock_def Let_def split: if_splits option.splits dest!: containers_connect_levels)

lemma containers_Remove:
  assumes "hnsw_containers_ok h"
  shows "hnsw_containers_ok (hnsw_Remove h i)"
proof -
  have "hnsw_containers_ok (upd_node i (\<lambda>n. n\<lparr>n_active := False\<rparr>) h)"
    using assms by (intro containers_upd_node) (simp_all add: containers_neighbors)
  moreover have "usets_ok (drop_level i l (hx_node_levels h))" for l
    using assms by (simp add: drop_level_def Let_def hnsw_containers_ok_def)
  ultimately have "hnsw_containers_ok ((upd_node i (\<lambda>n. n\<lparr>n_active := False\<rparr>) h)\<lparr>hx_node_levels := drop_level i l (hx_node_levels h)\<rparr>)" for l
    by (simp add: hnsw_containers_ok_def)
  with assms show ?thesis by (auto simp: hnsw_Remove_def Let_def split: option.splits prod.splits)
qed

lemma containers_cleanup_node:
  assumes "hnsw_containers_ok h"
  shows "hnsw_containers_ok (cleanup_node i h)"
proof (cases "is_active h i")
  case True
  then show ?thesis using assms
    by (simp add: cleanup_node_def) (intro containers_upd_node, simp_all add: containers_neighbors)
next
  case False
  have "usets_ok (n_neighbors (node_ref (h\<lparr>hx_nodes := merase i (hx_nodes h)\<rparr>) j))" for j
    using containers_neighbors [OF assms, of j] by (auto simp: node_ref_def default_node_def split: option.splits)
  with False assms show ?thesis by (simp add: cleanup_node_def containers_alt)
qed

lemma containers_Cleanup: "hnsw_containers_ok h \<Longrightarrow> hnsw_containers_ok (hnsw_Cleanup h)"
proof -
  have "hnsw_containers_ok h \<Longrightarrow> hnsw_containers_ok (fold cleanup_node is h)" for "is"
    by (induction "is" arbitrary: h) (simp_all add: containers_cleanup_node)
  then show "hnsw_containers_ok h \<Longrightarrow> hnsw_containers_ok (hnsw_Cleanup h)" by (simp add: hnsw_Cleanup_def)
qed

lemma containers_Reindex:
  assumes "hnsw_Reindex rl h = Some h'"
  shows "hnsw_containers_ok h'"
  using assms [unfolded hnsw_Reindex_def]
proof (rule for_each_keeps)
  show "hnsw_containers_ok (h\<lparr>hx_nodes := [], hx_node_levels := [], hx_entry_point := None, hx_max_level := - 1\<rparr>)"
    by (simp add: hnsw_containers_ok_def)
next
  fix x h h' assume "hnsw_containers_ok h" and "(case x of (i, v) \<Rightarrow> \<lambda>h. hnsw_InsertNoLock rl h i v) h = Some h'"
  then show "hnsw_containers_ok h'" using containers_Insert [of h rl] by (auto simp: hnsw_Insert_def split: prod.splits)
qed

section \<open>The configuration\<close>

lemma config_upd_node [simp]: "hx_config (upd_node i f h) = hx_config h"
  by (simp add: upd_node_def)

lemma config_edges [simp]: "hx_config (add_edge a l b h) = hx_config h" "hx_config (del_edge a l b h) = hx_config h"
  by (simp_all add: add_edge_def del_edge_def)

lemma config_prune [simp]: "hx_config (prune b l olds news h) = hx_config h"
proof -
  have "hx_config (fold (\<lambda>old h. if old \<in> set news then h else del_edge old l b h) olds h) = hx_config h"
    by (induction olds arbitrary: h) simp_all
  then show ?thesis by (simp add: prune_def)
qed

lemma config_connect_one: "connect_one x l b h = Some h' \<Longrightarrow> hx_config h' = hx_config h"
  by (auto simp: connect_one_def Let_def split: option.splits if_splits)

lemma config_ConnectNeighbors:
  assumes "ConnectNeighbors h x v bs l = Some h'"
  shows "hx_config h' = hx_config h"
  using assms [unfolded ConnectNeighbors_def]
  by (rule for_each_keeps [where P = "\<lambda>k. hx_config k = hx_config h"]) (simp_all add: config_connect_one)

lemma config_connect_levels: "connect_levels i v e ls h = Some h' \<Longrightarrow> hx_config h' = hx_config h"
proof (induction ls arbitrary: h)
  case (Cons l ls)
  then show ?case using config_ConnectNeighbors by (fastforce split: option.splits)
qed simp

lemma config_Insert: "hnsw_Insert rl h i v = Some h' \<Longrightarrow> hx_config h' = hx_config h"
  by (auto simp: hnsw_Insert_def hnsw_InsertNoLock_def Let_def add_node_def split: if_splits option.splits
      dest!: config_connect_levels)

lemma config_Remove [simp]: "hx_config (hnsw_Remove h i) = hx_config h"
  by (simp add: hnsw_Remove_def Let_def split: option.splits prod.splits)

lemma config_Cleanup [simp]: "hx_config (hnsw_Cleanup h) = hx_config h"
proof -
  have "hx_config (fold cleanup_node is h) = hx_config h" for "is"
    by (induction "is" arbitrary: h) (simp_all add: cleanup_node_def)
  then show ?thesis by (simp add: hnsw_Cleanup_def)
qed

lemma config_Reindex:
  assumes "hnsw_Reindex rl h = Some h'"
  shows "hx_config h' = hx_config h"
  using assms [unfolded hnsw_Reindex_def]
proof (rule for_each_keeps [where P = "\<lambda>k. hx_config k = hx_config h"])
  fix x k k' assume "hx_config k = hx_config h" and "(case x of (i, v) \<Rightarrow> \<lambda>h. hnsw_InsertNoLock rl h i v) k = Some k'"
  then show "hx_config k' = hx_config h" using config_Insert [of rl k] by (auto simp: hnsw_Insert_def split: prod.splits)
qed simp

end
