(* ===== verification/TableShape.thy ===== *)
theory TableShape
  imports DropSession HnswContainers
begin

text \<open>
  What the operations of a session do to the stores and files of the tables, apart from the data:
  the shape of a store stays, its containers stay well formed, its index stays in step as long as
  no removed id comes back. Such a table can be saved by a shutdown and is found again.
\<close>

section \<open>Stores\<close>

text \<open>What no operation of a store changes: the dimension, the kind of the index, its configuration.\<close>

definition store_shape :: "VectorStore \<Rightarrow> int \<times> IndexType \<times> (HNSWIndexConfig + FlatIndexConfig)" where
  "store_shape s = (vs_vector_dimensionality s, vs_index_type s,
     case vs_index s of HnswIx h \<Rightarrow> Inl (hx_config h) | FlatIx f \<Rightarrow> Inr (fi_config f))"

definition tidy :: "VectorStore \<Rightarrow> bool" where
  "tidy s \<longleftrightarrow> (case vs_index s of HnswIx h \<Rightarrow> hnsw_containers_ok h | FlatIx f \<Rightarrow> True)"

lemma store_Insert_shape:
  assumes "store_Insert rl s i v content = Some (ok, s')"
  shows "store_shape s' = store_shape s" and "tidy s \<Longrightarrow> tidy s'"
  using assms
  by (cases "vs_index s"; auto simp: store_Insert_def store_shape_def tidy_def flat_Insert_def split: if_splits
      dest: config_Insert containers_Insert)+

lemma store_Remove_shape:
  shows "store_shape (snd (store_Remove s i)) = store_shape s" and "tidy s \<Longrightarrow> tidy (snd (store_Remove s i))"
  by (cases "vs_index s"; auto simp: store_Remove_def store_shape_def tidy_def flat_Remove_def containers_Remove)+

lemma store_Cleanup_shape:
  assumes "store_Cleanup rl s reindex = Some s'"
  shows "store_shape s' = store_shape s" and "tidy s \<Longrightarrow> tidy s'"
  using assms
  by (cases "vs_index s"; auto simp: store_Cleanup_def Let_def store_shape_def tidy_def flat_Cleanup_def flat_Reindex_def split: if_splits
      dest: config_Reindex intro: containers_Cleanup containers_Reindex)+

text \<open>A graph in step with its store has an entry point when there is a record, so a search finds something.\<close>

lemma synced_entry:
  assumes "store_inv rl s" and "in_sync s" and "vs_index s = HnswIx h" and "vs_store s \<noteq> []"
  shows "hx_entry_point h \<noteq> None"
proof -
  have "hnsw_inv rl h" using assms(1,3) by (simp add: store_inv_def)
  obtain i where "i \<in> set (keys (vs_store s))" using assms(4) by (cases "vs_store s") auto
  then have "hnsw_vec h i \<noteq> None" using assms(2,3) store_vec_None [of s i] by (simp add: in_sync_def contains_iff)
  then have "is_active h i" by (simp add: hnsw_vec_def split: if_splits)
  then show ?thesis
    using hnsw_invD(5) [OF \<open>hnsw_inv rl h\<close>] by (cases "hx_entry_point h") (auto simp: levels_inv_def)
qed

lemma store_Search_finds:
  assumes "store_inv rl s" and "in_sync s" and "vs_store s \<noteq> []" and "finite_vec q" and "length q = store_dim s" and "0 < k" and "0 < p"
    and "store_Search s q k p = Some r"
  shows "r \<noteq> []"
proof (cases "vs_index s")
  case (FlatIx f)
  then have "r = nearest (vs_store s) L2 q k"
    using store_Search_flat [OF assms(1) _ assms(4), of k p] assms(5,8) by (simp add: flat_store_def store_dim_def)
  then have "length r = min (length (vs_store s)) k" by (simp add: nearest_def)
  with assms(3,6) show ?thesis by (auto simp: min_def split: if_splits)
next
  case (HnswIx h)
  have h: "hnsw_inv rl h" using assms(1) HnswIx by (simp add: store_inv_def)
  obtain js where js: "hnsw_Search h q k p = Some js" "r = List.map_filter (map_of (vs_store s)) js"
    using assms(5,8) HnswIx by (auto simp: store_Search_def store_dim_def)
  have "js \<noteq> []"
    using hnsw_Search_ok [OF hnsw_invD(1) [OF h] hnsw_invD(9) [OF h assms(4)] hnsw_invD(8) [OF h], of k p]
      synced_entry [OF assms(1,2) HnswIx assms(3)] js(1) assms(6,7) by auto
  moreover have "set js \<subseteq> dom (map_of (vs_store s))"
    using hnsw_results_sorted(1) [OF assms(1) HnswIx assms(4) js(1)] by (auto simp: store_data_def)
  ultimately show ?thesis using js(2) by (simp add: map_filter_found)
qed

text \<open>A store with well-formed containers that holds a record can be saved.\<close>

lemma tidy_snapshot_ok:
  assumes "store_inv rl s" and "in_sync s" and "tidy s" and "vs_store s \<noteq> []"
  shows "snapshot_ok s"
proof (cases "vs_index s")
  case (HnswIx h)
  have "hx_entry_point h \<noteq> None" by (rule synced_entry [OF assms(1,2) HnswIx assms(4)])
  with assms(3) HnswIx show ?thesis by (simp add: snapshot_ok_def tidy_def)
next
  case (FlatIx f)
  with assms(1) show ?thesis by (simp add: snapshot_ok_def store_inv_def flat_inv_def flat_wf_def)
qed

text \<open>
  The ids removed since the table was made, of a graph: its nodes are those of live records and of
  removed ones. None for a flat index, where a removal leaves nothing.
\<close>

definition clean_ids :: "Id set option \<Rightarrow> VectorStore \<Rightarrow> bool" where
  "clean_ids dead s \<longleftrightarrow> (case vs_index s of
       HnswIx h \<Rightarrow> in_sync s \<and> (\<exists>ids. dead = Some ids \<and> set (keys (hx_nodes h)) \<subseteq> set (keys (vs_store s)) \<union> ids)
     | FlatIx f \<Rightarrow> True)"

lemma clean_ids_sync:
  assumes "store_inv rl s" and "clean_ids dead s"
  shows "in_sync s"
  using assms by (cases "vs_index s") (auto simp: clean_ids_def store_inv_def flat_store_def)

lemma clean_ids_mono: "clean_ids dead s \<Longrightarrow> clean_ids (map_option ((\<union>) ids) dead) s"
  by (auto simp: clean_ids_def split: Index.splits)

lemma store_Insert_clean:
  assumes "store_inv rl s" and "finite_vec v" and "store_Insert rl s i v content = Some (ok, s')"
    and "clean_ids dead s" and "\<And>ids. dead = Some ids \<Longrightarrow> i \<notin> ids"
  shows "clean_ids dead s'"
proof (cases "vs_index s")
  case (FlatIx f)
  then show ?thesis using assms(3) by (auto simp: store_Insert_def clean_ids_def split: if_splits)
next
  case (HnswIx h)
  show ?thesis
  proof (cases "contains (vs_store s) i \<or> length v \<noteq> size_of_int (vs_vector_dimensionality s)")
    case True
    with assms(3,4) show ?thesis by (simp add: store_Insert_def)
  next
    case False
    obtain ids where ids: "dead = Some ids" "set (keys (hx_nodes h)) \<subseteq> set (keys (vs_store s)) \<union> ids" "in_sync s"
      using assms(4) HnswIx by (auto simp: clean_ids_def)
    then have new: "\<not> contains (hx_nodes h) i" using assms(5) False by (auto simp: contains_iff)
    then have s': "in_sync s'" "vs_store s' = mput i \<lparr>d_id = i, d_vector = v, d_content = content\<rparr> (vs_store s)"
      using store_Insert_ok [OF assms(1,2), of i content] False ids(3) assms(3) HnswIx by (auto simp: hnsw_fresh_def)
    have h: "hnsw_inv rl h" "hnsw_dim h = size_of_int (vs_vector_dimensionality s)"
      using assms(1) HnswIx by (simp_all add: store_inv_def)
    then have "accepts h i v" using False new by (simp add: accepts_def hnsw_dim_def)
    from hnsw_Insert_ok [OF h(1) this assms(2)] obtain h' where h': "hnsw_Insert rl h i v = Some h'"
      "set (keys (hx_nodes h')) = insert i (set (keys (hx_nodes h)))" by blast
    then have "vs_index s' = HnswIx h'" using False assms(3) HnswIx by (auto simp: store_Insert_def)
    with s' h'(2) ids show ?thesis by (auto simp: clean_ids_def)
  qed
qed

lemma store_Remove_clean:
  assumes "store_inv rl s" and "clean_ids dead s" and "\<And>ids. dead = Some ids \<Longrightarrow> i \<in> ids"
  shows "clean_ids dead (snd (store_Remove s i))"
proof (cases "vs_index s")
  case (FlatIx f)
  then show ?thesis by (simp add: store_Remove_def clean_ids_def)
next
  case (HnswIx h)
  note r = store_Remove_ok [OF assms(1), of i]
  obtain ids where ids: "dead = Some ids" "set (keys (hx_nodes h)) \<subseteq> set (keys (vs_store s)) \<union> ids" "in_sync s"
    using assms(2) HnswIx by (auto simp: clean_ids_def)
  obtain h' where h': "vs_index (snd (store_Remove s i)) = HnswIx h'" "keys (hx_nodes h') = keys (hx_nodes h)"
  proof (cases "contains (vs_store s) i")
    case True
    have "hnsw_inv rl h" using assms(1) HnswIx by (simp add: store_inv_def)
    from hnsw_Remove_ok [OF this, of i] True HnswIx that show ?thesis by (simp add: store_Remove_def)
  qed (use HnswIx that in \<open>simp add: store_Remove_def\<close>)
  have "set (keys (vs_store s)) \<subseteq> insert i (set (keys (vs_store (snd (store_Remove s i)))))" using r by (auto simp: set_keys_merase)
  moreover have "i \<in> ids" by (rule assms(3) [OF ids(1)])
  ultimately have "set (keys (hx_nodes h')) \<subseteq> set (keys (vs_store (snd (store_Remove s i)))) \<union> ids"
    unfolding h'(2) using ids(2) by blast
  then show ?thesis using h'(1) ids(1,3) r by (simp add: clean_ids_def)
qed

lemma store_Cleanup_clean:
  assumes "store_inv rl s" and "clean_ids dead s" and "store_Cleanup rl s reindex = Some s'"
  shows "clean_ids dead s'"
proof (cases "vs_index s")
  case (FlatIx f)
  then have "s' = s" using assms(3) flat_Cleanup_same by blast
  with assms(2) show ?thesis by simp
next
  case (HnswIx h)
  then have "hnsw_inv rl h" using assms(1) by (simp add: store_inv_def)
  from hnsw_maintain_ok [OF this, of reindex] obtain h' where h': "hnsw_maintain rl h reindex = Some h'"
    "\<forall>j. contains (hx_nodes h') j = is_active h j" by blast
  have s': "s' = s\<lparr>vs_index := HnswIx h'\<rparr>"
    using assms(3) HnswIx h'(1) by (auto simp: store_Cleanup_def hnsw_maintain_def split: if_splits)
  have "set (keys (hx_nodes h')) \<subseteq> set (keys (hx_nodes h))"
    using h'(2) is_active_contains by (auto simp: contains_iff)
  moreover have "in_sync s'" using store_Cleanup_ok [OF assms(1), of reindex] assms(2,3) clean_ids_sync [OF assms(1,2)] by auto
  ultimately show ?thesis using assms(2) HnswIx s' by (auto simp: clean_ids_def)
qed

lemma clean_saveable:
  assumes "store_inv rl s" and "tidy s" and "clean_ids dead s"
  shows "saveable rl s"
proof -
  note sync = clean_ids_sync [OF assms(1,3)]
  have "snapshot_ok s'" if "vs_store s \<noteq> []" "store_Cleanup rl s b = Some s'" for b s'
    using store_Cleanup_ok [OF assms(1), of b] that sync store_Cleanup_shape(2) [OF that(2) assms(2)]
    by (intro tidy_snapshot_ok [of rl]) auto
  with tidy_snapshot_ok [OF assms(1) sync assms(2)] show ?thesis by (auto simp: saveable_def)
qed

section \<open>Sequences of operations on a store\<close>

inductive store_moves :: "level_fun \<Rightarrow> Id set \<Rightarrow> Id set \<Rightarrow> VectorStore \<Rightarrow> VectorStore \<Rightarrow> bool" for rl ins rem where
  stay: "store_moves rl ins rem s s"
| insert: "store_moves rl ins rem s s1 \<Longrightarrow> i \<in> ins \<Longrightarrow> finite_vec v \<Longrightarrow> store_Insert rl s1 i v content = Some (ok, s2) \<Longrightarrow>
    store_moves rl ins rem s s2"
| remove: "store_moves rl ins rem s s1 \<Longrightarrow> i \<in> rem \<Longrightarrow> store_moves rl ins rem s (snd (store_Remove s1 i))"

lemma store_moves_trans:
  assumes "store_moves rl ins rem s s1" and "store_moves rl ins rem s1 s2"
  shows "store_moves rl ins rem s s2"
  using assms(2,1) by (induction rule: store_moves.induct) (auto intro: store_moves.intros)

lemma store_moves_shape:
  assumes "store_moves rl ins rem s s'"
  shows "store_shape s' = store_shape s" and "tidy s \<Longrightarrow> tidy s'"
  using assms
  by (induction rule: store_moves.induct) (auto simp: store_Insert_shape store_Remove_shape dest: store_Insert_shape)

lemma store_Insert_inv:
  assumes "store_inv rl s" and "finite_vec v" and "store_Insert rl s i v content = Some (ok, s')"
  shows "store_inv rl s'"
  using store_Insert_ok [OF assms(1,2), of i content] assms(1,3)
  by (cases "contains (vs_store s) i \<or> length v \<noteq> size_of_int (vs_vector_dimensionality s)")
    (auto simp: store_Insert_rejected)

lemma store_moves_inv:
  assumes "store_moves rl ins rem s s'" and "store_inv rl s"
  shows "store_inv rl s'"
  using assms by (induction rule: store_moves.induct) (simp_all add: store_Insert_inv store_Remove_ok)

lemma store_moves_clean:
  assumes "store_moves rl ins rem s s'" and "store_inv rl s" and "clean_ids dead s"
    and "\<And>ids. dead = Some ids \<Longrightarrow> rem \<subseteq> ids \<and> ins \<inter> ids = {}"
  shows "clean_ids dead s'"
  using assms
proof (induction rule: store_moves.induct)
  case (insert s s1 i v content ok s2)
  have "store_inv rl s1" by (rule store_moves_inv [OF insert.hyps(1) insert.prems(1)])
  from store_Insert_clean [OF this insert.hyps(3,4)] insert.IH [OF insert.prems] insert.prems(3) insert.hyps(2)
  show ?case by blast
next
  case (remove s s1 i)
  have "store_inv rl s1" by (rule store_moves_inv [OF remove.hyps(1) remove.prems(1)])
  from store_Remove_clean [OF this] remove.IH [OF remove.prems] remove.prems(3) remove.hyps(2) show ?case by blast
qed

end
