(* ===== verification/TableMoves.thy ===== *)
theory TableMoves
  imports TableShape
begin

text \<open>
  The requests of a session, as operations on the store of one table: what is left of the engine
  that a shutdown saves, configuration of each table included, does not change.
\<close>

section \<open>One table moves\<close>

definition files_kept :: "Engine \<Rightarrow> Engine \<Rightarrow> bool" where
  "files_kept e e' \<longleftrightarrow> (distinct (keys (en_disk e)) \<longrightarrow> distinct (keys (en_disk e'))) \<and>
     (\<forall>u. tf_metadata (files_of (en_disk e') u) = tf_metadata (files_of (en_disk e) u) \<and>
        (tf_wal (files_of (en_disk e) u) \<noteq> None \<longrightarrow> tf_wal (files_of (en_disk e') u) \<noteq> None))"

definition caches_kept :: "Engine \<Rightarrow> Engine \<Rightarrow> bool" where
  "caches_kept e e' \<longleftrightarrow> (\<forall>u. map_option lc_max_cache_size (map_of (en_cache_map e') u) =
     map_option lc_max_cache_size (map_of (en_cache_map e) u))"

definition stores_moved :: "level_fun \<Rightarrow> Id set \<Rightarrow> Id set \<Rightarrow> string \<Rightarrow> Engine \<Rightarrow> Engine \<Rightarrow> bool" where
  "stores_moved rl ins rem t e e' \<longleftrightarrow> (distinct (keys (en_store_map e)) \<longrightarrow> distinct (keys (en_store_map e'))) \<and>
     (\<forall>u. u \<noteq> t \<longrightarrow> map_of (en_store_map e') u = map_of (en_store_map e) u) \<and>
     rel_option (store_moves rl ins rem) (map_of (en_store_map e) t) (map_of (en_store_map e') t)"

definition table_moves :: "level_fun \<Rightarrow> Id set \<Rightarrow> Id set \<Rightarrow> string \<Rightarrow> Engine \<Rightarrow> Engine \<Rightarrow> bool" where
  "table_moves rl ins rem t e e' \<longleftrightarrow> en_persistence_manager_map e' = en_persistence_manager_map e \<and>
     files_kept e e' \<and> caches_kept e e' \<and> stores_moved rl ins rem t e e'"

lemma rel_option_stay [simp]: "rel_option (store_moves rl ins rem) x x"
  by (cases x) (simp_all add: store_moves.stay)

lemma rel_option_moves:
  "rel_option (store_moves rl ins rem) x y \<Longrightarrow> rel_option (store_moves rl ins rem) y z \<Longrightarrow> rel_option (store_moves rl ins rem) x z"
  by (cases x; cases y; cases z) (auto intro: store_moves_trans)

lemma table_moves_refl [simp]: "table_moves rl ins rem t e e"
  by (simp add: table_moves_def files_kept_def caches_kept_def stores_moved_def)

lemma table_moves_trans:
  assumes "table_moves rl ins rem t e e1" and "table_moves rl ins rem t e1 e2"
  shows "table_moves rl ins rem t e e2"
  using assms rel_option_moves [of rl ins rem "map_of (en_store_map e) t" "map_of (en_store_map e1) t" "map_of (en_store_map e2) t"]
  by (auto simp: table_moves_def files_kept_def caches_kept_def stores_moved_def)

text \<open>Only the maps and the disk matter.\<close>

lemma table_moves_cong:
  assumes "en_persistence_manager_map e2 = en_persistence_manager_map e1" and "en_disk e2 = en_disk e1"
    and "en_cache_map e2 = en_cache_map e1" and "en_store_map e2 = en_store_map e1"
  shows "table_moves rl ins rem t e e2 = table_moves rl ins rem t e e1"
  using assms by (simp add: table_moves_def files_kept_def caches_kept_def stores_moved_def)

lemma table_moves_upd [simp]:
  "table_moves rl ins rem t e (upd_stats u f e') = table_moves rl ins rem t e e'"
  "table_moves rl ins rem t e (upd_metrics u g e') = table_moves rl ins rem t e e'"
  "table_moves rl ins rem t e (count_searches u ls e') = table_moves rl ins rem t e e'"
  by (rule table_moves_cong; simp)+

lemma table_moves_store:
  assumes "table_moves rl ins rem t e e'" and "map_of (en_store_map e') t = Some s" and "store_moves rl ins rem s s'"
  shows "table_moves rl ins rem t e (set_store t s' e')"
proof -
  have "stores_moved rl ins rem t e' (set_store t s' e')" using assms(2,3) by (simp add: stores_moved_def)
  then have "table_moves rl ins rem t e' (set_store t s' e')"
    by (simp add: table_moves_def files_kept_def caches_kept_def)
  with assms(1) show ?thesis by (rule table_moves_trans)
qed

lemma table_moves_cache:
  assumes "table_moves rl ins rem t e e'" and "map_of (en_cache_map e') u = Some c" and "lc_max_cache_size c' = lc_max_cache_size c"
  shows "table_moves rl ins rem t e (set_cache u c' e')"
proof -
  have "caches_kept e' (set_cache u c' e')" using assms(2,3) by (simp add: caches_kept_def)
  then have "table_moves rl ins rem t e' (set_cache u c' e')"
    by (simp add: table_moves_def files_kept_def stores_moved_def)
  with assms(1) show ?thesis by (rule table_moves_trans)
qed

lemma files_kept_wal: "en_disk e' = set_wal t w (en_disk e) \<Longrightarrow> files_kept e e'"
  using set_wal_distinct [of "en_disk e" t w] by (auto simp: files_kept_def) (auto simp: set_wal_def)

lemma table_moves_append:
  "table_moves rl ins rem t e (upd_disk (pm_AppendInsert pm i v content) e)"
  "table_moves rl ins rem t e (upd_disk (pm_AppendRemove pm i) e)"
  using files_kept_wal [of "upd_disk (pm_AppendInsert pm i v content) e"] files_kept_wal [of "upd_disk (pm_AppendRemove pm i) e"]
  by (simp_all add: table_moves_def caches_kept_def stores_moved_def pm_AppendInsert_def pm_AppendRemove_def)

section \<open>The cache\<close>

lemma lru_InvalidateAll_max [simp]: "lc_max_cache_size (lru_InvalidateAll c) = lc_max_cache_size c"
  by (simp add: lru_InvalidateAll_def)

lemma push_key_max [simp]: "lc_max_cache_size (push_key key entry c) = lc_max_cache_size c"
  by (simp add: push_key_def)

lemma erase_it_max [simp]: "lc_max_cache_size (erase_it it c) = lc_max_cache_size c"
  by (simp add: erase_it_def)

lemma lru_Get_max: "lru_Get c key = (hit, c') \<Longrightarrow> lc_max_cache_size c' = lc_max_cache_size c"
  by (auto simp: lru_Get_def Let_def split: option.splits if_splits)

lemma lru_Store_max: "lru_Store c key entry = Some c' \<Longrightarrow> lc_max_cache_size c' = lc_max_cache_size c"
  by (auto simp: lru_Store_def Let_def split: option.splits if_splits list.splits)

lemma table_moves_invalidate:
  assumes "table_moves rl ins rem t e e'"
  shows "table_moves rl ins rem t e (invalidate_cache u e')"
proof (cases "contains (en_cache_map e') u")
  case True
  then obtain c where "map_of (en_cache_map e') u = Some c" by (auto simp: contains_def)
  with table_moves_cache [OF assms this, of "lru_InvalidateAll c"] assms show ?thesis by (simp add: invalidate_cache_alt)
qed (use assms in \<open>simp add: invalidate_cache_alt\<close>)

section \<open>Writes\<close>

lemma insert_step_moves:
  assumes "insert_step rl t i v content e = Some (ok, e')" and "contains (en_store_map e) t" and "finite_vec v" and "i \<in> ins"
  shows "table_moves rl ins rem t e e'"
proof -
  obtain s where s: "map_of (en_store_map e) t = Some s" using assms(2) by (auto simp: contains_def)
  let ?e = "upd_disk (pm_AppendInsert (mref (en_persistence_manager_map e) t) i v content) e"
  obtain s' where s': "store_Insert rl s i v content = Some (ok, s')"
    using assms(1) s by (auto simp: insert_step_def Let_def split: option.splits prod.splits if_splits)
  have "store_moves rl ins rem s s'" using store_moves.insert [OF store_moves.stay assms(4,3) s'] .
  then have "table_moves rl ins rem t e (set_store t s' ?e)"
    by (intro table_moves_store [OF table_moves_append(1), where s = s]) (simp_all add: s)
  then show ?thesis using assms(1) s s' by (auto simp: insert_step_def Let_def split: if_splits)
qed

lemma remove_step_moves:
  assumes "contains (en_store_map e) t" and "i \<in> rem"
  shows "table_moves rl ins rem t e (snd (remove_step t i e))"
proof -
  obtain s where s: "map_of (en_store_map e) t = Some s" using assms(1) by (auto simp: contains_def)
  let ?e = "upd_disk (pm_AppendRemove (mref (en_persistence_manager_map e) t) i) e"
  have "store_moves rl ins rem s (snd (store_Remove s i))" using store_moves.remove [OF store_moves.stay assms(2)] .
  then have "table_moves rl ins rem t e (set_store t (snd (store_Remove s i)) ?e)"
    by (intro table_moves_store [OF table_moves_append(2), where s = s]) (simp_all add: s)
  then show ?thesis using s by (cases "store_Remove s i") (auto simp: remove_step_def Let_def)
qed

lemma table_moves_contains: "table_moves rl ins rem t e e' \<Longrightarrow> contains (en_store_map e') t = contains (en_store_map e) t"
  by (auto simp: table_moves_def stores_moved_def contains_def option_rel_Some1 option_rel_Some2)

lemma insert_steps_moves:
  "insert_steps rl t xs e = Some (oks, e') \<Longrightarrow> contains (en_store_map e) t \<Longrightarrow>
   \<forall>(i, v, content) \<in> set xs. finite_vec v \<and> i \<in> ins \<Longrightarrow> table_moves rl ins rem t e e'"
proof (induction xs arbitrary: e oks)
  case (Cons x xs)
  obtain i v content where x: "x = (i, v, content)" by (cases x)
  obtain ok e1 oks' where s: "insert_step rl t i v content e = Some (ok, e1)" "insert_steps rl t xs e1 = Some (oks', e')"
    using Cons.prems(1) by (auto simp: x split: option.splits)
  have m: "table_moves rl ins rem t e e1"
    using insert_step_moves [OF s(1) Cons.prems(2)] Cons.prems(3) by (simp add: x)
  then have "table_moves rl ins rem t e1 e'"
    using Cons.IH [OF s(2)] Cons.prems(2,3) table_moves_contains by (simp add: x)
  with m show ?case by (rule table_moves_trans)
qed simp

lemma remove_steps_moves:
  "remove_steps t is e = (oks, e') \<Longrightarrow> contains (en_store_map e) t \<Longrightarrow> set is \<subseteq> rem \<Longrightarrow> table_moves rl ins rem t e e'"
proof (induction "is" arbitrary: e oks)
  case (Cons i "is")
  obtain ok e1 oks' where s: "remove_step t i e = (ok, e1)" "remove_steps t is e1 = (oks', e')"
    using Cons.prems by (auto split: prod.splits)
  have m: "table_moves rl ins rem t e e1" using remove_step_moves [of e t i] Cons.prems(2,3) s(1) by simp
  then have "table_moves rl ins rem t e1 e'"
    using Cons.IH [OF s(2)] Cons.prems(2,3) table_moves_contains by simp
  with m show ?case by (rule table_moves_trans)
qed simp

lemma engine_BatchInsert_moves:
  assumes "engine_BatchInsert rl e t xs = Some (oks, e')" and "\<forall>(i, v, content) \<in> set xs. finite_vec v"
  shows "table_moves rl (fst ` set xs) {} t e e'"
proof (cases "writable e t \<and> (\<forall>(i, v, content) \<in> set xs. ValidateInsert t i v content)")
  case False
  with assms(1) show ?thesis by (auto simp: engine_BatchInsert_def split: if_splits)
next
  case True
  then obtain e1 where e1: "insert_steps rl t xs e = Some (oks, e1)" "e' = invalidate_cache t e1"
    using assms(1) by (auto simp: engine_BatchInsert_def split: if_splits)
  have "contains (en_store_map e) t" using True by (simp add: writable_def)
  moreover have "\<forall>(i, v, content) \<in> set xs. finite_vec v \<and> i \<in> fst ` set xs" using assms(2) by force
  ultimately have "table_moves rl (fst ` set xs) {} t e e1" by (rule insert_steps_moves [OF e1(1)])
  then show ?thesis unfolding e1(2) by (rule table_moves_invalidate)
qed

lemma engine_BatchRemove_moves:
  assumes "engine_BatchRemove e t is = (oks, e')"
  shows "table_moves rl {} (set is) t e e'"
proof (cases "writable e t \<and> (\<forall>i \<in> set is. ValidateRemove t i)")
  case False
  with assms show ?thesis by (auto simp: engine_BatchRemove_def split: if_splits)
next
  case True
  then obtain e1 where e1: "remove_steps t is e = (oks, e1)" "e' = invalidate_cache t e1"
    using assms by (auto simp: engine_BatchRemove_def split: if_splits prod.splits)
  have "contains (en_store_map e) t" using True by (simp add: writable_def)
  then have "table_moves rl {} (set is) t e e1" by (rule remove_steps_moves [OF e1(1)]) simp
  then show ?thesis unfolding e1(2) by (rule table_moves_invalidate)
qed

section \<open>Searches\<close>

lemma engine_Search_moves:
  "engine_Search e latency t q k p = Some (r, e') \<Longrightarrow> table_moves rl {} {} t e e'"
  by (auto simp: engine_Search_def split: if_splits)

lemma engine_BatchSearch_moves:
  assumes "engine_BatchSearch H e ls t qs = Some (rs, e')"
  shows "table_moves rl {} {} t e e'"
proof (cases "searchable_table e t \<and> \<not> (\<exists>(q, k, p) \<in> set qs. \<not> ValidateSearch t q k p) \<and> md_use_cache (en_metadata e) \<and>
    contains (en_cache_map e) t")
  case False
  with assms show ?thesis by (auto simp: engine_BatchSearch_def run_batch_def split: if_splits)
next
  case True
  then obtain c where c: "map_of (en_cache_map e) t = Some c" by (auto simp: contains_def)
  obtain hit c1 where g: "lru_Get c (hash_key H qs) = (hit, c1)" by fastforce
  have m: "table_moves rl {} {} t e (set_cache t c1 e)" by (rule table_moves_cache [OF table_moves_refl c lru_Get_max [OF g]])
  show ?thesis
  proof (cases hit)
    case (Some entry)
    with True assms c g m show ?thesis unfolding engine_BatchSearch_def by (auto simp: Let_def split: if_splits)
  next
    case None
    let ?e = "upd_metrics t (metrics_Increment CACHE_MISS 1) (set_cache t c1 e)"
    obtain c2 where c2: "lru_Store c1 (hash_key H qs) (to_cache rs) = Some c2" "e' = set_cache t c2 (count_searches t ls ?e)"
      using True assms c g None unfolding engine_BatchSearch_def run_batch_def by (auto simp: Let_def split: if_splits option.splits)
    have "table_moves rl {} {} t e (count_searches t ls ?e)" using m by simp
    then show ?thesis unfolding c2(2) by (rule table_moves_cache [where c = c1]) (simp_all add: lru_Store_max [OF c2(1)])
  qed
qed

end
