(* ===== verification/Restartable.thy ===== *)
theory Restartable
  imports TableMoves
begin

text \<open>
  The tables in memory of a primary whose clients do not reuse ids: a shutdown can save them.
  Every request keeps them so.
\<close>

section \<open>Tables that can be saved\<close>

definition shape_of :: "table_config \<Rightarrow> int \<times> IndexType \<times> (HNSWIndexConfig + FlatIndexConfig)" where
  "shape_of c = (case c of (dim, hc, fc, cs) \<Rightarrow> (dim, if wants_hnsw hc then (HNSW, Inl hc) else (FLAT, Inr fc)))"

text \<open>One of the two configurations is empty: what the server and the metadata file give.\<close>

definition config_fine :: "level_fun \<Rightarrow> string \<Rightarrow> table_config \<Rightarrow> bool" where
  "config_fine rl t c \<longleftrightarrow> config_valid t c \<and> (case c of (dim, hc, fc, cs) \<Rightarrow>
     good_config rl dim hc fc \<and> cs \<noteq> 0 \<and> (if wants_hnsw hc then fc = default_flat_config else hc = default_hnsw_config))"

definition sound_store :: "Id set option \<Rightarrow> table_config \<Rightarrow> VectorStore \<Rightarrow> bool" where
  "sound_store dead c s \<longleftrightarrow> store_shape s = shape_of c \<and> tidy s \<and> clean_ids dead s"

definition table_sound :: "level_fun \<Rightarrow> Id set option \<Rightarrow> Engine \<Rightarrow> string \<Rightarrow> bool" where
  "table_sound rl dead e t \<longleftrightarrow> (\<exists>c s. config_fine rl t c \<and> sound_store dead c s \<and> map_of (en_store_map e) t = Some s \<and>
     map_of (en_persistence_manager_map e) t = Some \<lparr>pm_table_name = t, pm_stored_index_type = config_kind c\<rparr> \<and>
     map_option lc_max_cache_size (map_of (en_cache_map e) t) = Some (unat (snd (snd (snd c)))) \<and>
     tf_wal (files_of (en_disk e) t) \<noteq> None)"

lemma shape_configs:
  assumes "store_shape s = shape_of (dim, hc, fc, cs)" and "config_fine rl t (dim, hc, fc, cs)"
  shows "vs_vector_dimensionality s = dim" "store_configs s = (hc, fc)"
    "same_kind \<lparr>pm_table_name = t, pm_stored_index_type = config_kind (dim, hc, fc, cs)\<rparr> s"
  using assms by (auto simp: store_shape_def shape_of_def config_fine_def store_configs_def same_kind_def config_kind_def
      make_index_def split: if_splits Index.splits)

lemma sound_config:
  assumes "sound_store dead c s" and "config_fine rl t c" and "map_option lc_max_cache_size (map_of (en_cache_map e) t) = Some (unat (snd (snd (snd c))))"
  shows "saved_config e t s = c"
proof -
  obtain dim hc fc cs where c: "c = (dim, hc, fc, cs)" by (metis prod_cases4)
  note sh = shape_configs [of s dim hc fc cs rl t]
  show ?thesis using sh assms by (auto simp: c saved_config_def sound_store_def)
qed

lemma engine_loaded:
  assumes "engine_inv rl e" and "map_of (en_store_map e) t = Some s"
  shows "loaded rl e t s"
  using assms(1)
  by (cases rule: engine_inv_cases [of rl e t]) (use assms(2) in \<open>simp_all add: loaded_def table_inv_def contains_def\<close>)

lemma table_sound_shut:
  assumes "table_sound rl dead e t" and "engine_inv rl e"
  shows "shut_ok rl e t"
proof -
  obtain c s where s: "config_fine rl t c" "sound_store dead c s" "map_of (en_store_map e) t = Some s"
     "map_of (en_persistence_manager_map e) t = Some \<lparr>pm_table_name = t, pm_stored_index_type = config_kind c\<rparr>"
     "map_option lc_max_cache_size (map_of (en_cache_map e) t) = Some (unat (snd (snd (snd c))))"
     "tf_wal (files_of (en_disk e) t) \<noteq> None" using assms(1) unfolding table_sound_def by blast
  obtain dim hc fc cs where c: "c = (dim, hc, fc, cs)" by (metis prod_cases4)
  have l: "loaded rl e t s" using engine_loaded [OF assms(2) s(3)] .
  then have inv: "store_inv rl s" by (simp add: loaded_def)
  note sh = shape_configs [of s dim hc fc cs rl t]
  have "good_config rl (vs_vector_dimensionality s) (fst (store_configs s)) (snd (store_configs s))"
    using sh s(1,2) by (simp add: c sound_store_def) (simp add: config_fine_def)
  moreover have "config_valid t c" using s(1) by (simp add: config_fine_def)
  moreover have "saveable rl s" using s(2) by (intro clean_saveable [OF inv, where dead = dead]) (simp_all add: sound_store_def)
  moreover have "same_kind \<lparr>pm_table_name = t, pm_stored_index_type = config_kind c\<rparr> s"
    using sh(3) s(1,2) by (simp add: c sound_store_def)
  ultimately show ?thesis using l s sound_config [OF s(2,1,5)] unfolding shut_ok_def
    by (intro exI [of _ s] exI [of _ "\<lparr>pm_table_name = t, pm_stored_index_type = config_kind c\<rparr>"]) simp
qed

lemma table_sound_cong:
  assumes "table_sound rl dead e t" and "map_of (en_store_map e') t = map_of (en_store_map e) t"
    and "map_of (en_persistence_manager_map e') t = map_of (en_persistence_manager_map e) t"
    and "map_of (en_cache_map e') t = map_of (en_cache_map e) t" and "files_of (en_disk e') t = files_of (en_disk e) t"
  shows "table_sound rl dead e' t"
  using assms by (simp add: table_sound_def)

lemma table_sound_moves:
  assumes "table_sound rl dead e u" and "engine_inv rl e" and "table_moves rl ins rem t e e'"
    and "\<And>ids. u = t \<Longrightarrow> dead' = Some ids \<Longrightarrow> rem \<subseteq> ids \<and> ins \<inter> ids = {}"
    and "dead' = (if u = t then map_option ((\<union>) rem) dead else dead)"
  shows "table_sound rl dead' e' u"
proof -
  obtain c s where s: "config_fine rl u c" "sound_store dead c s" "map_of (en_store_map e) u = Some s"
     "map_of (en_persistence_manager_map e) u = Some \<lparr>pm_table_name = u, pm_stored_index_type = config_kind c\<rparr>"
     "map_option lc_max_cache_size (map_of (en_cache_map e) u) = Some (unat (snd (snd (snd c))))"
     "tf_wal (files_of (en_disk e) u) \<noteq> None" using assms(1) unfolding table_sound_def by blast
  note m = assms(3) [unfolded table_moves_def files_kept_def caches_kept_def stores_moved_def]
  have "\<exists>s'. map_of (en_store_map e') u = Some s' \<and> sound_store dead' c s'"
  proof (cases "u = t")
    case False
    with m s assms(5) show ?thesis by simp
  next
    case True
    then obtain s' where s': "map_of (en_store_map e') u = Some s'" "store_moves rl ins rem s s'"
      using m s(3) by (auto simp: option_rel_Some1)
    have "store_inv rl s" using engine_store_inv [OF assms(2) s(3)] .
    moreover have "clean_ids dead' s" using s(2) clean_ids_mono [of dead s rem] True assms(5) by (simp add: sound_store_def)
    ultimately have "clean_ids dead' s'" using store_moves_clean [OF s'(2)] assms(4) [OF True] by blast
    with s' s(2) store_moves_shape [OF s'(2)] show ?thesis by (simp add: sound_store_def)
  qed
  with s m show ?thesis unfolding table_sound_def by metis
qed

section \<open>Requests\<close>

text \<open>The ids a request may add to a table and those it may take away.\<close>

fun written_ids :: "Request \<Rightarrow> string \<times> Id set \<times> Id set" where
  "written_ids (ReqInsert r) = (ins_table r, {ins_id r}, {})"
| "written_ids (ReqBatchInsert r) = (bi_table r, fst ` set (records r), {})"
| "written_ids (ReqRemove r) = (rem_table r, {}, {rem_id r})"
| "written_ids (ReqBatchRemove r) = (br_table r, {}, set (br_id r))"
| "written_ids (ReqSearch r) = (sea_table r, {}, {})"
| "written_ids (ReqBatchSearch r) = (bs_table r, {}, {})"
| "written_ids _ = ([], {}, {})"

text \<open>
  The ids removed from each graph since it was made. One of them that comes back would stay in the
  graph as a removed node (\<open>reinserted_not_found\<close>), and the last one may leave it without an entry point.
\<close>

type_synonym removed = "string \<Rightarrow> Id set option"

fun dead_step :: "Request \<Rightarrow> database \<Rightarrow> removed \<Rightarrow> removed" where
  "dead_step (ReqCreateTable r) db dead =
     (case request_configs r of
        Inl message \<Rightarrow> dead
      | Inr (hc, fc) \<Rightarrow> if fst (db_create r db) then dead(ct_name r := (if wants_hnsw hc then Some {} else None)) else dead)"
| "dead_step (ReqDropTable t) db dead = dead"
| "dead_step r db dead = (case written_ids r of (t, ins, rem) \<Rightarrow> dead(t := map_option ((\<union>) rem) (dead t)))"

definition new_ids :: "Request \<Rightarrow> removed \<Rightarrow> bool" where
  "new_ids r dead \<longleftrightarrow> (case written_ids r of (t, ins, rem) \<Rightarrow> \<forall>ids. dead t = Some ids \<longrightarrow> ins \<inter> ids = {})"

lemma request_moves:
  assumes "serve rl H net l ls r (e, w) = Some (status, response, e', w')" and "loggable rl r"
    and "\<And>t. r \<noteq> ReqDropTable t" and "\<And>x. r \<noteq> ReqCreateTable x" and "written_ids r = (t, ins, rem)"
  shows "table_moves rl ins rem t e e'"
proof (cases r)
  case (ReqInsert x)
  with assms(1,2,5) engine_BatchInsert_moves [of rl e "ins_table x" "[(ins_id x, ins_vector x, ins_content x)]"]
  show ?thesis by (auto simp: serve_def server_Insert_def loggable_def engine_Insert_batch wal_stable_finite split: if_splits)
next
  case (ReqRemove x)
  with assms(1,5) engine_BatchRemove_moves [of e "rem_table x" "[rem_id x]"]
  show ?thesis by (auto simp: serve_def server_Remove_def engine_Remove_batch split: if_splits prod.splits)
next
  case (ReqBatchInsert x)
  have "\<forall>(i, v, content) \<in> set (records x). finite_vec v"
    using assms(2) ReqBatchInsert wal_stable_finite by (fastforce simp: loggable_def)
  with ReqBatchInsert assms(1,5) engine_BatchInsert_moves [of rl e "bi_table x" "records x"]
  show ?thesis by (auto simp: serve_def server_BatchInsert_def records_def split: if_splits)
next
  case (ReqBatchRemove x)
  with assms(1,5) engine_BatchRemove_moves [of e "br_table x" "br_id x"]
  show ?thesis by (auto simp: serve_def server_BatchRemove_def split: if_splits prod.splits)
next
  case (ReqSearch x)
  with assms(1,5) engine_Search_moves
  show ?thesis by (auto simp: serve_def server_Search_def split: if_splits)
next
  case (ReqBatchSearch x)
  with assms(1,5) engine_BatchSearch_moves
  show ?thesis by (auto simp: serve_def server_BatchSearch_def split: if_splits)
next
  case (ReqCreateTable x)
  with assms(4) show ?thesis by blast
next
  case (ReqDropTable x)
  with assms(3) show ?thesis by blast
next
  case (ReqStats x)
  with assms(1) show ?thesis by (cases "server_Stats x e") (simp add: serve_def)
next
  case (ReqMetrics x)
  with assms(1) show ?thesis by (cases "server_Metrics x e") (simp add: serve_def)
qed (use assms(1) in \<open>simp_all add: serve_def server_ListTables_def server_HealthCheck_def\<close>)

section \<open>An engine that can be restarted\<close>

definition restartable :: "level_fun \<Rightarrow> removed \<Rightarrow> Engine \<Rightarrow> bool" where
  "restartable rl dead e \<longleftrightarrow> distinct (keys (en_disk e)) \<and> distinct (keys (en_store_map e)) \<and>
     (\<forall>t. if contains (en_store_map e) t then table_sound rl (dead t) e t else unsaved (en_disk e) t)"

lemma restartable_moves:
  assumes "restartable rl dead e" and "engine_inv rl e" and "table_moves rl ins rem t e e'"
    and "\<And>ids. dead t = Some ids \<Longrightarrow> ins \<inter> (rem \<union> ids) = {}"
  shows "restartable rl (dead(t := map_option ((\<union>) rem) (dead t))) e'"
proof -
  let ?dead = "dead(t := map_option ((\<union>) rem) (dead t))"
  have c: "contains (en_store_map e') u = contains (en_store_map e) u" for u
    using assms(3) table_moves_contains [OF assms(3)]
    by (cases "u = t") (auto simp: table_moves_def stores_moved_def contains_def)
  have "table_sound rl (?dead u) e' u" if "contains (en_store_map e) u" for u
  proof (rule table_sound_moves [OF _ assms(2,3)])
    show "table_sound rl (dead u) e u" using assms(1) that by (metis restartable_def)
    show "?dead u = (if u = t then map_option ((\<union>) rem) (dead u) else dead u)" by simp
    show "rem \<subseteq> ids \<and> ins \<inter> ids = {}" if "u = t" "?dead u = Some ids" for ids using that assms(4) by auto
  qed
  moreover have "unsaved (en_disk e') u = unsaved (en_disk e) u" for u
    using assms(3) by (simp add: table_moves_def files_kept_def unsaved_def)
  ultimately show ?thesis using assms(1,3) c
    by (simp add: restartable_def table_moves_def files_kept_def stores_moved_def)
qed

text \<open>A new table.\<close>

lemma fresh_sound:
  assumes "config_fine rl t (dim, hc, fc, cs)"
  shows "sound_store (if wants_hnsw hc then Some {} else None) (dim, hc, fc, cs) (fresh_store (dim, hc, fc, cs))"
proof -
  have "index_vec (HnswIx (hnsw_new hc)) = Map.empty" by (simp add: hnsw_vec_def is_active_def hnsw_new_def fun_eq_iff)
  then show ?thesis
    by (simp add: sound_store_def fresh_store_def make_index_def store_new_def store_shape_def shape_of_def tidy_def clean_ids_def
        in_sync_def store_vec_def hnsw_containers_ok_def) (simp add: hnsw_new_def flat_new_def)
qed

lemma restartable_create:
  assumes "restartable rl dead e" and "engine_CreateTable e t dim hc fc cs = (ok, e')"
    and "good_config rl dim hc fc" and "ValidateCreateTable t dim hc fc (unat cs) \<Longrightarrow> config_fine rl t (dim, hc, fc, cs)"
  shows "restartable rl (if ok then dead(t := (if wants_hnsw hc then Some {} else None)) else dead) e'"
proof (cases "md_primary (en_metadata e) \<and> \<not> en_shutdown e \<and> ValidateCreateTable t dim hc fc (unat cs) \<and> table_absent e t")
  case False
  from engine_CreateTable_refused [OF this] assms(1,2) show ?thesis by simp
next
  case True
  let ?c = "(dim, hc, fc, cs)" and ?d = "if wants_hnsw hc then Some {} else None :: Id set option"
  obtain s where e': "ok" "only_table t e e'" "loaded rl e' t s" "s = fresh_store ?c" "map_of (en_cache_map e') t = Some (lru_new (unat cs))"
    "tf_wal (files_of (en_disk e') t) \<noteq> None"
    "map_of (en_persistence_manager_map e') t = Some \<lparr>pm_table_name = t, pm_stored_index_type = config_kind ?c\<rparr>"
    using engine_CreateTable_added [OF _ _ _ _ assms(3), of e t cs] True assms(2) by auto
  have cf: "config_fine rl t ?c" using assms(4) True by blast
  have new: "table_sound rl ?d e' t"
    using cf fresh_sound [OF cf] e' unfolding table_sound_def
    by (intro exI [of _ ?c] exI [of _ s]) (simp add: loaded_def lru_new_def)
  have ct: "contains (en_store_map e') t" using e'(3) by (auto simp: loaded_def contains_def)
  have "if contains (en_store_map e') u then table_sound rl ((dead(t := ?d)) u) e' u else unsaved (en_disk e') u" for u
  proof (cases "u = t")
    case True
    with new ct show ?thesis by simp
  next
    case False
    then have v: "table_view e' u = table_view e u" using e'(2) by (simp add: only_table_def)
    then have "contains (en_store_map e') u = contains (en_store_map e) u" "unsaved (en_disk e') u = unsaved (en_disk e) u"
      by (simp_all add: table_view_def contains_def unsaved_def)
    moreover have "table_sound rl (dead u) e u \<Longrightarrow> table_sound rl (dead u) e' u"
      using v by (elim table_sound_cong) (simp_all add: table_view_def)
    moreover have "if contains (en_store_map e) u then table_sound rl (dead u) e u else unsaved (en_disk e) u"
      using assms(1) unfolding restartable_def by blast
    ultimately show ?thesis using False by (simp split: if_splits)
  qed
  moreover have "distinct (keys (en_store_map e'))"
    using engine_CreateTable_maps(1) [of e t dim hc fc cs] assms(1,2) by (simp add: restartable_def)
  moreover have "distinct (keys (en_disk e'))" using assms(1) e'(2) by (simp add: restartable_def only_table_def)
  ultimately have "restartable rl (dead(t := ?d)) e'" unfolding restartable_def by blast
  with e'(1) show ?thesis by simp
qed

lemma restartable_dropped:
  assumes "restartable rl dead e" and "dropped t e e'"
  shows "restartable rl dead e'"
proof -
  have "if contains (en_store_map e') u then table_sound rl (dead u) e' u else unsaved (en_disk e') u" for u
  proof (cases "u = t")
    case True
    with assms(2) show ?thesis by (simp add: dropped_def unsaved_def no_files_def)
  next
    case False
    then have "contains (en_store_map e') u = contains (en_store_map e) u" "unsaved (en_disk e') u = unsaved (en_disk e) u"
      using assms(2) by (simp_all add: dropped_def unsaved_def)
    moreover have "table_sound rl (dead u) e u \<Longrightarrow> table_sound rl (dead u) e' u"
      using assms(2) False by (elim table_sound_cong) (simp_all add: dropped_def)
    moreover have "if contains (en_store_map e) u then table_sound rl (dead u) e u else unsaved (en_disk e) u"
      using assms(1) unfolding restartable_def by blast
    ultimately show ?thesis by (simp split: if_splits)
  qed
  with assms show ?thesis by (simp add: restartable_def dropped_def)
qed

lemma request_config_fine:
  assumes "loggable rl (ReqCreateTable r)" and "request_configs r = Inr (hc, fc)"
    and "ValidateCreateTable (ct_name r) (ct_vector_dimensionality r) hc fc (unat (ct_cache_size r))"
  shows "config_fine rl (ct_name r) (ct_vector_dimensionality r, hc, fc, ct_cache_size r)"
proof -
  have "admissible rl (ReqCreateTable r)" using assms(1) by (simp add: loggable_def)
  then have "good_config rl (ct_vector_dimensionality r) hc fc" by (rule request_configs_good(1) [OF assms(2)])
  moreover have "if wants_hnsw hc then fc = default_flat_config else hc = default_hnsw_config"
    using assms(2) by (auto simp: request_configs_def Let_def wants_hnsw_def default_hnsw_config_def unsigned_eq_0_iff
        split: RequestConfig.splits if_splits)
  moreover have "ct_cache_size r \<noteq> 0" using \<open>admissible rl (ReqCreateTable r)\<close> by (simp add: admissible_def)
  ultimately show ?thesis using request_config_valid [OF assms] by (simp add: config_fine_def)
qed

text \<open>A request keeps the engine so.\<close>

lemma life_create:
  assumes "restartable rl dead e" and "loggable rl (ReqCreateTable r)"
    and "server_CreateTable r e = (status, response, e')" and "db_answers (ReqCreateTable r) (db_of e) (status, response)"
  shows "restartable rl (dead_step (ReqCreateTable r) (db_of e) dead) e'"
proof (cases "request_configs r")
  case (Inl message)
  with assms show ?thesis by (simp add: server_CreateTable_def)
next
  case (Inr configs)
  obtain hc fc where c: "request_configs r = Inr (hc, fc)" using Inr by (cases configs) simp
  have "admissible rl (ReqCreateTable r)" using assms(2) by (simp add: loggable_def)
  note good = request_configs_good(1) [OF c this]
  obtain ok where ct: "engine_CreateTable e (ct_name r) (ct_vector_dimensionality r) hc fc (ct_cache_size r) = (ok, e')"
    "response = RespSuccessful ok" using assms(3) c by (auto simp: server_CreateTable_def split: prod.splits)
  then have "ok = fst (db_create r (db_of e))" using assms(4) c by simp
  with restartable_create [OF assms(1) ct(1) good request_config_fine [OF assms(2) c]] c show ?thesis by simp
qed

lemma dead_step_writes:
  assumes "\<And>t. r \<noteq> ReqDropTable t" and "\<And>x. r \<noteq> ReqCreateTable x" and "written_ids r = (t, ins, rem)"
  shows "dead_step r db dead = dead(t := map_option ((\<union>) rem) (dead t))"
  using assms by (cases r) auto

text \<open>
  Its graphs are in step with the stores: a search of a table that holds a record finds one, when it
  asks for results and may look at candidates.
\<close>

definition finds :: "Request \<Rightarrow> database \<Rightarrow> Status \<times> Response \<Rightarrow> bool" where
  "finds r db a \<longleftrightarrow> (case r of
       ReqSearch q \<Rightarrow> (case known db (sea_table q) of
           None \<Rightarrow> True
         | Some (dim, flat, m) \<Rightarrow> m \<noteq> Map.empty \<and> length (qu_query q) = dim \<and> qu_query q \<noteq> [] \<and> qu_k q \<noteq> 0 \<and>
             qu_search_parameter q \<noteq> 0 \<longrightarrow> a \<noteq> (StatusOK, RespData []))
     | _ \<Rightarrow> True)"

lemma life_finds:
  assumes "serving rl e" and "restartable rl dead e" and "loggable rl r"
    and "serve rl H net l ls r (e, w) = Some (fst a, snd a, e', w')"
  shows "finds r (db_of e) a"
proof (cases r)
  case (ReqSearch q)
  show ?thesis
  proof (cases "known (db_of e) (sea_table q)")
    case None
    with ReqSearch show ?thesis by (simp add: finds_def)
  next
    case (Some table)
    let ?t = "sea_table q"
    have t: "?t \<noteq> []" "db_of e ?t = Some table" using Some by (simp_all add: known_def split: if_splits)
    from assms(1) obtain s where s: "map_of (en_store_map e) ?t = Some s" "table = (store_dim s, flat_store s, store_data s)"
      "searchable_table e ?t" by (cases rule: serving_cases [of rl e ?t]) (use t(2) in auto)
    have inv: "store_inv rl s" using engine_store_inv [OF _ s(1)] assms(1) by (simp add: serving_def)
    have "table_sound rl (dead ?t) e ?t" using assms(2) s(1) unfolding restartable_def contains_def by (metis option.distinct(1))
    then have sync: "in_sync s" using s(1) clean_ids_sync [OF inv] by (auto simp: table_sound_def sound_store_def)
    have fq: "finite_vec (qu_query q)" using assms(3) ReqSearch by (simp add: loggable_def admissible_def)
    have "a \<noteq> (StatusOK, RespData [])"
      if nonempty: "store_data s \<noteq> Map.empty" "length (qu_query q) = store_dim s" "qu_query q \<noteq> []" "qu_k q \<noteq> 0" "qu_search_parameter q \<noteq> 0"
    proof -
      have pos: "0 < unat (qu_k q)" "0 < unat (qu_search_parameter q)" using nonempty(4,5) by (simp_all add: unat_gt_0)
      then obtain r' where r': "store_Search s (qu_query q) (unat (qu_k q)) (unat (qu_search_parameter q)) = Some r'"
        "a = (StatusOK, RespData (add_data r'))"
        using assms(4) ReqSearch t(1) s(1,3) nonempty(3)
        by (cases a) (auto simp: serve_def server_Search_def engine_Search_def ValidateSearch_def split: if_splits)
      have "vs_store s \<noteq> []" using nonempty(1) by (auto simp: store_data_def)
      from store_Search_finds [OF inv sync this fq nonempty(2) pos r'(1)] r'(2) show ?thesis by (simp add: add_data_def)
    qed
    then show ?thesis using Some s(2) ReqSearch by (simp add: finds_def)
  qed
qed (simp_all add: finds_def)

lemma life_step:
  fixes net :: "'w Net" and w :: 'w
  assumes "orderly rl e" and "serving rl e" and "restartable rl dead e" and "caches_right H Q e"
    and "loggable rl r" and "new_ids r dead"
  shows "\<exists>a e' w'. serve rl H net l ls r (e, w) = Some (fst a, snd a, e', w') \<and> serves rl r e a e' \<and> orderly rl e' \<and>
    restartable rl (dead_step r (db_of e) dead) e' \<and> right_answer H Q r (db_of e) a \<and> finds r (db_of e) a \<and> caches_right H (asked_by r \<union> Q) e'"
proof (cases "\<exists>t. r = ReqDropTable t")
  case True
  then obtain t where r: "r = ReqDropTable t" by blast
  from serve_drop [OF assms(1,2), of H net l ls t w] obtain a e' w' where
    "serve rl H net l ls r (e, w) = Some (fst a, snd a, e', w')" "serves rl r e a e'" "orderly rl e'" "e' = e \<or> dropped t e e'"
    unfolding r by blast
  moreover have "restartable rl dead e'" using calculation(4) assms(3) restartable_dropped by blast
  moreover have "caches_right H Q e'" using calculation(4) assms(4) dropped_caches by blast
  moreover have "right_answer H Q r (db_of e) a" "finds r (db_of e) a"
    using calculation(2) by (simp_all add: r right_answer_def serves_def finds_def)
  ultimately show ?thesis by (intro exI [of _ a] exI [of _ e'] exI [of _ w']) (simp add: r)
next
  case False
  from session_step [OF assms(1,2,4,5), of net l ls w] obtain a e' w' where
    s: "serve rl H net l ls r (e, w) = Some (fst a, snd a, e', w')" "serves rl r e a e'" "orderly rl e'"
      "right_answer H Q r (db_of e) a" "caches_right H (asked_by r \<union> Q) e'" by blast
  have "restartable rl (dead_step r (db_of e) dead) e'"
  proof (cases "\<exists>x. r = ReqCreateTable x")
    case True
    then obtain x where r: "r = ReqCreateTable x" by blast
    obtain b c d where ct: "server_CreateTable x e = (b, c, d)" by (metis prod_cases3)
    then have "fst a = b" "snd a = c" "e' = d" using s(1) by (simp_all add: serve_def r)
    moreover have "db_answers r (db_of e) a" using s(2) by (simp add: serves_def)
    ultimately show ?thesis using life_create [OF assms(3) _ ct] assms(5) unfolding r by (metis prod.collapse)
  next
    case nc: False
    obtain t ins rem where wr: "written_ids r = (t, ins, rem)" by (metis prod_cases3)
    have m: "table_moves rl ins rem t e e'" by (rule request_moves [OF s(1) assms(5) _ _ wr]) (use False nc in blast)+
    have "ins \<inter> (rem \<union> ids) = {}" if "dead t = Some ids" for ids
    proof -
      have "ins = {} \<or> rem = {}" using wr by (cases r) auto
      moreover have "ins \<inter> ids = {}" using assms(6) wr that by (simp add: new_ids_def)
      ultimately show ?thesis by blast
    qed
    from restartable_moves [OF assms(3) _ m this] assms(2) dead_step_writes [OF _ _ wr] False nc
    show ?thesis by (simp add: serving_def)
  qed
  with s life_finds [OF assms(2,3,5) s(1)] show ?thesis by blast
qed

end
