(* ===== verification/Lifetimes.thy ===== *)
theory Lifetimes
  imports Restartable
begin

text \<open>
  A primary over several lives: sessions of requests, ended by shutdowns that save every table and
  starts that load them again.
\<close>

section \<open>Loading a table\<close>

text \<open>What a clean shutdown leaves of a table: the store it saved, its configuration, an empty log.\<close>

definition restorable :: "level_fun \<Rightarrow> Id set option \<Rightarrow> disk \<Rightarrow> string \<Rightarrow> VectorStore \<Rightarrow> bool" where
  "restorable rl dead d t s \<longleftrightarrow> (\<exists>c. disk_config d t = Some c \<and> config_fine rl t c \<and> base_store t c d = s \<and>
     store_inv rl s \<and> sound_store dead c s \<and> length (vs_store s) < 2 ^ 31 \<and> tf_wal (files_of d t) = Some [])"

lemma restorable_files: "files_of d' t = files_of d t \<Longrightarrow> restorable rl dead d' t s = restorable rl dead d t s"
  using same_saved_base [of t d d'] by (simp add: restorable_def same_saved_def)

lemma live_count_loaded:
  assumes "n < 2 ^ 31"
  shows "live_count (stats_Set VECTOR (int_of_size n) (stats_SetModifiedFlag b stats_new)) = of_nat n"
  using int_of_size_small [OF assms]
  by (simp add: live_count_def stats_Set.simps stats_SetModifiedFlag_def stats_new_def empty_stats_def)

text \<open>The only entry of the log is the table's creation, which the replay finds done.\<close>

lemma replay_create:
  fixes net :: "'w Net" and w :: 'w
  assumes "is_create c t ce" and "loaded rl e t s"
  shows "for_each (replay_entry rl net) ([] @ [ce]) (e, w) = Some (e, w)"
  using assms loaded_not_absent [OF assms(2)]
  by (simp add: replay_entry_def is_create_def engine_ApplyWALEntry_def engine_CreateTable_exists
      engine_CreateTableOnReplica_exists split: prod.splits)

definition reloaded :: "level_fun \<Rightarrow> Id set option \<Rightarrow> string \<Rightarrow> VectorStore \<Rightarrow> Engine \<Rightarrow> bool" where
  "reloaded rl dead t s e \<longleftrightarrow> table_sound rl dead e t \<and> readable rl e t \<and> map_of (en_store_map e) t = Some s \<and>
     (\<exists>n > 0. map_of (en_cache_map e) t = Some (lru_new n))"

lemma reloaded_view:
  assumes "reloaded rl dead t s e" and "table_view e' t = table_view e t"
  shows "reloaded rl dead t s e'"
proof -
  have "map_of (en_store_map e') t = map_of (en_store_map e) t" "files_of (en_disk e') t = files_of (en_disk e) t"
    "map_of (en_persistence_manager_map e') t = map_of (en_persistence_manager_map e) t"
    "map_of (en_cache_map e') t = map_of (en_cache_map e) t" "contains (en_stats_manager_map e') t = contains (en_stats_manager_map e) t"
    using assms(2) by (simp_all add: table_view_def contains_def)
  with assms(1) table_sound_cong [of rl dead e t e'] show ?thesis by (auto simp: reloaded_def readable_def loaded_def wal_of_def)
qed

definition distinct_maps :: "Engine \<Rightarrow> bool" where
  "distinct_maps e \<longleftrightarrow> distinct (keys (en_disk e)) \<and> distinct (keys (en_store_map e)) \<and> distinct (keys (en_persistence_manager_map e))"

lemma restore_clean:
  fixes net :: "'w Net" and w :: 'w
  assumes "restorable rl dead (en_disk e) t s" and "table_absent e t" and "serving rl e" and "distinct_maps e"
  shows "\<exists>e'. restore_table rl net junk t (e, w) = Some (e', w) \<and> reloaded rl dead t s e' \<and> serving rl e' \<and> distinct_maps e' \<and>
    (\<forall>u. u \<noteq> t \<longrightarrow> table_view e' u = table_view e u)"
proof -
  obtain c where c: "disk_config (en_disk e) t = Some c" "config_fine rl t c" "base_store t c (en_disk e) = s"
    "store_inv rl s" "sound_store dead c s" "length (vs_store s) < 2 ^ 31" "tf_wal (files_of (en_disk e) t) = Some []"
    using assms(1) unfolding restorable_def by blast
  have wal: "wal_of (en_disk e) t = []" using c(7) by (simp add: wal_of_def)
  have v: "config_valid t c" using c(2) by (simp add: config_fine_def)
  have inv: "engine_inv rl e" and prim: "md_primary (en_metadata e)" "\<not> en_shutdown e" using assms(3) by (simp_all add: serving_def)
  have sinv: "store_inv rl (base_store t c (en_disk e))" using c(3,4) by simp
  have ends: "terminated (wal_of (en_disk e) t)" and log: "wal_entries (config_kind c) t (wal_of (en_disk e) t) = Some []"
    by (simp_all add: wal terminated_def wal_entries_Nil)
  obtain ce e2 where ce: "is_create c t ce" and r: "restoring rl t c e e2"
    and restore: "restore_table rl net junk t (e, w) =
      map_option (\<lambda>(e3, w'). (upd_stats t (stats_Set VECTOR (int_of_size (length (vs_store (mref (en_store_map e3) t))))) e3, w'))
        (for_each (replay_entry rl net) ([] @ [ce]) (e2, w))"
    using restore_table_begins [OF c(1) v sinv ends log assms(2) prim, of net junk w] by blast
  note r = r [unfolded restoring_def c(3)]
  define e' where "e' = upd_stats t (stats_Set VECTOR (int_of_size (length (vs_store s)))) e2"
  have s2: "map_of (en_store_map e2) t = Some s" using r by (simp add: loaded_def)
  have res: "restore_table rl net junk t (e, w) = Some (e', w)"
    using restore replay_create [OF ce, of rl e2 s net w] r s2 by (simp add: e'_def)
  obtain me where me: "map_of (en_metrics_manager_map e2) t = Some me" using r by (auto simp: table_exists_def contains_def)
  have same: "\<forall>u. u \<noteq> t \<longrightarrow> table_view e' u = table_view e u" using r by (simp add: e'_def table_view_def)
  obtain dim hc fc cs where cc: "c = (dim, hc, fc, cs)" by (metis prod_cases4)
  have kind: "same_kind \<lparr>pm_table_name = t, pm_stored_index_type = config_kind c\<rparr> s"
    using shape_configs(3) [of s dim hc fc cs rl t] c(2,5) by (simp add: cc sound_store_def)
  have cs: "0 < unat (snd (snd (snd c)))" using c(2) by (simp add: cc config_fine_def unat_gt_0)
  note cache = lru_inv_new [OF cs]
  have "view_inv rl t (table_view e' t)"
    using r s2 me c(4,6) kind cache live_count_loaded [OF c(6), of True] by (simp add: view_inv_def table_view_def e'_def table_inv_def)
  with engine_inv_upd [OF inv same] have inv': "engine_inv rl e'" by blast
  have line: "newline \<notin> set (config_line c)" "parse_line (config_kind c) t (config_line c) = Some ce"
    using v ce by (simp_all add: config_valid_def is_create_def)
  have w': "wal_of (en_disk e') t = [] @ config_line c @ [newline]" "tf_wal (files_of (en_disk e') t) \<noteq> None"
    using r wal by (simp_all add: e'_def wal_of_def)
  have "wal_entries (config_kind c) t (wal_of (en_disk e') t) = Some ([] @ [ce])" "terminated (wal_of (en_disk e') t)"
    unfolding w'(1) using wal_entries_line [OF _ line(1) wal_entries_Nil line(2)] by (simp add: terminated_def) (rule terminated_append)
  moreover have "map_of (en_persistence_manager_map e') t = Some \<lparr>pm_table_name = t, pm_stored_index_type = config_kind c\<rparr>"
    "loaded rl e' t s" using r c(4) s2 by (simp_all add: e'_def loaded_def)
  moreover have "map_of (en_cache_map e') t = Some (lru_new (unat (snd (snd (snd c)))))" using r by (simp add: e'_def)
  moreover note cs
  ultimately have "table_sound rl dead e' t" "readable rl e' t" "map_of (en_store_map e') t = Some s"
      "\<exists>n > 0. map_of (en_cache_map e') t = Some (lru_new n)"
    using c(2,5) w'(2) by (auto simp: readable_def loaded_def lru_new_def table_sound_def simp del: split_paired_Ex intro!: exI [of _ c])
  then have "reloaded rl dead t s e'" by (simp add: reloaded_def)
  moreover have "serving rl e'" "distinct_maps e'" using inv' prim r assms(4) by (simp_all add: e'_def serving_def distinct_maps_def)
  ultimately show ?thesis using res same by blast
qed

text \<open>All the tables on disk; those that were never saved stay out.\<close>

lemma restore_all:
  fixes net :: "'w Net" and w :: 'w
  assumes "distinct ts" and "\<forall>t \<in> set ts. \<not> unsaved (en_disk e) t \<longrightarrow> restorable rl (dead t) (en_disk e) t (st t) \<and> table_absent e t"
    and "serving rl e" and "distinct_maps e"
  shows "\<exists>e'. for_each (restore_table rl net junk) ts (e, w) = Some (e', w) \<and> serving rl e' \<and> distinct_maps e' \<and>
    (\<forall>t \<in> set ts. \<not> unsaved (en_disk e) t \<longrightarrow> reloaded rl (dead t) t (st t) e') \<and>
    (\<forall>u. (u \<in> set ts \<longrightarrow> unsaved (en_disk e) u) \<longrightarrow> table_view e' u = table_view e u)"
  using assms
proof (induction ts arbitrary: e)
  case (Cons t ts)
  show ?case
  proof (cases "unsaved (en_disk e) t")
    case True
    from Cons.IH [of e] Cons.prems restore_unsaved [OF True, of rl net junk w] True show ?thesis by auto
  next
    case saved: False
    then have t: "restorable rl (dead t) (en_disk e) t (st t)" "table_absent e t" "t \<notin> set ts" using Cons.prems(1,2) by simp_all
    from restore_clean [OF t(1,2) Cons.prems(3,4), of net junk w] obtain e1 where
      e1: "restore_table rl net junk t (e, w) = Some (e1, w)" "reloaded rl (dead t) t (st t) e1" "serving rl e1" "distinct_maps e1"
      and v1: "\<And>u. u \<noteq> t \<Longrightarrow> table_view e1 u = table_view e u" by blast
    have files: "files_of (en_disk e1) u = files_of (en_disk e) u" if "u \<noteq> t" for u
      using v1 [OF that] by (simp add: table_view_def)
    then have un: "unsaved (en_disk e1) u = unsaved (en_disk e) u" if "u \<noteq> t" for u using that by (simp add: unsaved_def)
    have nt: "u \<noteq> t" if "u \<in> set ts" for u using that t(3) by auto
    have "\<forall>u \<in> set ts. \<not> unsaved (en_disk e1) u \<longrightarrow> restorable rl (dead u) (en_disk e1) u (st u) \<and> table_absent e1 u"
      using Cons.prems(2) restorable_files [OF files [OF nt]] table_absent_view [OF v1 [OF nt]] un [OF nt] by simp
    with Cons.IH [OF _ _ e1(3,4)] Cons.prems(1) obtain e' where
      e': "for_each (restore_table rl net junk) ts (e1, w) = Some (e', w)" "serving rl e'" "distinct_maps e'"
      "\<forall>u \<in> set ts. \<not> unsaved (en_disk e1) u \<longrightarrow> reloaded rl (dead u) u (st u) e'"
      "\<And>u. (u \<in> set ts \<longrightarrow> unsaved (en_disk e1) u) \<Longrightarrow> table_view e' u = table_view e1 u" by auto
    have "reloaded rl (dead t) t (st t) e'" using t(3) by (intro reloaded_view [OF e1(2)] e'(5)) simp
    moreover have "table_view e' u = table_view e u" if u: "u \<in> set (t # ts) \<longrightarrow> unsaved (en_disk e) u" for u
    proof -
      have "u \<noteq> t" using u saved by auto
      with u e'(5) [of u] v1 [of u] un [of u] show ?thesis by simp
    qed
    ultimately show ?thesis using e' e1(1) un nt by (intro exI [of _ e']) simp
  qed
qed simp

section \<open>Shutdown and start\<close>

lemma fresh_store_inv:
  assumes "config_fine rl t c"
  shows "store_inv rl (fresh_store c)"
proof -
  obtain dim hc fc cs where c: "c = (dim, hc, fc, cs)" by (metis prod_cases4)
  obtain it stored ix where mi: "make_index hc fc = (it, stored, ix)" by (metis prod_cases3)
  have "good_config rl dim hc fc" using assms by (simp add: c config_fine_def)
  from store_inv_new(1) [OF this mi] show ?thesis by (simp add: fresh_store_def c mi)
qed

lemma sound_Cleanup:
  assumes "sound_store dead c s" and "store_inv rl s" and "store_Cleanup rl s b = Some s'"
  shows "sound_store dead c s'"
  using assms store_Cleanup_shape [OF assms(3)] store_Cleanup_clean [OF assms(2) _ assms(3)] by (simp add: sound_store_def)

text \<open>An emptied table comes back as a new one, which forgets what was removed.\<close>

lemma sound_fresh:
  assumes "sound_store dead c s" and "config_fine rl t c"
  shows "sound_store dead c (fresh_store c)"
proof -
  obtain dim hc fc cs where c: "c = (dim, hc, fc, cs)" by (metis prod_cases4)
  note f = fresh_sound [OF assms(2) [unfolded c]]
  show ?thesis
  proof (cases "wants_hnsw hc")
    case False
    then have "\<exists>f. vs_index (fresh_store c) = FlatIx f" by (simp add: fresh_store_def make_index_def store_new_def c)
    with f show ?thesis by (auto simp: sound_store_def clean_ids_def c)
  next
    case True
    then have "\<exists>h. vs_index s = HnswIx h" using assms(1)
      by (auto simp: sound_store_def store_shape_def shape_of_def c split: Index.splits)
    then obtain ids where "dead = Some ids" using assms(1) by (auto simp: sound_store_def clean_ids_def)
    with True f clean_ids_mono [of "Some {}" "fresh_store c" ids] show ?thesis by (simp add: sound_store_def c)
  qed
qed

lemma shape_dim: "store_shape s' = store_shape s \<Longrightarrow> store_dim s' = store_dim s \<and> flat_store s' = flat_store s"
  by (auto simp: store_shape_def store_dim_def flat_store_def split: Index.splits)

lemma saved_restorable:
  assumes "saved_store rl e t d" and "table_sound rl dead e t" and "wal_of d t = []" and "map_of (en_store_map e) t = Some s"
    and "length (vs_store s) < 2 ^ 31"
  shows "\<exists>s'. restorable rl dead d t s' \<and> store_data s' = store_data s \<and> store_dim s' = store_dim s \<and>
    flat_store s' = flat_store s"
proof -
  obtain s0 s1 where s0: "map_of (en_store_map e) t = Some s0" and s1: "store_inv rl s0" "store_inv rl s1"
    "s1 = s0 \<or> (\<exists>b. store_Cleanup rl s0 b = Some s1)" "vs_store s1 = vs_store s0"
    "disk_config d t = Some (saved_config e t s0)" "tf_wal (files_of d t) \<noteq> None"
    "base_store t (saved_config e t s0) d = (if vs_store s1 = [] then fresh_store (saved_config e t s0) else s1)"
    using assms(1) unfolding saved_store_def loaded_def by blast
  have "s0 = s" using s0 assms(4) by simp
  note s1 = s1 [unfolded this]
  obtain c where c: "config_fine rl t c" "sound_store dead c s"
    "map_option lc_max_cache_size (map_of (en_cache_map e) t) = Some (unat (snd (snd (snd c))))"
    using assms(2,4) unfolding table_sound_def by auto
  note cc = sound_config [OF c(2,1,3)]
  let ?s = "if vs_store s1 = [] then fresh_store c else s1"
  have sound1: "sound_store dead c s1" using s1(1,3) c(2) sound_Cleanup by blast
  then have "sound_store dead c ?s" "store_inv rl ?s" using sound_fresh [OF sound1 c(1)] fresh_store_inv [OF c(1)] s1(2) by simp_all
  moreover have fr: "vs_store (fresh_store c) = []" by (simp add: fresh_store_def store_new_def split: prod.splits)
  then have vs: "vs_store ?s = vs_store s" using s1(4) by simp
  moreover have "tf_wal (files_of d t) = Some []" using s1(6) assms(3) by (auto simp: wal_of_def)
  ultimately have "restorable rl dead d t ?s" using s1(5,7) c(1) assms(5) by (simp add: restorable_def cc)
  moreover have "store_data ?s = store_data s" by (rule store_data_same [OF vs])
  moreover have "store_dim ?s = store_dim s \<and> flat_store ?s = flat_store s"
    using \<open>sound_store dead c ?s\<close> c(2) by (intro shape_dim) (simp add: sound_store_def)
  ultimately show ?thesis by blast
qed

text \<open>The number of records, which the constructor of the engine stores as an \<open>int\<close>.\<close>

definition small_tables :: "database \<Rightarrow> bool" where
  "small_tables db \<longleftrightarrow> (\<forall>t dim flat m. db t = Some (dim, flat, m) \<longrightarrow> card (dom m) < 2 ^ 31)"

lemma card_store_data: "distinct (keys (vs_store s)) \<Longrightarrow> card (dom (store_data s)) = length (vs_store s)"
  using distinct_card [of "keys (vs_store s)"] dom_map_of_conv_image_fst [of "vs_store s"] by (simp add: store_data_def)

lemma small_stores:
  assumes "small_tables (db_of e)" and "engine_inv rl e" and "map_of (en_store_map e) t = Some s"
  shows "length (vs_store s) < 2 ^ 31"
proof -
  have "distinct (keys (vs_store s))" using engine_store_inv [OF assms(2,3)] by (simp add: store_inv_def)
  moreover have "db_of e t = Some (store_dim s, flat_store s, store_data s)" using assms(3) by (simp add: db_of_def)
  ultimately show ?thesis using assms(1) card_store_data unfolding small_tables_def by metis
qed

lemma restart_step:
  fixes net :: "'w Net" and w :: 'w
  assumes "orderly rl e" and "serving rl e" and "restartable rl dead e" and "small_tables (db_of e)" and "md_primary md"
  shows "\<exists>e1 w1 e2. engine_shutdown rl net latency (e, w) = Some (e1, w1) \<and>
    engine_start rl net junk md (en_disk e1) w1 = Some (e2, w1) \<and> orderly rl e2 \<and> serving rl e2 \<and>
    restartable rl dead e2 \<and> db_of e2 = db_of e \<and> caches_right H Q e2"
proof -
  have inv: "engine_inv rl e" using assms(2) by (simp add: serving_def)
  note r = assms(3) [unfolded restartable_def]
  have sound: "table_sound rl (dead t) e t" if "contains (en_store_map e) t" for t using r that by metis
  have "\<forall>t. if contains (en_store_map e) t then shut_ok rl e t else unsaved (en_disk e) t"
    using r table_sound_shut [OF sound inv] by metis
  from shutdown_settled [OF _ _ this orderly_logs [OF assms(1) inv], of net latency w] r obtain e1 w1 where
    e1: "engine_shutdown rl net latency (e, w) = Some (e1, w1)" "settled rl e1"
    "\<And>t. contains (en_store_map e) t \<Longrightarrow> \<not> unsaved (en_disk e1) t \<and> wal_of (en_disk e1) t = [] \<and> saved_store rl e t (en_disk e1)"
    "\<And>t. \<not> contains (en_store_map e) t \<Longrightarrow> files_of (en_disk e1) t = files_of (en_disk e) t" by blast
  let ?d = "en_disk e1"
  have d: "distinct (keys ?d)" using e1(2) by (simp add: settled_def)
  have un: "unsaved ?d t \<longleftrightarrow> \<not> contains (en_store_map e) t" for t
    using e1(3,4) [of t] r by (cases "contains (en_store_map e) t") (simp, metis unsaved_def)
  have "\<exists>s'. contains (en_store_map e) t \<longrightarrow> restorable rl (dead t) ?d t s' \<and> db_of e t = Some (store_dim s', flat_store s', store_data s')" for t
  proof (cases "contains (en_store_map e) t")
    case True
    then obtain s where s: "map_of (en_store_map e) t = Some s" by (auto simp: contains_def)
    from saved_restorable [OF _ sound [OF True] _ s small_stores [OF assms(4) inv s]] e1(3) [OF True] s show ?thesis
      by (fastforce simp: db_of_def)
  qed simp
  then obtain st where st: "\<And>t. contains (en_store_map e) t \<Longrightarrow>
      restorable rl (dead t) ?d t (st t) \<and> db_of e t = Some (store_dim (st t), flat_store (st t), store_data (st t))" by metis
  let ?e = "engine_init md ?d"
  have init: "table_absent ?e t" "en_disk ?e = ?d" "serving rl ?e" "distinct_maps ?e" for t
    using assms(5) d engine_inv_init [of rl md ?d]
    by (simp_all add: table_absent_def serving_def distinct_maps_def) (simp_all add: engine_init_def)
  have on: "t \<in> set (tables_on_disk ?d)" if "contains (en_store_map e) t" for t
  proof -
    have "restorable rl (dead t) ?d t (st t)" using st [OF that] ..
    then obtain c where "config_valid t c" "tf_wal (files_of ?d t) \<noteq> None"
      unfolding restorable_def config_fine_def by auto
    then show ?thesis by (cases c) (auto simp: tables_on_disk_iff [OF d] config_valid_def ValidateCreateTable_iff)
  qed
  have "distinct (tables_on_disk ?d)" using d by (auto simp: tables_on_disk_def distinct_map inj_on_def)
  from restore_all [OF this _ init(3,4), of dead st net junk w1] st init(1,2) un obtain e2 where
    e2: "engine_start rl net junk md ?d w1 = Some (e2, w1)" "serving rl e2" "distinct_maps e2"
    "\<forall>t \<in> set (tables_on_disk ?d). contains (en_store_map e) t \<longrightarrow> reloaded rl (dead t) t (st t) e2"
    "\<And>u. (u \<in> set (tables_on_disk ?d) \<longrightarrow> \<not> contains (en_store_map e) u) \<Longrightarrow> table_view e2 u = table_view ?e u"
    by (auto simp: engine_start_def)
  have there: "reloaded rl (dead t) t (st t) e2" if "contains (en_store_map e) t" for t using e2(4) on [OF that] that by blast
  have away: "map_of (en_store_map e2) t = None \<and> files_of (en_disk e2) t = files_of (en_disk e) t" if "\<not> contains (en_store_map e) t" for t
    using e2(5) [of t] e1(4) [OF that] that by (simp add: table_view_def engine_init_def)
  have c: "contains (en_store_map e2) t = contains (en_store_map e) t" for t
    using there [of t] away [of t] by (cases "contains (en_store_map e) t") (simp_all add: reloaded_def contains_def)
  have "clean_log rl e t" for t using assms(1) by (simp add: orderly_def)
  then have "clean_log rl e2 t" for t
    using there [of t] away [of t] c [of t] unfolding clean_log_def reloaded_def wal_of_def by metis
  then have "orderly rl e2" using e2(3) by (simp add: orderly_def distinct_maps_def)
  moreover have "if contains (en_store_map e2) t then table_sound rl (dead t) e2 t else unsaved (en_disk e2) t" for t
    using there [of t] away [of t] c [of t] un [of t] e1(4) [of t] by (auto simp: reloaded_def unsaved_def)
  then have "restartable rl dead e2" using e2(3) unfolding restartable_def distinct_maps_def by blast
  moreover have "db_of e2 t = db_of e t" for t
    using there [of t] away [of t] st [of t] by (cases "contains (en_store_map e) t") (auto simp: reloaded_def db_of_def contains_def)
  moreover have "cache_right H (asked_of Q t) e2 t" if "contains (en_store_map e2) t" for t
    using there [of t] c [of t] that cache_right_new by (auto simp: reloaded_def)
  then have "caches_right H Q e2" by (simp add: caches_right_def)
  ultimately show ?thesis using e1(1) e2(1,2) by blast
qed

section \<open>Lives\<close>

text \<open>
  A client's request, with the latencies its searches are charged, or the end of the process by a
  clean shutdown, with the latency its cleanups are charged, and a new process on the same directory.
\<close>

datatype Event = Client f32 "f32 list" Request | Restart f32

fun run_life :: "level_fun \<Rightarrow> (f32 \<Rightarrow> u64) \<Rightarrow> 'w Net \<Rightarrow> int \<times> u64 \<Rightarrow> Metadata \<Rightarrow> Event list \<Rightarrow> Engine \<times> 'w \<Rightarrow>
    ((Status \<times> Response) list \<times> Engine \<times> 'w) option" where
  "run_life rl H net junk md [] ew = Some ([], ew)"
| "run_life rl H net junk md (Client l ls r # events) ew =
     (case serve rl H net l ls r ew of
        None \<Rightarrow> None
      | Some (status, response, ew') \<Rightarrow>
          map_option (\<lambda>(answers, ew''). ((status, response) # answers, ew'')) (run_life rl H net junk md events ew'))"
| "run_life rl H net junk md (Restart latency # events) ew =
     (case engine_shutdown rl net latency ew of
        None \<Rightarrow> None
      | Some (e1, w1) \<Rightarrow>
          (case engine_start rl net junk md (en_disk e1) w1 of
             None \<Rightarrow> None
           | Some ew2 \<Rightarrow> run_life rl H net junk md events ew2))"

fun requests :: "Event list \<Rightarrow> Request list" where
  "requests [] = []"
| "requests (Client l ls r # events) = r # requests events"
| "requests (Restart latency # events) = requests events"

text \<open>
  What is asked of the clients: what they write can be logged, a graph gets no id that was removed
  from it, and at a restart every table has fewer than \<open>2 ^ 31\<close> records.
\<close>

fun life_fine :: "level_fun \<Rightarrow> Event list \<Rightarrow> database \<Rightarrow> removed \<Rightarrow> bool" where
  "life_fine rl [] db dead \<longleftrightarrow> True"
| "life_fine rl (Client l ls r # events) db dead \<longleftrightarrow>
     loggable rl r \<and> new_ids r dead \<and> life_fine rl events (db_step r db) (dead_step r db dead)"
| "life_fine rl (Restart latency # events) db dead \<longleftrightarrow> small_tables db \<and> life_fine rl events db dead"

fun life_answered :: "(f32 \<Rightarrow> u64) \<Rightarrow> past \<Rightarrow> Request list \<Rightarrow> database \<Rightarrow> (Status \<times> Response) list \<Rightarrow> bool" where
  "life_answered H Q [] db as \<longleftrightarrow> as = []"
| "life_answered H Q (r # rs) db [] \<longleftrightarrow> False"
| "life_answered H Q (r # rs) db (a # as) \<longleftrightarrow>
     right_answer H Q r db a \<and> finds r db a \<and> life_answered H (asked_by r \<union> Q) rs (db_step r db) as"

lemma life_steps:
  fixes net :: "'w Net" and w :: 'w
  assumes "orderly rl e" and "serving rl e" and "restartable rl dead e" and "caches_right H Q e" and "life_fine rl events (db_of e) dead" and "md_primary md"
  shows "\<exists>as e' w'. run_life rl H net junk md events (e, w) = Some (as, e', w') \<and> serving rl e' \<and>
    db_of e' = fold db_step (requests events) (db_of e) \<and> life_answered H Q (requests events) (db_of e) as"
  using assms
proof (induction rl events "db_of e" dead arbitrary: e w Q rule: life_fine.induct)
  case (2 rl l ls r events dead)
  from life_step [OF "2.prems"(1-4), of r net l ls w] "2.prems"(5) obtain a e1 w1 where
    e1: "serve rl H net l ls r (e, w) = Some (fst a, snd a, e1, w1)" "serves rl r e a e1" "orderly rl e1"
      "restartable rl (dead_step r (db_of e) dead) e1" "right_answer H Q r (db_of e) a" "finds r (db_of e) a"
      "caches_right H (asked_by r \<union> Q) e1" by auto
  then have s: "serving rl e1" "db_of e1 = db_step r (db_of e)" by (simp_all add: serves_def)
  from "2.hyps" [OF s(2) [symmetric] e1(3) s(1) _ e1(7) _ "2.prems"(6), of w1] e1(4) "2.prems"(5) obtain as e' w' where
    "run_life rl H net junk md events (e1, w1) = Some (as, e', w')" "serving rl e'"
    "db_of e' = fold db_step (requests events) (db_of e1)" "life_answered H (asked_by r \<union> Q) (requests events) (db_of e1) as"
    by (auto simp: s(2))
  with e1(1,5,6) s show ?case by simp
next
  case (3 rl latency events dead)
  have "small_tables (db_of e)" using "3.prems"(5) by simp
  from restart_step [OF "3.prems"(1-3) this "3.prems"(6), of net latency w junk H Q] obtain e1 w1 e2 where
    r: "engine_shutdown rl net latency (e, w) = Some (e1, w1)" "engine_start rl net junk md (en_disk e1) w1 = Some (e2, w1)"
      "orderly rl e2" "serving rl e2" "restartable rl dead e2" "db_of e2 = db_of e" "caches_right H Q e2" by blast
  from "3.hyps" [OF r(6) [symmetric] r(3-5,7) _ "3.prems"(6), of w1] "3.prems"(5) r(1,2,6) show ?case by simp
qed simp

lemma restartable_init: "restartable rl dead (engine_init md [])"
  by (simp add: restartable_def engine_init_def contains_def unsaved_def files_of_def no_files_def)

text \<open>C1: a primary is a database across restarts. From an empty directory, over any sequence of
  requests broken by clean shutdowns and new starts on the same files, every request gets an answer the
  abstract database gives after the requests before it, as if the process had never ended: a shutdown
  saves every table of the session and a start finds every one of them again, a table dropped before
  stays away, and neither ever fails. Answers to searches are as in C3: exact for flat tables; for graphs,
  records of the table, nearest first, and at least one if there is one and candidates are asked for; for a
  cached batch, perhaps those of an earlier batch with the same hash key, on the records as they are.
  The values of the metrics are left open. What is asked of the clients: vectors of finite floats that
  six digits denote, contents without a line break, queries of finite numbers, tables with the metric L2, a dimension that is an \<open>int\<close>, a cache that holds something and no
  negative levels (\<open>loggable\<close>); no id that they removed from a graph comes back; every table has
  fewer than \<open>2 ^ 31\<close> records when the process ends.\<close>

theorem database_lifetimes:
  fixes net :: "'w Net" and w :: 'w
  assumes "md_primary md" and "life_fine rl events Map.empty (\<lambda>t. None)"
  shows "\<exists>e as e' w'. engine_start rl net junk md [] w = Some (e, w) \<and> run_life rl H net junk md events (e, w) = Some (as, e', w') \<and>
    life_answered H {} (requests events) Map.empty as \<and> db_of e' = fold db_step (requests events) Map.empty \<and> engine_inv rl e'"
proof -
  let ?e = "engine_init md []"
  have "serving rl ?e" using engine_inv_init [of rl md "[]"] assms(1) by (simp add: serving_def) (simp add: engine_init_def)
  moreover have db: "db_of ?e = Map.empty" by (simp add: db_of_def engine_init_def fun_eq_iff)
  moreover have "engine_start rl net junk md [] w = Some (?e, w)" by (simp add: engine_start_def tables_on_disk_def)
  ultimately show ?thesis
    using life_steps [OF orderly_init [of rl md] _ restartable_init [of rl "\<lambda>t. None" md] caches_right_init [of H "{}"], where events = events and md = md and net = net and junk = junk and w = w] assms
    by (auto simp: serving_def)
qed

lemma database_lifetimes_witness:
  "\<exists>e e' w'. engine_start ground_level sample_silent_net (0, 0) sample_md [] () = Some (e, ()) \<and>
     run_life ground_level (\<lambda>_. 0) sample_silent_net (0, 0) sample_md
       [Client f32_zero [] (ReqCreateTable sample_new_table), Client f32_zero [] (ReqInsert sample_insert), Restart f32_zero,
        Client f32_zero [] (ReqInsert sample_insert), Client f32_zero [] (ReqDropTable ''t''), Restart f32_zero,
        Client f32_zero [] (ReqDropTable ''t'')] (e, ()) =
     Some ([(StatusOK, RespSuccessful True), (StatusOK, RespSuccessful True),
       (INVALID_ARGUMENT ''insert failed (invalid input)'', RespSuccessful False),
       (StatusOK, RespSuccessful True), (StatusOK, RespSuccessful False)], e', w')"
proof -
  let ?events = "[Client f32_zero [] (ReqCreateTable sample_new_table), Client f32_zero [] (ReqInsert sample_insert), Restart f32_zero,
        Client f32_zero [] (ReqInsert sample_insert), Client f32_zero [] (ReqDropTable ''t''), Restart f32_zero,
        Client f32_zero [] (ReqDropTable ''t'')]"
  have p: "md_primary sample_md" by simp
  have a: "life_fine ground_level ?events Map.empty (\<lambda>t. None)"
    using sample_wal_stable
    by (simp add: loggable_def admissible_def new_ids_def small_tables_def request_configs_def db_create_def db_insert_def known_def
        sample_new_table_def sample_insert_def complete_def put_data_def written_def wants_hnsw_def)
  from database_lifetimes [OF p a, of sample_silent_net "(0, 0)" "()" "\<lambda>_. 0"] obtain e as e' w' where
    e': "engine_start ground_level sample_silent_net (0, 0) sample_md [] () = Some (e, ())"
    "run_life ground_level (\<lambda>_. 0) sample_silent_net (0, 0) sample_md ?events (e, ()) = Some (as, e', w')"
    "life_answered (\<lambda>_. 0) {} (requests ?events) Map.empty as" by blast
  obtain a1 a2 a3 a4 a5 where as: "as = [a1, a2, a3, a4, a5]"
    using e'(3) by (cases as; cases "tl as"; cases "tl (tl as)"; cases "tl (tl (tl as))"; cases "tl (tl (tl (tl as)))";
      cases "tl (tl (tl (tl (tl as))))") auto
  from e' show ?thesis
    unfolding as
    by (intro exI [of _ e] exI [of _ e'] exI [of _ w'])
      (simp add: right_answer_def request_configs_def db_create_def db_insert_def known_def sample_new_table_def sample_insert_def complete_def
        put_data_def written_def)
qed

end
