(* ===== verification/MainThreads.thy ===== *)
theory MainThreads
  imports ThreadShutdown
begin

text \<open>
  The rest of main (server/src/main.cc): the signal handler, the thread that polls its flag and
  shuts the gRPC server down, and the main thread, which waits for the server, joins that thread and
  returns, so that the engine is destroyed. Modelled as the interleaving of the two threads with
  the calls of clients, the signals and the threads of the engine (\<open>ThreadShutdown\<close>). Of the gRPC server
  the model has what its documentation says: \<open>BuildAndStart\<close> returns null when it cannot start,
  \<open>Shutdown\<close> refuses new calls and returns when the pending ones have, \<open>Wait\<close> returns after that.
\<close>

section \<open>State\<close>

datatype Signal = SIGINT | SIGTERM

definition HandleSignals :: "Signal \<Rightarrow> bool \<Rightarrow> bool" where
  "HandleSignals signal shutdown =
     (let shutdown = (if signal = SIGINT then True else shutdown)
      in if signal = SIGTERM then True else shutdown)"

text \<open>The pointer that \<open>BuildAndStart\<close> returns: null, a server that takes calls, or one that was shut down.\<close>

datatype GrpcServer = NoServer | TakesCalls | ShutDown

text \<open>The polling thread: at the test of the flag, asleep, before and in \<open>server->Shutdown()\<close>, left.\<close>

datatype Poll = PollTests | PollSleeps | PollShutsDown | InShutdown | PollLeft

text \<open>The main thread: in \<open>server->Wait()\<close>, in \<open>join\<close>, in the destructor of the engine, returned. A null
  pointer that is used ends the process.\<close>

datatype MainAt = InServer | InPollJoin | InDestructor | Returned | Crashed

record Process =
  pr_shutdown :: bool
  pr_server :: GrpcServer
  pr_calls :: nat
  pr_poll :: Poll
  pr_main :: MainAt
  pr_engine :: Threads

text \<open>\<open>started\<close> and \<open>sync_started\<close>: \<open>BuildAndStart\<close> of main, and of a replica manager that calls it, is not null.\<close>

definition process_new :: "bool \<Rightarrow> bool \<Rightarrow> Metadata \<Rightarrow> Process" where
  "process_new started sync_started md =
     \<lparr>pr_shutdown = False, pr_server = (if started then TakesCalls else NoServer), pr_calls = 0, pr_poll = PollTests,
      pr_main = InServer, pr_engine = threads_new sync_started (md_primary md) (md_sync_server_address md) (md_replicas md)\<rparr>"

section \<open>Steps\<close>

fun poll_next :: "Poll \<Rightarrow> Process \<Rightarrow> Process option" where
  "poll_next PollTests s = Some (s\<lparr>pr_poll := (if pr_shutdown s then PollShutsDown else PollSleeps)\<rparr>)"
| "poll_next PollSleeps s = Some (s\<lparr>pr_poll := PollTests\<rparr>)"
| "poll_next PollShutsDown s =
     Some (if pr_server s = NoServer then s\<lparr>pr_main := Crashed\<rparr> else s\<lparr>pr_server := ShutDown, pr_poll := InShutdown\<rparr>)"
| "poll_next InShutdown s = (if pr_calls s = 0 then Some (s\<lparr>pr_poll := PollLeft\<rparr>) else None)"
| "poll_next PollLeft s = None"

text \<open>When main returns its locals are destroyed: the destructor of the engine begins.\<close>

fun main_next :: "MainAt \<Rightarrow> Process \<Rightarrow> Process option" where
  "main_next InServer s =
     (case pr_server s of
        NoServer \<Rightarrow> Some (s\<lparr>pr_main := Crashed\<rparr>)
      | TakesCalls \<Rightarrow> None
      | ShutDown \<Rightarrow> if pr_calls s = 0 then Some (s\<lparr>pr_main := InPollJoin\<rparr>) else None)"
| "main_next InPollJoin s =
     (if pr_poll s = PollLeft
      then map_option (\<lambda>e. s\<lparr>pr_main := InDestructor, pr_engine := e\<rparr>) (destructor_next NotCalled (pr_engine s))
      else None)"
| "main_next InDestructor s = (if th_destructor (pr_engine s) = EngineGone then Some (s\<lparr>pr_main := Returned\<rparr>) else None)"
| "main_next Returned s = None"
| "main_next Crashed s = None"

text \<open>The process is there until main or a thread of the engine has used a null pointer.\<close>

definition running :: "Process \<Rightarrow> bool" where
  "running s \<longleftrightarrow> pr_main s \<noteq> Crashed \<and> \<not> crashed (pr_engine s)"

text \<open>The steps of the program itself, a call that ends and the threads of an engine in destruction included.\<close>

inductive process_step :: "Process \<Rightarrow> Process \<Rightarrow> bool" where
  poll: "running s \<Longrightarrow> poll_next (pr_poll s) s = Some s' \<Longrightarrow> process_step s s'"
| main: "running s \<Longrightarrow> main_next (pr_main s) s = Some s' \<Longrightarrow> process_step s s'"
| call_ends: "running s \<Longrightarrow> pr_calls s \<noteq> 0 \<Longrightarrow> process_step s (s\<lparr>pr_calls := pr_calls s - 1\<rparr>)"
| engine: "pr_main s = InDestructor \<Longrightarrow> thread_step (pr_engine s) e \<Longrightarrow> process_step s (s\<lparr>pr_engine := e\<rparr>)"

text \<open>What else happens: signals, new calls, and the threads of the engine before its destructor.\<close>

inductive process_moves :: "Process \<Rightarrow> Process \<Rightarrow> bool" where
  start: "process_moves s s"
| moves: "process_moves s s1 \<Longrightarrow> process_step s1 s2 \<Longrightarrow> process_moves s s2"
| signalled: "process_moves s s1 \<Longrightarrow> running s1 \<Longrightarrow>
    process_moves s (s1\<lparr>pr_shutdown := HandleSignals sig (pr_shutdown s1)\<rparr>)"
| called: "process_moves s s1 \<Longrightarrow> running s1 \<Longrightarrow> pr_server s1 = TakesCalls \<Longrightarrow>
    process_moves s (s1\<lparr>pr_calls := pr_calls s1 + 1\<rparr>)"
| background: "process_moves s s1 \<Longrightarrow> running s1 \<Longrightarrow> thread_step (pr_engine s1) e \<Longrightarrow> th_destructor e = NotCalled \<Longrightarrow>
    process_moves s (s1\<lparr>pr_engine := e\<rparr>)"
| spurious: "process_moves s s1 \<Longrightarrow> running s1 \<Longrightarrow> th_sync (pr_engine s1) = ServerRuns Blocked m \<Longrightarrow>
    process_moves s (s1\<lparr>pr_engine := (pr_engine s1)\<lparr>th_sync := ServerRuns TestsFlag m\<rparr>\<rparr>)"

inductive_cases process_stepE: "process_step s s'"

definition halted :: "Process \<Rightarrow> bool" where
  "halted s \<longleftrightarrow> (\<forall>s'. \<not> process_step s s')"

definition ended :: "Process \<Rightarrow> bool" where
  "ended s \<longleftrightarrow> pr_main s = Returned \<and> pr_poll s = PollLeft \<and> pr_server s = ShutDown \<and> pr_calls s = 0 \<and> all_gone (pr_engine s)"

section \<open>Runs of the engine's threads\<close>

lemma engine_step:
  assumes "process_step s s'"
  shows "pr_engine s' = pr_engine s \<or> thread_step (pr_engine s) (pr_engine s') \<or>
    (pr_main s = InPollJoin \<and> running s \<and> destructor_next NotCalled (pr_engine s) = Some (pr_engine s'))"
  using assms
proof (cases rule: process_step.cases)
  case poll
  then show ?thesis by (cases "pr_poll s") (auto split: if_splits)
next
  case main
  then show ?thesis by (cases "pr_main s") (auto split: if_splits GrpcServer.splits)
qed simp_all

text \<open>The order of the end: the calls, the polling thread, the engine.\<close>

fun poll_order :: "Poll \<Rightarrow> GrpcServer \<Rightarrow> nat \<Rightarrow> bool \<Rightarrow> bool" where
  "poll_order PollTests server calls shutdown \<longleftrightarrow> server \<noteq> ShutDown"
| "poll_order PollSleeps server calls shutdown \<longleftrightarrow> server \<noteq> ShutDown"
| "poll_order PollShutsDown server calls shutdown \<longleftrightarrow> server \<noteq> ShutDown \<and> shutdown"
| "poll_order InShutdown server calls shutdown \<longleftrightarrow> server = ShutDown \<and> shutdown"
| "poll_order PollLeft server calls shutdown \<longleftrightarrow> server = ShutDown \<and> calls = 0 \<and> shutdown"

fun main_order :: "MainAt \<Rightarrow> Poll \<Rightarrow> GrpcServer \<Rightarrow> nat \<Rightarrow> Destructor \<Rightarrow> bool" where
  "main_order InServer poll server calls d \<longleftrightarrow> d = NotCalled"
| "main_order InPollJoin poll server calls d \<longleftrightarrow> d = NotCalled \<and> server = ShutDown \<and> calls = 0"
| "main_order InDestructor poll server calls d \<longleftrightarrow> d \<noteq> NotCalled \<and> poll = PollLeft"
| "main_order Returned poll server calls d \<longleftrightarrow> d = EngineGone \<and> poll = PollLeft"
| "main_order Crashed poll server calls d \<longleftrightarrow> True"

definition ends_in_order :: "Process \<Rightarrow> bool" where
  "ends_in_order s \<longleftrightarrow> pr_main s \<noteq> Crashed \<longrightarrow> poll_order (pr_poll s) (pr_server s) (pr_calls s) (pr_shutdown s) \<and>
     main_order (pr_main s) (pr_poll s) (pr_server s) (pr_calls s) (th_destructor (pr_engine s))"

lemma thread_step_begins:
  assumes "thread_step e e'" and "th_destructor e' = NotCalled"
  shows "th_destructor e = NotCalled"
proof -
  have "th_destructor e' = th_destructor e \<or> destructor_next (th_destructor e) e = Some e'"
    using assms(1) by (auto elim: thread_step.cases)
  with assms(2) show ?thesis by (cases "th_destructor e") (auto split: if_splits)
qed

lemma thread_step_goes_on:
  assumes "thread_step e e'" and "th_destructor e \<noteq> NotCalled"
  shows "th_destructor e' \<noteq> NotCalled"
  using thread_step_begins [OF assms(1)] assms(2) by blast

lemma ends_in_order_poll:
  assumes "ends_in_order s" and "pr_main s \<noteq> Crashed" and "poll_next (pr_poll s) s = Some s'"
  shows "ends_in_order s'"
  using assms by (cases "pr_poll s"; cases "pr_main s") (auto simp: ends_in_order_def split: if_splits)

lemma ends_in_order_main:
  assumes "ends_in_order s" and "main_next (pr_main s) s = Some s'"
  shows "ends_in_order s'"
  using assms by (cases "pr_main s"; cases "pr_server s") (auto simp: ends_in_order_def split: if_splits)

lemma ends_in_order_engine:
  assumes "ends_in_order s" and "thread_step (pr_engine s) e" and "pr_main s = InDestructor \<or> th_destructor e = NotCalled"
  shows "ends_in_order (s\<lparr>pr_engine := e\<rparr>)"
  using assms thread_step_begins [OF assms(2)] thread_step_goes_on [OF assms(2)]
  by (cases "pr_main s") (auto simp: ends_in_order_def)

lemma ends_in_order_calls:
  assumes "ends_in_order s" and "n = 0 \<or> n < pr_calls s \<or> pr_server s \<noteq> ShutDown"
  shows "ends_in_order (s\<lparr>pr_calls := n\<rparr>)"
  using assms by (cases "pr_main s"; cases "pr_poll s") (auto simp: ends_in_order_def)

lemma ends_in_order_step: "process_step s s' \<Longrightarrow> ends_in_order s \<Longrightarrow> ends_in_order s'"
proof (induction rule: process_step.induct)
  case (poll s s')
  then show ?case using ends_in_order_poll running_def by blast
next
  case (main s s')
  then show ?case using ends_in_order_main by blast
next
  case (call_ends s)
  then show ?case by (intro ends_in_order_calls) simp_all
next
  case (engine s e)
  then show ?case using ends_in_order_engine by blast
qed

lemma ends_in_order_moves: "process_moves s s' \<Longrightarrow> ends_in_order s \<Longrightarrow> ends_in_order s'"
proof (induction rule: process_moves.induct)
  case (moves s s1 s2)
  then show ?case using ends_in_order_step by blast
next
  case (signalled s s1 sig)
  then show ?case by (cases "pr_poll s1") (auto simp: ends_in_order_def HandleSignals_def Let_def)
next
  case (called s s1)
  then show ?case by (intro ends_in_order_calls) simp_all
next
  case (background s s1 e)
  then show ?case using ends_in_order_engine by blast
qed (simp_all add: ends_in_order_def)

lemma ends_in_order_new: "ends_in_order (process_new started sync_started md)"
  by (simp add: ends_in_order_def process_new_def threads_new_def)

lemma running_new: "running (process_new started sync_started md)"
  by (simp add: running_def process_new_def threads_new_def crashed_def sync_start_def split: SyncThread.split)

lemma engine_moves:
  assumes "process_moves s s'" and "ends_in_order s"
  shows "thread_moves (pr_engine s) (pr_engine s')"
  using assms
proof (induction rule: process_moves.induct)
  case (moves s s1 s2)
  note m = moves.IH [OF moves.prems]
  have o: "ends_in_order s1" using ends_in_order_moves moves.hyps(1) moves.prems by blast
  from engine_step [OF moves.hyps(2)] show ?case
  proof (elim disjE conjE)
    assume "pr_engine s2 = pr_engine s1"
    with m show ?thesis by simp
  next
    assume "thread_step (pr_engine s1) (pr_engine s2)"
    with m show ?thesis by (rule thread_moves.moves)
  next
    assume d: "pr_main s1 = InPollJoin" "running s1" "destructor_next NotCalled (pr_engine s1) = Some (pr_engine s2)"
    then have "th_destructor (pr_engine s1) = NotCalled" using o by (simp add: ends_in_order_def)
    with m d(2,3) show ?thesis by (intro thread_moves.moves [OF m thread_step.destructor]) (simp_all add: running_def)
  qed
qed (auto intro: thread_moves.intros)

section \<open>Once a signal has come\<close>

fun poll_weight :: "Poll \<Rightarrow> nat" where
  "poll_weight PollSleeps = 4"
| "poll_weight PollTests = 3"
| "poll_weight PollShutsDown = 2"
| "poll_weight InShutdown = 1"
| "poll_weight PollLeft = 0"

fun main_weight :: "MainAt \<Rightarrow> Threads \<Rightarrow> nat" where
  "main_weight InServer e = 22"
| "main_weight InPollJoin e = 21"
| "main_weight InDestructor e = threads_weight e + 2"
| "main_weight Returned e = 1"
| "main_weight Crashed e = 0"

definition process_weight :: "Process \<Rightarrow> nat" where
  "process_weight s = poll_weight (pr_poll s) + pr_calls s + main_weight (pr_main s) (pr_engine s)"

lemma threads_weight_saving:
  assumes "th_destructor e = Saving"
  shows "threads_weight e \<le> 15"
proof -
  have l: "loop_weight l \<le> 2" for l by (cases l) simp_all
  have "sync_weight x \<le> 4" for x
  proof (cases x)
    case (LoopRuns k)
    with l [of k] show ?thesis by simp
  next
    case (ServerRuns t m)
    then show ?thesis by (cases t; cases m) simp_all
  qed simp_all
  from this [of "th_sync e"] l [of "th_cleaner e"] assms show ?thesis by (simp add: threads_weight_def)
qed

lemma process_step_weight:
  assumes "process_step s s'" and "pr_shutdown s" and "pr_main s = InDestructor \<Longrightarrow> th_shutdown (pr_engine s)"
  shows "process_weight s' < process_weight s"
  using assms
proof (cases rule: process_step.cases)
  case poll
  then show ?thesis using assms(2)
    by (cases "pr_poll s"; cases "pr_main s") (auto simp: process_weight_def running_def split: if_splits)
next
  case main
  then show ?thesis
  proof (cases "pr_main s")
    case InPollJoin
    let ?e = "(pr_engine s)\<lparr>th_shutdown := True, th_destructor := Saving\<rparr>"
    have "s' = s\<lparr>pr_main := InDestructor, pr_engine := ?e\<rparr>" using main InPollJoin by (simp split: if_splits)
    with InPollJoin threads_weight_saving [of ?e] show ?thesis by (simp add: process_weight_def)
  qed (auto simp: process_weight_def split: if_splits GrpcServer.splits)
next
  case (engine e)
  with thread_step_weight [OF engine(3)] assms(3) show ?thesis by (simp add: process_weight_def)
qed (simp add: process_weight_def)

lemma process_step_keeps:
  assumes "process_step s s'"
  shows "pr_shutdown s \<Longrightarrow> pr_shutdown s'"
  using assms
proof (cases rule: process_step.cases)
  case poll
  then show "pr_shutdown s \<Longrightarrow> pr_shutdown s'" by (cases "pr_poll s") (auto split: if_splits)
next
  case main
  then show "pr_shutdown s \<Longrightarrow> pr_shutdown s'" by (cases "pr_main s") (auto split: if_splits GrpcServer.splits)
qed simp_all

text \<open>While the engine's destructor runs its flag is set.\<close>

lemma destructor_flag:
  assumes "ends_in_order s" and "joined (pr_engine s)" and "pr_main s = InDestructor"
  shows "th_shutdown (pr_engine s)"
  using assms by (simp add: ends_in_order_def joined_def)

section \<open>Where a run can stop\<close>

lemma halted_poll: "halted s \<Longrightarrow> running s \<Longrightarrow> poll_next (pr_poll s) s = None"
  using process_step.poll [of s] by (cases "poll_next (pr_poll s) s") (auto simp: halted_def)

lemma halted_main: "halted s \<Longrightarrow> running s \<Longrightarrow> main_next (pr_main s) s = None"
  using process_step.main [of s] by (cases "main_next (pr_main s) s") (auto simp: halted_def)

lemma halted_calls: "halted s \<Longrightarrow> running s \<Longrightarrow> pr_calls s = 0"
  using process_step.call_ends [of s] by (auto simp: halted_def)

lemma halted_left:
  assumes "halted s" and "running s"
  shows "pr_poll s = PollLeft"
  using halted_poll [OF assms] halted_calls [OF assms] by (cases "pr_poll s") simp_all

lemma halted_where:
  assumes "halted s" and "ends_in_order s" and "running s"
  shows "pr_main s = Returned \<or> pr_main s = InDestructor \<and> stuck (pr_engine s) \<and> th_destructor (pr_engine s) \<noteq> EngineGone"
proof -
  note l = halted_left [OF assms(1,3)] and c = halted_calls [OF assms(1,3)] and m = halted_main [OF assms(1,3)]
  have n: "pr_main s \<noteq> Crashed" using assms(3) by (simp add: running_def)
  then have "pr_server s = ShutDown" using assms(2) l by (simp add: ends_in_order_def)
  moreover have "stuck (pr_engine s)" if "pr_main s = InDestructor"
    using assms(1) process_step.engine [OF that] by (auto simp: halted_def stuck_def)
  ultimately show ?thesis using n l c m by (cases "pr_main s") (simp_all split: if_splits)
qed

lemma halted_iff:
  assumes "ends_in_order s" and "joined (pr_engine s)"
  shows "halted s \<longleftrightarrow> \<not> running s \<or> ended s \<or> pr_main s = InDestructor \<and> pr_calls s = 0 \<and> wakeup_lost (pr_engine s)"
proof
  assume h: "halted s"
  show "\<not> running s \<or> ended s \<or> pr_main s = InDestructor \<and> pr_calls s = 0 \<and> wakeup_lost (pr_engine s)"
  proof (cases "running s")
    case True
    from halted_where [OF h assms(1) True] show ?thesis
    proof (elim disjE conjE)
      assume r: "pr_main s = Returned"
      then have "th_destructor (pr_engine s) = EngineGone" "pr_poll s = PollLeft" using assms(1) by (simp_all add: ends_in_order_def)
      with r assms show ?thesis by (simp add: ended_def all_gone_def ends_in_order_def joined_def)
    next
      assume d: "pr_main s = InDestructor" "stuck (pr_engine s)" "th_destructor (pr_engine s) \<noteq> EngineGone"
      then have "wakeup_lost (pr_engine s)" using stuck_iff [OF assms(2)] True by (auto simp: all_gone_def running_def)
      with d halted_calls [OF h True] show ?thesis by simp
    qed
  qed simp
next
  assume "\<not> running s \<or> ended s \<or> pr_main s = InDestructor \<and> pr_calls s = 0 \<and> wakeup_lost (pr_engine s)"
  then show "halted s"
  proof (elim disjE conjE)
    assume c: "\<not> running s"
    then have "\<not> thread_step (pr_engine s) e" if "pr_main s = InDestructor" for e
      using that by (auto simp: running_def crashed_def elim: thread_step.cases)
    with c show ?thesis by (auto simp: halted_def elim!: process_stepE)
  next
    assume d: "pr_main s = InDestructor" "pr_calls s = 0" "wakeup_lost (pr_engine s)"
    then have "stuck (pr_engine s)" "pr_poll s = PollLeft" using stuck_iff [OF assms(2)] assms(1) by (simp_all add: ends_in_order_def)
    with d show ?thesis by (auto simp: halted_def stuck_def wakeup_lost_def elim!: process_stepE)
  qed (auto simp: halted_def ended_def elim!: process_stepE)
qed

text \<open>A server that has started is never null.\<close>

definition started_server :: "Process \<Rightarrow> bool" where
  "started_server s \<longleftrightarrow> pr_server s \<noteq> NoServer \<and> pr_main s \<noteq> Crashed"

lemma started_step:
  assumes "process_step s s'" and "started_server s"
  shows "started_server s'"
  using assms
proof (cases rule: process_step.cases)
  case poll
  with assms(2) show ?thesis by (cases "pr_poll s") (auto simp: started_server_def split: if_splits)
next
  case main
  with assms(2) show ?thesis by (cases "pr_main s") (auto simp: started_server_def split: if_splits GrpcServer.splits)
qed (simp_all add: started_server_def)

lemma started_moves: "process_moves s s' \<Longrightarrow> started_server s \<Longrightarrow> started_server s'"
  by (induction rule: process_moves.induct) (use started_step in \<open>auto simp: started_server_def\<close>)

section \<open>Properties\<close>

lemma process_joined:
  assumes "process_moves (process_new started sync_started md) s"
  shows "joined (pr_engine s)"
proof -
  have "thread_moves (threads_new sync_started (md_primary md) (md_sync_server_address md) (md_replicas md)) (pr_engine s)"
    using engine_moves [OF assms ends_in_order_new] by (simp add: process_new_def)
  then show ?thesis by (rule joins.thread_moves_inv [OF _ joined_new])
qed

lemma wf_process_step: "wf {(s', s). process_moves (process_new started sync_started md) s \<and> pr_shutdown s \<and> process_step s s'}"
proof (rule wf_subset [OF wf_measure [of process_weight]], clarify)
  fix s' s assume m: "process_moves (process_new started sync_started md) s" and s: "pr_shutdown s" "process_step s s'"
  have "pr_main s = InDestructor \<Longrightarrow> th_shutdown (pr_engine s)"
    by (rule destructor_flag [OF ends_in_order_moves [OF m ends_in_order_new] process_joined [OF m]])
  from process_step_weight [OF s(2,1) this] show "(s', s) \<in> measure process_weight" by simp
qed

text \<open>C14: A server that started, on a primary or a replica without an address for the primary, ends after
  SIGINT or SIGTERM: whatever calls and other signals come, the program cannot go on for ever once
  the flag is set, and it stops only with main returned, every call answered and the threads of
  the engine joined. The engine's destructor does not begin before that: no client's call ever
  meets an engine that is shutting down.\<close>

theorem signal_ends_main:
  assumes "md_primary md \<or> md_sync_server_address md = []"
  shows "(\<forall>signal shutdown. HandleSignals signal shutdown) \<and>
    wf {(s', s). process_moves (process_new True sync_started md) s \<and> pr_shutdown s \<and> process_step s s'} \<and>
    (\<forall>s. process_moves (process_new True sync_started md) s \<longrightarrow>
      (halted s \<longleftrightarrow> ended s) \<and> (th_shutdown (pr_engine s) \<longrightarrow> pr_calls s = 0 \<and> pr_server s = ShutDown))"
proof (intro conjI allI impI)
  show "HandleSignals signal shutdown" for signal shutdown by (cases signal) (simp_all add: HandleSignals_def)
  show "wf {(s', s). process_moves (process_new True sync_started md) s \<and> pr_shutdown s \<and> process_step s s'}" by (rule wf_process_step)
next
  fix s assume m: "process_moves (process_new True sync_started md) s"
  note o = ends_in_order_moves [OF m ends_in_order_new] and j = process_joined [OF m]
  have c: "pr_main s \<noteq> Crashed"
    using started_moves [OF m] by (simp add: started_server_def process_new_def)
  note e = engine_moves [OF m ends_in_order_new]
  have "\<not> null_server (pr_engine s)"
    using nulls.thread_moves_inv [OF e, of False] assms by (auto simp: process_new_def null_server_new)
  then have d: "\<not> crashed (pr_engine s)" by (simp add: null_server_def crashed_def)
  have "no_server (pr_engine s)"
    using serverless.thread_moves_inv [OF e] assms by (auto simp: process_new_def no_server_new)
  then have "\<not> wakeup_lost (pr_engine s)" by (auto simp: no_server_def wakeup_lost_def)
  with halted_iff [OF o j] c d show "halted s \<longleftrightarrow> ended s" by (auto simp: running_def)
  assume "th_shutdown (pr_engine s)"
  then have "th_destructor (pr_engine s) \<noteq> NotCalled" using j by (simp add: joined_def)
  then show "pr_calls s = 0" "pr_server s = ShutDown" using o c by (cases "pr_main s"; auto simp: ends_in_order_def)+
qed

lemma process_moves_halt:
  assumes "wf {(s', s). process_moves z s \<and> pr_shutdown s \<and> process_step s s'}" and "process_moves z s" and "pr_shutdown s"
  shows "\<exists>s'. process_moves z s' \<and> halted s'"
  using assms(2,3)
proof (induction s rule: wf_induct_rule [OF assms(1)])
  case (1 s)
  show ?case
  proof (cases "halted s")
    case False
    then obtain s' where s': "process_step s s'" by (auto simp: halted_def)
    with 1 process_step_keeps [OF s'] show ?thesis by (blast intro: process_moves.moves)
  qed (use 1 in blast)
qed

lemma signal_ends_main_witness:
  "\<not> halted (process_new True True sample_md) \<and> (\<exists>s. process_moves (process_new True True sample_md) s \<and> ended s)"
proof -
  let ?s = "process_new True True sample_md"
  have "md_primary sample_md \<or> md_sync_server_address sample_md = []" by simp
  note t = signal_ends_main [OF this]
  have "process_moves ?s (?s\<lparr>pr_shutdown := HandleSignals SIGTERM (pr_shutdown ?s)\<rparr>)"
    by (rule process_moves.signalled [OF process_moves.start running_new])
  with t process_moves_halt [of ?s "?s\<lparr>pr_shutdown := HandleSignals SIGTERM (pr_shutdown ?s)\<rparr>"]
  have "\<exists>s. process_moves ?s s \<and> ended s" by (auto simp: HandleSignals_def)
  moreover have "\<not> ended ?s" by (simp add: ended_def process_new_def)
  ultimately show ?thesis using t process_moves.start by blast
qed

text \<open>
  \<open>BuildAndStart\<close> returns null when the port is taken: main uses the pointer at once, and a run in
  which nothing else happens first ends there.
\<close>

theorem null_server_crashes:
  "process_step (process_new False sync_started md) ((process_new False sync_started md)\<lparr>pr_main := Crashed\<rparr>) \<and>
   (process_moves (process_new False sync_started md) s \<longrightarrow> pr_main s \<noteq> Returned)"
proof (intro conjI impI)
  show "process_step (process_new False sync_started md) ((process_new False sync_started md)\<lparr>pr_main := Crashed\<rparr>)"
    by (rule process_step.main [OF running_new]) (simp add: process_new_def)
next
  assume "process_moves (process_new False sync_started md) s"
  then have "pr_server s = NoServer"
  proof (induction "process_new False sync_started md" s rule: process_moves.induct)
    case (moves s1 s2)
    from moves(3,2) show ?case
    proof (cases rule: process_step.cases)
      case poll
      with moves(2) show ?thesis by (cases "pr_poll s1") (auto split: if_splits)
    next
      case main
      with moves(2) show ?thesis by (cases "pr_main s1") (auto split: if_splits)
    qed simp_all
  qed (simp_all add: process_new_def)
  moreover have "ends_in_order s" by (rule ends_in_order_moves [OF \<open>process_moves (process_new False sync_started md) s\<close> ends_in_order_new])
  ultimately show "pr_main s \<noteq> Returned" by (auto simp: ends_in_order_def)
qed

end
