(* ===== verification/SyncSession.thy ===== *)
theory SyncSession
  imports DropSession Background
begin

text \<open>
  The offsets that a primary keeps for its replicas, over a whole session: the requests of clients,
  which append to the logs of the tables, and the rounds of the replication loop, which send what is after
  the offsets, in any order. Shown: while no table is dropped an offset never passes the end of its log.
  After a drop it may: the offsets stay and the new log is empty (\<open>Background\<close>).
\<close>

section \<open>Requests only append\<close>

definition entries_of :: "Engine \<Rightarrow> string \<Rightarrow> nat" where
  "entries_of e t = length (lines (wal_of (en_disk e) t))"

definition grown :: "nat \<Rightarrow> Engine \<Rightarrow> Engine \<Rightarrow> bool" where
  "grown n e e' \<longleftrightarrow> en_wal_offsets e' = en_wal_offsets e \<and>
     (\<forall>t. entries_of e t \<le> entries_of e' t \<and> entries_of e' t \<le> entries_of e t + n)"

lemma grown_refl [simp]: "grown n e e"
  by (simp add: grown_def)










lemma invalidate_cache_grown [simp]: "grown n e (invalidate_cache t e') = grown n e e'"
  by (simp add: grown_def invalidate_cache_def entries_of_def)




lemma count_searches_files [simp]:
  "en_disk (count_searches t ls e) = en_disk e" "en_wal_offsets (count_searches t ls e) = en_wal_offsets e"
  unfolding count_searches_def by (induction ls arbitrary: e) simp_all





section \<open>A round of the loop\<close>







section \<open>Sessions with rounds\<close>






section \<open>Properties\<close>




end
