(* ===== verification/Spec2Isabelle.thy ===== *)
theory Spec2Isabelle
  imports IndexProperties StorageProperties EngineProperties RecoveryProperties
    ClusterProperties CacheProperties PoolProperties ServerProperties ThreadShutdown
    NegativeLevels Logging DenseTables Lifetimes MainThreads SyncSession
begin

text \<open>
  A vector database: a gRPC server over an engine of named tables, each with a vector index, a
  record store, a write-ahead log with snapshots, counters and a cache of batch searches; a
  primary sends its logs to replicas. The theories follow the program part by part. Paths below
  are under src/.

  \<^bold>\<open>Parts and theories\<close>

  \<^item> Machine types, \<open>std::unordered_map\<close> (association lists, the list order is the unspecified
    iteration order): \<open>Prelude\<close>. Single precision, rounding to nearest even, as integers in
    units of \<open>2 ^ -149\<close>: \<open>Float32\<close>. Writing and reading of numbers by C++ streams, six digits of
    a float included: \<open>StreamText\<close>.
  \<^item> Indexes (engine/src/index): \<open>Distance\<close>, \<open>VectorIndex\<close> (the abstract class, as a locale),
    \<open>PriorityQueue\<close>, \<open>FlatIndex\<close>; \<open>HnswIndex\<close> (the code of hnsw_index.cc), \<open>HnswSearch\<close>, \<open>HnswGraph\<close>,
    \<open>HnswInsert\<close>, \<open>HnswMaint\<close>, \<open>HnswCleanup\<close> (its graph invariant and the proof that the interface
    holds), \<open>NegativeLevels\<close>. Properties in \<open>IndexProperties\<close>. Graphs with few nodes, which are
    complete: \<open>DenseGraph\<close>, \<open>DenseTables\<close>. The containers of a graph, which a snapshot needs
    well formed: \<open>HnswContainers\<close>.
  \<^item> Store (engine/src/store/vector_store.cc): \<open>VectorStore\<close>, the third interpretation of the index
    interface. Cache (engine/src/cache): \<open>LruCache\<close>, with the locale \<open>cache\<close>. Counters:
    \<open>Stats\<close>, \<open>Metrics\<close>. Checks of the input: \<open>InputValidator\<close>.
  \<^item> Log and snapshots (engine/src/storage/persistence_manager.cc): \<open>Wal\<close> (the text of the log),
    \<open>Persistence\<close> (the four files of a table). Replication (engine/src/replica): \<open>ReplicaManager\<close>.
    Properties in \<open>StorageProperties\<close>.
  \<^item> Engine (engine/src/engine.cc): \<open>Engine\<close> (state and operations, constructor and destructor
    included), \<open>EngineInv\<close>, \<open>EngineOps\<close>, \<open>EngineTables\<close> (the invariant and the effect of each
    operation), \<open>EngineProperties\<close>.
  \<^item> Life of an engine: \<open>EngineLog\<close> (what a log means as data), \<open>EngineSteps\<close> (operations as steps;
    the locale \<open>table_invariant\<close>), \<open>Recovery\<close>, \<open>Durability\<close>, \<open>Shutdown\<close>, \<open>RecoveryProperties\<close>.
    A primary with its replicas: \<open>Cluster\<close>, \<open>ClusterProperties\<close>. The cached answers of batches among
    writes: \<open>CachedSearch\<close>, \<open>CacheProperties\<close>. Concurrent writes of one table, interleaved between
    append and store: \<open>ConcurrentWrites\<close>.
  \<^item> Thread pool (engine/src/util/thread_pool.cc, engine/include/util/thread_pool.h): \<open>ThreadPool\<close>, a
    step relation with the locale \<open>pool_invariant\<close>; \<open>PoolProperties\<close>.
  \<^item> Background threads (engine/src/cleaner/cleaner.cc, engine/src/replica/replica_manager.cc): one
    round of each, and which thread is started, in \<open>Background\<close>; their life and end under the
    destructor of the engine, a step relation with the locale \<open>thread_invariant\<close>, in
    \<open>ThreadShutdown\<close>. Loggers (engine/src/logger): \<open>Logging\<close>.
  \<^item> Server (server/src): \<open>Server\<close> (every handler), \<open>ServerRefinement\<close> (the abstract database),
    \<open>SearchAnswers\<close> and \<open>BatchAnswers\<close> (what it answers to a search, and to a batch from the cache),
    \<open>CommandLine\<close> (main), \<open>ServerProperties\<close>; sessions that drop tables too: \<open>DropSession\<close>; sessions
    with rounds of the replication loop: \<open>SyncSession\<close>. Lives
    of a primary, sessions broken by shutdowns and starts: \<open>TableShape\<close> and \<open>TableMoves\<close> (what requests
    do to the stores and files of the tables), \<open>Restartable\<close> (the tables a shutdown can save),
    \<open>Lifetimes\<close>. The signals, the polling thread and the return of main: \<open>MainThreads\<close>.

  \<^bold>\<open>What the lemmas show\<close>

  \<^item> Both indexes, and the store's dispatch over them, meet the laws of \<open>vector_index\<close>; the graph of
    HNSW stays symmetric, bounded in degree and closed under its operations; a search that may
    look at all nodes of a connected level is exact, and a flat search always is. An HNSW table
    that never has more nodes than a node may have neighbours, and one, answers as a flat table.
  \<^item> Every operation of the engine keeps its invariant, answers as its guards and the table say and
    changes the data of its own table only. Seen through the server this is a refinement: each
    request is a step of a map from table names to dimension and records, \<open>DropTable\<close> included as
    long as the logs can be read (\<open>orderly\<close>), which the requests themselves preserve. The answer to a
    search is the exact one for a flat table, and records of the table, nearest first, for a graph; to
    a batch, such answers for each of its queries, or for the queries of an earlier batch on the same
    table whose hash key is the same. The requests are those that the log can hold (\<open>loggable\<close>). It is one
    across clean shutdowns and starts (\<open>database_lifetimes\<close>), as long as no id comes back that was removed
    from a graph (\<open>reinserted_not_found\<close> is what happens otherwise) and the number of records, which
    the start stores as an \<open>int\<close>, fits.
  \<^item> The text of the log reads back as the operations that wrote it, for contents without a line
    break and floats that six digits denote (\<open>wal_stable\<close>); a snapshot reads back as the index.
    A crash then loses nothing of a table whose metadata is on disk, and a clean shutdown saves
    everything; what a crash does lose, and when a start hangs, is shown too.
  \<^item> A synchronisation brings a replica at any point of the log to the data of the primary, when all
    operations in the log succeed on it; a failed write or a restart of the primary stops a
    replica for good.
  \<^item> The offsets of the replicas stay within the logs while no table is dropped, so that a cleared
    modified flag means that every replica has acknowledged the whole log; after a drop it does not.
  \<^item> Every interleaving of the thread pool ends with nobody blocked, gives a batch of searches the results of the
    sequential one, and drains the queue before the pool is destroyed. The shutdown of an engine
    joins its threads in every interleaving, but for one wake-up that a replica can lose, and for a
    replica whose server does not start, which uses a null pointer; main gets
    there after every signal, with all calls of clients answered.
  \<^item> Concurrent writes of different records end in the table that the log describes; of the same
    record they may not. A batch is answered from the cache as the table would answer it, if no
    other batch has its key.

  \<^bold>\<open>Modelling choices\<close>

  \<open>None\<close> is a C++ exception that leaves the operation, undefined behaviour, or a thread blocked for
  ever (replaying a \<open>drop\<close> takes the log's mutex twice). Counters, ids, offsets and checksums are 64-bit
  words. Loops recurse on their lists; the search of a level terminates by a measure, the nodes not
  yet visited, and the retries of \<open>Sync\<close> by the list of its attempts: there is no fuel. Random levels
  (\<open>GetRandomLevel\<close>, from a random engine) are a function \<open>rl\<close>, \<open>std::hash<float>\<close> a function \<open>H\<close>, measured
  latencies arguments, and the calls to replicas a record \<open>Net\<close> over an unknown world, instantiated
  with engines in \<open>Cluster\<close>.

  \<^bold>\<open>Not modelled\<close>

  Protobuf encoding and the gRPC transport; failures to open a file, and names of tables that are no
  names of files (with a slash, or too long): a table's files are found by its name; the mutexes of the engine, of
  its tables and their managers: operations of different clients run one at a time, apart from
  \<open>ConcurrentWrites\<close>, \<open>ThreadPool\<close>, \<open>ThreadShutdown\<close> and \<open>MainThreads\<close>; the races of the background threads with the
  operations; the length of their timers; the calls of the loggers. The Cosine metric is defined, but the engine's
  invariant and what rests on it are for L2 and vectors of finite numbers, where no distance is a NaN; what
  a NaN does is undefined behaviour of the library (\<open>nan_breaks_order\<close>). \<open>Sync\<close> runs without writers
  beside it: that one of them sets or loses the modified flag while it runs is left out.
\<close>

end
